(* ===== verification/Prelude.thy ===== *)
theory Prelude
  imports Main "HOL-Library.Word" "HOL-Library.AList" "HOL-Library.Char_ord"
    "HOL-Library.List_Lexorder" "HOL-Library.Product_Lexorder" "HOL-Library.Sublist"
begin

text \<open>
  Shared vocabulary of the development: the machine types of the Rust sources, the few operations
  of the Rust standard library the modelled code calls (\<^verbatim>\<open>checked_add\<close>, \<^verbatim>\<open>saturating_add\<close>,
  \<^verbatim>\<open>Iterator::find_map\<close>, \<^verbatim>\<open>Iterator::position\<close>, decimal printing and parsing of integers), and the
  generic lemmas on lists, options and words that the component theories use.
\<close>

section \<open>Machine types\<close>

type_synonym u8 = "8 word"
type_synonym u32 = "32 word"
type_synonym u64 = "64 word"
type_synonym uuid = "128 word"

text \<open>A UTC instant: only its order is observed by the modelled code, so it is an integer
  (nanoseconds since the epoch).\<close>

type_synonym timestamp = int

named_theorems word_nat \<open>reading checked word arithmetic as arithmetic on natural numbers\<close>

definition checked_add :: "'a::len word \<Rightarrow> 'a word \<Rightarrow> 'a word option" where
  "checked_add a b = (if unat a + unat b < 2 ^ LENGTH('a) then Some (a + b) else None)"

definition saturating_add :: "'a::len word \<Rightarrow> 'a word \<Rightarrow> 'a word" where
  "saturating_add a b = (case checked_add a b of None \<Rightarrow> - 1 | Some c \<Rightarrow> c)"

lemma checked_add_SomeD [word_nat]:
  "checked_add a b = Some c \<Longrightarrow> unat c = unat a + unat b"
  by (auto simp: checked_add_def unat_word_ariths split: if_splits)

lemma checked_add_None_iff:
  "checked_add (a :: 'a::len word) b = None \<longleftrightarrow> 2 ^ LENGTH('a) \<le> unat a + unat b"
  by (auto simp: checked_add_def)

lemma unat_u64_less [simp]: "unat (w :: u64) < 18446744073709551616"
  using unsigned_less [of w, where 'a = nat] by simp

lemma checked_add_one_None_iff: "checked_add (a :: u64) 1 = None \<longleftrightarrow> a = - 1"
proof
  assume "checked_add a 1 = None"
  then have "2 ^ 64 \<le> unat a + 1" by (simp add: checked_add_None_iff)
  moreover have "unat a < 2 ^ 64" by simp
  moreover have "unat (- 1 :: u64) = 2 ^ 64 - 1" by (simp add: unsigned_minus_1_eq_mask mask_eq_exp_minus_1)
  ultimately have "unat a = unat (- 1 :: u64)" by linarith
  then show "a = - 1" by (simp add: word_unat_eq_iff)
qed (simp add: checked_add_None_iff unsigned_minus_1_eq_mask mask_eq_exp_minus_1)

section \<open>Results\<close>

text \<open>\<^verbatim>\<open>Result<T, E>\<close> is the sum type with \<open>Inl\<close> for \<^verbatim>\<open>Err\<close>; \<^verbatim>\<open>?\<close> is \<open>bind_res\<close> and
  \<^verbatim>\<open>map_err\<close>/\<^verbatim>\<open>From\<close> conversions are \<open>map_err\<close>.\<close>

type_synonym ('e, 'a) result = "'e + 'a"

fun bind_res :: "('e, 'a) result \<Rightarrow> ('a \<Rightarrow> ('e, 'b) result) \<Rightarrow> ('e, 'b) result" where
  "bind_res (Inl e) f = Inl e"
| "bind_res (Inr x) f = f x"

fun ok_or :: "'a option \<Rightarrow> 'e \<Rightarrow> ('e, 'a) result" where
  "ok_or None e = Inl e"
| "ok_or (Some x) e = Inr x"

fun map_err :: "('e \<Rightarrow> 'f) \<Rightarrow> ('e, 'a) result \<Rightarrow> ('f, 'a) result" where
  "map_err f (Inl e) = Inl (f e)"
| "map_err f (Inr x) = Inr x"

definition is_ok :: "('e, 'a) result \<Rightarrow> bool" where
  "is_ok r = (case r of Inl _ \<Rightarrow> False | Inr _ \<Rightarrow> True)"

lemma is_ok_simps [simp]: "is_ok (Inl e) = False" "is_ok (Inr x) = True"
  by (simp_all add: is_ok_def)

lemma bind_res_eq_Inr_iff:
  "bind_res r f = Inr y \<longleftrightarrow> (\<exists>x. r = Inr x \<and> f x = Inr y)"
  by (cases r) auto

lemma bind_res_eq_Inl_iff:
  "bind_res r f = Inl e \<longleftrightarrow> r = Inl e \<or> (\<exists>x. r = Inr x \<and> f x = Inl e)"
  by (cases r) auto

lemma ok_or_eq_iff [simp]:
  "ok_or opt e = Inr y \<longleftrightarrow> opt = Some y"
  "ok_or opt e = Inl e' \<longleftrightarrow> opt = None \<and> e' = e"
  by (cases opt; auto)+

text \<open>A loop that pushes \<^verbatim>\<open>f(x)?\<close> for every element and stops at the first error.\<close>

fun map_res :: "('a \<Rightarrow> ('e, 'b) result) \<Rightarrow> 'a list \<Rightarrow> ('e, 'b list) result" where
  "map_res f [] = Inr []"
| "map_res f (x # xs) = bind_res (f x) (\<lambda>y. bind_res (map_res f xs) (\<lambda>ys. Inr (y # ys)))"

lemma map_res_ok: "(\<And>x. x \<in> set xs \<Longrightarrow> f x = Inr (g x)) \<Longrightarrow> map_res f xs = Inr (map g xs)"
  by (induction xs) auto

lemma map_res_eq_Inr: "map_res f xs = Inr ys \<Longrightarrow> list_all2 (\<lambda>x y. f x = Inr y) xs ys"
  by (induction xs arbitrary: ys) (auto simp: bind_res_eq_Inr_iff)

section \<open>Iterators\<close>

text \<open>\<^verbatim>\<open>iter().find_map(f)\<close>, \<^verbatim>\<open>iter().position(p)\<close> and \<^verbatim>\<open>iter().rposition(p)\<close>.\<close>

fun find_map :: "('a \<Rightarrow> 'b option) \<Rightarrow> 'a list \<Rightarrow> 'b option" where
  "find_map f [] = None"
| "find_map f (x # xs) = (case f x of None \<Rightarrow> find_map f xs | Some y \<Rightarrow> Some y)"

fun position :: "('a \<Rightarrow> bool) \<Rightarrow> 'a list \<Rightarrow> nat option" where
  "position p [] = None"
| "position p (x # xs) = (if p x then Some 0 else map_option Suc (position p xs))"

definition rposition :: "('a \<Rightarrow> bool) \<Rightarrow> 'a list \<Rightarrow> nat option" where
  "rposition p xs = map_option (\<lambda>i. length xs - 1 - i) (position p (rev xs))"

lemma find_map_None_iff: "find_map f xs = None \<longleftrightarrow> (\<forall>x \<in> set xs. f x = None)"
  by (induction xs) (auto split: option.splits)

lemma find_map_SomeD: "find_map f xs = Some y \<Longrightarrow> \<exists>x \<in> set xs. f x = Some y"
  by (induction xs) (auto split: option.splits)

lemma find_map_append:
  "find_map f (xs @ ys) = (case find_map f xs of None \<Rightarrow> find_map f ys | Some y \<Rightarrow> Some y)"
  by (induction xs) (auto split: option.splits)

lemma find_map_cong_filter:
  "(\<And>x. x \<in> set xs \<Longrightarrow> \<not> p x \<Longrightarrow> f x = None) \<Longrightarrow> find_map f (filter p xs) = find_map f xs"
  by (induction xs) (auto split: option.splits)

lemma position_None_iff: "position p xs = None \<longleftrightarrow> (\<forall>x \<in> set xs. \<not> p x)"
  by (induction xs) auto

lemma position_SomeD:
  assumes "position p xs = Some i"
  shows "i < length xs" and "p (xs ! i)" and "\<And>j. j < i \<Longrightarrow> \<not> p (xs ! j)"
  using assms
proof (induction xs arbitrary: i)
  case (Cons x xs)
  {
    case 1 with Cons.IH(1) show ?case by (auto split: if_splits)
  next
    case 2 with Cons.IH(2) show ?case by (auto split: if_splits)
  next
    case (3 j)
    show ?case
    proof (cases j)
      case 0 with 3 show ?thesis by (auto split: if_splits)
    next
      case (Suc j') with 3 Cons.IH(3) show ?thesis by (auto split: if_splits)
    qed
  }
qed simp_all

lemma position_eq_SomeI:
  assumes "i < length xs" and "p (xs ! i)" and "\<And>j. j < i \<Longrightarrow> \<not> p (xs ! j)"
  shows "position p xs = Some i"
proof -
  from assms(1,2) have "\<exists>x \<in> set xs. p x" using nth_mem by blast
  then obtain k where k: "position p xs = Some k"
    by (metis position_None_iff not_Some_eq)
  with assms have "\<not> k < i" and "\<not> i < k"
    using position_SomeD [OF k] by blast+
  with k show ?thesis by simp
qed

lemma position_append:
  "position p (xs @ ys) = (case position p xs of
     Some i \<Rightarrow> Some i | None \<Rightarrow> map_option (\<lambda>i. length xs + i) (position p ys))"
proof (induction xs)
  case Nil
  show ?case by (cases "position p ys") simp_all
next
  case (Cons x xs)
  then show ?case by (cases "position p ys") (simp_all split: option.splits)
qed

lemma sorted_wrt_sort_key_id:
  "sorted (map f xs) \<Longrightarrow> sort_key f xs = xs"
  by (rule sort_key_id_if_sorted)

section \<open>Decimal numbers\<close>

text \<open>\<^verbatim>\<open>u64\<close> as \<^verbatim>\<open>Display\<close> prints it and \<^verbatim>\<open>str::parse\<close> reads it back.\<close>

definition digit_char :: "nat \<Rightarrow> char" where
  "digit_char d = char_of (48 + d)"

fun show_nat :: "nat \<Rightarrow> string" where
  "show_nat n = (if n < 10 then [digit_char n] else show_nat (n div 10) @ [digit_char (n mod 10)])"

declare show_nat.simps [simp del]

definition show_u64 :: "u64 \<Rightarrow> string" where
  "show_u64 w = show_nat (unat w)"

definition char_digit :: "char \<Rightarrow> nat option" where
  "char_digit c = (let n = of_char c :: nat in if 48 \<le> n \<and> n < 58 then Some (n - 48) else None)"

fun read_digits :: "nat \<Rightarrow> string \<Rightarrow> nat option" where
  "read_digits acc [] = Some acc"
| "read_digits acc (c # cs) =
     (case char_digit c of None \<Rightarrow> None | Some d \<Rightarrow> read_digits (10 * acc + d) cs)"

text \<open>\<^verbatim>\<open>"".parse::<u64>()\<close> fails, a leading \<open>+\<close> is accepted when digits follow it, and a value that
  does not fit is an error.\<close>

definition parse_u64 :: "string \<Rightarrow> u64 option" where
  "parse_u64 s =
     (let ds = (case s of c # cs \<Rightarrow> if c = CHR ''+'' then cs else s | [] \<Rightarrow> s)
      in if ds = [] then None
         else case read_digits 0 ds of
           None \<Rightarrow> None
         | Some n \<Rightarrow> if n < 2 ^ 64 then Some (of_nat n) else None)"

lemma char_digit_digit_char: "d < 10 \<Longrightarrow> char_digit (digit_char d) = Some d"
  by (simp add: char_digit_def digit_char_def Let_def)

lemma read_digits_snoc:
  "read_digits a (cs @ [c]) =
     (case read_digits a cs of None \<Rightarrow> None
      | Some n \<Rightarrow> map_option (\<lambda>d. 10 * n + d) (char_digit c))"
  by (induction cs arbitrary: a) (auto split: option.splits)

lemma read_digits_show_nat: "read_digits 0 (show_nat n) = Some n"
proof (induction n rule: show_nat.induct)
  case (1 n)
  show ?case
  proof (cases "n < 10")
    case True
    then show ?thesis by (simp add: show_nat.simps [of n] char_digit_digit_char)
  next
    case False
    with 1 show ?thesis
      by (simp add: show_nat.simps [of n] read_digits_snoc char_digit_digit_char)
  qed
qed

lemma show_nat_not_Nil [simp]: "show_nat n \<noteq> []"
  by (subst show_nat.simps) simp

lemma digit_char_range: "d < 10 \<Longrightarrow> of_char (digit_char d) = 48 + d"
  by (simp add: digit_char_def)

lemma set_show_nat: "c \<in> set (show_nat n) \<Longrightarrow> (of_char c :: nat) \<in> {48..<58}"
proof (induction n rule: show_nat.induct)
  case (1 n)
  show ?case
  proof (cases "n < 10")
    case True
    with 1(2) show ?thesis by (simp add: show_nat.simps [of n] digit_char_range)
  next
    case False
    with 1 show ?thesis by (auto simp: show_nat.simps [of n] digit_char_range)
  qed
qed

lemma parse_u64_show_u64 [simp]: "parse_u64 (show_u64 w) = Some w"
proof -
  obtain c cs where eq: "show_nat (unat w) = c # cs"
    by (cases "show_nat (unat w)") auto
  then have "(of_char c :: nat) \<in> {48..<58}" using set_show_nat [of c "unat w"] by simp
  then have "c \<noteq> CHR ''+''" by auto
  moreover have "unat w < 2 ^ 64" by simp
  moreover have "read_digits 0 (c # cs) = Some (unat w)"
    using read_digits_show_nat [of "unat w"] by (simp only: eq)
  ultimately show ?thesis
    unfolding parse_u64_def show_u64_def eq
    by (simp del: read_digits.simps)
qed

lemma show_u64_inject [simp]: "show_u64 a = show_u64 b \<longleftrightarrow> a = b"
  by (metis option.inject parse_u64_show_u64)

end
