(* ===== verification/Core_Event.thy ===== *)
theory Core_Event
  imports Prelude
begin

text \<open>
  The domain model of \<^verbatim>\<open>crates/aion-core\<close>: identifiers (\<^verbatim>\<open>ids.rs\<close>), payloads (\<^verbatim>\<open>payload.rs\<close>), the
  closed error types (\<^verbatim>\<open>error.rs\<close>), typed search attributes (\<^verbatim>\<open>search.rs\<close>), schedule
  configurations (\<^verbatim>\<open>schedule.rs\<close>) and the recorded workflow history event (\<^verbatim>\<open>event.rs\<close>) with its
  envelope accessors.  The newtypes around \<^verbatim>\<open>Uuid\<close> and \<^verbatim>\<open>u64\<close> are one-constructor datatypes, so
  identifiers of different kinds cannot be confused.
\<close>

section \<open>Identifiers\<close>

datatype workflow_id = WorkflowId (workflow_uuid: uuid)

datatype run_id = RunId (run_uuid: uuid)

datatype schedule_id = ScheduleId (schedule_uuid: uuid)

datatype activity_id = ActivityId (sequence_position: u64)

definition from_sequence_position :: "u64 \<Rightarrow> activity_id" where
  "from_sequence_position n = ActivityId n"

datatype package_version = PackageVersion (version_str: string)

datatype timer_id = Named string | Anonymous u64

datatype id_error = EmptyTimerName

text \<open>\<^verbatim>\<open>TimerId::named\<close> is the only fallible identifier constructor.\<close>

definition timer_named :: "string \<Rightarrow> (id_error, timer_id) result" where
  "timer_named name = (if name = [] then Inl EmptyTimerName else Inr (Named name))"

definition timer_anonymous :: "u64 \<Rightarrow> timer_id" where
  "timer_anonymous n = Anonymous n"

definition timer_name :: "timer_id \<Rightarrow> string option" where
  "timer_name t = (case t of Named n \<Rightarrow> Some n | Anonymous _ \<Rightarrow> None)"

definition timer_sequence_position :: "timer_id \<Rightarrow> u64 option" where
  "timer_sequence_position t = (case t of Named _ \<Rightarrow> None | Anonymous n \<Rightarrow> Some n)"

definition show_timer_id :: "timer_id \<Rightarrow> string" where
  "show_timer_id t = (case t of
     Named n \<Rightarrow> ''timer:named:'' @ n
   | Anonymous n \<Rightarrow> ''timer:anonymous:'' @ show_u64 n)"

definition show_activity_id :: "activity_id \<Rightarrow> string" where
  "show_activity_id a = ''activity:'' @ show_u64 (sequence_position a)"

section \<open>Payloads and errors\<close>

datatype content_type = Json

datatype payload = Payload (payload_content_type: content_type) (payload_bytes: "u8 list")

datatype activity_error_kind = Retryable | Terminal

record activity_error =
  ae_kind :: activity_error_kind
  ae_message :: string
  ae_details :: "payload option"

definition is_retryable :: "activity_error \<Rightarrow> bool" where
  "is_retryable e = (ae_kind e = Retryable)"

record workflow_error =
  we_message :: string
  we_details :: "payload option"

definition workflow_error_from :: "activity_error \<Rightarrow> workflow_error" where
  "workflow_error_from e = \<lparr>we_message = ae_message e, we_details = ae_details e\<rparr>"

section \<open>Search attributes\<close>

datatype search_attribute_type =
  TString | TInt | TFloat | TBool | TDatetime | TKeywordList

text \<open>\<^verbatim>\<open>f64\<close> is its 64-bit pattern; \<^verbatim>\<open>==\<close> and \<^verbatim>\<open><\<close> are IEEE comparisons on patterns, so a NaN is
  neither equal to nor ordered with anything and the two zeros are equal.\<close>

datatype f64 = F64 (f64_bits: u64)

definition f64_is_nan :: "f64 \<Rightarrow> bool" where
  "f64_is_nan x = (unat (f64_bits x) mod 2 ^ 63 > 2047 * 2 ^ 52)"

definition f64_key :: "f64 \<Rightarrow> int" where
  "f64_key x = (let m = int (unat (f64_bits x) mod 2 ^ 63)
                in if unat (f64_bits x) < 2 ^ 63 then m else - m)"

definition f64_eq :: "f64 \<Rightarrow> f64 \<Rightarrow> bool" where
  "f64_eq x y \<longleftrightarrow> \<not> f64_is_nan x \<and> \<not> f64_is_nan y \<and> f64_key x = f64_key y"

definition f64_less :: "f64 \<Rightarrow> f64 \<Rightarrow> bool" where
  "f64_less x y \<longleftrightarrow> \<not> f64_is_nan x \<and> \<not> f64_is_nan y \<and> f64_key x < f64_key y"

datatype search_attribute_value =
  SString string
| SInt "64 word"
| SFloat f64
| SBool bool
| SDatetime timestamp
| SKeywordList "string list"

fun attribute_type :: "search_attribute_value \<Rightarrow> search_attribute_type" where
  "attribute_type (SString _) = TString"
| "attribute_type (SInt _) = TInt"
| "attribute_type (SFloat _) = TFloat"
| "attribute_type (SBool _) = TBool"
| "attribute_type (SDatetime _) = TDatetime"
| "attribute_type (SKeywordList _) = TKeywordList"

text \<open>A \<^verbatim>\<open>HashMap<String, SearchAttributeValue>\<close> is an association list without duplicate keys; its
  order stands for the map's unspecified iteration order.\<close>

type_synonym attributes = "(string \<times> search_attribute_value) list"

section \<open>Schedules\<close>

text \<open>A \<^verbatim>\<open>std::time::Duration\<close> is its number of nanoseconds.\<close>

type_synonym duration = nat

datatype trigger_spec = Cron string | Interval duration

datatype overlap_policy = OverlapSkip | BufferOne | CancelPrevious | AllowAll

datatype catch_up_policy = CatchUpAll | CatchUpOne | CatchUpSkip

record schedule_config =
  sc_trigger :: trigger_spec
  sc_overlap_policy :: overlap_policy
  sc_catch_up_policy :: catch_up_policy
  sc_workflow_type :: string
  sc_input :: payload
  sc_search_attributes :: attributes

section \<open>History events\<close>

record event_envelope =
  env_seq :: u64
  env_recorded_at :: timestamp
  env_workflow_id :: workflow_id

definition DEFAULT_TASK_QUEUE :: string where
  "DEFAULT_TASK_QUEUE = ''default''"

definition START_TIME_TASK_QUEUE_ATTRIBUTE :: string where
  "START_TIME_TASK_QUEUE_ATTRIBUTE = ''aion.task_queue''"

datatype with_timeout_outcome = OperationCompleted | TimedOutOutcome

datatype timer_cancel_cause = WorkflowIntent | CancelTeardown

datatype event =
  WorkflowStarted (envelope: event_envelope) string payload run_id "run_id option" package_version
    \<comment> \<open>workflow_type, input, run_id, parent_run_id, package_version\<close>
| WorkflowCompleted (envelope: event_envelope) payload
| WorkflowFailed (envelope: event_envelope) workflow_error
| WorkflowCancelled (envelope: event_envelope) string
| WorkflowTimedOut (envelope: event_envelope) string
| WorkflowContinuedAsNew (envelope: event_envelope) payload "string option" run_id
    \<comment> \<open>input, workflow_type, parent_run_id\<close>
| WorkflowReopened (envelope: event_envelope) run_id "activity_id list"
| WorkflowPaused (envelope: event_envelope) run_id "string option" "string option"
    \<comment> \<open>run_id, reason, operator\<close>
| WorkflowResumed (envelope: event_envelope) run_id "string option"
| SearchAttributesUpdated (envelope: event_envelope) workflow_id attributes
| ActivityScheduled (envelope: event_envelope) activity_id string payload string "string option"
    \<comment> \<open>activity_id, activity_type, input, task_queue, node\<close>
| ActivityStarted (envelope: event_envelope) activity_id u32
| ActivityCompleted (envelope: event_envelope) activity_id payload u32
    \<comment> \<open>activity_id, result, attempt\<close>
| ActivityFailed (envelope: event_envelope) activity_id activity_error u32
    \<comment> \<open>activity_id, error, attempt\<close>
| ActivityCancelled (envelope: event_envelope) activity_id u32
| TimerStarted (envelope: event_envelope) timer_id timestamp
| TimerFired (envelope: event_envelope) timer_id
| TimerCancelled (envelope: event_envelope) timer_id timer_cancel_cause
| WithTimeoutCompleted (envelope: event_envelope) timer_id with_timeout_outcome "payload option"
| SignalReceived (envelope: event_envelope) string payload
| SignalSent (envelope: event_envelope) workflow_id string payload
    \<comment> \<open>target_workflow_id, name, payload\<close>
| ChildWorkflowStarted (envelope: event_envelope) workflow_id string payload package_version
    \<comment> \<open>child_workflow_id, workflow_type, input, package_version\<close>
| ChildWorkflowCompleted (envelope: event_envelope) workflow_id payload
| ChildWorkflowFailed (envelope: event_envelope) workflow_id workflow_error
| ChildWorkflowCancelled (envelope: event_envelope) workflow_id
| ScheduleCreated (envelope: event_envelope) schedule_id schedule_config
| ScheduleUpdated (envelope: event_envelope) schedule_id schedule_config
| SchedulePaused (envelope: event_envelope) schedule_id
| ScheduleResumed (envelope: event_envelope) schedule_id
| ScheduleDeleted (envelope: event_envelope) schedule_id
| ScheduleTriggered (envelope: event_envelope) schedule_id workflow_id run_id

type_synonym history = "event list"

text \<open>\<^verbatim>\<open>Event::envelope\<close> is the shared selector \<open>envelope\<close>; the three accessors below are the
  methods derived from it.\<close>

definition seq :: "event \<Rightarrow> u64" where
  "seq e = env_seq (envelope e)"

definition recorded_at :: "event \<Rightarrow> timestamp" where
  "recorded_at e = env_recorded_at (envelope e)"

definition workflow_id_of :: "event \<Rightarrow> workflow_id" where
  "workflow_id_of e = env_workflow_id (envelope e)"

text \<open>Stable variant names used in diagnostics (\<^verbatim>\<open>event_kind\<close> in \<^verbatim>\<open>cursor.rs\<close>, \<^verbatim>\<open>resolver.rs\<close> and
  \<^verbatim>\<open>replay_inspect.rs\<close>, three copies of one table).\<close>

fun event_kind :: "event \<Rightarrow> string" where
  "event_kind (WorkflowStarted _ _ _ _ _ _) = ''WorkflowStarted''"
| "event_kind (WorkflowCompleted _ _) = ''WorkflowCompleted''"
| "event_kind (WorkflowFailed _ _) = ''WorkflowFailed''"
| "event_kind (WorkflowCancelled _ _) = ''WorkflowCancelled''"
| "event_kind (WorkflowTimedOut _ _) = ''WorkflowTimedOut''"
| "event_kind (WorkflowContinuedAsNew _ _ _ _) = ''WorkflowContinuedAsNew''"
| "event_kind (WorkflowReopened _ _ _) = ''WorkflowReopened''"
| "event_kind (WorkflowPaused _ _ _ _) = ''WorkflowPaused''"
| "event_kind (WorkflowResumed _ _ _) = ''WorkflowResumed''"
| "event_kind (SearchAttributesUpdated _ _ _) = ''SearchAttributesUpdated''"
| "event_kind (ActivityScheduled _ _ _ _ _ _) = ''ActivityScheduled''"
| "event_kind (ActivityStarted _ _ _) = ''ActivityStarted''"
| "event_kind (ActivityCompleted _ _ _ _) = ''ActivityCompleted''"
| "event_kind (ActivityFailed _ _ _ _) = ''ActivityFailed''"
| "event_kind (ActivityCancelled _ _ _) = ''ActivityCancelled''"
| "event_kind (TimerStarted _ _ _) = ''TimerStarted''"
| "event_kind (TimerFired _ _) = ''TimerFired''"
| "event_kind (TimerCancelled _ _ _) = ''TimerCancelled''"
| "event_kind (WithTimeoutCompleted _ _ _ _) = ''WithTimeoutCompleted''"
| "event_kind (SignalReceived _ _ _) = ''SignalReceived''"
| "event_kind (SignalSent _ _ _ _) = ''SignalSent''"
| "event_kind (ChildWorkflowStarted _ _ _ _ _) = ''ChildWorkflowStarted''"
| "event_kind (ChildWorkflowCompleted _ _ _) = ''ChildWorkflowCompleted''"
| "event_kind (ChildWorkflowFailed _ _ _) = ''ChildWorkflowFailed''"
| "event_kind (ChildWorkflowCancelled _ _) = ''ChildWorkflowCancelled''"
| "event_kind (ScheduleCreated _ _ _) = ''ScheduleCreated''"
| "event_kind (ScheduleUpdated _ _ _) = ''ScheduleUpdated''"
| "event_kind (SchedulePaused _ _) = ''SchedulePaused''"
| "event_kind (ScheduleResumed _ _) = ''ScheduleResumed''"
| "event_kind (ScheduleDeleted _ _) = ''ScheduleDeleted''"
| "event_kind (ScheduleTriggered _ _ _ _) = ''ScheduleTriggered''"

section \<open>Sequence-numbered histories\<close>

text \<open>A history is \<^emph>\<open>contiguous\<close> when its events carry the sequence numbers 1, 2, 3, \<open>\<dots>\<close>.\<close>

definition contiguous_from :: "nat \<Rightarrow> history \<Rightarrow> bool" where
  "contiguous_from n h \<longleftrightarrow> map (\<lambda>e. unat (seq e)) h = [Suc n..<Suc n + length h]"

abbreviation contiguous :: "history \<Rightarrow> bool" where
  "contiguous \<equiv> contiguous_from 0"

lemma contiguous_from_Nil [simp]: "contiguous_from n []"
  by (simp add: contiguous_from_def)

lemma contiguous_from_Cons [simp]:
  "contiguous_from n (e # es) \<longleftrightarrow> unat (seq e) = Suc n \<and> contiguous_from (Suc n) es"
  by (auto simp: contiguous_from_def upt_conv_Cons)

lemma contiguous_from_append [simp]:
  "contiguous_from n (xs @ ys) \<longleftrightarrow> contiguous_from n xs \<and> contiguous_from (n + length xs) ys"
  by (induction xs arbitrary: n) auto

lemma contiguous_from_nth:
  "contiguous_from n h \<Longrightarrow> i < length h \<Longrightarrow> unat (seq (h ! i)) = Suc (n + i)"
  unfolding contiguous_from_def
  by (metis (no_types, lifting) add_Suc add_less_cancel_left length_map nth_map nth_upt)

lemma contiguous_sorted: "contiguous_from n h \<Longrightarrow> sorted (map seq h)"
  by (auto simp: sorted_iff_nth_mono word_le_nat_alt contiguous_from_nth)

lemma contiguous_distinct: "contiguous_from n h \<Longrightarrow> distinct (map seq h)"
  by (auto simp: distinct_conv_nth) (metis add_left_cancel contiguous_from_nth nat.inject)

end
