(* ===== verification/Core_Status.thy ===== *)
theory Core_Status
  imports Core_Event
begin

text \<open>
  The projections of \<^verbatim>\<open>crates/aion-core\<close> from an event history: workflow status and current-lease
  terminal (\<^verbatim>\<open>status.rs\<close>), run segments, search attributes (\<^verbatim>\<open>search.rs\<close>), the start-time task
  queue (\<^verbatim>\<open>event.rs\<close>), workflow summaries, failure attribution and filters (\<^verbatim>\<open>filter.rs\<close>).  The
  lemmas show that every projection is decided by the last relevant event, that terminality and
  status agree on the histories the engine's pause guard admits, and what a failure is attributed to.
\<close>

section \<open>Workflow status\<close>

datatype workflow_status =
  Running | Completed | Failed | Cancelled | TimedOut | ContinuedAsNew | Paused

fun is_terminal :: "workflow_status \<Rightarrow> bool" where
  "is_terminal Running = False"
| "is_terminal Paused = False"
| "is_terminal Completed = True"
| "is_terminal Failed = True"
| "is_terminal Cancelled = True"
| "is_terminal TimedOut = True"
| "is_terminal ContinuedAsNew = True"

fun lifecycle_status :: "event \<Rightarrow> workflow_status option" where
  "lifecycle_status (WorkflowStarted _ _ _ _ _ _) = Some Running"
| "lifecycle_status (WorkflowReopened _ _ _) = Some Running"
| "lifecycle_status (WorkflowResumed _ _ _) = Some Running"
| "lifecycle_status (WorkflowCompleted _ _) = Some Completed"
| "lifecycle_status (WorkflowFailed _ _) = Some Failed"
| "lifecycle_status (WorkflowCancelled _ _) = Some Cancelled"
| "lifecycle_status (WorkflowTimedOut _ _) = Some TimedOut"
| "lifecycle_status (WorkflowContinuedAsNew _ _ _ _) = Some ContinuedAsNew"
| "lifecycle_status (WorkflowPaused _ _ _ _) = Some Paused"
| "lifecycle_status _ = None"

definition status_from_events :: "history \<Rightarrow> workflow_status" where
  "status_from_events events =
     (case find_map lifecycle_status (rev events) of None \<Rightarrow> Running | Some s \<Rightarrow> s)"

text \<open>The scan of \<^verbatim>\<open>current_lease_terminal\<close> stops at the first terminal (inner \<open>Some\<close>) or at the
  first reset point (inner \<open>None\<close>).\<close>

fun lease_scan :: "event \<Rightarrow> event option option" where
  "lease_scan (WorkflowCompleted v r) = Some (Some (WorkflowCompleted v r))"
| "lease_scan (WorkflowFailed v r) = Some (Some (WorkflowFailed v r))"
| "lease_scan (WorkflowCancelled v r) = Some (Some (WorkflowCancelled v r))"
| "lease_scan (WorkflowTimedOut v r) = Some (Some (WorkflowTimedOut v r))"
| "lease_scan (WorkflowContinuedAsNew v i t p) = Some (Some (WorkflowContinuedAsNew v i t p))"
| "lease_scan (WorkflowStarted _ _ _ _ _ _) = Some None"
| "lease_scan (WorkflowReopened _ _ _) = Some None"
| "lease_scan _ = None"

definition current_lease_terminal :: "history \<Rightarrow> event option" where
  "current_lease_terminal events = Option.bind (find_map lease_scan (rev events)) id"

fun starts_run :: "run_id \<Rightarrow> event \<Rightarrow> bool" where
  "starts_run r (WorkflowStarted _ _ _ r' _ _) = (r' = r)"
| "starts_run r _ = False"

definition run_segment :: "history \<Rightarrow> run_id \<Rightarrow> history" where
  "run_segment events r =
     (case position (starts_run r) events of
        None \<Rightarrow> []
      | Some start \<Rightarrow>
          (let end' = (case position is_WorkflowStarted (drop (start + 1) events) of
                         None \<Rightarrow> length events
                       | Some offset \<Rightarrow> start + 1 + offset)
           in drop start (take end' events)))"

section \<open>Search attributes\<close>

datatype search_attribute_error =
  ConflictingType string search_attribute_type search_attribute_type
| UnregisteredAttribute string
| TypeMismatch string search_attribute_type search_attribute_type

type_synonym schema = "(string \<times> search_attribute_type) list"

definition register :: "schema \<Rightarrow> string \<Rightarrow> search_attribute_type
    \<Rightarrow> (search_attribute_error, schema) result" where
  "register sch name ty =
     (case map_of sch name of
        Some existing \<Rightarrow>
          if existing = ty then Inr sch else Inl (ConflictingType name existing ty)
      | None \<Rightarrow> Inr (AList.update name ty sch))"

definition validate :: "schema \<Rightarrow> string \<Rightarrow> search_attribute_value
    \<Rightarrow> (search_attribute_error, unit) result" where
  "validate sch name val =
     (case map_of sch name of
        None \<Rightarrow> Inl (UnregisteredAttribute name)
      | Some expected \<Rightarrow>
          (let actual = attribute_type val
           in if expected = actual then Inr () else Inl (TypeMismatch name expected actual)))"

text \<open>\<^verbatim>\<open>HashMap::extend\<close> inserts the updates one by one.\<close>

fun extend_attributes :: "attributes \<Rightarrow> attributes \<Rightarrow> attributes" where
  "extend_attributes m [] = m"
| "extend_attributes m ((k, v) # upd) = extend_attributes (AList.update k v m) upd"

fun attribute_update :: "event \<Rightarrow> attributes" where
  "attribute_update (SearchAttributesUpdated _ _ upd) = upd"
| "attribute_update _ = []"

definition search_attributes_from_events :: "history \<Rightarrow> attributes" where
  "search_attributes_from_events events =
     foldl (\<lambda>m e. extend_attributes m (attribute_update e)) [] events"

definition start_time_task_queue :: "history \<Rightarrow> string option" where
  "start_time_task_queue events =
     (case map_of (search_attributes_from_events events) START_TIME_TASK_QUEUE_ATTRIBUTE of
        Some (SString queue) \<Rightarrow> Some queue
      | _ \<Rightarrow> None)"

section \<open>Workflow summaries, failure attribution and filters\<close>

record workflow_filter =
  wf_workflow_type :: "string option"
  wf_status :: "workflow_status option"
  wf_started_after :: "timestamp option"
  wf_started_before :: "timestamp option"
  wf_parent :: "workflow_id option"

record workflow_summary =
  ws_workflow_id :: workflow_id
  ws_workflow_type :: string
  ws_status :: workflow_status
  ws_started_at :: timestamp
  ws_ended_at :: "timestamp option"
  ws_parent :: "workflow_id option"
  ws_failed_step :: "string option"
  ws_failure_reason :: "string option"

definition is_none_or :: "('a \<Rightarrow> bool) \<Rightarrow> 'a option \<Rightarrow> bool" where
  "is_none_or p opt = (case opt of None \<Rightarrow> True | Some x \<Rightarrow> p x)"

definition filter_matches :: "workflow_filter \<Rightarrow> workflow_summary \<Rightarrow> bool" where
  "filter_matches f s \<longleftrightarrow>
     is_none_or (\<lambda>t. t = ws_workflow_type s) (wf_workflow_type f)
   \<and> is_none_or (\<lambda>st. st = ws_status s) (wf_status f)
   \<and> is_none_or (\<lambda>t. ws_started_at s \<ge> t) (wf_started_after f)
   \<and> is_none_or (\<lambda>t. ws_started_at s \<le> t) (wf_started_before f)
   \<and> is_none_or (\<lambda>p. ws_parent s = Some p) (wf_parent f)"

fun is_reset :: "event \<Rightarrow> bool" where
  "is_reset (WorkflowStarted _ _ _ _ _ _) = True"
| "is_reset (WorkflowReopened _ _ _) = True"
| "is_reset _ = False"

text \<open>\<^verbatim>\<open>&events[lease_start..]\<close>, shared by \<^verbatim>\<open>failed_activity_step\<close> and \<^verbatim>\<open>reopened_failed_activities\<close>.\<close>

definition current_lease :: "history \<Rightarrow> history" where
  "current_lease events =
     drop (case rposition is_reset events of None \<Rightarrow> 0 | Some i \<Rightarrow> i + 1) events"

record step_scan =
  latest_failed :: "(activity_id \<times> string) option"
  scheduled_types :: "(activity_id \<times> string) list"
  succeeded :: "activity_id list"

fun step_scan_event :: "step_scan \<Rightarrow> event \<Rightarrow> step_scan" where
  "step_scan_event s (ActivityScheduled _ a ty _ _ _) =
     s\<lparr>scheduled_types := AList.update a ty (scheduled_types s)\<rparr>"
| "step_scan_event s (ActivityCompleted _ a _ _) = s\<lparr>succeeded := List.insert a (succeeded s)\<rparr>"
| "step_scan_event s (ActivityCancelled _ a _) = s\<lparr>succeeded := List.insert a (succeeded s)\<rparr>"
| "step_scan_event s (ActivityFailed _ a _ _) =
     s\<lparr>latest_failed := Some (a, case map_of (scheduled_types s) a of None \<Rightarrow> [] | Some t \<Rightarrow> t)\<rparr>"
| "step_scan_event s _ = s"

definition failed_activity_step :: "history \<Rightarrow> string option" where
  "failed_activity_step events =
     (let s = foldl step_scan_event
                \<lparr>latest_failed = None, scheduled_types = [], succeeded = []\<rparr> (current_lease events)
      in case latest_failed s of
           None \<Rightarrow> None
         | Some (a, step) \<Rightarrow>
             if a \<in> set (succeeded s) \<or> step = [] then None else Some step)"

definition failure_projection :: "history \<Rightarrow> string option \<times> string option" where
  "failure_projection events =
     (case current_lease_terminal events of
        Some (WorkflowFailed _ err) \<Rightarrow> (failed_activity_step events, Some (we_message err))
      | _ \<Rightarrow> (None, None))"

fun started_info :: "event \<Rightarrow> (workflow_id \<times> string \<times> timestamp) option" where
  "started_info (WorkflowStarted v ty _ _ _ _) = Some (env_workflow_id v, ty, env_recorded_at v)"
| "started_info _ = None"

definition from_history :: "history \<Rightarrow> workflow_summary option" where
  "from_history events =
     (case find_map started_info (rev events) of
        None \<Rightarrow> None
      | Some (wid, ty, started) \<Rightarrow>
          (let (step, reason) = failure_projection events
           in Some \<lparr>ws_workflow_id = wid, ws_workflow_type = ty,
                    ws_status = status_from_events events, ws_started_at = started,
                    ws_ended_at = map_option recorded_at (current_lease_terminal events),
                    ws_parent = None, ws_failed_step = step, ws_failure_reason = reason\<rparr>))"

section \<open>Lemmas: status and terminality\<close>

lemma status_from_events_Nil [simp]: "status_from_events [] = Running"
  by (simp add: status_from_events_def)

lemma status_from_events_snoc:
  "status_from_events (h @ [e]) =
     (case lifecycle_status e of None \<Rightarrow> status_from_events h | Some s \<Rightarrow> s)"
  by (simp add: status_from_events_def split: option.splits)

lemma current_lease_terminal_Nil [simp]: "current_lease_terminal [] = None"
  by (simp add: current_lease_terminal_def)

lemma current_lease_terminal_snoc:
  "current_lease_terminal (h @ [e]) =
     (case lease_scan e of None \<Rightarrow> current_lease_terminal h | Some r \<Rightarrow> r)"
  by (simp add: current_lease_terminal_def split: option.splits)

lemmas projection_snoc = status_from_events_snoc current_lease_terminal_snoc

text \<open>The engine records a pause marker only on a \<open>Running\<close> run and a resume marker only on a
  \<open>Paused\<close> one (\<^verbatim>\<open>lifecycle/pause.rs\<close> re-checks both under the recorder lock).\<close>

inductive marker_guarded :: "history \<Rightarrow> bool" where
  Nil: "marker_guarded []"
| snoc: "marker_guarded h
    \<Longrightarrow> (is_WorkflowPaused e \<longrightarrow> status_from_events h = Running)
    \<Longrightarrow> (is_WorkflowResumed e \<longrightarrow> status_from_events h = Paused)
    \<Longrightarrow> marker_guarded (h @ [e])"

lemma terminal_status_agree:
  "marker_guarded h \<Longrightarrow> is_terminal (status_from_events h) \<longleftrightarrow> current_lease_terminal h \<noteq> None"
proof (induction rule: marker_guarded.induct)
  case (snoc h e)
  then show ?case by (cases e) (simp_all add: projection_snoc)
qed simp

lemma lease_scan_SomeD:
  "lease_scan e = Some (Some t) \<Longrightarrow> e = t \<and> (\<exists>s. lifecycle_status t = Some s \<and> is_terminal s)"
  by (cases e) auto

lemma current_lease_terminal_SomeD:
  assumes "current_lease_terminal h = Some t"
  shows "t \<in> set h" and "\<exists>s. lifecycle_status t = Some s \<and> is_terminal s"
proof -
  from assms have "find_map lease_scan (rev h) = Some (Some t)"
    by (auto simp: current_lease_terminal_def bind_eq_Some_conv)
  then obtain e where "e \<in> set h" and "lease_scan e = Some (Some t)"
    using find_map_SomeD [of lease_scan "rev h" "Some t"] by auto
  then show "t \<in> set h" and "\<exists>s. lifecycle_status t = Some s \<and> is_terminal s"
    using lease_scan_SomeD [of e t] by auto
qed

text \<open>On a guarded history the current-lease terminal is the event that set the status.\<close>

lemma terminal_sets_status:
  "marker_guarded h \<Longrightarrow> current_lease_terminal h = Some t
   \<Longrightarrow> lifecycle_status t = Some (status_from_events h)"
proof (induction rule: marker_guarded.induct)
  case (snoc h e)
  have agree: "is_terminal (status_from_events h) \<longleftrightarrow> current_lease_terminal h \<noteq> None"
    using snoc.hyps(1) by (rule terminal_status_agree)
  from snoc agree show ?case
    by (cases e) (auto simp: projection_snoc)
qed simp

section \<open>Lemmas: run segments\<close>

lemma run_segment_eq:
  assumes "position (starts_run r) h = Some i"
  shows "run_segment h r = h ! i # takeWhile (\<lambda>e. \<not> is_WorkflowStarted e) (drop (Suc i) h)"
proof -
  have i: "i < length h" using assms by (rule position_SomeD(1))
  let ?t = "drop (Suc i) h"
  have drop_i: "drop i h = h ! i # ?t" using i by (simp add: Cons_nth_drop_Suc)
  show ?thesis
  proof (cases "position is_WorkflowStarted ?t")
    case None
    then have all: "takeWhile (\<lambda>e. \<not> is_WorkflowStarted e) ?t = ?t"
      by (simp add: position_None_iff)
    show ?thesis unfolding all using None assms drop_i by (simp add: run_segment_def)
  next
    case (Some k)
    then have k: "k < length ?t" "is_WorkflowStarted (?t ! k)"
      "\<And>j. j < k \<Longrightarrow> \<not> is_WorkflowStarted (?t ! j)"
      using position_SomeD [OF Some] by blast+
    have "takeWhile (\<lambda>e. \<not> is_WorkflowStarted e) ?t = take k ?t"
      using k by (intro takeWhile_eq_take_P_nth) auto
    moreover have "drop i (take (Suc (i + k)) h) = take (Suc k) (drop i h)"
      by (simp add: drop_take)
    ultimately show ?thesis using Some assms drop_i by (simp add: run_segment_def)
  qed
qed

lemma run_segment_absent: "run_segment h r = [] \<longleftrightarrow> (\<forall>e \<in> set h. \<not> starts_run r e)"
proof (cases "position (starts_run r) h")
  case None
  then have "\<forall>e \<in> set h. \<not> starts_run r e" by (simp add: position_None_iff)
  with None show ?thesis by (simp add: run_segment_def)
next
  case (Some i)
  then have "i < length h" and "starts_run r (h ! i)"
    using position_SomeD [OF Some] by blast+
  then have "\<exists>e \<in> set h. starts_run r e" using nth_mem by blast
  with Some show ?thesis by (simp add: run_segment_eq)
qed

lemma run_segment_sublist: "sublist (run_segment h r) h"
proof -
  have "sublist (drop i (take n h)) h" for i n
    using sublist_order.order_trans [OF sublist_drop sublist_take] .
  then show ?thesis by (auto simp: run_segment_def Let_def split: option.splits)
qed

section \<open>Lemmas: search attributes\<close>

lemma map_of_extend_attributes:
  "map_of (extend_attributes m upd) = (map_of m) ++ map_of (rev upd)"
  by (induction m upd rule: extend_attributes.induct)
     (auto simp: update_conv' map_add_def fun_eq_iff split: option.splits)

lemma search_attributes_from_events_snoc:
  "search_attributes_from_events (h @ [e]) =
     extend_attributes (search_attributes_from_events h) (attribute_update e)"
  by (simp add: search_attributes_from_events_def)

lemma distinct_extend_attributes:
  "distinct (map fst m) \<Longrightarrow> distinct (map fst (extend_attributes m upd))"
  by (induction m upd rule: extend_attributes.induct) (auto simp: distinct_update)

lemma distinct_search_attributes: "distinct (map fst (search_attributes_from_events h))"
proof (induction h rule: rev_induct)
  case Nil
  then show ?case by (simp add: search_attributes_from_events_def)
next
  case (snoc e h)
  then show ?case
    by (simp add: search_attributes_from_events_snoc distinct_extend_attributes)
qed

lemma register_then_validate:
  assumes "register sch name ty = Inr sch'"
  shows "is_ok (validate sch' name v) \<longleftrightarrow> attribute_type v = ty"
  using assms
  by (auto simp: register_def validate_def Let_def update_conv' split: option.splits if_splits)

lemma register_preserves:
  assumes "register sch name ty = Inr sch'" and "map_of sch n = Some t"
  shows "map_of sch' n = Some t"
  using assms
  by (auto simp: register_def update_conv' split: option.splits if_splits)

section \<open>Lemmas: summaries and failure attribution\<close>

lemma current_lease_snoc_reset: "is_reset e \<Longrightarrow> current_lease (h @ [e]) = []"
  by (simp add: current_lease_def rposition_def)

lemma current_lease_snoc:
  assumes "\<not> is_reset e"
  shows "current_lease (h @ [e]) = current_lease h @ [e]"
proof (cases "position is_reset (rev h)")
  case None
  with assms show ?thesis by (simp add: current_lease_def rposition_def)
next
  case (Some i)
  then have "i < length h" using position_SomeD(1) [OF Some] by simp
  with Some assms show ?thesis by (simp add: current_lease_def rposition_def)
qed

lemma current_lease_Nil [simp]: "current_lease [] = []"
  by (simp add: current_lease_def rposition_def)

lemma current_lease_no_reset: "e \<in> set (current_lease h) \<Longrightarrow> \<not> is_reset e"
proof (induction h rule: rev_induct)
  case (snoc x h)
  then show ?case
    by (cases "is_reset x") (auto simp: current_lease_snoc current_lease_snoc_reset)
qed simp

lemma current_lease_suffix: "suffix (current_lease h) h"
  by (simp add: current_lease_def suffix_drop)

lemma failure_projection_only_failed:
  "failure_projection h = (step, Some reason) \<Longrightarrow>
     \<exists>v err. current_lease_terminal h = Some (WorkflowFailed v err) \<and> reason = we_message err"
  by (auto simp: failure_projection_def split: option.splits event.splits)

lemma from_history_None_iff: "from_history h = None \<longleftrightarrow> (\<forall>e \<in> set h. \<not> is_WorkflowStarted e)"
proof -
  have "started_info e = None \<longleftrightarrow> \<not> is_WorkflowStarted e" for e by (cases e) auto
  then have "find_map started_info (rev h) = None \<longleftrightarrow> (\<forall>e \<in> set h. \<not> is_WorkflowStarted e)"
    by (simp add: find_map_None_iff)
  then show ?thesis
    unfolding from_history_def by (auto split: option.splits prod.splits)
qed

text \<open>What the scan of \<^verbatim>\<open>failed_activity_step\<close> computes.\<close>

fun is_success_of :: "activity_id \<Rightarrow> event \<Rightarrow> bool" where
  "is_success_of a (ActivityCompleted _ b _ _) = (b = a)"
| "is_success_of a (ActivityCancelled _ b _) = (b = a)"
| "is_success_of a _ = False"

fun is_failure_of :: "activity_id \<Rightarrow> event \<Rightarrow> bool" where
  "is_failure_of a (ActivityFailed _ b _ _) = (b = a)"
| "is_failure_of a _ = False"

fun schedules :: "activity_id \<Rightarrow> string \<Rightarrow> event \<Rightarrow> bool" where
  "schedules a ty (ActivityScheduled _ b ty' _ _ _) = (b = a \<and> ty' = ty)"
| "schedules a ty _ = False"

lemma step_scan_succeeded:
  "set (succeeded (foldl step_scan_event s h)) = set (succeeded s) \<union> {a. \<exists>e \<in> set h. is_success_of a e}"
proof (induction h rule: rev_induct)
  case (snoc e h)
  then show ?case by (cases e) auto
qed simp

lemma step_scan_scheduled:
  assumes "map_of (scheduled_types (foldl step_scan_event s h)) a = Some ty"
    and "scheduled_types s = []"
  shows "\<exists>e \<in> set h. schedules a ty e"
  using assms(1)
proof (induction h rule: rev_induct)
  case Nil
  with assms(2) show ?case by simp
next
  case (snoc e h)
  then show ?case
    by (cases e) (auto simp: update_conv' split: if_splits)
qed

lemma step_scan_latest:
  assumes "latest_failed (foldl step_scan_event s h) = Some (a, step)"
    and "latest_failed s = None" and "scheduled_types s = []"
  shows "(\<exists>e \<in> set h. is_failure_of a e) \<and> (step = [] \<or> (\<exists>e \<in> set h. schedules a step e))"
  using assms(1)
proof (induction h rule: rev_induct)
  case Nil
  with assms(2) show ?case by simp
next
  case (snoc e h)
  then show ?case
    using step_scan_scheduled [of s h a step] assms(3)
    by (cases e) (auto split: option.splits)
qed

lemma failed_activity_step_SomeD:
  assumes "failed_activity_step h = Some step"
  shows "\<exists>a. (\<exists>e \<in> set (current_lease h). is_failure_of a e)
           \<and> (\<exists>e \<in> set (current_lease h). schedules a step e)
           \<and> (\<forall>e \<in> set (current_lease h). \<not> is_success_of a e)"
proof -
  let ?s0 = "\<lparr>latest_failed = None, scheduled_types = [], succeeded = []\<rparr>"
  let ?s = "foldl step_scan_event ?s0 (current_lease h)"
  from assms obtain a where a: "latest_failed ?s = Some (a, step)" "a \<notin> set (succeeded ?s)" "step \<noteq> []"
    by (auto simp: failed_activity_step_def Let_def split: option.splits prod.splits if_splits)
  with step_scan_latest [OF a(1)] show ?thesis by (auto simp: step_scan_succeeded)
qed

end
