(* ===== verification/Durability_Types.thy ===== *)
theory Durability_Types
  imports Core_Status
begin

text \<open>
  The value types of \<^verbatim>\<open>crates/aion/src/durability\<close>: correlation keys (\<^verbatim>\<open>correlation.rs\<close>), recorded
  event families and descriptors (\<^verbatim>\<open>cursor.rs\<close>), commands and resolutions (\<^verbatim>\<open>command.rs\<close>,
  \<^verbatim>\<open>signal.rs\<close>), replay terminals (\<^verbatim>\<open>replay.rs\<close>) and the error taxonomy (\<^verbatim>\<open>error.rs\<close>), together
  with the store errors they wrap (\<^verbatim>\<open>crates/aion-store/src/error.rs\<close>).

  Human-readable \<^verbatim>\<open>String\<close> diagnostics are represented by the data they are formatted from: a
  \<open>shape_reason\<close> for every \<^verbatim>\<open>HistoryShape\<close> message, and structured \<open>expected\<close>/\<open>found\<close> shapes in a
  non-determinism error.
\<close>

section \<open>Correlation keys and commands\<close>

datatype correlation_key =
  KActivity u64
| KChild u64
| KTimer timer_id
| KSignal string nat \<comment> \<open>name, zero-based occurrence index\<close>

datatype recorded_event_family = FActivity | FTimer | FSignal | FChild

record found_event_descriptor =
  fd_seq :: u64
  fd_family :: "recorded_event_family option"
  fd_key :: "correlation_key option"
  fd_kind :: string

record signal_delivery =
  sd_target_workflow_id :: workflow_id
  sd_name :: string
  sd_payload :: payload

datatype command =
  RunActivity correlation_key string payload \<comment> \<open>key, activity_type, input\<close>
| AwaitSignal correlation_key
| SendSignal correlation_key signal_delivery
| StartTimer correlation_key timestamp
| SpawnChild correlation_key string payload \<comment> \<open>key, workflow_type, input\<close>
| AwaitChild workflow_id
| CompleteWorkflow payload

fun command_key :: "command \<Rightarrow> correlation_key option" where
  "command_key (RunActivity k _ _) = Some k"
| "command_key (AwaitSignal k) = Some k"
| "command_key (SendSignal k _) = Some k"
| "command_key (StartTimer k _) = Some k"
| "command_key (SpawnChild k _ _) = Some k"
| "command_key (AwaitChild _) = None"
| "command_key (CompleteWorkflow _) = None"

datatype resolution =
  ResActivityCompleted payload
| ResActivityFailedTerminal activity_error
| ResTimerFired
| ResTimerStarted
| ResSignalDelivered payload
| ResTimerCancelled
| ResWithTimeout with_timeout_outcome "payload option"
| ResSignalSent
| ResChildStarted workflow_id
| ResChildCompleted payload
| ResChildFailed workflow_error

datatype resolve_outcome = OutRecorded resolution | OutResumeLive

datatype replay_terminal =
  RtCompleted payload
| RtFailed workflow_error
| RtCancelled string
| RtTimedOut string
| RtContinuedAsNew payload

section \<open>Errors\<close>

datatype store_error =
  SequenceConflict u64 u64 \<comment> \<open>expected, found\<close>
| NotFound workflow_id
| NotOwner nat
| Backend string
| Serialization string

datatype expected_shape =
  ExpectedFamilyKey recorded_event_family correlation_key
| ExpectedChildTerminal workflow_id
| ExpectedCommand command

datatype found_shape =
  FoundEvent string "recorded_event_family option" "correlation_key option"
| FoundTerminal replay_terminal

record non_determinism_error =
  nd_workflow_id :: workflow_id
  nd_seq :: u64
  nd_expected :: expected_shape
  nd_found :: found_shape

datatype shape_reason =
  SequenceOrderDecreased u64 u64
| NoWorkflowStartedForRun run_id
| NoWorkflowStartedForWorkflow workflow_id
| BatchLengthOverflow nat
| SequenceHeadOverflow u64 nat
| EmptyMatchedRange
| ActivityFailureNotTerminal activity_error_kind
| CancellationNotRepresentable string
| NoRecordedCommandOutcome string
| SendSignalOwnedByNif
| AwaitChildOwnedByNif
| LiveActivityFailureNotTerminal
| WrongKeyFor string correlation_key
| VisibilityWithoutStart
| CommandStreamEnded workflow_id nat u64
| CommandStreamShorter u64
| SegmentEmpty
| NoEventAtSeq u64
| NoResolutionBeforeEnd u64
| MockedFailureNotTerminal
| MockedOutcomeMismatch string
| NotATerminalEvent string
| DriverFailure string

datatype durability_error =
  StoreErr store_error
| NonDeterminism non_determinism_error
| HistoryShape shape_reason
| SearchAttributeErr search_attribute_error

end
