(* ===== verification/Correlation.thy ===== *)
theory Correlation
  imports Durability_Types
begin

text \<open>
  \<^verbatim>\<open>crates/aion/src/durability/correlation.rs\<close>: the deterministic identity of every world-touching
  call, derived in one pass with running counters (\<open>correlation_keys_for_history\<close>) or position by
  position (\<open>key_for_event\<close>).  The lemmas show that the two derivations agree and that no two events
  of a history share a positional (signal or child) key.
\<close>

definition get :: "'a list \<Rightarrow> nat \<Rightarrow> 'a option" where
  "get xs i = (if i < length xs then Some (xs ! i) else None)"

lemma get_simps [simp]:
  "i < length xs \<Longrightarrow> get xs i = Some (xs ! i)"
  "\<not> i < length xs \<Longrightarrow> get xs i = None"
  by (simp_all add: get_def)

fun signal_name :: "event \<Rightarrow> string option" where
  "signal_name (SignalReceived _ name _) = Some name"
| "signal_name (SignalSent _ _ name _) = Some name"
| "signal_name _ = None"

fun key_for_positionless_event :: "event \<Rightarrow> correlation_key option" where
  "key_for_positionless_event (ActivityScheduled _ a _ _ _ _) = Some (KActivity (sequence_position a))"
| "key_for_positionless_event (TimerStarted _ t _) = Some (KTimer t)"
| "key_for_positionless_event _ = None"

text \<open>\<^verbatim>\<open>u64::try_from(usize)\<close>.\<close>

definition u64_try_from :: "nat \<Rightarrow> u64 option" where
  "u64_try_from n = (if n < 2 ^ 64 then Some (of_nat n) else None)"

definition key_for_event :: "history \<Rightarrow> nat \<Rightarrow> correlation_key option" where
  "key_for_event events index =
     (case get events index of
        None \<Rightarrow> None
      | Some event \<Rightarrow>
          (case signal_name event of
             Some name \<Rightarrow>
               Some (KSignal name (length (filter (\<lambda>p. signal_name p = Some name) (take index events))))
           | None \<Rightarrow>
               if is_ChildWorkflowStarted event
               then map_option KChild
                      (u64_try_from (length (filter is_ChildWorkflowStarted (take index events))))
               else key_for_positionless_event event))"

record occurrence_counters =
  signal_counts :: "(string \<times> nat) list"
  child_spawns :: u64

definition key_for_event_with_counters ::
  "event \<Rightarrow> occurrence_counters \<Rightarrow> correlation_key option \<times> occurrence_counters" where
  "key_for_event_with_counters event counters =
     (case signal_name event of
        Some name \<Rightarrow>
          (let index = (case map_of (signal_counts counters) name of None \<Rightarrow> 0 | Some n \<Rightarrow> n)
           in (Some (KSignal name index),
               counters\<lparr>signal_counts := AList.update name (index + 1) (signal_counts counters)\<rparr>))
      | None \<Rightarrow>
          if is_ChildWorkflowStarted event
          then (Some (KChild (child_spawns counters)),
                counters\<lparr>child_spawns := child_spawns counters + 1\<rparr>)
          else (key_for_positionless_event event, counters))"

fun keys_with_counters :: "occurrence_counters \<Rightarrow> history \<Rightarrow> correlation_key option list" where
  "keys_with_counters counters [] = []"
| "keys_with_counters counters (e # es) =
     (let (k, counters') = key_for_event_with_counters e counters
      in k # keys_with_counters counters' es)"

definition correlation_keys_for_history :: "history \<Rightarrow> correlation_key option list" where
  "correlation_keys_for_history events =
     keys_with_counters \<lparr>signal_counts = [], child_spawns = 0\<rparr> events"

section \<open>The one-pass derivation equals the positional one\<close>

definition counts_for :: "history \<Rightarrow> occurrence_counters \<Rightarrow> bool" where
  "counts_for past c \<longleftrightarrow>
     (\<forall>name. (case map_of (signal_counts c) name of None \<Rightarrow> 0 | Some n \<Rightarrow> n) =
        length (filter (\<lambda>p. signal_name p = Some name) past))
   \<and> child_spawns c = of_nat (length (filter is_ChildWorkflowStarted past))"

lemma signal_not_child: "signal_name e = Some n \<Longrightarrow> \<not> is_ChildWorkflowStarted e"
  by (cases e) auto

lemma key_step:
  assumes "counts_for past c" and "length (past @ e # fut) < 2 ^ 64"
    and "key_for_event_with_counters e c = (k, c')"
  shows "k = key_for_event (past @ e # fut) (length past)" and "counts_for (past @ [e]) c'"
proof -
  have ev: "get (past @ e # fut) (length past) = Some e" by (simp add: nth_append)
  have "length past < 2 ^ 64" using assms(2) by simp
  then have small: "length (filter is_ChildWorkflowStarted past) < 2 ^ 64"
    by (rule le_less_trans [OF length_filter_le])
  show "k = key_for_event (past @ e # fut) (length past)"
    using assms(1,3) small unfolding key_for_event_def ev key_for_event_with_counters_def
    by (cases "signal_name e")
       (auto simp: counts_for_def u64_try_from_def Let_def split: if_splits)
  show "counts_for (past @ [e]) c'"
  proof (cases "signal_name e")
    case None
    then show ?thesis using assms(1,3)
      by (auto simp: counts_for_def key_for_event_with_counters_def split: if_splits)
  next
    case (Some name)
    then have "\<not> is_ChildWorkflowStarted e" by (rule signal_not_child)
    moreover have "(case map_of (signal_counts c') n of None \<Rightarrow> 0 | Some m \<Rightarrow> m) =
        length (filter (\<lambda>p. signal_name p = Some n) (past @ [e]))" for n
      using assms(1,3) Some
      by (cases "n = name")
         (auto simp: counts_for_def key_for_event_with_counters_def Let_def update_conv')
    ultimately show ?thesis using assms(1,3) Some
      by (auto simp: counts_for_def key_for_event_with_counters_def Let_def)
  qed
qed

lemma keys_with_counters_eq:
  assumes "counts_for past c" and "length (past @ fut) < 2 ^ 64"
  shows "keys_with_counters c fut =
    map (\<lambda>i. key_for_event (past @ fut) (length past + i)) [0..<length fut]"
  using assms
proof (induction fut arbitrary: past c)
  case (Cons e fut)
  obtain k c' where step: "key_for_event_with_counters e c = (k, c')" by fastforce
  from key_step [OF Cons.prems(1) _ step] Cons.prems(2)
  have k: "k = key_for_event (past @ e # fut) (length past)" and c': "counts_for (past @ [e]) c'"
    by simp_all
  from Cons.IH [OF c'] Cons.prems(2)
  have "keys_with_counters c' fut =
      map (\<lambda>i. key_for_event (past @ e # fut) (length past + Suc i)) [0..<length fut]"
    by simp
  with k step show ?case
    by (simp add: upt_conv_Cons map_Suc_upt [symmetric] comp_def del: upt_Suc)
qed simp

lemma correlation_keys_positional:
  assumes "length h < 2 ^ 64"
  shows "correlation_keys_for_history h = map (key_for_event h) [0..<length h]"
proof -
  have "counts_for [] \<lparr>signal_counts = [], child_spawns = 0\<rparr>" by (simp add: counts_for_def)
  from keys_with_counters_eq [OF this, of h] assms show ?thesis
    by (simp add: correlation_keys_for_history_def)
qed

section \<open>Positional keys identify their event\<close>

lemma length_filter_take_less:
  assumes "i < j" and "j \<le> length xs" and "p (xs ! i)"
  shows "length (filter p (take i xs)) < length (filter p (take j xs))"
proof -
  have "take j xs = take i xs @ drop i (take j xs)"
    using assms(1) by (metis append_take_drop_id less_imp_le min.absorb1 take_take)
  moreover have "drop i (take j xs) = xs ! i # drop (Suc i) (take j xs)"
    using assms(1,2) by (simp add: Cons_nth_drop_Suc [symmetric])
  ultimately have "filter p (take j xs) = filter p (take i xs) @ filter p (xs ! i # drop (Suc i) (take j xs))"
    by (metis filter_append)
  with assms(3) show ?thesis by simp
qed

lemma key_for_event_signal:
  "key_for_event h i = Some (KSignal name n) \<longleftrightarrow>
     i < length h \<and> signal_name (h ! i) = Some name
     \<and> n = length (filter (\<lambda>p. signal_name p = Some name) (take i h))"
proof -
  have "key_for_positionless_event e \<noteq> Some (KSignal name n)" for e by (cases e) auto
  then show ?thesis
    by (auto simp: key_for_event_def get_def split: option.splits if_splits)
qed

lemma key_for_event_child:
  "key_for_event h i = Some (KChild n) \<longleftrightarrow>
     i < length h \<and> is_ChildWorkflowStarted (h ! i)
     \<and> u64_try_from (length (filter is_ChildWorkflowStarted (take i h))) = Some n"
proof -
  have "key_for_positionless_event e \<noteq> Some (KChild n)" for e by (cases e) auto
  then show ?thesis
    by (auto simp: key_for_event_def get_def signal_not_child split: option.splits if_splits)
qed

lemma signal_keys_not_less:
  "key_for_event h i = Some (KSignal name n) \<Longrightarrow> key_for_event h j = Some (KSignal name n) \<Longrightarrow> \<not> i < j"
  using length_filter_take_less [of i j h "\<lambda>p. signal_name p = Some name"]
  by (auto simp: key_for_event_signal)

lemma u64_try_from_inject:
  "u64_try_from a = Some w \<Longrightarrow> u64_try_from b = Some w \<Longrightarrow> a = b"
  using of_nat_inverse [of a w] of_nat_inverse [of b w]
  by (auto simp: u64_try_from_def split: if_splits)

lemma child_keys_not_less:
  assumes "key_for_event h i = Some (KChild n)" and "key_for_event h j = Some (KChild n)"
  shows "\<not> i < j"
proof
  assume "i < j"
  with assms have "length (filter is_ChildWorkflowStarted (take i h)) <
      length (filter is_ChildWorkflowStarted (take j h))"
    by (intro length_filter_take_less) (auto simp: key_for_event_child)
  moreover have "length (filter is_ChildWorkflowStarted (take i h)) =
      length (filter is_ChildWorkflowStarted (take j h))"
    using assms by (auto simp: key_for_event_child intro: u64_try_from_inject)
  ultimately show False by simp
qed

lemma signal_keys_unique:
  assumes "key_for_event h i = Some (KSignal name n)" and "key_for_event h j = Some (KSignal name n)"
  shows "i = j"
  using signal_keys_not_less [OF assms] signal_keys_not_less [OF assms(2,1)] by linarith

lemma child_keys_unique:
  assumes "key_for_event h i = Some (KChild n)" and "key_for_event h j = Some (KChild n)"
  shows "i = j"
  using child_keys_not_less [OF assms] child_keys_not_less [OF assms(2,1)] by linarith

end
