(* ===== verification/Samples.thy ===== *)
theory Samples
  imports Durability_Types
begin

text \<open>
  Small concrete values on which the witnesses instantiate the properties: an envelope builder, a
  payload, two error values and one event builder for each event the sample histories use.
\<close>

abbreviation s_workflow :: workflow_id where
  "s_workflow \<equiv> WorkflowId 7"

abbreviation s_child :: workflow_id where
  "s_child \<equiv> WorkflowId 8"

abbreviation s_run :: run_id where
  "s_run \<equiv> RunId 1"

abbreviation s_env :: "u64 \<Rightarrow> event_envelope" where
  "s_env n \<equiv> \<lparr>env_seq = n, env_recorded_at = 100, env_workflow_id = s_workflow\<rparr>"

abbreviation s_payload :: payload where
  "s_payload \<equiv> Payload Json []"

abbreviation s_terminal_error :: activity_error where
  "s_terminal_error \<equiv> \<lparr>ae_kind = Terminal, ae_message = ''boom'', ae_details = None\<rparr>"

abbreviation s_retryable_error :: activity_error where
  "s_retryable_error \<equiv> \<lparr>ae_kind = Retryable, ae_message = ''again'', ae_details = None\<rparr>"

abbreviation s_started :: "u64 \<Rightarrow> event" where
  "s_started n \<equiv> WorkflowStarted (s_env n) ''order'' s_payload s_run None (PackageVersion ''v1'')"

abbreviation s_scheduled :: "u64 \<Rightarrow> u64 \<Rightarrow> event" where
  "s_scheduled n a \<equiv> ActivityScheduled (s_env n) (ActivityId a) ''charge'' s_payload ''default'' None"

abbreviation s_act_started :: "u64 \<Rightarrow> u64 \<Rightarrow> event" where
  "s_act_started n a \<equiv> ActivityStarted (s_env n) (ActivityId a) 1"

abbreviation s_completed :: "u64 \<Rightarrow> u64 \<Rightarrow> event" where
  "s_completed n a \<equiv> ActivityCompleted (s_env n) (ActivityId a) s_payload 1"

abbreviation s_failed :: "u64 \<Rightarrow> u64 \<Rightarrow> event" where
  "s_failed n a \<equiv> ActivityFailed (s_env n) (ActivityId a) s_terminal_error 1"

abbreviation s_timer :: "u64 \<Rightarrow> event" where
  "s_timer n \<equiv> TimerStarted (s_env n) (Named ''t'') 500"

abbreviation s_fired :: "u64 \<Rightarrow> event" where
  "s_fired n \<equiv> TimerFired (s_env n) (Named ''t'')"

abbreviation s_signal :: "u64 \<Rightarrow> event" where
  "s_signal n \<equiv> SignalReceived (s_env n) ''go'' s_payload"

abbreviation s_child_started :: "u64 \<Rightarrow> event" where
  "s_child_started n \<equiv> ChildWorkflowStarted (s_env n) s_child ''ship'' s_payload (PackageVersion ''v1'')"

text \<open>A completed activity with a signal recorded in the middle of it.\<close>

abbreviation s_interleaved :: history where
  "s_interleaved \<equiv> [s_started 1, s_scheduled 2 0, s_act_started 3 0, s_signal 4, s_completed 5 0]"

text \<open>An activity that failed for good, reopened by an operator and not yet run again.\<close>

abbreviation s_reopened :: history where
  "s_reopened \<equiv>
     [s_started 1, s_scheduled 2 0, s_act_started 3 0, s_failed 4 0,
      WorkflowFailed (s_env 5) \<lparr>we_message = ''boom'', we_details = None\<rparr>,
      WorkflowReopened (s_env 6) s_run [ActivityId 0]]"

end
