(* ===== verification/Cursor.thy ===== *)
theory Cursor
  imports Correlation Samples
begin

text \<open>
  \<^verbatim>\<open>crates/aion/src/durability/cursor.rs\<close>: slicing a multi-run history to one run and the
  \<^verbatim>\<open>HistoryCursor\<close> that resolves workflow commands against the recorded events.  A cursor is the
  recorded history, one consumed flag per event and a low-water position; every operation returns
  its result together with the updated cursor.

  The lemmas show that the operations keep the cursor well formed (so no slice index is out of
  range), never un-consume an event, that a match is decided exactly at the next matchable event,
  what the events matched for an activity are, and when an activity is resolved from history rather
  than handed to live execution.
\<close>

section \<open>Run segments and families\<close>

definition current_run_segment :: "history \<Rightarrow> run_id \<Rightarrow> (durability_error, history) result" where
  "current_run_segment h r =
     (case position (starts_run r) h of
        None \<Rightarrow> Inl (HistoryShape (NoWorkflowStartedForRun r))
      | Some start \<Rightarrow> Inr (drop start h))"

fun family_for_event :: "event \<Rightarrow> recorded_event_family option" where
  "family_for_event (ActivityScheduled _ _ _ _ _ _) = Some FActivity"
| "family_for_event (TimerStarted _ _ _) = Some FTimer"
| "family_for_event (WithTimeoutCompleted _ _ _ _) = Some FTimer"
| "family_for_event (SignalReceived _ _ _) = Some FSignal"
| "family_for_event (SignalSent _ _ _ _) = Some FSignal"
| "family_for_event (ChildWorkflowStarted _ _ _ _ _) = Some FChild"
| "family_for_event (ChildWorkflowCompleted _ _ _) = Some FChild"
| "family_for_event (ChildWorkflowFailed _ _ _) = Some FChild"
| "family_for_event _ = None"

fun is_child_terminal_for :: "event \<Rightarrow> workflow_id \<Rightarrow> bool" where
  "is_child_terminal_for (ChildWorkflowCompleted _ c _) w = (c = w)"
| "is_child_terminal_for (ChildWorkflowFailed _ c _) w = (c = w)"
| "is_child_terminal_for _ w = False"

section \<open>The cursor\<close>

record history_cursor =
  hc_events :: history
  hc_consumed :: "bool list"
  hc_position :: nat

datatype cursor_resolve_result =
  Matched history | Exhausted | Mismatch correlation_key found_event_descriptor

datatype child_terminal_resolve_result =
  ChildMatched history | ChildExhausted | ChildMismatch found_event_descriptor

fun decreasing_pair :: "history \<Rightarrow> (u64 \<times> u64) option" where
  "decreasing_pair (a # b # es) =
     (if seq b < seq a then Some (seq a, seq b) else decreasing_pair (b # es))"
| "decreasing_pair _ = None"

definition cursor_new :: "history \<Rightarrow> (durability_error, history_cursor) result" where
  "cursor_new events =
     (case decreasing_pair events of
        Some (prior, next) \<Rightarrow> Inl (HistoryShape (SequenceOrderDecreased prior next))
      | None \<Rightarrow> Inr \<lparr>hc_events = events, hc_consumed = replicate (length events) False,
                      hc_position = 0\<rparr>)"

definition current_sequence :: "history_cursor \<Rightarrow> u64 option" where
  "current_sequence c = map_option seq (get (hc_events c) (hc_position c))"

definition matchable :: "event \<times> bool \<Rightarrow> bool" where
  "matchable ec \<longleftrightarrow> \<not> snd ec \<and> family_for_event (fst ec) \<noteq> None"

definition next_matchable_index :: "history_cursor \<Rightarrow> nat option" where
  "next_matchable_index c =
     (if hc_position c \<le> length (hc_events c) \<and> hc_position c \<le> length (hc_consumed c)
      then map_option (\<lambda>offset. hc_position c + offset)
             (position matchable
               (zip (drop (hc_position c) (hc_events c)) (drop (hc_position c) (hc_consumed c))))
      else None)"

definition descriptor_at :: "history_cursor \<Rightarrow> nat \<Rightarrow> event \<Rightarrow> found_event_descriptor" where
  "descriptor_at c index event =
     \<lparr>fd_seq = seq event, fd_family = family_for_event event,
      fd_key = key_for_event (hc_events c) index, fd_kind = event_kind event\<rparr>"

definition next_key :: "history_cursor \<Rightarrow> recorded_event_family \<Rightarrow> correlation_key option" where
  "next_key c family =
     (case next_matchable_index c of
        None \<Rightarrow> None
      | Some index \<Rightarrow>
          (let d = descriptor_at c index (hc_events c ! index)
           in if fd_family d = Some family then fd_key d else None))"

lemma next_matchable_index_SomeD:
  assumes "next_matchable_index c = Some i"
  shows "hc_position c \<le> i" and "i < length (hc_events c)" and "i < length (hc_consumed c)"
    and "\<not> hc_consumed c ! i" and "family_for_event (hc_events c ! i) \<noteq> None"
    and "\<And>j. hc_position c \<le> j \<Longrightarrow> j < i \<Longrightarrow> hc_consumed c ! j \<or> family_for_event (hc_events c ! j) = None"
proof -
  let ?p = "hc_position c"
  let ?z = "zip (drop ?p (hc_events c)) (drop ?p (hc_consumed c))"
  from assms have le: "?p \<le> length (hc_events c)" "?p \<le> length (hc_consumed c)"
    by (auto simp: next_matchable_index_def split: if_splits)
  with assms obtain k where i: "i = ?p + k" and k: "position matchable ?z = Some k"
    by (auto simp: next_matchable_index_def)
  have kl: "k < length ?z" and mk: "matchable (?z ! k)"
    and first: "\<And>j. j < k \<Longrightarrow> \<not> matchable (?z ! j)"
    using position_SomeD [OF k] by blast+
  show "?p \<le> i" using i by simp
  show "i < length (hc_events c)" "i < length (hc_consumed c)" using i kl le by auto
  show "\<not> hc_consumed c ! i" "family_for_event (hc_events c ! i) \<noteq> None"
    using mk kl i le by (auto simp: matchable_def)
  show "hc_consumed c ! j \<or> family_for_event (hc_events c ! j) = None" if "?p \<le> j" "j < i" for j
    using first [of "j - ?p"] that i kl le by (auto simp: matchable_def)
qed

lemma next_matchable_index_eq_SomeI:
  assumes "hc_position c \<le> i" and "i < length (hc_events c)" and "i < length (hc_consumed c)"
    and "\<not> hc_consumed c ! i" and "family_for_event (hc_events c ! i) \<noteq> None"
    and "\<And>j. hc_position c \<le> j \<Longrightarrow> j < i \<Longrightarrow> hc_consumed c ! j \<or> family_for_event (hc_events c ! j) = None"
  shows "next_matchable_index c = Some i"
proof -
  let ?p = "hc_position c"
  let ?z = "zip (drop ?p (hc_events c)) (drop ?p (hc_consumed c))"
  have "position matchable ?z = Some (i - ?p)"
  proof (rule position_eq_SomeI)
    show "i - ?p < length ?z" using assms(1-3) by auto
    show "matchable (?z ! (i - ?p))" using assms(1-5) by (auto simp: matchable_def)
    show "\<not> matchable (?z ! j)" if "j < i - ?p" for j
      using that assms(1-3) assms(6) [of "?p + j"] by (auto simp: matchable_def)
  qed
  with assms(1-3) show ?thesis by (simp add: next_matchable_index_def)
qed

text \<open>\<^verbatim>\<open>fast_forward_to_key\<close> and \<^verbatim>\<open>fast_forward_to_child_terminal\<close> are the same loop with a different
  stopping test.\<close>

function fast_forward :: "(history_cursor \<Rightarrow> nat \<Rightarrow> bool) \<Rightarrow> history_cursor \<Rightarrow> history_cursor" where
  "fast_forward stop c =
     (case next_matchable_index c of
        None \<Rightarrow> c
      | Some index \<Rightarrow>
          if stop c index then c else fast_forward stop (c\<lparr>hc_position := index + 1\<rparr>))"
  by pat_completeness auto
termination
proof (relation "measure (\<lambda>(stop, c). Suc (length (hc_events c)) - hc_position c)")
  fix stop :: "history_cursor \<Rightarrow> nat \<Rightarrow> bool" and c index
  assume "next_matchable_index c = Some index"
  from next_matchable_index_SomeD(1,2) [OF this]
  show "((stop, c\<lparr>hc_position := index + 1\<rparr>), stop, c)
      \<in> measure (\<lambda>(stop, c). Suc (length (hc_events c)) - hc_position c)"
    by simp
qed simp

declare fast_forward.simps [simp del]

definition fast_forward_to_key :: "correlation_key \<Rightarrow> history_cursor \<Rightarrow> history_cursor" where
  "fast_forward_to_key key =
     fast_forward (\<lambda>c index. fd_key (descriptor_at c index (hc_events c ! index)) = Some key)"

definition fast_forward_to_child_terminal :: "workflow_id \<Rightarrow> history_cursor \<Rightarrow> history_cursor" where
  "fast_forward_to_child_terminal child =
     fast_forward (\<lambda>c index. is_child_terminal_for (hc_events c ! index) child)"

function advance_past_consumed :: "history_cursor \<Rightarrow> history_cursor" where
  "advance_past_consumed c =
     (if hc_position c < length (hc_consumed c) \<and> hc_consumed c ! hc_position c
      then advance_past_consumed (c\<lparr>hc_position := hc_position c + 1\<rparr>)
      else c)"
  by pat_completeness auto
termination
  by (relation "measure (\<lambda>c. length (hc_consumed c) - hc_position c)") auto

declare advance_past_consumed.simps [simp del]

fun mark_all :: "bool list \<Rightarrow> nat list \<Rightarrow> bool list" where
  "mark_all consumed [] = consumed"
| "mark_all consumed (i # is) = mark_all (consumed[i := True]) is"

text \<open>\<^verbatim>\<open>take_range\<close> slices \<^verbatim>\<open>events[start..end]\<close>; the source panics when \<^verbatim>\<open>end\<close> is past the history,
  which the callers below never ask for (\<open>take_range_in_bounds\<close>).\<close>

definition take_range :: "history_cursor \<Rightarrow> nat \<Rightarrow> nat \<Rightarrow> history \<times> history_cursor" where
  "take_range c start end' =
     (take (end' - start) (drop start (hc_events c)),
      advance_past_consumed (c\<lparr>hc_consumed := mark_all (hc_consumed c) [start..<end']\<rparr>))"

definition consume_one :: "history_cursor \<Rightarrow> cursor_resolve_result \<times> history_cursor" where
  "consume_one c =
     (let (es, c') = take_range c (hc_position c) (hc_position c + 1) in (Matched es, c'))"

fun collect_indices :: "history \<Rightarrow> bool list \<Rightarrow> nat list \<Rightarrow> history" where
  "collect_indices events consumed [] = []"
| "collect_indices events consumed (i # is) =
     (if i < length events \<and> i < length consumed then events ! i # collect_indices events consumed is
      else collect_indices events consumed is)"

definition consume_indices :: "history_cursor \<Rightarrow> nat list \<Rightarrow> cursor_resolve_result \<times> history_cursor" where
  "consume_indices c indices =
     (Matched (collect_indices (hc_events c) (hc_consumed c) indices),
      advance_past_consumed
        (c\<lparr>hc_consumed := mark_all (hc_consumed c)
             (filter (\<lambda>i. i < length (hc_events c)) indices)\<rparr>))"

definition mismatch_at_current :: "history_cursor \<Rightarrow> correlation_key \<Rightarrow> cursor_resolve_result" where
  "mismatch_at_current c key =
     (case get (hc_events c) (hc_position c) of
        Some event \<Rightarrow> Mismatch key (descriptor_at c (hc_position c) event)
      | None \<Rightarrow> Exhausted)"

section \<open>Resolving activities\<close>

fun is_attempt_or_outcome :: "activity_id \<Rightarrow> event \<Rightarrow> bool" where
  "is_attempt_or_outcome a (ActivityStarted _ b _) = (b = a)"
| "is_attempt_or_outcome a (ActivityFailed _ b _ _) = (b = a)"
| "is_attempt_or_outcome a (ActivityCompleted _ b _ _) = (b = a)"
| "is_attempt_or_outcome a _ = False"

fun reopens_activity :: "activity_id \<Rightarrow> event \<Rightarrow> bool" where
  "reopens_activity a (WorkflowReopened _ _ reopened) = (a \<in> set reopened)"
| "reopens_activity a _ = False"

text \<open>\<^verbatim>\<open>has_later_activity_attempt_or_outcome\<close> and \<^verbatim>\<open>activity_reopened_after\<close> look at the events after
  the current index; here they take that suffix.\<close>

definition has_later_activity_attempt_or_outcome :: "history \<Rightarrow> activity_id \<Rightarrow> bool" where
  "has_later_activity_attempt_or_outcome later a = list_ex (is_attempt_or_outcome a) later"

definition activity_reopened_after :: "history \<Rightarrow> activity_id \<Rightarrow> bool" where
  "activity_reopened_after later a = list_ex (reopens_activity a) later"

text \<open>The loop of \<^verbatim>\<open>resolve_activity\<close>: \<open>index\<close> is the index of the first event of the remaining
  history and \<open>matched\<close> the indices collected so far; \<open>None\<close> is the fall-through to \<open>Exhausted\<close>.\<close>

fun activity_walk :: "activity_id \<Rightarrow> nat \<Rightarrow> nat list \<Rightarrow> history \<Rightarrow> nat list option" where
  "activity_walk a index matched [] = None"
| "activity_walk a index matched (e # later) =
     (case e of
        ActivityStarted _ b _ \<Rightarrow>
          activity_walk a (Suc index) (if b = a then matched @ [index] else matched) later
      | ActivityScheduled _ b _ _ _ _ \<Rightarrow>
          activity_walk a (Suc index) (if b = a then matched @ [index] else matched) later
      | ActivityFailed _ b err _ \<Rightarrow>
          if b = a then
            (if \<not> is_retryable err \<and> \<not> activity_reopened_after later a
                \<and> \<not> has_later_activity_attempt_or_outcome later a
             then Some (matched @ [index])
             else activity_walk a (Suc index) (matched @ [index]) later)
          else activity_walk a (Suc index) matched later
      | ActivityCompleted _ b _ _ \<Rightarrow>
          if b = a then Some (matched @ [index]) else activity_walk a (Suc index) matched later
      | ActivityCancelled _ b _ \<Rightarrow>
          if b = a then Some (matched @ [index]) else activity_walk a (Suc index) matched later
      | _ \<Rightarrow> activity_walk a (Suc index) matched later)"

definition resolve_activity ::
  "history_cursor \<Rightarrow> correlation_key \<Rightarrow> cursor_resolve_result \<times> history_cursor" where
  "resolve_activity c key =
     (case get (hc_events c) (hc_position c) of
        Some (ActivityScheduled _ a _ _ _ _) \<Rightarrow>
          (case activity_walk a (hc_position c + 1) [hc_position c]
                  (drop (hc_position c + 1) (hc_events c)) of
             Some indices \<Rightarrow> consume_indices c indices
           | None \<Rightarrow> (Exhausted, c))
      | _ \<Rightarrow> (mismatch_at_current c key, c))"

section \<open>Resolving timers, children and signals\<close>

fun timer_outcome_for :: "event \<Rightarrow> correlation_key \<Rightarrow> bool" where
  "timer_outcome_for (TimerFired _ t) (KTimer t') = (t = t')"
| "timer_outcome_for (WithTimeoutCompleted _ t _ _) (KTimer t') = (t = t')"
| "timer_outcome_for (TimerCancelled _ t cause) (KTimer t') = (cause = WorkflowIntent \<and> t = t')"
| "timer_outcome_for _ _ = False"

fun child_outcome_id :: "event \<Rightarrow> workflow_id option" where
  "child_outcome_id (ChildWorkflowCompleted _ w _) = Some w"
| "child_outcome_id (ChildWorkflowFailed _ w _) = Some w"
| "child_outcome_id (ChildWorkflowCancelled _ w) = Some w"
| "child_outcome_id _ = None"

definition is_outcome_for_start_key :: "history_cursor \<Rightarrow> event \<Rightarrow> correlation_key \<Rightarrow> bool" where
  "is_outcome_for_start_key c event key \<longleftrightarrow>
     timer_outcome_for event key \<or>
     (case (child_outcome_id event, key) of
        (Some w, KChild _) \<Rightarrow>
          (case get (hc_events c) (hc_position c) of
             Some (ChildWorkflowStarted _ w' _ _ _) \<Rightarrow> w' = w
           | _ \<Rightarrow> False)
      | _ \<Rightarrow> False)"

definition resolve_started_with_immediate_outcome ::
  "history_cursor \<Rightarrow> correlation_key \<Rightarrow> cursor_resolve_result \<times> history_cursor" where
  "resolve_started_with_immediate_outcome c key =
     (let start = hc_position c; next = hc_position c + 1
      in case get (hc_events c) next of
           Some event \<Rightarrow>
             if is_outcome_for_start_key c event key
             then (let (es, c') = take_range c start (next + 1) in (Matched es, c'))
             else consume_one c
         | None \<Rightarrow> consume_one c)"

definition resolve_child ::
  "history_cursor \<Rightarrow> correlation_key \<Rightarrow> cursor_resolve_result \<times> history_cursor" where
  "resolve_child c key =
     (case get (hc_events c) (hc_position c) of
        Some (ChildWorkflowStarted _ _ _ _ _) \<Rightarrow> consume_one c
      | _ \<Rightarrow> (mismatch_at_current c key, c))"

definition resolve_next ::
  "recorded_event_family \<Rightarrow> correlation_key \<Rightarrow> history_cursor
    \<Rightarrow> cursor_resolve_result \<times> history_cursor" where
  "resolve_next family key c =
     (case next_matchable_index c of
        None \<Rightarrow> (Exhausted, c)
      | Some found_index \<Rightarrow>
          (let c = c\<lparr>hc_position := found_index\<rparr>;
               found = descriptor_at c found_index (hc_events c ! found_index)
           in if fd_family found \<noteq> Some family \<or> fd_key found \<noteq> Some key
              then (Mismatch key found, c)
              else (case family of
                      FActivity \<Rightarrow> resolve_activity c key
                    | FTimer \<Rightarrow> resolve_started_with_immediate_outcome c key
                    | FChild \<Rightarrow> resolve_child c key
                    | FSignal \<Rightarrow>
                        (case key of
                           KSignal _ _ \<Rightarrow> consume_one c
                         | _ \<Rightarrow> (mismatch_at_current c key, c)))))"

definition resolve_child_terminal ::
  "workflow_id \<Rightarrow> history_cursor \<Rightarrow> child_terminal_resolve_result \<times> history_cursor" where
  "resolve_child_terminal child c =
     (case next_matchable_index c of
        None \<Rightarrow> (ChildExhausted, c)
      | Some found_index \<Rightarrow>
          (let c = c\<lparr>hc_position := found_index\<rparr>
           in case get (hc_events c) found_index of
                Some event \<Rightarrow>
                  if is_child_terminal_for event child
                  then (let (es, c') = take_range c found_index (found_index + 1)
                        in (ChildMatched es, c'))
                  else (ChildMismatch (descriptor_at c found_index event), c)
              | None \<Rightarrow> (ChildExhausted, c)))"

section \<open>Well-formed cursors\<close>

definition cursor_wf :: "history_cursor \<Rightarrow> bool" where
  "cursor_wf c \<longleftrightarrow>
     length (hc_consumed c) = length (hc_events c) \<and> hc_position c \<le> length (hc_events c)"

text \<open>\<open>cursor_le c c'\<close>: the history is the same, the position did not go back and no consumed event
  became matchable again.\<close>

definition cursor_le :: "history_cursor \<Rightarrow> history_cursor \<Rightarrow> bool" where
  "cursor_le c c' \<longleftrightarrow>
     hc_events c' = hc_events c \<and> hc_position c \<le> hc_position c'
   \<and> (\<forall>i < length (hc_events c). hc_consumed c ! i \<longrightarrow> hc_consumed c' ! i)"

lemma cursor_le_refl [simp]: "cursor_le c c"
  by (simp add: cursor_le_def)

lemma cursor_le_trans: "cursor_le a b \<Longrightarrow> cursor_le b c \<Longrightarrow> cursor_le a c"
  by (auto simp: cursor_le_def)

lemma advance_past_consumed_frame [simp]:
  "hc_events (advance_past_consumed c) = hc_events c"
  "hc_consumed (advance_past_consumed c) = hc_consumed c"
  by (induction c rule: advance_past_consumed.induct;
      subst advance_past_consumed.simps; simp)+

lemma advance_past_consumed_ge: "hc_position c \<le> hc_position (advance_past_consumed c)"
  by (induction c rule: advance_past_consumed.induct; subst advance_past_consumed.simps) auto

lemma advance_past_consumed_le:
  "hc_position c \<le> length (hc_consumed c)
   \<Longrightarrow> hc_position (advance_past_consumed c) \<le> length (hc_consumed c)"
  by (induction c rule: advance_past_consumed.induct; subst advance_past_consumed.simps) auto

lemma advance_past_consumed_skipped:
  "hc_position c \<le> j \<Longrightarrow> j < hc_position (advance_past_consumed c) \<Longrightarrow> hc_consumed c ! j"
proof (induction c rule: advance_past_consumed.induct)
  case (1 c)
  show ?case
  proof (cases "hc_position c < length (hc_consumed c) \<and> hc_consumed c ! hc_position c")
    case True
    with "1.prems" have j: "j < hc_position (advance_past_consumed (c\<lparr>hc_position := hc_position c + 1\<rparr>))"
      by (simp add: advance_past_consumed.simps [of c])
    show ?thesis
    proof (cases "j = hc_position c")
      case False
      with "1.IH" [OF True] j "1.prems"(1) show ?thesis by simp
    qed (use True in simp)
  next
    case False
    with "1.prems" show ?thesis by (simp add: advance_past_consumed.simps [of c] split: if_splits)
  qed
qed

lemma length_mark_all [simp]: "length (mark_all cs is) = length cs"
  by (induction cs "is" rule: mark_all.induct) auto

lemma nth_mark_all:
  "i < length cs \<Longrightarrow> mark_all cs is ! i \<longleftrightarrow> cs ! i \<or> i \<in> set is"
proof (induction cs "is" rule: mark_all.induct)
  case (2 cs j "is")
  then show ?case by (cases "i = j") auto
qed simp

definition marked :: "history_cursor \<Rightarrow> nat list \<Rightarrow> history_cursor" where
  "marked c idx = advance_past_consumed (c\<lparr>hc_consumed := mark_all (hc_consumed c) idx\<rparr>)"

lemma marked_cursor:
  assumes "cursor_wf c"
  shows marked_wf: "cursor_wf (marked c idx)"
    and marked_le: "cursor_le c (marked c idx)"
    and marked_consumed: "i < length (hc_events c)
      \<Longrightarrow> hc_consumed (marked c idx) ! i \<longleftrightarrow> hc_consumed c ! i \<or> i \<in> set idx"
proof -
  let ?m = "c\<lparr>hc_consumed := mark_all (hc_consumed c) idx\<rparr>"
  have "hc_position (advance_past_consumed ?m) \<le> length (hc_consumed ?m)"
    using assms by (intro advance_past_consumed_le) (simp add: cursor_wf_def)
  then show "cursor_wf (marked c idx)" using assms by (simp add: marked_def cursor_wf_def)
  show "cursor_le c (marked c idx)"
    using assms advance_past_consumed_ge [of ?m]
    by (auto simp: marked_def cursor_le_def cursor_wf_def nth_mark_all)
  show "hc_consumed (marked c idx) ! i \<longleftrightarrow> hc_consumed c ! i \<or> i \<in> set idx"
    if "i < length (hc_events c)"
    using assms that by (simp add: marked_def cursor_wf_def nth_mark_all)
qed

lemma hc_events_marked [simp]: "hc_events (marked c idx) = hc_events c"
  by (simp add: marked_def)

lemma cursor_wf_reposition:
  assumes "cursor_wf c" and "next_matchable_index c = Some i"
  shows "cursor_wf (c\<lparr>hc_position := i\<rparr>)" and "cursor_le c (c\<lparr>hc_position := i\<rparr>)"
  using assms next_matchable_index_SomeD(1,2) [OF assms(2)]
  by (auto simp: cursor_wf_def cursor_le_def)

lemma cursor_new_wf: "cursor_new h = Inr c \<Longrightarrow> cursor_wf c \<and> hc_events c = h"
  by (auto simp: cursor_new_def cursor_wf_def split: option.splits)

lemma decreasing_pair_None_iff: "decreasing_pair h = None \<longleftrightarrow> sorted (map seq h)"
  by (induction h rule: decreasing_pair.induct)
     (auto simp: not_less intro: order_trans)

lemma cursor_new_ok_iff: "is_ok (cursor_new h) \<longleftrightarrow> sorted (map seq h)"
  by (auto simp: cursor_new_def decreasing_pair_None_iff [symmetric] split: option.splits)

lemma fast_forward_wf:
  "cursor_wf c \<Longrightarrow> cursor_wf (fast_forward stop c) \<and> cursor_le c (fast_forward stop c)"
proof (induction stop c rule: fast_forward.induct)
  case (1 stop c)
  show ?case
  proof (cases "next_matchable_index c")
    case None
    with 1 show ?thesis by (simp add: fast_forward.simps [of stop c])
  next
    case (Some i)
    let ?c = "c\<lparr>hc_position := i + 1\<rparr>"
    have "cursor_wf ?c" and "cursor_le c ?c"
      using "1.prems" next_matchable_index_SomeD(1,2) [OF Some]
      by (auto simp: cursor_wf_def cursor_le_def)
    with 1 Some show ?thesis
      by (auto simp: fast_forward.simps [of stop c] intro: cursor_le_trans)
  qed
qed

text \<open>After a fast-forward the cursor is at an entry that satisfies the stopping test, or exhausted.\<close>

lemma fast_forward_stops:
  "next_matchable_index (fast_forward stop c) = Some i \<Longrightarrow> stop (fast_forward stop c) i"
proof (induction stop c rule: fast_forward.induct)
  case (1 stop c)
  then show ?case
    by (cases "next_matchable_index c")
       (auto simp: fast_forward.simps [of stop c] split: if_splits)
qed

section \<open>The activity walk\<close>

fun activity_event_of :: "activity_id \<Rightarrow> event \<Rightarrow> bool" where
  "activity_event_of a (ActivityScheduled _ b _ _ _ _) = (b = a)"
| "activity_event_of a (ActivityStarted _ b _) = (b = a)"
| "activity_event_of a (ActivityFailed _ b _ _) = (b = a)"
| "activity_event_of a (ActivityCompleted _ b _ _) = (b = a)"
| "activity_event_of a (ActivityCancelled _ b _) = (b = a)"
| "activity_event_of a _ = False"

fun is_terminal_failure_of :: "activity_id \<Rightarrow> event \<Rightarrow> bool" where
  "is_terminal_failure_of a (ActivityFailed _ b err _) = (b = a \<and> \<not> is_retryable err)"
| "is_terminal_failure_of a _ = False"

text \<open>A recorded event \<open>e\<close> settles activity \<open>a\<close> when it completes or cancels it, or is a terminal
  failure that no later attempt, outcome or reopen supersedes.\<close>

definition settles :: "activity_id \<Rightarrow> event \<Rightarrow> history \<Rightarrow> bool" where
  "settles a e later \<longleftrightarrow>
     is_success_of a e \<or>
     (is_terminal_failure_of a e \<and> \<not> activity_reopened_after later a
      \<and> \<not> has_later_activity_attempt_or_outcome later a)"

lemma activity_walk_Cons:
  "activity_walk a i m (e # later) =
     (if settles a e later then Some (m @ [i])
      else activity_walk a (Suc i) (if activity_event_of a e then m @ [i] else m) later)"
  by (cases e) (auto simp: settles_def)

declare activity_walk.simps(2) [simp del]
declare activity_walk_Cons [simp]

text \<open>The indices of the events of activity \<open>a\<close>, numbering the list from \<open>i\<close>.\<close>

fun own_indices :: "activity_id \<Rightarrow> nat \<Rightarrow> history \<Rightarrow> nat list" where
  "own_indices a i [] = []"
| "own_indices a i (e # es) =
     (if activity_event_of a e then i # own_indices a (Suc i) es else own_indices a (Suc i) es)"

lemma settles_own: "settles a e later \<Longrightarrow> activity_event_of a e"
  by (cases e) (auto simp: settles_def)

text \<open>The walk stops at the first settling event, having collected every event of the activity up to
  it.\<close>

fun settle_index :: "activity_id \<Rightarrow> history \<Rightarrow> nat option" where
  "settle_index a [] = None"
| "settle_index a (e # later) =
     (if settles a e later then Some 0 else map_option Suc (settle_index a later))"

lemma activity_walk_eq:
  "activity_walk a i m es =
     map_option (\<lambda>j. m @ own_indices a i (take (Suc j) es)) (settle_index a es)"
proof (induction es arbitrary: i m)
  case (Cons e es)
  then show ?case
    using settles_own [of a e es]
    by (cases "settle_index a es") auto
qed simp

lemma settle_index_SomeD:
  "settle_index a es = Some j \<Longrightarrow> j < length es \<and> settles a (es ! j) (drop (Suc j) es)"
  by (induction es arbitrary: j) (auto split: if_splits)

lemma settle_index_None_iff:
  "settle_index a es = None \<longleftrightarrow> (\<forall>j < length es. \<not> settles a (es ! j) (drop (Suc j) es))"
  by (induction es) (auto simp: All_less_Suc2)

lemma settle_index_append_None:
  "settle_index a (xs @ ys) = None \<Longrightarrow> settle_index a ys = None"
  by (induction xs) (auto split: if_splits)

lemma success_settles: "\<exists>e \<in> set es. is_success_of a e \<Longrightarrow> settle_index a es \<noteq> None"
  by (induction es) (auto simp: settles_def)

lemma own_indices_iff:
  "j \<in> set (own_indices a i es) \<longleftrightarrow> i \<le> j \<and> j < i + length es \<and> activity_event_of a (es ! (j - i))"
proof (induction es arbitrary: i)
  case (Cons e es)
  show ?case using Cons.IH [of "Suc i"] by (cases "j = i") (auto simp: nth_Cons' Suc_le_eq)
qed simp

lemma sorted_own_indices: "sorted_wrt (<) (own_indices a i es)"
  by (induction es arbitrary: i) (auto simp: own_indices_iff)

section \<open>What the operations consume\<close>

text \<open>\<open>consumes c idx c'\<close>: the operation leaves the history alone and marks exactly the events at \<open>idx\<close>,
  all of which were still unconsumed and inside the history.\<close>

definition consumes :: "history_cursor \<Rightarrow> nat list \<Rightarrow> history_cursor \<Rightarrow> bool" where
  "consumes c idx c' \<longleftrightarrow>
     (\<forall>i \<in> set idx. hc_position c \<le> i \<and> i < length (hc_events c))
   \<and> (\<forall>i < length (hc_events c). hc_consumed c' ! i \<longleftrightarrow> hc_consumed c ! i \<or> i \<in> set idx)"

lemma collect_indices_eq:
  "length cs = length es \<Longrightarrow> \<forall>i \<in> set idx. i < length es
   \<Longrightarrow> collect_indices es cs idx = map ((!) es) idx"
  by (induction es cs idx rule: collect_indices.induct) auto

lemma consume_indices_eq:
  assumes "cursor_wf c" and "\<forall>i \<in> set idx. i < length (hc_events c)"
  shows "consume_indices c idx = (Matched (map ((!) (hc_events c)) idx), marked c idx)"
proof -
  have "filter (\<lambda>i. i < length (hc_events c)) idx = idx"
    using assms(2) by simp
  then show ?thesis
    using assms by (simp add: consume_indices_def collect_indices_eq cursor_wf_def marked_def)
qed

lemma take_drop_eq_map_nth:
  "b \<le> length xs \<Longrightarrow> take (b - a) (drop a xs) = map ((!) xs) [a..<b]"
  by (rule nth_equalityI) auto

lemma take_range_eq:
  "end' \<le> length (hc_events c)
   \<Longrightarrow> take_range c start end' = (map ((!) (hc_events c)) [start..<end'], marked c [start..<end'])"
  by (simp add: take_range_def marked_def take_drop_eq_map_nth)

lemma consume_one_eq:
  "hc_position c < length (hc_events c)
   \<Longrightarrow> consume_one c = (Matched [hc_events c ! hc_position c], marked c [hc_position c])"
  by (simp add: consume_one_def take_range_eq)

section \<open>Resolution by correlation key, characterised\<close>

text \<open>The recorded indices that answer the command anchored at index \<open>i\<close>; \<open>None\<close> when the anchor is
  an activity that history does not settle.\<close>

definition answer_indices :: "history \<Rightarrow> correlation_key \<Rightarrow> nat \<Rightarrow> nat list option" where
  "answer_indices es key i =
     (case es ! i of
        ActivityScheduled _ a _ _ _ _ \<Rightarrow>
          map_option (\<lambda>j. i # own_indices a (Suc i) (take (Suc j) (drop (Suc i) es)))
            (settle_index a (drop (Suc i) es))
      | TimerStarted _ _ _ \<Rightarrow>
          if Suc i < length es \<and> timer_outcome_for (es ! Suc i) key then Some [i, Suc i] else Some [i]
      | _ \<Rightarrow> Some [i])"

lemma anchor_shape:
  assumes "family_for_event (es ! i) = Some f" and "key_for_event es i = Some k"
  shows "case f of FActivity \<Rightarrow> is_ActivityScheduled (es ! i)
    | FTimer \<Rightarrow> is_TimerStarted (es ! i) \<and> (\<exists>t. k = KTimer t)
    | FChild \<Rightarrow> is_ChildWorkflowStarted (es ! i)
    | FSignal \<Rightarrow> (is_SignalReceived (es ! i) \<or> is_SignalSent (es ! i)) \<and> (\<exists>name n. k = KSignal name n)"
  using assms
  by (cases "es ! i") (auto simp: key_for_event_def get_def split: if_splits)

lemma answer_indices_bounds:
  assumes "answer_indices es key i = Some idx" and "i < length es"
  shows "\<exists>rest. idx = i # rest \<and> (\<forall>j \<in> set rest. i < j \<and> j < length es)"
proof (cases "es ! i")
  case (ActivityScheduled env a ty inp q m)
  with assms obtain j where "settle_index a (drop (Suc i) es) = Some j"
    and idx: "idx = i # own_indices a (Suc i) (take (Suc j) (drop (Suc i) es))"
    by (auto simp: answer_indices_def)
  then have "j < length es - Suc i" by (auto dest: settle_index_SomeD)
  with idx show ?thesis by (auto simp: own_indices_iff)
qed (use assms in \<open>auto simp: answer_indices_def split: if_splits\<close>)

lemma resolve_activity_eq:
  assumes "cursor_wf c" and "hc_position c = i" and "i < length (hc_events c)"
    and "is_ActivityScheduled (hc_events c ! i)"
  shows "resolve_activity c key =
    (case answer_indices (hc_events c) key i of
       None \<Rightarrow> (Exhausted, c)
     | Some idx \<Rightarrow> (Matched (map ((!) (hc_events c)) idx), marked c idx))"
proof (cases "answer_indices (hc_events c) key i")
  case None
  with assms show ?thesis
    by (cases "hc_events c ! i")
       (auto simp: resolve_activity_def answer_indices_def activity_walk_eq)
next
  case (Some idx)
  with answer_indices_bounds [OF Some assms(3)] assms(3)
  have "\<forall>j \<in> set idx. j < length (hc_events c)" by auto
  with Some assms show ?thesis
    by (cases "hc_events c ! i")
       (auto simp: resolve_activity_def answer_indices_def activity_walk_eq consume_indices_eq)
qed

lemma resolve_timer_eq:
  assumes "hc_position c = i" and "i < length (hc_events c)"
    and "is_TimerStarted (hc_events c ! i)" and "key = KTimer t"
  shows "resolve_started_with_immediate_outcome c key =
    (case answer_indices (hc_events c) key i of
       None \<Rightarrow> (Exhausted, c)
     | Some idx \<Rightarrow> (Matched (map ((!) (hc_events c)) idx), marked c idx))"
proof -
  have "is_outcome_for_start_key c e key = timer_outcome_for e key" for e
    using assms(4) by (simp add: is_outcome_for_start_key_def split: option.splits)
  with assms show ?thesis
    by (cases "hc_events c ! i")
       (auto simp: resolve_started_with_immediate_outcome_def answer_indices_def Let_def
          take_range_eq consume_one_eq get_def upt_conv_Cons)
qed

lemma resolve_next_eq:
  assumes "cursor_wf c"
  shows "resolve_next family key c =
    (case next_matchable_index c of
       None \<Rightarrow> (Exhausted, c)
     | Some i \<Rightarrow>
         let c1 = c\<lparr>hc_position := i\<rparr>; e = hc_events c ! i
         in if family_for_event e \<noteq> Some family \<or> key_for_event (hc_events c) i \<noteq> Some key
            then (Mismatch key (descriptor_at c i e), c1)
            else (case answer_indices (hc_events c) key i of
                    None \<Rightarrow> (Exhausted, c1)
                  | Some idx \<Rightarrow> (Matched (map ((!) (hc_events c)) idx), marked c1 idx)))"
proof (cases "next_matchable_index c")
  case (Some i)
  let ?es = "hc_events c" and ?c1 = "c\<lparr>hc_position := i\<rparr>"
  note i = next_matchable_index_SomeD(2) [OF Some]
  show ?thesis
  proof (cases "family_for_event (?es ! i) = Some family \<and> key_for_event ?es i = Some key")
    case True
    from anchor_shape [OF True [THEN conjunct1] True [THEN conjunct2]]
    show ?thesis
      using Some True i resolve_activity_eq [OF cursor_wf_reposition(1) [OF assms Some], of i key]
        resolve_timer_eq [of ?c1 i key]
      by (cases family; cases "?es ! i")
         (auto simp: resolve_next_def descriptor_at_def Let_def resolve_child_def consume_one_eq
            answer_indices_def split: option.splits)
  qed (auto simp: resolve_next_def Some descriptor_at_def Let_def)
qed (simp add: resolve_next_def)

section \<open>Properties of the cursor\<close>

lemma resolve_next_le:
  assumes "cursor_wf c"
  shows "cursor_wf (snd (resolve_next f k c)) \<and> cursor_le c (snd (resolve_next f k c))"
proof (cases "next_matchable_index c")
  case (Some i)
  note re = cursor_wf_reposition [OF assms Some]
  show ?thesis
    using re marked_wf [OF re(1)] cursor_le_trans [OF re(2) marked_le [OF re(1)]]
    by (auto simp: resolve_next_eq [OF assms] Some Let_def split: option.splits)
qed (simp add: resolve_next_eq assms)

lemma resolve_child_terminal_eq:
  assumes "cursor_wf c"
  shows "resolve_child_terminal w c =
    (case next_matchable_index c of
       None \<Rightarrow> (ChildExhausted, c)
     | Some i \<Rightarrow>
         let c1 = c\<lparr>hc_position := i\<rparr>; e = hc_events c ! i
         in if is_child_terminal_for e w then (ChildMatched [e], marked c1 [i])
            else (ChildMismatch (descriptor_at c i e), c1))"
proof (cases "next_matchable_index c")
  case (Some i)
  with next_matchable_index_SomeD(2) [OF Some] show ?thesis
    by (auto simp: resolve_child_terminal_def take_range_eq descriptor_at_def Let_def)
qed (simp add: resolve_child_terminal_def)

lemma resolve_child_terminal_le:
  assumes "cursor_wf c"
  shows "cursor_wf (snd (resolve_child_terminal w c)) \<and> cursor_le c (snd (resolve_child_terminal w c))"
proof (cases "next_matchable_index c")
  case (Some i)
  note re = cursor_wf_reposition [OF assms Some]
  show ?thesis
    using re marked_wf [OF re(1)] cursor_le_trans [OF re(2) marked_le [OF re(1)]]
    by (auto simp: resolve_child_terminal_eq [OF assms] Some Let_def)
qed (simp add: resolve_child_terminal_eq assms)

text \<open>Every cursor operation keeps the cursor well formed (one flag per event, position inside the
  history, so no slice of the source can be out of range) and only moves it forward: the history is
  unchanged, the low-water position never decreases and a consumed event is never matchable again.\<close>

theorem cursor_operations_monotone:
  assumes "cursor_wf c"
    and "c' \<in> {snd (resolve_next family key c), snd (resolve_child_terminal w c),
               fast_forward_to_key key c, fast_forward_to_child_terminal w c}"
  shows "cursor_wf c' \<and> cursor_le c c'"
  using assms resolve_next_le resolve_child_terminal_le fast_forward_wf
  by (auto simp: fast_forward_to_key_def fast_forward_to_child_terminal_def)

lemma resolve_next_MatchedE:
  assumes "cursor_wf c" and "resolve_next family key c = (Matched es, c')"
  obtains i idx where "next_matchable_index c = Some i"
    and "family_for_event (hc_events c ! i) = Some family" "key_for_event (hc_events c) i = Some key"
    and "answer_indices (hc_events c) key i = Some idx"
    and "es = map ((!) (hc_events c)) idx" and "c' = marked (c\<lparr>hc_position := i\<rparr>) idx"
  using assms by (auto simp: resolve_next_eq Let_def split: option.splits if_splits)

lemma resolve_next_MismatchD:
  assumes "cursor_wf c" and "resolve_next family key c = (Mismatch key' found, c')"
  shows "key' = key \<and> (\<exists>i. next_matchable_index c = Some i \<and> c' = c\<lparr>hc_position := i\<rparr>
    \<and> found = descriptor_at c i (hc_events c ! i))"
  using assms by (auto simp: resolve_next_eq Let_def split: option.splits if_splits)

text \<open>A match is anchored at the next unconsumed command event of the history, which has exactly the
  family and the correlation key the workflow asked for; the anchor comes first in the answer, every
  further event of the answer lies after it, and exactly the returned events become consumed.\<close>

theorem resolve_next_matched:
  assumes "cursor_wf c" and "resolve_next family key c = (Matched es, c')"
  shows "\<exists>i rest. next_matchable_index c = Some i \<and> \<not> hc_consumed c ! i
    \<and> family_for_event (hc_events c ! i) = Some family \<and> key_for_event (hc_events c) i = Some key
    \<and> es = map ((!) (hc_events c)) (i # rest)
    \<and> (\<forall>j \<in> set rest. i < j \<and> j < length (hc_events c))
    \<and> (\<forall>j < length (hc_events c). hc_consumed c' ! j \<longleftrightarrow> hc_consumed c ! j \<or> j \<in> set (i # rest))"
proof -
  from assms obtain i idx where i: "next_matchable_index c = Some i"
    and fam: "family_for_event (hc_events c ! i) = Some family" "key_for_event (hc_events c) i = Some key"
    and ans: "answer_indices (hc_events c) key i = Some idx"
    and es: "es = map ((!) (hc_events c)) idx" and c': "c' = marked (c\<lparr>hc_position := i\<rparr>) idx"
    by (rule resolve_next_MatchedE)
  from answer_indices_bounds [OF ans next_matchable_index_SomeD(2) [OF i]] obtain rest
    where "idx = i # rest" "\<forall>j \<in> set rest. i < j \<and> j < length (hc_events c)" by blast
  then show ?thesis
    using i fam es c' next_matchable_index_SomeD(4) [OF i]
      marked_consumed [OF cursor_wf_reposition(1) [OF assms(1) i]]
    by auto
qed

text \<open>A mismatch is reported exactly when the next unconsumed command event has another family or key
  than the command, it names that event, and it consumes nothing; in particular the fallback arms of
  the per-family resolvers are never taken.\<close>

theorem resolve_next_mismatch_iff:
  assumes "cursor_wf c"
  shows "fst (resolve_next family key c) = Mismatch key' found \<longleftrightarrow>
     key' = key \<and> (\<exists>i. next_matchable_index c = Some i \<and> found = descriptor_at c i (hc_events c ! i)
        \<and> (family_for_event (hc_events c ! i) \<noteq> Some family \<or> key_for_event (hc_events c) i \<noteq> Some key)
        \<and> snd (resolve_next family key c) = c\<lparr>hc_position := i\<rparr>)"
  using assms by (auto simp: resolve_next_eq Let_def split: option.splits)

definition unconsumed :: "history_cursor \<Rightarrow> nat set" where
  "unconsumed c = {i. i < length (hc_events c) \<and> \<not> hc_consumed c ! i}"

lemma finite_unconsumed [simp]: "finite (unconsumed c)"
  by (simp add: unconsumed_def)

text \<open>Every match strictly shrinks the set of unconsumed events, so one cursor can answer at most as
  many commands as the history has events.\<close>

theorem resolve_next_progress:
  assumes "cursor_wf c" and "resolve_next family key c = (Matched es, c')"
  shows "card (unconsumed c') < card (unconsumed c)"
proof (rule psubset_card_mono)
  from assms obtain i idx where i: "next_matchable_index c = Some i"
    and ans: "answer_indices (hc_events c) key i = Some idx"
    and c': "c' = marked (c\<lparr>hc_position := i\<rparr>) idx"
    by (rule resolve_next_MatchedE)
  have "i \<in> set idx" using answer_indices_bounds [OF ans next_matchable_index_SomeD(2) [OF i]] by auto
  then show "unconsumed c' \<subset> unconsumed c"
    using next_matchable_index_SomeD(2,4) [OF i]
      marked_consumed [OF cursor_wf_reposition(1) [OF assms(1) i]]
    by (auto simp: unconsumed_def c')
qed simp

section \<open>Activities: history or live execution\<close>

text \<open>The command of activity \<open>a\<close> is the next one the history answers.\<close>

definition at_activity :: "history_cursor \<Rightarrow> nat \<Rightarrow> activity_id \<Rightarrow> bool" where
  "at_activity c i a \<longleftrightarrow>
     next_matchable_index c = Some i
   \<and> (case hc_events c ! i of ActivityScheduled _ b _ _ _ _ \<Rightarrow> b = a | _ \<Rightarrow> False)"

definition later_events :: "history_cursor \<Rightarrow> nat \<Rightarrow> history" where
  "later_events c i = drop (Suc i) (hc_events c)"

lemma resolve_next_activity:
  assumes "cursor_wf c" and "at_activity c i a"
  shows "resolve_next FActivity (KActivity (sequence_position a)) c =
    (case settle_index a (later_events c i) of
       None \<Rightarrow> (Exhausted, c\<lparr>hc_position := i\<rparr>)
     | Some j \<Rightarrow>
         let idx = i # own_indices a (Suc i) (take (Suc j) (later_events c i))
         in (Matched (map ((!) (hc_events c)) idx), marked (c\<lparr>hc_position := i\<rparr>) idx))"
  using assms next_matchable_index_SomeD(2) [of c i]
  by (cases "hc_events c ! i")
     (auto simp: at_activity_def resolve_next_eq answer_indices_def key_for_event_def Let_def
        later_events_def split: option.splits)

lemma settle_index_split:
  assumes "settle_index a es = Some j"
  shows "\<exists>pre later. es = pre @ es ! j # later \<and> length pre = j \<and> settles a (es ! j) later"
  using settle_index_SomeD [OF assms] id_take_nth_drop [of j es]
  by (intro exI [of _ "take j es"] exI [of _ "drop (Suc j) es"]) auto

lemma completion_blocks_failure:
  assumes "is_terminal_failure_of a e" and "f \<in> set later"
    and "is_ActivityCompleted f" and "is_success_of a f"
  shows "\<not> settles a e later"
proof -
  have "is_attempt_or_outcome a f" using assms(3,4) by (cases f) auto
  with assms(2) have "has_later_activity_attempt_or_outcome later a"
    by (auto simp: has_later_activity_attempt_or_outcome_def list_ex_iff)
  with assms(1) show ?thesis by (cases e) (auto simp: settles_def)
qed

text \<open>With a completion of the activity ahead, the walk ends at a success of the activity.\<close>

lemma settle_index_completed:
  assumes "\<exists>f \<in> set es. is_ActivityCompleted f \<and> is_success_of a f"
  shows "\<exists>j. settle_index a es = Some j \<and> is_success_of a (es ! j)"
  using assms
proof (induction es)
  case (Cons e es)
  show ?case
  proof (cases "settles a e es")
    case True
    have "is_success_of a e"
    proof (rule ccontr)
      assume no: "\<not> is_success_of a e"
      with True have "is_terminal_failure_of a e" by (simp add: settles_def)
      with completion_blocks_failure [OF this] True Cons.prems no show False by auto
    qed
    with True show ?thesis by simp
  next
    case False
    then have "\<not> is_success_of a e" by (auto simp: settles_def)
    with Cons.prems have "\<exists>f \<in> set es. is_ActivityCompleted f \<and> is_success_of a f" by auto
    from Cons.IH [OF this] False show ?thesis by auto
  qed
qed simp

lemma own_indices_last:
  assumes "settle_index a es = Some j"
  shows "last (k # own_indices a i (take (Suc j) es)) = i + j"
  using assms
proof (induction es arbitrary: i j k)
  case (Cons e es)
  show ?case
  proof (cases "settles a e es")
    case True
    with Cons.prems settles_own [OF True] show ?thesis by simp
  next
    case False
    with Cons.prems obtain j' where "settle_index a es = Some j'" "j = Suc j'" by auto
    with Cons.IH [of j' i "Suc i"] Cons.IH [of j' k "Suc i"] show ?thesis
      by (simp split: if_splits)
  qed
qed simp

lemma activity_answer:
  assumes "cursor_wf c" and "at_activity c i a" and "settle_index a (later_events c i) = Some j"
  obtains es c' where "resolve_next FActivity (KActivity (sequence_position a)) c = (Matched es, c')"
    and "es \<noteq> []" and "\<forall>e \<in> set es. activity_event_of a e" and "last es = later_events c i ! j"
    and "\<forall>k < length (hc_events c). hc_consumed c' ! k \<longrightarrow>
           hc_consumed c ! k \<or> activity_event_of a (hc_events c ! k)"
proof -
  let ?L = "later_events c i" and ?es = "hc_events c"
  let ?own = "own_indices a (Suc i) (take (Suc j) ?L)"
  from assms(2) have i: "next_matchable_index c = Some i" and own: "activity_event_of a (?es ! i)"
    by (cases "?es ! i"; simp add: at_activity_def)+
  note bound = next_matchable_index_SomeD(2) [OF i]
  from settle_index_SomeD [OF assms(3)] have j: "Suc (i + j) < length ?es"
    by (auto simp: later_events_def)
  have all_own: "\<forall>k \<in> set (i # ?own). activity_event_of a (?es ! k)"
    using own bound j by (auto simp: own_indices_iff later_events_def nth_drop)
  have "last (map ((!) ?es) (i # ?own)) = ?es ! last (i # ?own)" by (rule last_map) simp
  also have "last (i # ?own) = Suc i + j" by (rule own_indices_last [OF assms(3)])
  finally have "last (map ((!) ?es) (i # ?own)) = ?L ! j"
    using j by (simp add: later_events_def)
  with that resolve_next_activity [OF assms(1,2)] assms(3) all_own
    marked_consumed [OF cursor_wf_reposition(1) [OF assms(1) i]]
  show thesis by (fastforce simp: Let_def)
qed

text \<open>An activity that history records as completed is never executed again: its command is answered
  from history, with events of that activity only, ending in a success, and the events of other
  commands interleaved with it stay unconsumed.\<close>

theorem completed_activity_replayed:
  assumes "cursor_wf c" and "at_activity c i a"
    and "\<exists>f \<in> set (later_events c i). is_ActivityCompleted f \<and> is_success_of a f"
  shows "\<exists>es c'. resolve_next FActivity (KActivity (sequence_position a)) c = (Matched es, c')
    \<and> (\<forall>e \<in> set es. activity_event_of a e) \<and> is_success_of a (last es)
    \<and> (\<forall>k < length (hc_events c). hc_consumed c' ! k \<longrightarrow>
           hc_consumed c ! k \<or> activity_event_of a (hc_events c ! k))"
proof -
  from settle_index_completed [OF assms(3)] obtain j
    where j: "settle_index a (later_events c i) = Some j" "is_success_of a (later_events c i ! j)"
    by blast
  from activity_answer [OF assms(1,2) j(1)] j(2) show ?thesis by metis
qed

lemma settles_failure_cases:
  "settles a e later \<Longrightarrow> \<not> is_success_of a e \<Longrightarrow> is_terminal_failure_of a e \<and> \<not> activity_reopened_after later a"
  by (simp add: settles_def)

text \<open>A reopen supersedes the terminal failure of an activity it names: while no later terminal
  failure and no success of the activity is recorded, its command is not answered from history, so
  the activity runs live again, and nothing is consumed.\<close>

theorem reopened_activity_runs_live:
  assumes "cursor_wf c" and "at_activity c i a"
    and "later_events c i = before @ WorkflowReopened env run reopened # after"
    and "a \<in> set reopened"
    and "\<forall>e \<in> set (before @ after). \<not> is_success_of a e"
    and "\<forall>e \<in> set after. \<not> is_terminal_failure_of a e"
  shows "resolve_next FActivity (KActivity (sequence_position a)) c = (Exhausted, c\<lparr>hc_position := i\<rparr>)"
proof -
  have "settle_index a (before @ WorkflowReopened env run reopened # after) = None"
    using assms(5)
  proof (induction before)
    case Nil
    have "settle_index a after = None"
      using Nil assms(6) by (auto simp: settle_index_None_iff settles_def)
    then show ?case by (simp add: settles_def)
  next
    case (Cons e es)
    then show ?case
      using assms(4) by (auto simp: settles_def activity_reopened_after_def)
  qed
  with resolve_next_activity [OF assms(1,2)] assms(3) show ?thesis by simp
qed

section \<open>Witnesses\<close>

definition s_cursor :: "history \<Rightarrow> history_cursor" where
  "s_cursor h = \<lparr>hc_events = h, hc_consumed = replicate (length h) False, hc_position = 0\<rparr>"

lemma s_cursor_wf: "cursor_wf (s_cursor h)"
  by (simp add: s_cursor_def cursor_wf_def)

lemma s_cursor_sel [simp]:
  "hc_events (s_cursor h) = h" "hc_consumed (s_cursor h) = replicate (length h) False"
  "hc_position (s_cursor h) = 0"
  by (simp_all add: s_cursor_def)

lemma s_cursor_next:
  "next_matchable_index (s_cursor h) = position (\<lambda>e. family_for_event e \<noteq> None) h"
proof -
  have "position matchable (zip h (replicate (length h) False)) =
      position (\<lambda>e. family_for_event e \<noteq> None) h"
    by (induction h) (auto simp: matchable_def)
  then show ?thesis
    by (cases "position (\<lambda>e. family_for_event e \<noteq> None) h") (simp_all add: next_matchable_index_def)
qed

theorem cursor_operations_monotone_witness:
  "cursor_wf (snd (resolve_next FSignal (KSignal ''go'' 0) (s_cursor [s_signal 1])))
   \<and> cursor_le (s_cursor [s_signal 1])
       (snd (resolve_next FSignal (KSignal ''go'' 0) (s_cursor [s_signal 1])))"
  by (rule cursor_operations_monotone [OF s_cursor_wf, of _ FSignal "KSignal ''go'' 0"]) simp

lemma s_interleaved_at: "at_activity (s_cursor s_interleaved) 1 (ActivityId 0)"
  by (simp add: at_activity_def s_cursor_next)

lemma s_reopened_at: "at_activity (s_cursor s_reopened) 1 (ActivityId 0)"
  by (simp add: at_activity_def s_cursor_next)

theorem completed_activity_replayed_witness:
  "\<exists>es c'. resolve_next FActivity (KActivity 0) (s_cursor s_interleaved) = (Matched es, c')
    \<and> (\<forall>e \<in> set es. activity_event_of (ActivityId 0) e) \<and> is_success_of (ActivityId 0) (last es)
    \<and> (\<forall>k < length (hc_events (s_cursor s_interleaved)). hc_consumed c' ! k \<longrightarrow>
           hc_consumed (s_cursor s_interleaved) ! k
         \<or> activity_event_of (ActivityId 0) (hc_events (s_cursor s_interleaved) ! k))"
  using completed_activity_replayed [OF s_cursor_wf s_interleaved_at]
  by (simp add: later_events_def)

theorem reopened_activity_runs_live_witness:
  "resolve_next FActivity (KActivity 0) (s_cursor s_reopened) =
     (Exhausted, (s_cursor s_reopened)\<lparr>hc_position := 1\<rparr>)"
  using reopened_activity_runs_live [OF s_cursor_wf s_reopened_at,
      of "take 3 (later_events (s_cursor s_reopened) 1)" "s_env 6" s_run "[ActivityId 0]" "[]"]
  by (simp add: later_events_def)

lemma s_signal_match:
  "resolve_next FSignal (KSignal ''go'' 0) (s_cursor [s_signal 1]) =
     (Matched [s_signal 1], marked ((s_cursor [s_signal 1])\<lparr>hc_position := 0\<rparr>) [0])"
  by (simp add: resolve_next_eq s_cursor_wf s_cursor_next key_for_event_def answer_indices_def)

theorem resolve_next_matched_witness:
  "\<exists>i rest. next_matchable_index (s_cursor [s_signal 1]) = Some i
    \<and> [s_signal 1] = map ((!) [s_signal 1]) (i # rest)"
  using resolve_next_matched [OF s_cursor_wf s_signal_match] by fastforce

theorem resolve_next_mismatch_iff_witness:
  "\<exists>found. fst (resolve_next FTimer (KTimer (Named ''t'')) (s_cursor [s_signal 1])) =
     Mismatch (KTimer (Named ''t'')) found"
  by (simp add: resolve_next_mismatch_iff [OF s_cursor_wf] s_cursor_next)
     (simp add: resolve_next_eq s_cursor_wf s_cursor_next Let_def)

theorem resolve_next_progress_witness:
  "card (unconsumed (marked ((s_cursor [s_signal 1])\<lparr>hc_position := 0\<rparr>) [0]))
     < card (unconsumed (s_cursor [s_signal 1]))"
  by (rule resolve_next_progress [OF s_cursor_wf s_signal_match])

end
