(* ===== verification/Resolver.thy ===== *)
theory Resolver
  imports Cursor
begin

text \<open>
  \<^verbatim>\<open>crates/aion/src/durability/resolver.rs\<close>: the single decision point that answers a workflow command
  from recorded history, hands it to live execution, or reports a non-determinism violation
  (\<^verbatim>\<open>fail_on_violation\<close>, which records the violation, is in the recorder's theory).

  The lemmas determine the three outcomes from the history.
\<close>

record resolver =
  rs_workflow_id :: workflow_id
  rs_cursor :: history_cursor

definition resolver_new :: "workflow_id \<Rightarrow> history_cursor \<Rightarrow> resolver" where
  "resolver_new w c = \<lparr>rs_workflow_id = w, rs_cursor = c\<rparr>"

datatype resolved_command =
  CmdRecorded resolution timestamp
| CmdResumeLive "timestamp option"

fun into_outcome :: "resolved_command \<Rightarrow> resolve_outcome" where
  "into_outcome (CmdRecorded r _) = OutRecorded r"
| "into_outcome (CmdResumeLive _) = OutResumeLive"

fun family_and_key :: "command \<Rightarrow> (recorded_event_family \<times> correlation_key) option" where
  "family_and_key (RunActivity key _ _) = Some (FActivity, key)"
| "family_and_key (AwaitSignal key) = Some (FSignal, key)"
| "family_and_key (SendSignal key _) = Some (FSignal, key)"
| "family_and_key (StartTimer key _) = Some (FTimer, key)"
| "family_and_key (SpawnChild key _ _) = Some (FChild, key)"
| "family_and_key (AwaitChild _) = None"
| "family_and_key (CompleteWorkflow _) = None"

definition resolution_from_matched :: "history \<Rightarrow> (durability_error, resolved_command) result" where
  "resolution_from_matched events =
     (if events = [] then Inl (HistoryShape EmptyMatchedRange)
      else
        (let at = recorded_at (last events)
         in case last events of
              ActivityCompleted _ _ result _ \<Rightarrow> Inr (CmdRecorded (ResActivityCompleted result) at)
            | ActivityFailed _ _ err _ \<Rightarrow>
                if ae_kind err = Terminal then Inr (CmdRecorded (ResActivityFailedTerminal err) at)
                else Inl (HistoryShape (ActivityFailureNotTerminal (ae_kind err)))
            | TimerFired _ _ \<Rightarrow> Inr (CmdRecorded ResTimerFired at)
            | TimerCancelled _ _ _ \<Rightarrow> Inr (CmdRecorded ResTimerCancelled at)
            | WithTimeoutCompleted _ _ outcome result \<Rightarrow>
                Inr (CmdRecorded (ResWithTimeout outcome result) at)
            | TimerStarted _ _ _ \<Rightarrow> Inr (CmdRecorded ResTimerStarted at)
            | SignalReceived _ _ p \<Rightarrow> Inr (CmdRecorded (ResSignalDelivered p) at)
            | SignalSent _ _ _ _ \<Rightarrow> Inr (CmdRecorded ResSignalSent at)
            | ChildWorkflowCompleted _ _ result \<Rightarrow> Inr (CmdRecorded (ResChildCompleted result) at)
            | ChildWorkflowFailed _ _ err \<Rightarrow> Inr (CmdRecorded (ResChildFailed err) at)
            | ChildWorkflowStarted _ child _ _ _ \<Rightarrow> Inr (CmdRecorded (ResChildStarted child) at)
            | ActivityCancelled _ _ _ \<Rightarrow>
                Inl (HistoryShape (CancellationNotRepresentable (event_kind (last events))))
            | ChildWorkflowCancelled _ _ \<Rightarrow>
                Inl (HistoryShape (CancellationNotRepresentable (event_kind (last events))))
            | _ \<Rightarrow> Inl (HistoryShape (NoRecordedCommandOutcome (event_kind (last events))))))"

definition mismatch_error ::
  "resolver \<Rightarrow> recorded_event_family \<Rightarrow> correlation_key \<Rightarrow> found_event_descriptor
    \<Rightarrow> non_determinism_error" where
  "mismatch_error rs family key found =
     \<lparr>nd_workflow_id = rs_workflow_id rs, nd_seq = fd_seq found,
      nd_expected = ExpectedFamilyKey family key,
      nd_found = FoundEvent (fd_kind found) (fd_family found) (fd_key found)\<rparr>"

definition resolve_with_consumed ::
  "command \<Rightarrow> resolver \<Rightarrow> (durability_error, resolved_command) result \<times> resolver" where
  "resolve_with_consumed command rs =
     (case command of
        AwaitChild child \<Rightarrow>
          (let (res, c) = resolve_child_terminal child (rs_cursor rs); rs' = rs\<lparr>rs_cursor := c\<rparr>
           in case res of
                ChildMatched events \<Rightarrow> (resolution_from_matched events, rs')
              | ChildExhausted \<Rightarrow> (Inr (CmdResumeLive None), rs')
              | ChildMismatch found \<Rightarrow>
                  (Inl (NonDeterminism
                     \<lparr>nd_workflow_id = rs_workflow_id rs, nd_seq = fd_seq found,
                      nd_expected = ExpectedChildTerminal child,
                      nd_found = FoundEvent (fd_kind found) (fd_family found) (fd_key found)\<rparr>), rs'))
      | _ \<Rightarrow>
          (case family_and_key command of
             None \<Rightarrow> (Inr (CmdResumeLive None), rs)
           | Some (family, key) \<Rightarrow>
               (let (res, c) = resolve_next family key (rs_cursor rs); rs' = rs\<lparr>rs_cursor := c\<rparr>
                in case res of
                     Matched events \<Rightarrow> (resolution_from_matched events, rs')
                   | Exhausted \<Rightarrow> (Inr (CmdResumeLive None), rs')
                   | Mismatch expected_key found \<Rightarrow>
                       (Inl (NonDeterminism (mismatch_error rs' family expected_key found)), rs'))))"

definition resolve :: "command \<Rightarrow> resolver \<Rightarrow> (durability_error, resolve_outcome) result \<times> resolver" where
  "resolve command rs =
     (let (res, rs') = resolve_with_consumed command rs in (map_sum id into_outcome res, rs'))"

definition next_command_ordinal :: "resolver \<Rightarrow> recorded_event_family \<Rightarrow> u64 option" where
  "next_command_ordinal rs family =
     (case next_key (rs_cursor rs) family of
        Some (KActivity n) \<Rightarrow> Some n
      | Some (KChild n) \<Rightarrow> Some n
      | _ \<Rightarrow> None)"

definition fast_forward_to :: "correlation_key \<Rightarrow> resolver \<Rightarrow> resolver" where
  "fast_forward_to key rs = rs\<lparr>rs_cursor := fast_forward_to_key key (rs_cursor rs)\<rparr>"

definition resolver_fast_forward_to_child_terminal :: "workflow_id \<Rightarrow> resolver \<Rightarrow> resolver" where
  "resolver_fast_forward_to_child_terminal child rs =
     rs\<lparr>rs_cursor := fast_forward_to_child_terminal child (rs_cursor rs)\<rparr>"

section \<open>What resolution can return\<close>

abbreviation resolver_wf :: "resolver \<Rightarrow> bool" where
  "resolver_wf rs \<equiv> cursor_wf (rs_cursor rs)"

lemma resolve_with_consumed_wf:
  "resolver_wf rs \<Longrightarrow> resolver_wf (snd (resolve_with_consumed cmd rs))
     \<and> cursor_le (rs_cursor rs) (rs_cursor (snd (resolve_with_consumed cmd rs)))"
  using resolve_next_le [of "rs_cursor rs"] resolve_child_terminal_le [of "rs_cursor rs"]
  by (cases cmd)
     (auto simp: resolve_with_consumed_def Let_def split: prod.split cursor_resolve_result.split
        child_terminal_resolve_result.split, (metis snd_conv)+)

lemma resolve_keyed:
  assumes "family_and_key cmd = Some (family, key)"
  shows "resolve_with_consumed cmd rs =
    (let (res, c) = resolve_next family key (rs_cursor rs); rs' = rs\<lparr>rs_cursor := c\<rparr>
     in case res of
          Matched events \<Rightarrow> (resolution_from_matched events, rs')
        | Exhausted \<Rightarrow> (Inr (CmdResumeLive None), rs')
        | Mismatch expected_key found \<Rightarrow>
            (Inl (NonDeterminism (mismatch_error rs' family expected_key found)), rs'))"
  using assms by (cases cmd) (auto simp: resolve_with_consumed_def)

lemma settling_resolution:
  "settles a e later \<Longrightarrow> es \<noteq> [] \<Longrightarrow> last es = e
   \<Longrightarrow> is_ok (resolution_from_matched es) \<or> is_ActivityCancelled e"
  by (cases e) (auto simp: settles_def resolution_from_matched_def is_retryable_def Let_def
      intro: activity_error_kind.exhaust)

text \<open>The answer of a non-activity command always has a representable resolution.\<close>

lemma answer_resolution:
  assumes "cursor_wf c" and "resolve_next family key c = (Matched es, c')"
  shows "is_ok (resolution_from_matched es) \<or>
    (family = FActivity \<and> es \<noteq> [] \<and> is_ActivityCancelled (last es))"
proof -
  from assms obtain i idx where i: "next_matchable_index c = Some i"
    and fam: "family_for_event (hc_events c ! i) = Some family" and key: "key_for_event (hc_events c) i = Some key"
    and ans: "answer_indices (hc_events c) key i = Some idx"
    and es: "es = map ((!) (hc_events c)) idx"
    by (rule resolve_next_MatchedE)
  show ?thesis
  proof (cases "hc_events c ! i")
    case (ActivityScheduled env a ty inp q nd)
    with ans obtain j where j: "settle_index a (drop (Suc i) (hc_events c)) = Some j"
      and idx: "idx = i # own_indices a (Suc i) (take (Suc j) (drop (Suc i) (hc_events c)))"
      by (auto simp: answer_indices_def)
    from settle_index_SomeD [OF j]
    have "settles a (drop (Suc i) (hc_events c) ! j) (drop (Suc j) (drop (Suc i) (hc_events c)))"
      and bound: "Suc (i + j) < length (hc_events c)" by auto
    moreover have "last es = drop (Suc i) (hc_events c) ! j"
      using own_indices_last [OF j, of i "Suc i"] bound idx es
      by (simp add: last_map split: if_splits)
    ultimately have "is_ok (resolution_from_matched es) \<or> is_ActivityCancelled (last es)"
      using settling_resolution es idx by auto
    with ActivityScheduled fam es idx show ?thesis by auto
  next
    case (TimerStarted env t at)
    with ans es fam show ?thesis
      by (cases "hc_events c ! Suc i"; cases key)
         (auto simp: answer_indices_def resolution_from_matched_def split: if_splits)
  qed (use ans es fam key in \<open>auto simp: answer_indices_def resolution_from_matched_def
         key_for_event_def split: if_splits\<close>)
qed

text \<open>Resolution against a history fails in two ways only: with a non-determinism violation that
  names the workflow and the sequence number of the next unconsumed command event, or, for an activity
  command alone, because the recorded outcome is a cancellation.  The resolver's other history-shape
  errors (an empty range, a retryable failure, an event that is no outcome) cannot occur.\<close>

theorem resolve_errors:
  assumes "resolver_wf rs" and "resolve_with_consumed cmd rs = (Inl err, rs')"
  shows "(\<exists>nd i. err = NonDeterminism nd \<and> nd_workflow_id nd = rs_workflow_id rs
            \<and> next_matchable_index (rs_cursor rs) = Some i
            \<and> nd_seq nd = seq (hc_events (rs_cursor rs) ! i))
       \<or> (err = HistoryShape (CancellationNotRepresentable ''ActivityCancelled'')
            \<and> (\<exists>key ty inp. cmd = RunActivity key ty inp))"
proof (cases "family_and_key cmd")
  case None
  with assms show ?thesis
    by (cases cmd)
       (auto simp: resolve_with_consumed_def resolve_child_terminal_eq resolution_from_matched_def
          descriptor_at_def Let_def split: option.splits if_splits event.splits
          elim!: is_child_terminal_for.elims)
next
  case (Some fk)
  then obtain family key where fk: "family_and_key cmd = Some (family, key)" by (cases fk) auto
  obtain res c' where res: "resolve_next family key (rs_cursor rs) = (res, c')" by fastforce
  show ?thesis
  proof (cases res)
    case (Matched es)
    with assms(2) res have "resolution_from_matched es = Inl err" by (simp add: resolve_keyed [OF fk])
    with answer_resolution [OF assms(1), of family key es c'] res Matched fk show ?thesis
      by (cases cmd; cases "last es") (auto simp: resolution_from_matched_def)
  next
    case (Mismatch k found)
    with res assms(2) show ?thesis
      by (auto simp: resolve_keyed [OF fk] mismatch_error_def descriptor_at_def
          dest!: resolve_next_MismatchD [OF assms(1)])
  qed (use assms(2) res in \<open>simp add: resolve_keyed [OF fk]\<close>)
qed

theorem resolve_errors_witness:
  "\<exists>nd. fst (resolve_with_consumed (RunActivity (KActivity 0) ''charge'' s_payload)
      (resolver_new s_workflow (s_cursor [s_signal 3]))) = Inl (NonDeterminism nd) \<and> nd_seq nd = 3"
proof -
  let ?rs = "resolver_new s_workflow (s_cursor [s_signal 3])"
  let ?cmd = "RunActivity (KActivity 0) ''charge'' s_payload"
  have wf: "resolver_wf ?rs" by (simp add: resolver_new_def s_cursor_wf)
  obtain err rs' where err: "resolve_with_consumed ?cmd ?rs = (Inl err, rs')"
    and nd: "\<exists>nd. err = NonDeterminism nd"
    by (simp add: resolve_with_consumed_def resolver_new_def resolve_next_eq s_cursor_wf s_cursor_next
        Let_def)
  from resolve_errors [OF wf err] err nd show ?thesis
    by (auto simp: resolver_new_def s_cursor_next seq_def)
qed

text \<open>Replaying a run whose activity completed returns the recorded result: the resolver answers
  the command with the payload of a completion of that very activity recorded in the history, and
  never hands the activity to live execution.\<close>

theorem completed_activity_resolution:
  assumes "resolver_wf rs" and "at_activity (rs_cursor rs) i a"
    and "\<exists>f \<in> set (later_events (rs_cursor rs) i). is_ActivityCompleted f \<and> is_success_of a f"
    and "\<forall>f \<in> set (later_events (rs_cursor rs) i). is_ActivityCancelled f \<longrightarrow> \<not> is_success_of a f"
  shows "\<exists>env result attempt.
      ActivityCompleted env a result attempt \<in> set (later_events (rs_cursor rs) i)
    \<and> fst (resolve (RunActivity (KActivity (sequence_position a)) ty inp) rs) =
        Inr (OutRecorded (ResActivityCompleted result))"
proof -
  let ?L = "later_events (rs_cursor rs) i"
  from settle_index_completed [OF assms(3)] obtain j
    where j: "settle_index a ?L = Some j" and ok: "is_success_of a (?L ! j)" by blast
  obtain es c'
    where res: "resolve_next FActivity (KActivity (sequence_position a)) (rs_cursor rs) = (Matched es, c')"
      and lst: "es \<noteq> []" "last es = ?L ! j"
    by (rule activity_answer [OF assms(1,2) j])
  from settle_index_SomeD [OF j] have mem: "?L ! j \<in> set ?L" by simp
  with ok assms(4) obtain env result att where f: "?L ! j = ActivityCompleted env a result att"
    by (cases "?L ! j") fastforce+
  have "fst (resolve (RunActivity (KActivity (sequence_position a)) ty inp) rs) =
      Inr (OutRecorded (ResActivityCompleted result))"
    using res lst f by (simp add: resolve_def resolve_with_consumed_def resolution_from_matched_def)
  with mem f show ?thesis by metis
qed

theorem completed_activity_resolution_witness:
  "fst (resolve (RunActivity (KActivity 0) ''charge'' s_payload)
     (resolver_new s_workflow (s_cursor s_interleaved))) =
   Inr (OutRecorded (ResActivityCompleted s_payload))"
  using completed_activity_resolution [of "resolver_new s_workflow (s_cursor s_interleaved)" 1
      "ActivityId 0" "''charge''" s_payload]
    s_interleaved_at
  by (simp add: resolver_new_def s_cursor_wf later_events_def)

end
