(* ===== verification/Replay.thy ===== *)
theory Replay
  imports Resolver
begin

text \<open>
  \<^verbatim>\<open>crates/aion/src/durability/replay.rs\<close> and \<^verbatim>\<open>determinism.rs\<close>: the driver that feeds the commands of a
  re-executed workflow to the resolver until one has to run live, or the recorded run turns out to have
  ended, and the workflow-visible clock it advances.

  The lemmas show that the clock only ever shows instants recorded in the run, that a run which has ended
  is never continued live, and how a drive over a command stream splits.
\<close>

section \<open>The determinism context\<close>

record determinism_context =
  dc_current_recorded_at :: timestamp

definition determinism_new :: "timestamp \<Rightarrow> determinism_context" where
  "determinism_new at = \<lparr>dc_current_recorded_at = at\<rparr>"

definition advance_to_recorded_at :: "timestamp \<Rightarrow> determinism_context \<Rightarrow> determinism_context" where
  "advance_to_recorded_at at d = d\<lparr>dc_current_recorded_at := at\<rparr>"

section \<open>The driver\<close>

record terminal_record =
  tr_seq :: u64
  tr_terminal :: replay_terminal

record replay =
  rp_workflow_id :: workflow_id
  rp_resolver :: resolver
  rp_determinism :: determinism_context
  rp_terminal :: "terminal_record option"

datatype replay_step = StepRecorded resolution | StepResumeLive | StepTerminal replay_terminal

datatype replay_outcome =
  AwaitingCommand "resolution list"
| ResumeLiveAt nat command "resolution list" \<comment> \<open>command_index, command, recorded\<close>
| ReachedTerminal replay_terminal "resolution list"

definition workflow_started_at :: "workflow_id \<Rightarrow> history \<Rightarrow> (durability_error, timestamp) result" where
  "workflow_started_at w h =
     ok_or (find_map (\<lambda>e. if is_WorkflowStarted e \<and> workflow_id_of e = w then Some (recorded_at e) else None) h)
       (HistoryShape (NoWorkflowStartedForWorkflow w))"

fun replay_terminal_of :: "event \<Rightarrow> replay_terminal option" where
  "replay_terminal_of (WorkflowCompleted _ result) = Some (RtCompleted result)"
| "replay_terminal_of (WorkflowFailed _ err) = Some (RtFailed err)"
| "replay_terminal_of (WorkflowCancelled _ reason) = Some (RtCancelled reason)"
| "replay_terminal_of (WorkflowTimedOut _ timeout) = Some (RtTimedOut timeout)"
| "replay_terminal_of (WorkflowContinuedAsNew _ input _ _) = Some (RtContinuedAsNew input)"
| "replay_terminal_of _ = None"

definition terminal_from_history :: "workflow_id \<Rightarrow> history \<Rightarrow> terminal_record option" where
  "terminal_from_history w h =
     (case current_lease_terminal h of
        None \<Rightarrow> None
      | Some e \<Rightarrow>
          if workflow_id_of e \<noteq> w then None
          else map_option (\<lambda>t. \<lparr>tr_seq = seq e, tr_terminal = t\<rparr>) (replay_terminal_of e))"

definition replay_new :: "workflow_id \<Rightarrow> run_id \<Rightarrow> history \<Rightarrow> (durability_error, replay) result" where
  "replay_new w run h =
     bind_res (current_run_segment h run) (\<lambda>segment.
     bind_res (workflow_started_at w segment) (\<lambda>started_at.
     bind_res (cursor_new segment) (\<lambda>cursor.
       Inr \<lparr>rp_workflow_id = w, rp_resolver = resolver_new w cursor,
            rp_determinism = determinism_new started_at,
            rp_terminal = terminal_from_history w segment\<rparr>)))"

definition replay_now :: "replay \<Rightarrow> timestamp" where
  "replay_now rp = dc_current_recorded_at (rp_determinism rp)"

definition resume_or_terminal :: "command \<Rightarrow> replay \<Rightarrow> (durability_error, replay_step) result" where
  "resume_or_terminal command rp =
     (case rp_terminal rp of
        None \<Rightarrow> Inr StepResumeLive
      | Some t \<Rightarrow>
          (case (command, tr_terminal t) of
             (CompleteWorkflow result, RtCompleted recorded_result) \<Rightarrow>
               if result = recorded_result then Inr (StepTerminal (tr_terminal t))
               else Inl (NonDeterminism
                 \<lparr>nd_workflow_id = rp_workflow_id rp, nd_seq = tr_seq t, nd_expected = ExpectedCommand command,
                  nd_found = FoundTerminal (tr_terminal t)\<rparr>)
           | _ \<Rightarrow> Inl (NonDeterminism
                 \<lparr>nd_workflow_id = rp_workflow_id rp, nd_seq = tr_seq t, nd_expected = ExpectedCommand command,
                  nd_found = FoundTerminal (tr_terminal t)\<rparr>)))"

definition replay_step_with :: "command \<Rightarrow> replay \<Rightarrow> (durability_error, replay_step) result \<times> replay" where
  "replay_step_with command rp =
     (let (res, rs) = resolve_with_consumed command (rp_resolver rp); rp' = rp\<lparr>rp_resolver := rs\<rparr>
      in case res of
           Inl e \<Rightarrow> (Inl e, rp')
         | Inr (CmdRecorded resolution at) \<Rightarrow>
             (Inr (StepRecorded resolution), rp'\<lparr>rp_determinism := advance_to_recorded_at at (rp_determinism rp')\<rparr>)
         | Inr (CmdResumeLive at) \<Rightarrow>
             (let rp'' = (case at of
                  Some t \<Rightarrow> rp'\<lparr>rp_determinism := advance_to_recorded_at t (rp_determinism rp')\<rparr>
                | None \<Rightarrow> rp')
              in (resume_or_terminal command rp'', rp'')))"

fun drive_from ::
  "nat \<Rightarrow> resolution list \<Rightarrow> command list \<Rightarrow> replay \<Rightarrow> (durability_error, replay_outcome) result \<times> replay" where
  "drive_from index recorded [] rp =
     (Inr (case rp_terminal rp of
        Some t \<Rightarrow> ReachedTerminal (tr_terminal t) recorded
      | None \<Rightarrow> AwaitingCommand recorded), rp)"
| "drive_from index recorded (command # commands) rp =
     (case replay_step_with command rp of
        (Inl e, rp') \<Rightarrow> (Inl e, rp')
      | (Inr (StepRecorded resolution), rp') \<Rightarrow> drive_from (Suc index) (recorded @ [resolution]) commands rp'
      | (Inr StepResumeLive, rp') \<Rightarrow> (Inr (ResumeLiveAt index command recorded), rp')
      | (Inr (StepTerminal t), rp') \<Rightarrow> (Inr (ReachedTerminal t recorded), rp'))"

definition drive :: "command list \<Rightarrow> replay \<Rightarrow> (durability_error, replay_outcome) result \<times> replay" where
  "drive commands rp = drive_from 0 [] commands rp"

section \<open>The driver's invariant\<close>

text \<open>The segment is fixed, the cursor well formed, and the clock shows an instant recorded in it.\<close>

definition replay_wf :: "history \<Rightarrow> replay \<Rightarrow> bool" where
  "replay_wf segment rp \<longleftrightarrow>
     resolver_wf (rp_resolver rp) \<and> hc_events (rs_cursor (rp_resolver rp)) = segment
   \<and> replay_now rp \<in> recorded_at ` set segment
   \<and> rp_terminal rp = terminal_from_history (rp_workflow_id rp) segment"

lemma resolution_at:
  "resolution_from_matched es = Inr rc \<Longrightarrow> es \<noteq> [] \<and> (\<exists>res. rc = CmdRecorded res (recorded_at (last es)))"
  by (auto simp: resolution_from_matched_def Let_def split: if_splits event.splits)

lemma matched_in_history:
  assumes "cursor_wf c" and "resolve_next family key c = (Matched es, c')"
  shows "set es \<subseteq> set (hc_events c)"
proof -
  from assms obtain i idx where i: "next_matchable_index c = Some i"
    and ans: "answer_indices (hc_events c) key i = Some idx" and es: "es = map ((!) (hc_events c)) idx"
    by (rule resolve_next_MatchedE)
  from answer_indices_bounds [OF ans next_matchable_index_SomeD(2) [OF i]] next_matchable_index_SomeD(2) [OF i]
  show ?thesis by (auto simp: es)
qed

text \<open>A recorded answer carries the instant of an event of the run; a live one carries none.\<close>

lemma resolved_instant:
  assumes "resolver_wf rs" and "resolve_with_consumed cmd rs = (Inr rc, rs')"
  shows "(\<exists>res at. rc = CmdRecorded res at \<and> at \<in> recorded_at ` set (hc_events (rs_cursor rs)))
    \<or> rc = CmdResumeLive None"
proof (cases "family_and_key cmd")
  case None
  show ?thesis
  proof (cases cmd)
    case (AwaitChild child)
    from assms show ?thesis
      by (auto simp: AwaitChild resolve_with_consumed_def resolve_child_terminal_eq Let_def
          split: option.splits if_splits dest!: resolution_at next_matchable_index_SomeD(2))
  qed (use None assms(2) in \<open>auto simp: resolve_with_consumed_def\<close>)
next
  case (Some fk)
  then obtain family key where fk: "family_and_key cmd = Some (family, key)" by (cases fk) auto
  obtain res c' where res: "resolve_next family key (rs_cursor rs) = (res, c')" by fastforce
  show ?thesis
  proof (cases res)
    case (Matched es)
    with assms(2) res have rc: "resolution_from_matched es = Inr rc" by (simp add: resolve_keyed [OF fk])
    have "last es \<in> set (hc_events (rs_cursor rs))"
      using resolution_at [OF rc] matched_in_history [OF assms(1), of family key es c'] res Matched last_in_set [of es]
      by auto
    with resolution_at [OF rc] show ?thesis by auto
  qed (use assms(2) res in \<open>auto simp: resolve_keyed [OF fk] Let_def\<close>)
qed

lemma replay_new_wf:
  assumes "replay_new w run h = Inr rp"
  shows "\<exists>segment. current_run_segment h run = Inr segment \<and> replay_wf segment rp"
proof -
  from assms obtain segment started c where seg: "current_run_segment h run = Inr segment"
    and st: "workflow_started_at w segment = Inr started" and c: "cursor_new segment = Inr c"
    and rp: "rp = \<lparr>rp_workflow_id = w, rp_resolver = resolver_new w c,
       rp_determinism = determinism_new started, rp_terminal = terminal_from_history w segment\<rparr>"
    by (auto simp: replay_new_def bind_res_eq_Inr_iff)
  from st have "started \<in> recorded_at ` set segment"
    by (auto simp: workflow_started_at_def dest!: find_map_SomeD split: if_splits)
  with cursor_new_wf [OF c] show ?thesis
    by (intro exI [of _ segment])
       (simp add: seg rp replay_wf_def resolver_new_def replay_now_def determinism_new_def)
qed

lemma step_wf:
  assumes "replay_wf segment rp" and "replay_step_with cmd rp = (res, rp')"
  shows "replay_wf segment rp' \<and> rp_terminal rp' = rp_terminal rp"
proof -
  obtain r rs' where r: "resolve_with_consumed cmd (rp_resolver rp) = (r, rs')" by fastforce
  have wf: "resolver_wf (rp_resolver rp)" and ev: "hc_events (rs_cursor (rp_resolver rp)) = segment"
    using assms(1) by (simp_all add: replay_wf_def)
  from resolve_with_consumed_wf [OF wf, of cmd] r
  have "resolver_wf rs' \<and> hc_events (rs_cursor rs') = segment" by (simp add: cursor_le_def ev)
  note frame = this
  show ?thesis
  proof (cases r)
    case (Inl e)
    with assms r frame show ?thesis by (auto simp: replay_step_with_def replay_wf_def replay_now_def)
  next
    case (Inr rc)
    with resolved_instant [OF wf, of cmd rc rs'] r ev consider
      (recorded) res at where "rc = CmdRecorded res at" "at \<in> recorded_at ` set segment"
      | (live) "rc = CmdResumeLive None" by auto
    then show ?thesis
      using assms r Inr frame
      by cases (auto simp: replay_step_with_def replay_wf_def replay_now_def advance_to_recorded_at_def Let_def)
  qed
qed

lemma drive_from_wf:
  "replay_wf segment rp \<Longrightarrow> drive_from n recorded cmds rp = (res, rp')
   \<Longrightarrow> replay_wf segment rp' \<and> rp_terminal rp' = rp_terminal rp"
proof (induction n recorded cmds rp rule: drive_from.induct)
  case (2 n recorded cmd cmds rp)
  obtain r rp1 where step: "replay_step_with cmd rp = (r, rp1)" by fastforce
  note wf = step_wf [OF 2(2) step]
  show ?case
  proof (cases "\<exists>resolution. r = Inr (StepRecorded resolution)")
    case True
    then obtain resolution where r: "r = Inr (StepRecorded resolution)" by blast
    from 2(1) [OF step [symmetric] r refl] wf 2(3) show ?thesis by (simp add: step r)
  next
    case False
    with 2(3) wf show ?thesis by (auto simp: step split: sum.splits replay_step.splits)
  qed
qed simp

section \<open>Ended runs\<close>

lemma ended_not_live:
  "rp_terminal rp = Some t \<Longrightarrow> resume_or_terminal cmd rp \<noteq> Inr StepResumeLive
   \<and> (resume_or_terminal cmd rp = Inr (StepTerminal t') \<longrightarrow>
        t' = tr_terminal t \<and> (\<exists>result. cmd = CompleteWorkflow result \<and> t' = RtCompleted result))"
  by (auto simp: resume_or_terminal_def split: command.splits replay_terminal.splits if_splits)

lemma step_ended:
  assumes "replay_wf segment rp" and "rp_terminal rp = Some t" and "replay_step_with cmd rp = (res, rp')"
  shows "res \<noteq> Inr StepResumeLive \<and> (res = Inr (StepTerminal t') \<longrightarrow> t' = tr_terminal t)"
proof -
  obtain r rs' where r: "resolve_with_consumed cmd (rp_resolver rp) = (r, rs')" by fastforce
  have ends: "rp_terminal (rp\<lparr>rp_resolver := rs'\<rparr>) = Some t" using assms(2) by simp
  have wf: "resolver_wf (rp_resolver rp)" using assms(1) by (simp add: replay_wf_def)
  show ?thesis
  proof (cases r)
    case (Inr rc)
    with resolved_instant [OF wf, of cmd rc rs'] r consider
      (recorded) res at where "rc = CmdRecorded res at" | (live) "rc = CmdResumeLive None" by auto
    then show ?thesis
      using assms(3) r Inr ended_not_live [OF ends, of cmd t'] by cases (auto simp: replay_step_with_def Let_def)
  qed (use assms(3) r in \<open>auto simp: replay_step_with_def\<close>)
qed

lemma drive_from_ended:
  "replay_wf segment rp \<Longrightarrow> rp_terminal rp = Some t \<Longrightarrow> drive_from n recorded cmds rp = (Inr outcome, rp')
   \<Longrightarrow> \<exists>rs. outcome = ReachedTerminal (tr_terminal t) rs"
proof (induction n recorded cmds rp rule: drive_from.induct)
  case (2 n recorded cmd cmds rp)
  obtain r rp1 where step: "replay_step_with cmd rp = (r, rp1)" by fastforce
  note wf = step_wf [OF 2(2) step] and ended = step_ended [OF 2(2,3) step]
  show ?case
  proof (cases "\<exists>resolution. r = Inr (StepRecorded resolution)")
    case True
    then obtain resolution where r: "r = Inr (StepRecorded resolution)" by blast
    from 2(1) [OF step [symmetric] r refl] wf 2(3,4) show ?thesis by (simp add: step r)
  next
    case False
    with 2(4) ended show ?thesis by (auto simp: step split: sum.splits replay_step.splits)
  qed
qed auto

section \<open>Properties\<close>

text \<open>Workflow-visible time is deterministic: whatever commands a replay is driven with, and whether
  they are answered, refused or handed over, the instant the workflow sees is the recorded instant of an
  event of the run being replayed, never the wall clock.\<close>

theorem replay_time_recorded:
  assumes "replay_new w run h = Inr rp" and "drive cmds rp = (res, rp')"
  shows "\<exists>segment. current_run_segment h run = Inr segment
    \<and> replay_now rp \<in> recorded_at ` set segment \<and> replay_now rp' \<in> recorded_at ` set segment"
proof -
  from replay_new_wf [OF assms(1)] obtain segment
    where seg: "current_run_segment h run = Inr segment" and wf: "replay_wf segment rp" by blast
  from drive_from_wf [OF wf] assms(2) have "replay_wf segment rp'" by (simp add: drive_def)
  with seg wf show ?thesis by (auto simp: replay_wf_def)
qed

text \<open>A run that has ended is never continued live: replaying it against any command stream either
  reports the recorded terminal state or fails (with the violation the stream exposes); it never reaches
  a resume point and never waits for another command.\<close>

theorem ended_run_not_resumed:
  assumes "replay_new w run h = Inr rp" and "current_run_segment h run = Inr segment"
    and "terminal_from_history w segment = Some t" and "drive cmds rp = (Inr outcome, rp')"
  shows "\<exists>recorded. outcome = ReachedTerminal (tr_terminal t) recorded"
proof -
  from replay_new_wf [OF assms(1)] assms(2) have wf: "replay_wf segment rp" by auto
  moreover have "rp_workflow_id rp = w" using assms(1) by (auto simp: replay_new_def bind_res_eq_Inr_iff)
  ultimately have "rp_terminal rp = Some t" using assms(3) by (simp add: replay_wf_def)
  from drive_from_ended [OF wf this] assms(4) show ?thesis by (simp add: drive_def)
qed

text \<open>Reopening a run lifts its terminal state: with the reopen marker appended there is nothing to
  end the replay, so a command the history does not answer is handed to live execution instead of being
  rejected.\<close>

theorem reopened_run_resumes:
  assumes "replay_new w run (h @ [WorkflowReopened env r as]) = Inr rp"
    and "resolve_with_consumed cmd (rp_resolver rp) = (Inr (CmdResumeLive None), rs')"
  shows "fst (replay_step_with cmd rp) = Inr StepResumeLive"
proof -
  from replay_new_wf [OF assms(1)] obtain segment where
    seg: "current_run_segment (h @ [WorkflowReopened env r as]) run = Inr segment" and wf: "replay_wf segment rp"
    by blast
  then obtain pre where "segment = pre @ [WorkflowReopened env r as]"
    by (auto simp: current_run_segment_def position_append split: option.splits dest: position_SomeD(1))
  then have "rp_terminal rp = None"
    using wf by (simp add: replay_wf_def terminal_from_history_def current_lease_terminal_snoc)
  with assms(2) show ?thesis by (simp add: replay_step_with_def resume_or_terminal_def Let_def)
qed

section \<open>Witnesses\<close>

abbreviation s_run_activity :: command where
  "s_run_activity \<equiv> RunActivity (KActivity 0) ''charge'' s_payload"

definition s_replay :: "history \<Rightarrow> replay" where
  "s_replay h = \<lparr>rp_workflow_id = s_workflow, rp_resolver = resolver_new s_workflow (s_cursor h),
     rp_determinism = determinism_new 100, rp_terminal = terminal_from_history s_workflow h\<rparr>"

lemma s_replay_new:
  assumes "sorted (map seq (s_started 1 # h))"
  shows "replay_new s_workflow s_run (s_started 1 # h) = Inr (s_replay (s_started 1 # h))"
  using assms [folded decreasing_pair_None_iff]
  by (simp add: replay_new_def current_run_segment_def workflow_started_at_def workflow_id_of_def recorded_at_def
      cursor_new_def s_replay_def s_cursor_def)

theorem replay_time_recorded_witness:
  "replay_now (snd (drive [s_run_activity] (s_replay s_interleaved))) \<in> recorded_at ` set s_interleaved"
proof -
  obtain res rp' where d: "drive [s_run_activity] (s_replay s_interleaved) = (res, rp')" by fastforce
  have new: "replay_new s_workflow s_run s_interleaved = Inr (s_replay s_interleaved)"
    by (rule s_replay_new) (simp add: seq_def)
  from replay_time_recorded [OF new d] d show ?thesis by (auto simp: current_run_segment_def)
qed

theorem ended_run_not_resumed_witness:
  "\<exists>recorded. fst (drive [] (s_replay [s_started 1, WorkflowCompleted (s_env 2) s_payload])) =
     Inr (ReachedTerminal (RtCompleted s_payload) recorded)"
proof -
  let ?h = "[s_started 1, WorkflowCompleted (s_env 2) s_payload]"
  have new: "replay_new s_workflow s_run ?h = Inr (s_replay ?h)" by (rule s_replay_new) (simp add: seq_def)
  have seg: "current_run_segment ?h s_run = Inr ?h" by (simp add: current_run_segment_def)
  have t: "terminal_from_history s_workflow ?h = Some \<lparr>tr_seq = 2, tr_terminal = RtCompleted s_payload\<rparr>"
    by (simp add: terminal_from_history_def current_lease_terminal_def workflow_id_of_def seq_def)
  obtain outcome rp' where d: "drive [] (s_replay ?h) = (Inr outcome, rp')" by (simp add: drive_def)
  from ended_run_not_resumed [OF new seg t d] d show ?thesis by auto
qed

theorem reopened_run_resumes_witness:
  "fst (replay_step_with s_run_activity (s_replay s_reopened)) = Inr StepResumeLive"
proof -
  have "replay_new s_workflow s_run (butlast s_reopened @ [WorkflowReopened (s_env 6) s_run [ActivityId 0]])
      = Inr (s_replay s_reopened)"
    using s_replay_new [of "tl s_reopened"] by (simp add: seq_def)
  moreover obtain rs' where
    "resolve_with_consumed s_run_activity (rp_resolver (s_replay s_reopened)) = (Inr (CmdResumeLive None), rs')"
    by (simp add: resolve_keyed s_replay_def resolver_new_def later_events_def settles_def
        activity_reopened_after_def resolve_next_activity [OF s_cursor_wf s_reopened_at, simplified])
  ultimately show ?thesis by (rule reopened_run_resumes)
qed

end
