(* ===== verification/Visibility.thy ===== *)
theory Visibility
  imports Correlation
begin

text \<open>
  \<^verbatim>\<open>crates/aion-store/src/visibility.rs\<close>: the per-run projection rows of the visibility index, the list
  filter and its search-attribute predicates.  A \<^verbatim>\<open>WorkflowSummary\<close> has the fields of a
  \<^verbatim>\<open>VisibilityRecord\<close> and the conversion copies them, so one record type serves for both.
\<close>

record visibility_record =
  vr_workflow_id :: workflow_id
  vr_run_id :: run_id
  vr_workflow_type :: string
  vr_status :: workflow_status
  vr_start_time :: timestamp
  vr_close_time :: "timestamp option"
  vr_failed_step :: "string option"
  vr_failure_reason :: "string option"
  vr_search_attributes :: attributes

datatype search_attribute_predicate =
  PEquals string search_attribute_value
| PGreaterThan string search_attribute_value
| PLessThan string search_attribute_value
| PContains string string

fun attribute_value_eq :: "search_attribute_value \<Rightarrow> search_attribute_value \<Rightarrow> bool" where
  "attribute_value_eq (SFloat x) (SFloat y) = f64_eq x y"
| "attribute_value_eq x y = (x = y)"

fun stored_greater_than :: "search_attribute_value \<Rightarrow> search_attribute_value \<Rightarrow> bool" where
  "stored_greater_than (SInt stored) (SInt v) = (sint v < sint stored)"
| "stored_greater_than (SFloat stored) (SFloat v) = f64_less v stored"
| "stored_greater_than (SDatetime stored) (SDatetime v) = (v < stored)"
| "stored_greater_than _ _ = False"

fun stored_less_than :: "search_attribute_value \<Rightarrow> search_attribute_value \<Rightarrow> bool" where
  "stored_less_than (SInt stored) (SInt v) = (sint stored < sint v)"
| "stored_less_than (SFloat stored) (SFloat v) = f64_less stored v"
| "stored_less_than (SDatetime stored) (SDatetime v) = (stored < v)"
| "stored_less_than _ _ = False"

fun predicate_matches :: "search_attribute_predicate \<Rightarrow> visibility_record \<Rightarrow> bool" where
  "predicate_matches (PEquals name v) s =
     (case map_of (vr_search_attributes s) name of None \<Rightarrow> False | Some stored \<Rightarrow> attribute_value_eq stored v)"
| "predicate_matches (PGreaterThan name v) s =
     (case map_of (vr_search_attributes s) name of None \<Rightarrow> False | Some stored \<Rightarrow> stored_greater_than stored v)"
| "predicate_matches (PLessThan name v) s =
     (case map_of (vr_search_attributes s) name of None \<Rightarrow> False | Some stored \<Rightarrow> stored_less_than stored v)"
| "predicate_matches (PContains name keyword) s =
     (case map_of (vr_search_attributes s) name of
        Some (SKeywordList keywords) \<Rightarrow> keyword \<in> set keywords
      | _ \<Rightarrow> False)"

record list_workflows_filter =
  lf_workflow_type :: "string option"
  lf_status :: "workflow_status option"
  lf_started_after :: "timestamp option"
  lf_started_before :: "timestamp option"
  lf_closed_after :: "timestamp option"
  lf_closed_before :: "timestamp option"
  lf_search_attributes :: "search_attribute_predicate list"
  lf_limit :: "u32 option"
  lf_offset :: "u32 option"

text \<open>\<^verbatim>\<open>Option::is_some_and\<close>.\<close>

definition is_some_and :: "('a \<Rightarrow> bool) \<Rightarrow> 'a option \<Rightarrow> bool" where
  "is_some_and p opt = (case opt of None \<Rightarrow> False | Some x \<Rightarrow> p x)"

definition list_filter_matches :: "list_workflows_filter \<Rightarrow> visibility_record \<Rightarrow> bool" where
  "list_filter_matches f s \<longleftrightarrow>
     is_none_or (\<lambda>t. t = vr_workflow_type s) (lf_workflow_type f)
   \<and> is_none_or (\<lambda>st. st = vr_status s) (lf_status f)
   \<and> is_none_or (\<lambda>t. t \<le> vr_start_time s) (lf_started_after f)
   \<and> is_none_or (\<lambda>t. vr_start_time s \<le> t) (lf_started_before f)
   \<and> is_none_or (\<lambda>t. is_some_and (\<lambda>c. t \<le> c) (vr_close_time s)) (lf_closed_after f)
   \<and> is_none_or (\<lambda>t. is_some_and (\<lambda>c. c \<le> t) (vr_close_time s)) (lf_closed_before f)
   \<and> list_all (\<lambda>p. predicate_matches p s) (lf_search_attributes f)"

text \<open>\<^verbatim>\<open>summaries.into_iter().skip(offset)\<close> then \<^verbatim>\<open>truncate(limit)\<close>; a \<^verbatim>\<open>u32\<close> always fits \<^verbatim>\<open>usize\<close>.\<close>

definition page :: "list_workflows_filter \<Rightarrow> 'a list \<Rightarrow> 'a list" where
  "page f xs =
     (let skipped = (case lf_offset f of None \<Rightarrow> xs | Some n \<Rightarrow> drop (unat n) xs)
      in case lf_limit f of None \<Rightarrow> skipped | Some n \<Rightarrow> take (unat n) skipped)"

section \<open>Pages tile the result\<close>

lemma greater_less_converse: "stored_greater_than a b \<longleftrightarrow> stored_less_than b a"
  by (cases "(a, b)" rule: stored_greater_than.cases) simp_all

lemma less_not_equal: "stored_less_than a b \<Longrightarrow> \<not> attribute_value_eq a b"
  by (cases "(a, b)" rule: stored_less_than.cases) (auto simp: f64_less_def f64_eq_def)

text \<open>Asking for the next page, starting where the last one stopped, continues the list: two adjacent
  pages are one page of their combined size.\<close>

lemma page_adjacent:
  assumes "lf_offset f = Some off" and "lf_limit f = Some n"
    and "unat off + unat n < 2 ^ 32"
  shows "page f xs @ page (f\<lparr>lf_offset := Some (off + n), lf_limit := Some m\<rparr>) xs =
    take (unat n + unat m) (drop (unat off) xs)"
proof -
  have "unat (off + n) = unat off + unat n"
    using assms(3) by (simp add: unat_plus_if')
  then show ?thesis
    using assms(1,2) by (simp add: page_def take_add add.commute [of "unat off"])
qed

end
