(* ===== verification/Outbox.thy ===== *)
theory Outbox
  imports Samples
begin

text \<open>
  \<^verbatim>\<open>crates/aion-store/src/outbox.rs\<close>: outbox rows, their status tokens, the pool scope of a claim and
  the dispatch key.  The textual form of a workflow id is produced by the \<^verbatim>\<open>uuid\<close> crate, so the key
  takes the rendering as a parameter; all that is used of it is that it is injective and that the text
  has no colon.
\<close>

definition DEFAULT_OUTBOX_ROUTE :: string where
  "DEFAULT_OUTBOX_ROUTE = DEFAULT_TASK_QUEUE"

datatype outbox_status = Pending | Claimed | Done | FailedRow | CancelledRow

fun as_str :: "outbox_status \<Rightarrow> string" where
  "as_str Pending = ''pending''"
| "as_str Claimed = ''claimed''"
| "as_str Done = ''done''"
| "as_str FailedRow = ''failed''"
| "as_str CancelledRow = ''cancelled''"

definition parse_token :: "string \<Rightarrow> (store_error, outbox_status) result" where
  "parse_token value =
     (if value = ''pending'' then Inr Pending
      else if value = ''claimed'' then Inr Claimed
      else if value = ''done'' then Inr Done
      else if value = ''failed'' then Inr FailedRow
      else if value = ''cancelled'' then Inr CancelledRow
      else Inl (Serialization (''unknown outbox status: '' @ value)))"

record claim_scope =
  cs_namespace :: string
  cs_task_queue :: string
  cs_node :: "string option"

record outbox_row =
  or_dispatch_key :: string
  or_workflow_id :: workflow_id
  or_ordinal :: u64
  or_run_id :: "run_id option"
  or_namespace :: string
  or_task_queue :: string
  or_node :: "string option"
  or_activity_type :: string
  or_input :: payload
  or_status :: outbox_status
  or_attempt :: u32
  or_visible_after :: timestamp
  or_claimed_at :: "timestamp option"

definition claim_scope_new :: "string \<Rightarrow> string \<Rightarrow> claim_scope" where
  "claim_scope_new ns queue = \<lparr>cs_namespace = ns, cs_task_queue = queue, cs_node = None\<rparr>"

definition claim_scope_with_node :: "claim_scope \<Rightarrow> string option \<Rightarrow> claim_scope" where
  "claim_scope_with_node s node = s\<lparr>cs_node := node\<rparr>"

definition admits :: "claim_scope \<Rightarrow> outbox_row \<Rightarrow> bool" where
  "admits scope row \<longleftrightarrow>
     or_namespace row = cs_namespace scope \<and> or_task_queue row = cs_task_queue scope
   \<and> (case (cs_node scope, or_node row) of
        (_, None) \<Rightarrow> True
      | (Some scope_node, Some row_node) \<Rightarrow> scope_node = row_node
      | (None, Some _) \<Rightarrow> False)"

type_synonym show_uuid = "uuid \<Rightarrow> string"

definition dispatch_key_for :: "show_uuid \<Rightarrow> workflow_id \<Rightarrow> u64 \<Rightarrow> string" where
  "dispatch_key_for show_uuid w ordinal = show_uuid (workflow_uuid w) @ '':'' @ show_u64 ordinal"

definition pending_row ::
  "show_uuid \<Rightarrow> workflow_id \<Rightarrow> u64 \<Rightarrow> string \<Rightarrow> payload \<Rightarrow> timestamp \<Rightarrow> outbox_row" where
  "pending_row show_uuid w ordinal activity_type input now =
     \<lparr>or_dispatch_key = dispatch_key_for show_uuid w ordinal, or_workflow_id = w,
      or_ordinal = ordinal, or_run_id = None, or_namespace = DEFAULT_OUTBOX_ROUTE,
      or_task_queue = DEFAULT_OUTBOX_ROUTE, or_node = None, or_activity_type = activity_type,
      or_input = input, or_status = Pending, or_attempt = 0, or_visible_after = now,
      or_claimed_at = None\<rparr>"

definition with_run_id :: "outbox_row \<Rightarrow> run_id option \<Rightarrow> outbox_row" where
  "with_run_id row r = row\<lparr>or_run_id := r\<rparr>"

definition with_namespace :: "outbox_row \<Rightarrow> string \<Rightarrow> outbox_row" where
  "with_namespace row ns = row\<lparr>or_namespace := ns\<rparr>"

definition with_task_queue :: "outbox_row \<Rightarrow> string \<Rightarrow> outbox_row" where
  "with_task_queue row q = row\<lparr>or_task_queue := q\<rparr>"

definition with_node :: "outbox_row \<Rightarrow> string option \<Rightarrow> outbox_row" where
  "with_node row n = row\<lparr>or_node := n\<rparr>"

section \<open>Properties\<close>

text \<open>The status token written to the store parses back to the status it was printed from, and every
  string that parses is such a token.\<close>

theorem outbox_status_roundtrip:
  "parse_token (as_str s) = Inr s \<and> (parse_token v = Inr s \<longleftrightarrow> v = as_str s)"
  by (cases s) (auto simp: parse_token_def)

lemma append_sep_inject:
  assumes "c \<notin> set xs" and "c \<notin> set xs'" and "xs @ c # ys = xs' @ c # ys'"
  shows "xs = xs' \<and> ys = ys'"
  using assms
proof (induction xs arbitrary: xs')
  case Nil
  then show ?case by (cases xs') auto
next
  case (Cons x xs)
  then show ?case by (cases xs') auto
qed

text \<open>The dispatch key identifies the activity: two rows have the same key exactly when they belong to
  the same workflow and ordinal, provided the rendering of a UUID is injective and has no colon.\<close>

theorem dispatch_key_injective:
  assumes "inj show_uuid" and "\<forall>u. CHR '':'' \<notin> set (show_uuid u)"
  shows "dispatch_key_for show_uuid w n = dispatch_key_for show_uuid w' n' \<longleftrightarrow> w = w' \<and> n = n'"
proof
  assume "dispatch_key_for show_uuid w n = dispatch_key_for show_uuid w' n'"
  then have "show_uuid (workflow_uuid w) = show_uuid (workflow_uuid w') \<and> show_u64 n = show_u64 n'"
    using assms(2) by (intro append_sep_inject [of "CHR '':''"]) (simp_all add: dispatch_key_for_def)
  then show "w = w' \<and> n = n'"
    using assms(1) show_u64_inject by (auto simp: inj_eq intro: workflow_id.expand)
qed simp

text \<open>The witness renders a UUID as its decimal value.\<close>

definition decimal_uuid :: "uuid \<Rightarrow> string" where
  "decimal_uuid u = show_nat (unat u)"

lemma inj_decimal_uuid: "inj decimal_uuid"
proof (rule injI)
  fix u v
  assume "decimal_uuid u = decimal_uuid v"
  then have "unat u = unat v"
    by (metis decimal_uuid_def option.inject read_digits_show_nat)
  then show "u = v" by (simp add: word_unat_eq_iff)
qed

lemma decimal_uuid_no_colon: "\<forall>u. CHR '':'' \<notin> set (decimal_uuid u)"
  using set_show_nat [of "CHR '':''"] by (auto simp: decimal_uuid_def)

theorem dispatch_key_injective_witness:
  "dispatch_key_for decimal_uuid s_workflow 1 \<noteq> dispatch_key_for decimal_uuid s_workflow 2"
  using dispatch_key_injective [OF inj_decimal_uuid decimal_uuid_no_colon, of s_workflow 1 s_workflow 2]
  by simp

text \<open>A scoped claim never crosses a pool or a node: a row is admitted exactly when it is in the
  scope's namespace and task queue and is either unpinned or pinned to the scope's own node; a scope
  without a node admits no pinned row.\<close>

theorem admits_isolation:
  "admits scope row \<longleftrightarrow>
     or_namespace row = cs_namespace scope \<and> or_task_queue row = cs_task_queue scope
     \<and> or_node row \<in> {None, cs_node scope}"
  by (auto simp: admits_def split: option.splits)

end
