(* ===== verification/Run_Chain.thy ===== *)
theory Run_Chain
  imports Samples "HOL-Library.Multiset"
begin

text \<open>
  \<^verbatim>\<open>crates/aion-store/src/run_chain.rs\<close>: splitting a workflow history into runs at each
  \<^verbatim>\<open>WorkflowStarted\<close>, projecting a summary per run and ordering the summaries along their parent links.
  The ordering is characterised exactly: it succeeds if and only if the summaries can be arranged in a
  parent-linked chain with distinct run ids, and then returns that chain.
\<close>

record run_summary =
  rsum_run_id :: run_id
  rsum_parent_run_id :: "run_id option"
  rsum_status :: workflow_status
  rsum_started_at :: timestamp
  rsum_closed_at :: "timestamp option"

fun run_slices :: "history option \<Rightarrow> history \<Rightarrow> history list" where
  "run_slices None [] = []"
| "run_slices (Some run) [] = [run]"
| "run_slices current (e # es) =
     (if is_WorkflowStarted e
      then (case current of None \<Rightarrow> [] | Some run \<Rightarrow> [run]) @ run_slices (Some [e]) es
      else run_slices (map_option (\<lambda>run. run @ [e]) current) es)"

definition project_run_summary :: "history \<Rightarrow> (store_error, run_summary) result" where
  "project_run_summary events =
     (case events of
        WorkflowStarted env _ _ run_id parent _ # _ \<Rightarrow>
          Inr \<lparr>rsum_run_id = run_id, rsum_parent_run_id = parent,
               rsum_status = status_from_events events, rsum_started_at = env_recorded_at env,
               rsum_closed_at = map_option recorded_at (current_lease_terminal events)\<rparr>
      | _ \<Rightarrow> Inl (Backend ''run slice does not begin with WorkflowStarted''))"

fun collect_children ::
  "run_summary list \<Rightarrow> (run_id \<times> run_summary) list \<Rightarrow> run_summary option
    \<Rightarrow> (store_error, (run_id \<times> run_summary) list \<times> run_summary option) result" where
  "collect_children [] children root = Inr (children, root)"
| "collect_children (s # ss) children root =
     (case rsum_parent_run_id s of
        Some parent \<Rightarrow>
          if map_of children parent \<noteq> None
          then Inl (Backend ''run chain contains multiple children for the same parent run'')
          else collect_children ss (AList.update parent s children) root
      | None \<Rightarrow> collect_children ss children (Some s))"

function follow_chain ::
  "run_summary \<Rightarrow> (run_id \<times> run_summary) list \<Rightarrow> run_id list \<Rightarrow> run_summary list
    \<Rightarrow> (store_error, run_summary list) result" where
  "follow_chain current children seen ordered =
     (if rsum_run_id current \<in> set seen then Inl (Backend ''run chain contains a cycle'')
      else
        (case map_of children (rsum_run_id current) of
           Some child \<Rightarrow>
             follow_chain child (AList.delete (rsum_run_id current) children)
               (rsum_run_id current # seen) (ordered @ [current])
         | None \<Rightarrow>
             if children \<noteq> []
             then Inl (Backend ''run chain contains parent links that are not reachable from the root'')
             else Inr (ordered @ [current])))"
  by pat_completeness auto

lemma length_delete_less: "map_of al k = Some v \<Longrightarrow> length (AList.delete k al) < length al"
  using length_delete_le [of k] by (induction al) (auto simp: less_Suc_eq_le)

termination follow_chain
  by (relation "measure (\<lambda>(_, children, _, _). length children)") (auto simp: length_delete_less)

declare follow_chain.simps [simp del]

definition order_by_parent_chain :: "run_summary list \<Rightarrow> (store_error, run_summary list) result" where
  "order_by_parent_chain summaries =
     (if summaries = [] then Inr []
      else
        (let roots = filter (\<lambda>s. rsum_parent_run_id s = None) summaries
         in if length roots \<noteq> 1
            then Inl (Backend (''run chain must contain exactly one root, found '' @ show_nat (length roots)))
            else
              bind_res (collect_children summaries [] None) (\<lambda>(children, root).
                case root of
                  None \<Rightarrow> Inl (Backend ''run chain root disappeared during ordering'')
                | Some current \<Rightarrow> follow_chain current children [] [])))"

definition run_chain_from_history :: "history \<Rightarrow> (store_error, run_summary list) result" where
  "run_chain_from_history h =
     bind_res (map_res project_run_summary (run_slices None (sort_key seq h))) order_by_parent_chain"

section \<open>Chains\<close>

text \<open>The specification: a chain starts at a run without parent, and every later run names the run
  before it as its parent.\<close>

fun linked :: "run_summary \<Rightarrow> run_summary list \<Rightarrow> bool" where
  "linked r [] = True"
| "linked r (s # rest) = (rsum_parent_run_id s = Some (rsum_run_id r) \<and> linked s rest)"

fun parent_chain :: "run_summary list \<Rightarrow> bool" where
  "parent_chain [] = True"
| "parent_chain (r # rest) =
     (rsum_parent_run_id r = None \<and> linked r rest \<and> distinct (map rsum_run_id (r # rest)))"

definition child_entries :: "run_summary list \<Rightarrow> (run_id \<times> run_summary) list" where
  "child_entries ss = map (\<lambda>s. (the (rsum_parent_run_id s), s)) (filter (\<lambda>s. rsum_parent_run_id s \<noteq> None) ss)"

lemma child_entries_simps [simp]:
  "child_entries [] = []"
  "child_entries (s # ss) =
     (case rsum_parent_run_id s of None \<Rightarrow> child_entries ss | Some p \<Rightarrow> (p, s) # child_entries ss)"
  by (auto simp: child_entries_def split: option.split)

lemma update_fresh: "map_of al k = None \<Longrightarrow> AList.update k v al = al @ [(k, v)]"
  by (induction al) (auto split: if_splits)

lemma collect_children_eq:
  "collect_children ss children root = Inr (children', root') \<longleftrightarrow>
     distinct (map fst (child_entries ss)) \<and> fst ` set children \<inter> fst ` set (child_entries ss) = {}
     \<and> children' = children @ child_entries ss
     \<and> root' = fold (\<lambda>s r. if rsum_parent_run_id s = None then Some s else r) ss root"
proof (induction ss arbitrary: children root)
  case (Cons s ss)
  show ?case
  proof (cases "rsum_parent_run_id s")
    case (Some p)
    let ?E = "fst ` set (child_entries ss)"
    have dis: "fst ` set (children @ [(p, s)]) \<inter> ?E = {} \<longleftrightarrow> p \<notin> ?E \<and> fst ` set children \<inter> ?E = {}"
      by auto
    show ?thesis
    proof (cases "map_of children p")
      case None
      with Some dis Cons.IH [of "children @ [(p, s)]" root] show ?thesis
        by (simp add: update_fresh map_of_eq_None_iff conj_ac)
    next
      case (Some v)
      then have "p \<in> fst ` set children" by (metis map_of_eq_None_iff option.distinct(1))
      with Some \<open>rsum_parent_run_id s = Some p\<close> show ?thesis by simp
    qed
  qed (use Cons.IH in auto)
qed auto

text \<open>Entries of the children map: keyed by the parent the summary names, one per parent.\<close>

definition entries_ok :: "(run_id \<times> run_summary) list \<Rightarrow> bool" where
  "entries_ok children \<longleftrightarrow>
     distinct (map fst children) \<and> (\<forall>(p, s) \<in> set children. rsum_parent_run_id s = Some p)"

lemma entries_ok_delete: "entries_ok children \<Longrightarrow> entries_ok (AList.delete k children)"
  by (auto simp: entries_ok_def distinct_delete) (auto simp: AList.delete_eq)

lemma mset_delete:
  assumes "entries_ok children" and "map_of children k = Some s"
  shows "mset (map snd children) = add_mset s (mset (map snd (AList.delete k children)))"
  using assms
proof (induction children)
  case (Cons c children)
  then have "k \<notin> fst ` set children \<Longrightarrow> AList.delete k children = children"
    by simp
  with Cons show ?case
    by (cases c) (auto simp: entries_ok_def split: if_splits)
qed simp

lemma follow_chain_sound:
  assumes "follow_chain current children seen ordered = Inr ys" and "entries_ok children"
  shows "\<exists>rest. ys = ordered @ current # rest \<and> linked current rest
    \<and> mset rest = mset (map snd children)
    \<and> distinct (map rsum_run_id (current # rest))
    \<and> set (map rsum_run_id (current # rest)) \<inter> set seen = {}"
  using assms
proof (induction current children seen ordered rule: follow_chain.induct)
  case (1 current children seen ordered)
  let ?id = "rsum_run_id current"
  from "1.prems"(1) have fresh: "?id \<notin> set seen"
    by (auto simp: follow_chain.simps [of current])
  show ?case
  proof (cases "map_of children ?id")
    case None
    with "1.prems"(1) fresh show ?thesis
      by (auto simp: follow_chain.simps [of current] split: if_splits)
  next
    case (Some child)
    with "1.prems"(1) fresh
    have "follow_chain child (AList.delete ?id children) (?id # seen) (ordered @ [current]) = Inr ys"
      by (simp add: follow_chain.simps [of current])
    from "1.IH" [OF fresh Some this entries_ok_delete [OF "1.prems"(2)]] obtain rest
      where "ys = (ordered @ [current]) @ child # rest" "linked child rest"
        "mset rest = mset (map snd (AList.delete ?id children))"
        "distinct (map rsum_run_id (child # rest))"
        "set (map rsum_run_id (child # rest)) \<inter> set (?id # seen) = {}" by blast
    moreover have "rsum_parent_run_id child = Some ?id"
      using map_of_SomeD [OF Some] "1.prems"(2) by (auto simp: entries_ok_def)
    ultimately show ?thesis
      using mset_delete [OF "1.prems"(2) Some] fresh
      by (intro exI [of _ "child # rest"]) auto
  qed
qed

lemma follow_chain_complete:
  assumes "linked current rest" and "entries_ok children" and "mset rest = mset (map snd children)"
    and "distinct (map rsum_run_id (current # rest))"
    and "set (map rsum_run_id (current # rest)) \<inter> set seen = {}"
  shows "follow_chain current children seen ordered = Inr (ordered @ current # rest)"
  using assms
proof (induction rest arbitrary: current children seen ordered)
  case Nil
  then show ?case by (simp add: follow_chain.simps)
next
  case (Cons s rest)
  let ?id = "rsum_run_id current"
  from Cons.prems(3) have "s \<in># mset (map snd children)" by (metis list.set_intros(1) set_mset_mset)
  then obtain p where "(p, s) \<in> set children" by auto
  moreover from this Cons.prems(1,2) have "p = ?id" by (auto simp: entries_ok_def)
  ultimately have found: "map_of children ?id = Some s"
    using Cons.prems(2) by (auto simp: entries_ok_def)
  have "mset rest = mset (map snd (AList.delete ?id children))"
    using mset_delete [OF Cons.prems(2) found] Cons.prems(3) by simp
  moreover have "set (map rsum_run_id (s # rest)) \<inter> set (?id # seen) = {}"
    using Cons.prems(4,5) by auto
  ultimately have "follow_chain s (AList.delete ?id children) (?id # seen) (ordered @ [current]) =
      Inr ((ordered @ [current]) @ s # rest)"
    using Cons.prems(1,4) entries_ok_delete [OF Cons.prems(2)] by (intro Cons.IH) auto
  with found Cons.prems(5) show ?case by (simp add: follow_chain.simps [of current])
qed

lemma entries_ok_child_entries: "distinct (map fst (child_entries ss)) \<Longrightarrow> entries_ok (child_entries ss)"
  by (auto simp: entries_ok_def child_entries_def)

lemma mset_roots_children:
  "mset ss = mset (filter (\<lambda>s. rsum_parent_run_id s = None) ss) + mset (map snd (child_entries ss))"
  by (induction ss) (auto split: option.split)

lemma fold_root:
  "fold (\<lambda>s r. if rsum_parent_run_id s = None then Some s else r) ss r0 =
     (if filter (\<lambda>s. rsum_parent_run_id s = None) ss = [] then r0
      else Some (last (filter (\<lambda>s. rsum_parent_run_id s = None) ss)))"
  by (induction ss arbitrary: r0) auto

lemma linked_children:
  "linked r rest \<Longrightarrow> distinct (map rsum_run_id (r # rest))
   \<Longrightarrow> filter (\<lambda>s. rsum_parent_run_id s = None) rest = []
     \<and> map fst (child_entries rest) = map rsum_run_id (butlast (r # rest))"
  by (induction rest arbitrary: r) auto

lemma mset_child_keys:
  "mset ss = mset ts \<Longrightarrow> mset (map fst (child_entries ss)) = mset (map fst (child_entries ts))"
  by (simp add: child_entries_def mset_filter mset_map comp_def)

lemma order_sound:
  assumes "order_by_parent_chain xs = Inr ys"
  shows "mset ys = mset xs \<and> parent_chain ys"
proof (cases "xs = []")
  case False
  let ?roots = "filter (\<lambda>s. rsum_parent_run_id s = None) xs"
  from assms False have "length ?roots = 1"
    by (auto simp: order_by_parent_chain_def Let_def split: if_splits)
  then obtain r where r: "?roots = [r]" by (auto simp: length_Suc_conv)
  from assms False r obtain children root where
    "collect_children xs [] None = Inr (children, root)"
    and step: "(case root of None \<Rightarrow> Inl (Backend ''run chain root disappeared during ordering'')
      | Some current \<Rightarrow> follow_chain current children [] []) = Inr ys"
    by (auto simp: order_by_parent_chain_def Let_def bind_res_eq_Inr_iff)
  then have "entries_ok children" "children = child_entries xs" "root = Some r"
    by (auto simp: collect_children_eq fold_root r entries_ok_child_entries)
  with step follow_chain_sound [of r children "[]" "[]" ys] obtain rest
    where "ys = r # rest" "linked r rest" "mset rest = mset (map snd (child_entries xs))"
      "distinct (map rsum_run_id (r # rest))" by auto
  moreover have "r \<in> set ?roots" by (simp add: r)
  then have "rsum_parent_run_id r = None" by simp
  ultimately show ?thesis using mset_roots_children [of xs] r by simp
qed (use assms in \<open>simp add: order_by_parent_chain_def\<close>)

lemma order_complete:
  assumes "mset ys = mset xs" and "parent_chain ys"
  shows "order_by_parent_chain xs = Inr ys"
proof (cases ys)
  case (Cons r rest)
  let ?P = "\<lambda>s. rsum_parent_run_id s = None"
  from assms(2) Cons have chain: "?P r" "linked r rest" "distinct (map rsum_run_id (r # rest))"
    by simp_all
  note kids = linked_children [OF chain(2,3)]
  have "mset (filter ?P xs) = mset (filter ?P ys)" using assms(1) by (simp add: mset_filter)
  with Cons chain(1) kids have "mset (filter ?P xs) = {#r#}" by (simp del: mset_filter)
  then have roots: "filter ?P xs = [r]" by (simp only: mset_single_iff)
  have "mset (map fst (child_entries xs)) = mset (map fst (child_entries ys))"
    using assms(1) by (rule mset_child_keys [OF sym])
  moreover have "distinct (map fst (child_entries ys))"
    using Cons chain(1,3) kids
    by (auto simp: distinct_butlast map_butlast dest: in_set_butlastD)
  ultimately have dist: "distinct (map fst (child_entries xs))"
    by (metis mset_eq_imp_distinct_iff)
  have "mset rest = mset (map snd (child_entries xs))"
    using mset_roots_children [of xs] roots assms(1) Cons by simp
  with chain entries_ok_child_entries [OF dist]
  have "follow_chain r (child_entries xs) [] [] = Inr ([] @ r # rest)"
    by (intro follow_chain_complete) auto
  moreover have "collect_children xs [] None = Inr (child_entries xs, Some r)"
    using dist roots by (simp add: collect_children_eq fold_root)
  ultimately show ?thesis
    using roots assms(1) Cons by (auto simp: order_by_parent_chain_def)
qed (use assms in \<open>simp add: order_by_parent_chain_def\<close>)

text \<open>Ordering run summaries succeeds exactly when they can be arranged in one parent-linked chain
  without repeated run ids, and then returns that arrangement with nothing lost or added.  Roots in
  excess, forks, cycles and unreachable runs are all errors, and the walk always terminates.\<close>

theorem order_by_parent_chain_iff:
  "order_by_parent_chain summaries = Inr chain \<longleftrightarrow> mset chain = mset summaries \<and> parent_chain chain"
  using order_sound order_complete by blast

section \<open>From history to chain\<close>

definition begins_run :: "history \<Rightarrow> bool" where
  "begins_run r \<longleftrightarrow> r \<noteq> [] \<and> is_WorkflowStarted (hd r)"

lemma begins_run_simps [simp]:
  "begins_run [e] \<longleftrightarrow> is_WorkflowStarted e" "begins_run r \<Longrightarrow> begins_run (r @ es)"
  by (simp_all add: begins_run_def)

lemma run_slices_begin:
  "pred_option begins_run current \<Longrightarrow> r \<in> set (run_slices current es) \<Longrightarrow> begins_run r"
proof (induction es arbitrary: current)
  case Nil
  then show ?case by (cases current) auto
next
  case (Cons e es)
  show ?case
  proof (cases "is_WorkflowStarted e")
    case True
    with Cons.prems Cons.IH [of "Some [e]"] show ?thesis by (cases current) auto
  next
    case False
    with Cons.prems Cons.IH [of "map_option (\<lambda>run. run @ [e]) current"] show ?thesis
      by (cases current) auto
  qed
qed

lemma concat_run_slices:
  "concat (run_slices (Some sl) es) = sl @ es"
  by (induction "Some sl" es arbitrary: sl rule: run_slices.induct) auto

lemma concat_run_slices_None:
  "concat (run_slices None es) = dropWhile (\<lambda>e. \<not> is_WorkflowStarted e) es"
  by (induction es) (auto simp: concat_run_slices)

lemma project_run_summary_ok:
  "begins_run r \<Longrightarrow> \<exists>s. project_run_summary r = Inr s"
  by (cases r; cases "hd r") (simp_all add: project_run_summary_def begins_run_def)

definition summary_of_run :: "history \<Rightarrow> run_summary" where
  "summary_of_run r = (case project_run_summary r of Inr s \<Rightarrow> s | Inl _ \<Rightarrow> undefined)"

lemma run_chain_from_history_eq:
  "run_chain_from_history h =
     order_by_parent_chain (map summary_of_run (run_slices None (sort_key seq h)))"
proof -
  have "map_res project_run_summary (run_slices None (sort_key seq h)) =
      Inr (map summary_of_run (run_slices None (sort_key seq h)))"
  proof (rule map_res_ok)
    fix r
    assume "r \<in> set (run_slices None (sort_key seq h))"
    then have "begins_run r" by (rule run_slices_begin [rotated]) simp
    then show "project_run_summary r = Inr (summary_of_run r)"
      using project_run_summary_ok by (fastforce simp: summary_of_run_def)
  qed
  then show ?thesis by (simp add: run_chain_from_history_def)
qed

text \<open>Reading a run chain partitions the events from the first start on into runs, each beginning with
  a \<^verbatim>\<open>WorkflowStarted\<close>, and the chain returned is exactly one summary per run, linked by parent; the
  projection error of a slice that does not begin a run is unreachable.\<close>

theorem run_chain_from_history_runs:
  "concat (run_slices None (sort_key seq h)) = dropWhile (\<lambda>e. \<not> is_WorkflowStarted e) (sort_key seq h)
   \<and> list_all begins_run (run_slices None (sort_key seq h))
   \<and> (run_chain_from_history h = Inr chain \<longleftrightarrow>
        mset chain = mset (map summary_of_run (run_slices None (sort_key seq h))) \<and> parent_chain chain)"
proof (intro conjI)
  show "list_all begins_run (run_slices None (sort_key seq h))"
    using run_slices_begin [of None] by (simp add: list_all_iff)
  show "run_chain_from_history h = Inr chain \<longleftrightarrow>
      mset chain = mset (map summary_of_run (run_slices None (sort_key seq h))) \<and> parent_chain chain"
    unfolding run_chain_from_history_eq using order_sound order_complete by blast
qed (rule concat_run_slices_None)

end
