(* ===== verification/Store.thy ===== *)
theory Store
  imports Visibility Outbox Run_Chain
begin

text \<open>
  \<^verbatim>\<open>crates/aion-store/src/store.rs\<close> and \<^verbatim>\<open>timer.rs\<close>: the event-store interface the recorder is written
  against.  \<^verbatim>\<open>dyn EventStore\<close> is a record of operations over an arbitrary store state \<open>'s\<close>; the locale
  \<open>event_store_laws\<close> states what an implementation promises about the history it keeps, and its
  lemmas are what the recorder's proofs use.  The in-memory store is an interpretation.
\<close>

record timer_entry =
  te_workflow_id :: workflow_id
  te_timer_id :: timer_id
  te_fire_at :: timestamp

text \<open>The operations of \<^verbatim>\<open>WritableEventStore\<close>, \<^verbatim>\<open>ReadableEventStore::read_history\<close> and
  \<^verbatim>\<open>VisibilityStore::record_visibility\<close>, the ones the recorder calls.\<close>

record 's event_store =
  es_append :: "workflow_id \<Rightarrow> history \<Rightarrow> u64 \<Rightarrow> 's \<Rightarrow> (store_error, unit) result \<times> 's"
  es_append_with_outbox ::
    "workflow_id \<Rightarrow> history \<Rightarrow> u64 \<Rightarrow> outbox_row list \<Rightarrow> 's \<Rightarrow> (store_error, unit) result \<times> 's"
  es_rearm_outbox_pending :: "outbox_row list \<Rightarrow> 's \<Rightarrow> (store_error, unit) result \<times> 's"
  es_settle_outbox_row_cancelled :: "string \<Rightarrow> 's \<Rightarrow> (store_error, unit) result \<times> 's"
  es_settle_workflow_outbox_rows_cancelled :: "workflow_id \<Rightarrow> 's \<Rightarrow> (store_error, string list) result \<times> 's"
  es_read_history :: "workflow_id \<Rightarrow> 's \<Rightarrow> (store_error, history) result"
  es_record_visibility :: "visibility_record \<Rightarrow> 's \<Rightarrow> (store_error, unit) result \<times> 's"

text \<open>The default methods of \<^verbatim>\<open>WritableEventStore\<close>: a store without an outbox appends when there are
  no rows and otherwise refuses, rather than dropping them.\<close>

definition default_append_with_outbox ::
  "(workflow_id \<Rightarrow> history \<Rightarrow> u64 \<Rightarrow> 's \<Rightarrow> (store_error, unit) result \<times> 's)
    \<Rightarrow> workflow_id \<Rightarrow> history \<Rightarrow> u64 \<Rightarrow> outbox_row list \<Rightarrow> 's \<Rightarrow> (store_error, unit) result \<times> 's" where
  "default_append_with_outbox append_op w events expected rows s =
     (if rows = [] then append_op w events expected s
      else (Inl (Backend ''this event store does not support durable-outbox appends; refusing to drop outbox rows (override WritableEventStore::append_with_outbox)''), s))"

definition default_rearm_outbox_pending :: "outbox_row list \<Rightarrow> 's \<Rightarrow> (store_error, unit) result \<times> 's" where
  "default_rearm_outbox_pending rows s =
     (if rows = [] then (Inr (), s)
      else (Inl (Backend ''this event store does not support durable-outbox re-arm; refusing to drop a non-empty re-arm (override WritableEventStore::rearm_outbox_pending)''), s))"

definition default_settle_outbox_row_cancelled :: "string \<Rightarrow> 's \<Rightarrow> (store_error, unit) result \<times> 's" where
  "default_settle_outbox_row_cancelled key s = (Inr (), s)"

definition default_settle_workflow_outbox_rows_cancelled ::
  "workflow_id \<Rightarrow> 's \<Rightarrow> (store_error, string list) result \<times> 's" where
  "default_settle_workflow_outbox_rows_cancelled w s = (Inr [], s)"

section \<open>The contract of an event store\<close>

text \<open>\<open>hist s w\<close> is the history of workflow \<open>w\<close> in sequence order.  An append succeeds exactly when the
  writer's expected head is the actual head and the events carry the next sequence numbers; it then
  extends that one history, and any failed call leaves every history alone.\<close>

definition appendable :: "history \<Rightarrow> u64 \<Rightarrow> history \<Rightarrow> bool" where
  "appendable h expected events \<longleftrightarrow>
     unat expected = length h \<and> contiguous_from (length h) events"

lemma contiguous_length: "contiguous h \<Longrightarrow> length h < 2 ^ 64"
proof (cases "h = []")
  case False
  moreover assume "contiguous h"
  ultimately have "unat (seq (h ! (length h - 1))) = length h"
    using contiguous_from_nth [of 0 h "length h - 1"] by simp
  then show ?thesis using unat_u64_less [of "seq (h ! (length h - 1))"] by simp
qed simp

locale event_store_laws =
  fixes ops :: "'s event_store"
    and store_inv :: "'s \<Rightarrow> bool"
    and hist :: "'s \<Rightarrow> workflow_id \<Rightarrow> history"
  assumes append_ok: "store_inv s \<Longrightarrow> appendable (hist s w) expected events \<Longrightarrow>
      \<exists>s'. es_append ops w events expected s = (Inr (), s') \<and> store_inv s'
         \<and> hist s' = (hist s)(w := hist s w @ events)"
    and append_conflict: "store_inv s \<Longrightarrow> unat expected \<noteq> length (hist s w) \<Longrightarrow>
      es_append ops w events expected s =
        (Inl (SequenceConflict expected (of_nat (length (hist s w)))), s)"
    and append_gap: "store_inv s \<Longrightarrow> unat expected = length (hist s w) \<Longrightarrow>
      \<not> appendable (hist s w) expected events \<Longrightarrow>
      \<exists>e. es_append ops w events expected s = (Inl e, s)"
    and outbox_append: "store_inv s \<Longrightarrow>
      es_append_with_outbox ops w events expected rows s = (res, s') \<Longrightarrow>
      store_inv s' \<and> (case res of
        Inl e \<Rightarrow> hist s' = hist s
      | Inr _ \<Rightarrow> appendable (hist s w) expected events \<and> hist s' = (hist s)(w := hist s w @ events))"
    and outbox_conflict: "store_inv s \<Longrightarrow> unat expected \<noteq> length (hist s w) \<Longrightarrow>
      \<exists>e. fst (es_append_with_outbox ops w events expected rows s) = Inl e"
    and rearm_frame: "store_inv s \<Longrightarrow> es_rearm_outbox_pending ops rows s = (res, s') \<Longrightarrow>
      store_inv s' \<and> hist s' = hist s"
    and settle_row_frame: "store_inv s \<Longrightarrow> es_settle_outbox_row_cancelled ops key s = (res, s') \<Longrightarrow>
      store_inv s' \<and> hist s' = hist s"
    and settle_rows_frame:
      "store_inv s \<Longrightarrow> es_settle_workflow_outbox_rows_cancelled ops w s = (keys, s') \<Longrightarrow>
      store_inv s' \<and> hist s' = hist s"
    and visibility_frame: "store_inv s \<Longrightarrow> es_record_visibility ops v s = (res, s') \<Longrightarrow>
      store_inv s' \<and> hist s' = hist s"
    and read_back: "store_inv s \<Longrightarrow> es_read_history ops w s = Inr (hist s w)"
    and contiguous_hist: "store_inv s \<Longrightarrow> contiguous (hist s w)"
begin

text \<open>The outcome of one append, by cases.\<close>

lemma append_cases:
  assumes "store_inv s" and "es_append ops w events expected s = (res, s')"
  shows "store_inv s' \<and>
    (case res of
       Inl e \<Rightarrow> s' = s \<and> \<not> appendable (hist s w) expected events
     | Inr _ \<Rightarrow> appendable (hist s w) expected events \<and> hist s' = (hist s)(w := hist s w @ events))"
proof (cases "appendable (hist s w) expected events")
  case True
  with append_ok [OF assms(1) this] assms(2) show ?thesis by auto
next
  case False
  with append_conflict [OF assms(1)] append_gap [OF assms(1)] assms show ?thesis
    by (cases "unat expected = length (hist s w)") fastforce+
qed

text \<open>Optimistic concurrency: of two writers with the same expected head only the first can append.\<close>

lemma second_writer_conflicts:
  assumes "store_inv s" and "es_append ops w events expected s = (Inr (), s')" and "events \<noteq> []"
  shows "\<exists>found. es_append ops w events' expected s' = (Inl (SequenceConflict expected found), s')"
proof -
  from append_cases [OF assms(1,2)] have "store_inv s'"
    and "unat expected = length (hist s w)" and "hist s' w = hist s w @ events"
    by (auto simp: appendable_def)
  with assms(3) have "unat expected \<noteq> length (hist s' w)" by simp
  from append_conflict [OF \<open>store_inv s'\<close> this] show ?thesis by blast
qed

end

end
