(* ===== verification/Memory_Store.thy ===== *)
theory Memory_Store
  imports Store
begin

text \<open>
  \<^verbatim>\<open>crates/aion-store/src/memory.rs\<close>: the in-memory reference store.  Each \<^verbatim>\<open>HashMap\<close> is an association
  list with distinct keys, whose order stands for the unspecified iteration order; \<^verbatim>\<open>values()\<close> are the
  second components.  Every operation holds one mutex for its whole body, so it is one state transition
  (lock poisoning is not modelled).  Texts of ids used as sort keys are rendered by the parameter
  \<open>show_uuid\<close>.

  The store keeps every history contiguous from sequence 1 and is an instance of the event-store
  contract; the timer, visibility, package and listing operations are specified below.
\<close>

record package_record =
  pr_workflow_type :: string
  pr_content_hash :: string
  pr_archive :: "u8 list"
  pr_deployed_at :: timestamp

record in_memory_state =
  ims_histories :: "(workflow_id \<times> history) list"
  ims_timers :: "((workflow_id \<times> timer_id) \<times> timer_entry) list"
  ims_visibility :: "((workflow_id \<times> run_id) \<times> visibility_record) list"
  ims_packages :: "((string \<times> string) \<times> package_record) list"
  ims_package_routes :: "(string \<times> string) list"

definition in_memory_default :: in_memory_state where
  "in_memory_default = \<lparr>ims_histories = [], ims_timers = [], ims_visibility = [], ims_packages = [],
     ims_package_routes = []\<rparr>"

definition history_head :: "history \<Rightarrow> u64" where
  "history_head h = fold max (map seq h) 0"

definition history_in_sequence_order :: "history \<Rightarrow> history" where
  "history_in_sequence_order h = sort_key seq h"

section \<open>The event store\<close>

text \<open>The contiguity check of \<^verbatim>\<open>append\<close>; \<^verbatim>\<open>expected_seq + 1..\<close> is counted without bound, the 64-bit
  counter of the source would overflow only after the last representable sequence number.\<close>

fun first_gap :: "nat \<Rightarrow> history \<Rightarrow> (nat \<times> u64) option" where
  "first_gap next_seq [] = None"
| "first_gap next_seq (e # es) =
     (if unat (seq e) \<noteq> next_seq then Some (next_seq, seq e) else first_gap (Suc next_seq) es)"

definition ms_append ::
  "workflow_id \<Rightarrow> history \<Rightarrow> u64 \<Rightarrow> in_memory_state \<Rightarrow> (store_error, unit) result \<times> in_memory_state" where
  "ms_append w events expected s =
     (let current_head = (case map_of (ims_histories s) w of None \<Rightarrow> 0 | Some h \<Rightarrow> history_head h)
      in if current_head \<noteq> expected then (Inl (SequenceConflict expected current_head), s)
         else if events = [] then (Inr (), s)
         else
           (case first_gap (Suc (unat expected)) events of
              Some (next_seq, got) \<Rightarrow>
                (Inl (Backend (''event sequence must be contiguous: expected '' @ show_nat next_seq
                   @ '', got '' @ show_u64 got)), s)
            | None \<Rightarrow>
                (let h = (case map_of (ims_histories s) w of None \<Rightarrow> [] | Some h \<Rightarrow> h)
                 in (Inr (), s\<lparr>ims_histories := AList.update w (h @ events) (ims_histories s)\<rparr>))))"

definition ms_read_history :: "workflow_id \<Rightarrow> in_memory_state \<Rightarrow> (store_error, history) result" where
  "ms_read_history w s =
     Inr (case map_of (ims_histories s) w of None \<Rightarrow> [] | Some h \<Rightarrow> history_in_sequence_order h)"

definition ms_read_history_from ::
  "workflow_id \<Rightarrow> u64 \<Rightarrow> in_memory_state \<Rightarrow> (store_error, history) result" where
  "ms_read_history_from w from_seq s =
     Inr (case map_of (ims_histories s) w of
            None \<Rightarrow> []
          | Some h \<Rightarrow> sort_key seq (filter (\<lambda>e. from_seq \<le> seq e) h))"

definition ms_read_run_chain :: "workflow_id \<Rightarrow> in_memory_state \<Rightarrow> (store_error, run_summary list) result" where
  "ms_read_run_chain w s =
     (case map_of (ims_histories s) w of None \<Rightarrow> Inr [] | Some h \<Rightarrow> run_chain_from_history h)"

definition ms_list_workflow_ids :: "show_uuid \<Rightarrow> in_memory_state \<Rightarrow> (store_error, workflow_id list) result" where
  "ms_list_workflow_ids show_uuid s =
     Inr (sort_key (\<lambda>w. show_uuid (workflow_uuid w)) (map fst (ims_histories s)))"

definition ms_list_active :: "show_uuid \<Rightarrow> in_memory_state \<Rightarrow> (store_error, workflow_id list) result" where
  "ms_list_active show_uuid s =
     Inr (sort_key (\<lambda>w. show_uuid (workflow_uuid w))
       (map fst (filter (\<lambda>(w, h). status_from_events (history_in_sequence_order h) = Running)
          (ims_histories s))))"

definition ms_list_paused :: "show_uuid \<Rightarrow> in_memory_state \<Rightarrow> (store_error, workflow_id list) result" where
  "ms_list_paused show_uuid s =
     Inr (sort_key (\<lambda>w. show_uuid (workflow_uuid w))
       (map fst (filter (\<lambda>(w, h). status_from_events (history_in_sequence_order h) = Paused)
          (ims_histories s))))"

definition ms_query ::
  "show_uuid \<Rightarrow> workflow_filter \<Rightarrow> in_memory_state \<Rightarrow> (store_error, workflow_summary list) result" where
  "ms_query show_uuid f s =
     Inr (sort_key (\<lambda>sm. (ws_started_at sm, show_uuid (workflow_uuid (ws_workflow_id sm))))
       (filter (filter_matches f)
         (List.map_filter (\<lambda>(w, h). from_history (history_in_sequence_order h)) (ims_histories s))))"

section \<open>Timers\<close>

definition ms_schedule_timer ::
  "workflow_id \<Rightarrow> timer_id \<Rightarrow> timestamp \<Rightarrow> in_memory_state \<Rightarrow> (store_error, unit) result \<times> in_memory_state" where
  "ms_schedule_timer w t fire_at s =
     (Inr (), s\<lparr>ims_timers := AList.update (w, t)
        \<lparr>te_workflow_id = w, te_timer_id = t, te_fire_at = fire_at\<rparr> (ims_timers s)\<rparr>)"

definition ms_expired_timers ::
  "show_uuid \<Rightarrow> timestamp \<Rightarrow> in_memory_state \<Rightarrow> (store_error, timer_entry list) result" where
  "ms_expired_timers show_uuid as_of s =
     Inr (sort_key (\<lambda>t. (te_fire_at t, show_uuid (workflow_uuid (te_workflow_id t)), show_timer_id (te_timer_id t)))
       (filter (\<lambda>t. te_fire_at t \<le> as_of) (map snd (ims_timers s))))"

section \<open>Visibility\<close>

definition ms_record_visibility ::
  "visibility_record \<Rightarrow> in_memory_state \<Rightarrow> (store_error, unit) result \<times> in_memory_state" where
  "ms_record_visibility v s =
     (Inr (), s\<lparr>ims_visibility := AList.update (vr_workflow_id v, vr_run_id v) v (ims_visibility s)\<rparr>)"

definition ms_list_workflows ::
  "show_uuid \<Rightarrow> list_workflows_filter \<Rightarrow> in_memory_state \<Rightarrow> (store_error, visibility_record list) result" where
  "ms_list_workflows show_uuid f s =
     Inr (page f (sort_key (\<lambda>v. (vr_start_time v, show_uuid (workflow_uuid (vr_workflow_id v))))
       (filter (list_filter_matches f) (map snd (ims_visibility s)))))"

definition ms_count_workflows :: "list_workflows_filter \<Rightarrow> in_memory_state \<Rightarrow> (store_error, u64) result" where
  "ms_count_workflows f s =
     Inr (case u64_try_from (length (filter (list_filter_matches f) (map snd (ims_visibility s)))) of
            Some n \<Rightarrow> n
          | None \<Rightarrow> - 1)"

section \<open>Packages\<close>

definition ms_put_package_with_routes ::
  "package_record \<Rightarrow> string list \<Rightarrow> in_memory_state \<Rightarrow> (store_error, unit) result \<times> in_memory_state" where
  "ms_put_package_with_routes r route_types s =
     (Inr (), s\<lparr>ims_package_routes :=
          fold (\<lambda>t. AList.update t (pr_content_hash r)) route_types (ims_package_routes s),
        ims_packages := AList.update (pr_workflow_type r, pr_content_hash r) r (ims_packages s)\<rparr>)"

definition ms_put_package ::
  "package_record \<Rightarrow> in_memory_state \<Rightarrow> (store_error, unit) result \<times> in_memory_state" where
  "ms_put_package r s = ms_put_package_with_routes r [pr_workflow_type r] s"

definition ms_list_packages :: "in_memory_state \<Rightarrow> (store_error, package_record list) result" where
  "ms_list_packages s =
     Inr (sort_key (\<lambda>r. (pr_deployed_at r, pr_workflow_type r, pr_content_hash r))
       (map snd (ims_packages s)))"

definition ms_delete_package ::
  "string \<Rightarrow> string \<Rightarrow> in_memory_state \<Rightarrow> (store_error, unit) result \<times> in_memory_state" where
  "ms_delete_package workflow_type content_hash s =
     (Inr (), s\<lparr>ims_packages := AList.delete (workflow_type, content_hash) (ims_packages s)\<rparr>)"

definition ms_put_package_route ::
  "string \<Rightarrow> string \<Rightarrow> in_memory_state \<Rightarrow> (store_error, unit) result \<times> in_memory_state" where
  "ms_put_package_route workflow_type content_hash s =
     (Inr (), s\<lparr>ims_package_routes := AList.update workflow_type content_hash (ims_package_routes s)\<rparr>)"

definition ms_list_package_routes :: "in_memory_state \<Rightarrow> (store_error, (string \<times> string) list) result" where
  "ms_list_package_routes s = Inr (sort_key fst (ims_package_routes s))"

definition memory_store :: "in_memory_state event_store" where
  "memory_store =
     \<lparr>es_append = ms_append,
      es_append_with_outbox = default_append_with_outbox ms_append,
      es_rearm_outbox_pending = default_rearm_outbox_pending,
      es_settle_outbox_row_cancelled = default_settle_outbox_row_cancelled,
      es_settle_workflow_outbox_rows_cancelled = default_settle_workflow_outbox_rows_cancelled,
      es_read_history = ms_read_history,
      es_record_visibility = ms_record_visibility\<rparr>"

section \<open>The in-memory store satisfies the event-store contract\<close>

definition ms_hist :: "in_memory_state \<Rightarrow> workflow_id \<Rightarrow> history" where
  "ms_hist s w = (case map_of (ims_histories s) w of None \<Rightarrow> [] | Some h \<Rightarrow> h)"

definition ms_inv :: "in_memory_state \<Rightarrow> bool" where
  "ms_inv s \<longleftrightarrow> distinct (map fst (ims_histories s)) \<and> (\<forall>w. contiguous (ms_hist s w))"

lemma fold_max_le: "(a :: 'a::linorder) \<le> fold max xs a"
  by (induction xs arbitrary: a) (auto intro: order_trans [OF max.cobounded2])

lemma fold_max_sorted: "sorted (xs @ [x]) \<Longrightarrow> (a :: 'a::linorder) \<le> x \<Longrightarrow> fold max (xs @ [x]) a = x"
  by (induction xs arbitrary: a) (auto simp: max_def)

lemma history_head_contiguous:
  assumes "contiguous h"
  shows "unat (history_head h) = length h"
proof (cases h rule: rev_cases)
  case (snoc es e)
  have "history_head h = seq e"
    using contiguous_sorted [OF assms] unfolding history_head_def snoc
    by (simp only: map_append list.map) (rule fold_max_sorted, simp_all)
  moreover have "unat (seq e) = length h" using assms snoc by simp
  ultimately show ?thesis by simp
qed (simp add: history_head_def)

lemma sort_key_sorted: "sorted (map f xs) \<Longrightarrow> sort_key f xs = xs"
  by (simp add: sort_key_id_if_sorted)

lemma history_in_sequence_order_contiguous: "contiguous h \<Longrightarrow> history_in_sequence_order h = h"
  by (simp add: history_in_sequence_order_def sort_key_sorted contiguous_sorted)

lemma first_gap_None: "first_gap (Suc n) events = None \<longleftrightarrow> contiguous_from n events"
  by (induction events arbitrary: n) auto

lemma word_of_length: "unat (w :: u64) = n \<Longrightarrow> w = of_nat n"
  by (auto simp: of_nat_unat unsigned_ucast_eq)

lemma ms_head:
  assumes "ms_inv s"
  shows "(case map_of (ims_histories s) w of None \<Rightarrow> 0 | Some h \<Rightarrow> history_head h) =
      of_nat (length (ms_hist s w))"
proof -
  have "contiguous (ms_hist s w)" using assms by (simp add: ms_inv_def)
  from word_of_length [OF history_head_contiguous [OF this]] show ?thesis
    by (simp add: ms_hist_def history_head_def split: option.splits)
qed

lemma unat_of_length: "contiguous h \<Longrightarrow> unat (of_nat (length h) :: u64) = length h"
  using contiguous_length by (simp add: of_nat_inverse)

text \<open>One append, by its three outcomes.\<close>

lemma ms_append_eq:
  assumes "ms_inv s"
  shows "ms_append w events expected s =
    (if unat expected \<noteq> length (ms_hist s w)
     then (Inl (SequenceConflict expected (of_nat (length (ms_hist s w)))), s)
     else if events = [] then (Inr (), s)
     else case first_gap (Suc (length (ms_hist s w))) events of
            Some (n, got) \<Rightarrow>
              (Inl (Backend (''event sequence must be contiguous: expected '' @ show_nat n
                 @ '', got '' @ show_u64 got)), s)
          | None \<Rightarrow>
              (Inr (), s\<lparr>ims_histories := AList.update w (ms_hist s w @ events) (ims_histories s)\<rparr>))"
proof -
  have c: "contiguous (ms_hist s w)" using assms by (simp add: ms_inv_def)
  have "of_nat (length (ms_hist s w)) = expected \<longleftrightarrow> unat expected = length (ms_hist s w)"
    using unat_of_length [OF c] word_of_length [of expected "length (ms_hist s w)"] by auto
  then show ?thesis
    unfolding ms_append_def ms_head [OF assms] Let_def ms_hist_def [symmetric] by auto
qed

lemma ms_hist_update:
  "ms_hist (s\<lparr>ims_histories := AList.update w h (ims_histories s)\<rparr>) = (ms_hist s)(w := h)"
  by (auto simp: ms_hist_def update_conv' fun_eq_iff)

lemma ms_append_ok:
  assumes "ms_inv s" and "appendable (ms_hist s w) expected events"
  shows "\<exists>s'. ms_append w events expected s = (Inr (), s') \<and> ms_inv s'
    \<and> ms_hist s' = (ms_hist s)(w := ms_hist s w @ events)"
proof (cases "events = []")
  case True
  with assms show ?thesis by (auto simp: ms_append_eq appendable_def)
next
  case False
  let ?s' = "s\<lparr>ims_histories := AList.update w (ms_hist s w @ events) (ims_histories s)\<rparr>"
  from assms False have "ms_append w events expected s = (Inr (), ?s')"
    by (simp add: ms_append_eq appendable_def first_gap_None [symmetric])
  moreover have "ms_inv ?s'"
    using assms by (auto simp: ms_inv_def ms_hist_update distinct_update appendable_def)
  ultimately show ?thesis by (auto simp: ms_hist_update)
qed

lemma ms_append_fails:
  assumes "ms_inv s" and "\<not> appendable (ms_hist s w) expected events"
  shows "\<exists>e. ms_append w events expected s = (Inl e, s)"
proof -
  have "events \<noteq> [] \<or> unat expected \<noteq> length (ms_hist s w)"
    using assms(2) by (auto simp: appendable_def)
  with assms show ?thesis
    by (auto simp: ms_append_eq appendable_def first_gap_None [symmetric])
qed

interpretation memory: event_store_laws memory_store ms_inv ms_hist
proof unfold_locales
  fix s w expected events and rows :: "outbox_row list" and res s'
  assume inv: "ms_inv s"
  show "\<exists>s'. es_append memory_store w events expected s = (Inr (), s') \<and> ms_inv s'
      \<and> ms_hist s' = (ms_hist s)(w := ms_hist s w @ events)"
    if "appendable (ms_hist s w) expected events"
    using ms_append_ok [OF inv that] by (simp add: memory_store_def)
  show "es_append memory_store w events expected s =
      (Inl (SequenceConflict expected (of_nat (length (ms_hist s w)))), s)"
    if "unat expected \<noteq> length (ms_hist s w)"
    using that by (simp add: memory_store_def ms_append_eq [OF inv])
  show "\<exists>e. es_append memory_store w events expected s = (Inl e, s)"
    if "\<not> appendable (ms_hist s w) expected events"
    using ms_append_fails [OF inv that] by (simp add: memory_store_def)
  show "ms_inv s' \<and> (case res of Inl e \<Rightarrow> ms_hist s' = ms_hist s
      | Inr _ \<Rightarrow> appendable (ms_hist s w) expected events
          \<and> ms_hist s' = (ms_hist s)(w := ms_hist s w @ events))"
    if "es_append_with_outbox memory_store w events expected rows s = (res, s')"
    using that inv ms_append_ok [OF inv, of w expected events] ms_append_fails [OF inv, of w expected events]
    by (cases "appendable (ms_hist s w) expected events")
       (auto simp: memory_store_def default_append_with_outbox_def split: if_splits)
  show "\<exists>e. fst (es_append_with_outbox memory_store w events expected rows s) = Inl e"
    if "unat expected \<noteq> length (ms_hist s w)"
    using that by (simp add: memory_store_def default_append_with_outbox_def ms_append_eq [OF inv])
  show "es_read_history memory_store w s = Inr (ms_hist s w)"
    using inv
    by (auto simp: memory_store_def ms_read_history_def ms_hist_def ms_inv_def
        history_in_sequence_order_contiguous split: option.splits)
  show "contiguous (ms_hist s w)" using inv by (simp add: ms_inv_def)
qed (auto simp: memory_store_def default_rearm_outbox_pending_def
       default_settle_outbox_row_cancelled_def default_settle_workflow_outbox_rows_cancelled_def
       ms_record_visibility_def ms_inv_def ms_hist_def split: if_splits)

section \<open>Reachable states\<close>

inductive ms_step :: "in_memory_state \<Rightarrow> in_memory_state \<Rightarrow> bool" where
  step_append: "ms_step s (snd (ms_append w events expected s))"
| step_timer: "ms_step s (snd (ms_schedule_timer w t fire_at s))"
| step_visibility: "ms_step s (snd (ms_record_visibility v s))"
| step_package: "ms_step s (snd (ms_put_package_with_routes r types s))"
| step_delete: "ms_step s (snd (ms_delete_package ty hash s))"
| step_route: "ms_step s (snd (ms_put_package_route ty hash s))"

definition ms_reachable :: "in_memory_state \<Rightarrow> bool" where
  "ms_reachable s \<longleftrightarrow> ms_step\<^sup>*\<^sup>* in_memory_default s"

text \<open>A map whose entries are filed under their own key, one per key.\<close>

definition filed :: "('v \<Rightarrow> 'k) \<Rightarrow> ('k \<times> 'v) list \<Rightarrow> bool" where
  "filed key al \<longleftrightarrow> distinct (map fst al) \<and> (\<forall>kv \<in> set al. fst kv = key (snd kv))"

lemma set_update_subset: "set (AList.update k v al) \<subseteq> insert (k, v) (set al)"
  by (induction al) auto

lemma filed_update: "filed key al \<Longrightarrow> k = key v \<Longrightarrow> filed key (AList.update k v al)"
  using set_update_subset [of k v al] by (auto simp: filed_def distinct_update)

lemma filed_delete: "filed key al \<Longrightarrow> filed key (AList.delete k al)"
  by (auto simp: filed_def distinct_delete) (auto simp: AList.delete_eq)

definition ms_wf :: "in_memory_state \<Rightarrow> bool" where
  "ms_wf s \<longleftrightarrow> ms_inv s
   \<and> filed (\<lambda>t. (te_workflow_id t, te_timer_id t)) (ims_timers s)
   \<and> filed (\<lambda>v. (vr_workflow_id v, vr_run_id v)) (ims_visibility s)
   \<and> filed (\<lambda>p. (pr_workflow_type p, pr_content_hash p)) (ims_packages s)
   \<and> distinct (map fst (ims_package_routes s))"

lemma distinct_fold_update:
  "distinct (map fst al) \<Longrightarrow> distinct (map fst (fold (\<lambda>t. AList.update t h) ts al))"
  by (induction ts arbitrary: al) (auto simp: distinct_update)

lemma ms_append_histories_only:
  "ms_append w events expected s = (res, s') \<Longrightarrow> \<exists>hs. s' = s\<lparr>ims_histories := hs\<rparr>"
  by (auto simp: ms_append_def Let_def split: if_splits option.splits prod.splits
      intro: exI [of _ "ims_histories s"])

lemma ms_append_inv: "ms_inv s \<Longrightarrow> ms_inv (snd (ms_append w events expected s))"
  using memory.append_cases [of s w events expected]
  by (cases "ms_append w events expected s") (auto simp: memory_store_def)

lemma ms_step_wf:
  assumes "ms_step s s'" and "ms_wf s"
  shows "ms_wf s'"
  using assms
proof (cases rule: ms_step.cases)
  case (step_append w events expected)
  obtain res s1 where eq: "ms_append w events expected s = (res, s1)" by fastforce
  then obtain hs where "s1 = s\<lparr>ims_histories := hs\<rparr>" using ms_append_histories_only by blast
  moreover have "ms_inv s1" using ms_append_inv [of s w events expected] assms(2) eq by (simp add: ms_wf_def)
  ultimately show ?thesis using assms(2) step_append eq by (simp add: ms_wf_def)
qed (use assms(2) in \<open>auto simp: ms_wf_def ms_inv_def ms_hist_def ms_schedule_timer_def
       ms_record_visibility_def ms_put_package_with_routes_def ms_delete_package_def
       ms_put_package_route_def distinct_update filed_update filed_delete distinct_fold_update\<close>)

text \<open>C32: whatever sequence of writes the in-memory store has served, every workflow's history is numbered
  contiguously from 1 and every map has one entry per key, filed under its own key.\<close>

theorem ms_reachable_wf:
  assumes "ms_reachable s"
  shows "ms_wf s"
proof -
  have "ms_step\<^sup>*\<^sup>* in_memory_default s" using assms by (simp add: ms_reachable_def)
  then show ?thesis
  proof (induction rule: rtranclp_induct)
    case base
    show ?case by (simp add: ms_wf_def ms_inv_def ms_hist_def in_memory_default_def filed_def)
  next
    case (step y z)
    then show ?case by (blast intro: ms_step_wf)
  qed
qed

theorem ms_reachable_wf_witness:
  "ms_wf (snd (ms_append s_workflow [s_started 1] 0 in_memory_default))"
  by (rule ms_reachable_wf) (simp add: ms_reachable_def ms_step.step_append r_into_rtranclp)

section \<open>Appending and reading\<close>

text \<open>Append is optimistic and all-or-nothing.  It succeeds exactly when the writer knows the current
  head and the events carry the next sequence numbers; then that workflow's history grows by exactly
  those events and no other changes.  Otherwise the store is untouched, and a stale head is reported
  as a sequence conflict that names the true head.\<close>

theorem ms_append_atomic:
  assumes "ms_inv s" and "ms_append w events expected s = (res, s')"
  shows "ms_inv s' \<and>
    (case res of
       Inr _ \<Rightarrow> unat expected = length (ms_hist s w) \<and> contiguous_from (length (ms_hist s w)) events
          \<and> ms_hist s' = (ms_hist s)(w := ms_hist s w @ events)
     | Inl e \<Rightarrow> s' = s \<and> \<not> (unat expected = length (ms_hist s w) \<and> contiguous_from (length (ms_hist s w)) events)
          \<and> (unat expected \<noteq> length (ms_hist s w) \<longrightarrow>
               e = SequenceConflict expected (of_nat (length (ms_hist s w)))))"
  using memory.append_cases [OF assms(1), of w events expected res s']
    memory.append_conflict [OF assms(1), of expected w events] assms(2)
  by (auto simp: memory_store_def appendable_def split: sum.splits)

lemma in_memory_default_inv: "ms_inv in_memory_default"
  by (simp add: ms_inv_def ms_hist_def in_memory_default_def)

theorem ms_append_atomic_witness:
  "ms_append s_workflow [s_started 1] 5 in_memory_default = (Inl (SequenceConflict 5 0), in_memory_default)
   \<and> ms_hist (snd (ms_append s_workflow [s_started 1] 0 in_memory_default)) s_workflow = [s_started 1]"
proof
  obtain res s' where "ms_append s_workflow [s_started 1] 5 in_memory_default = (res, s')" by fastforce
  with ms_append_atomic [OF in_memory_default_inv this]
  show "ms_append s_workflow [s_started 1] 5 in_memory_default = (Inl (SequenceConflict 5 0), in_memory_default)"
    by (auto simp: ms_hist_def in_memory_default_def split: sum.splits)
  show "ms_hist (snd (ms_append s_workflow [s_started 1] 0 in_memory_default)) s_workflow = [s_started 1]"
    by (simp add: ms_append_def ms_hist_def in_memory_default_def seq_def)
qed

lemma filter_seq_ge:
  "contiguous_from n h \<Longrightarrow> filter (\<lambda>e. k \<le> unat (seq e)) h = drop (k - Suc n) h"
proof (induction h arbitrary: n)
  case (Cons e es)
  show ?case
  proof (cases "k \<le> Suc n")
    case True
    then have "filter (\<lambda>e. k \<le> unat (seq e)) es = es"
      using Cons.IH [of "Suc n"] Cons.prems by simp
    with True Cons.prems show ?thesis by simp
  next
    case False
    then have "k - Suc n = Suc (k - Suc (Suc n))" by simp
    with False Cons show ?thesis by simp
  qed
qed simp

text \<open>Reading returns the stored history in sequence order, and a read from a sequence number returns
  exactly the suffix from that event on; together the two ends of a history are the whole of it.\<close>

theorem ms_read_suffix:
  assumes "ms_inv s"
  shows "ms_read_history w s = Inr (ms_hist s w)
    \<and> ms_read_history_from w from_seq s = Inr (drop (unat from_seq - 1) (ms_hist s w))"
proof
  have c: "contiguous (ms_hist s w)" using assms by (simp add: ms_inv_def)
  show "ms_read_history w s = Inr (ms_hist s w)"
    using memory.read_back [OF assms, of w] by (simp add: memory_store_def)
  have "filter (\<lambda>e. from_seq \<le> seq e) (ms_hist s w) = drop (unat from_seq - 1) (ms_hist s w)"
    using filter_seq_ge [OF c, of "unat from_seq"] by (simp add: word_le_nat_alt)
  moreover have "sorted (map seq (drop (unat from_seq - 1) (ms_hist s w)))"
    using contiguous_sorted [OF c] by (simp add: drop_map [symmetric] sorted_wrt_drop)
  ultimately show "ms_read_history_from w from_seq s = Inr (drop (unat from_seq - 1) (ms_hist s w))"
    by (auto simp: ms_read_history_from_def ms_hist_def sort_key_sorted split: option.splits)
qed

theorem ms_read_suffix_witness: "ms_read_history_from s_workflow 3 in_memory_default = Inr []"
  using ms_read_suffix [OF in_memory_default_inv, of s_workflow 3]
  by (simp add: ms_hist_def in_memory_default_def)

text \<open>Of two writers that both believe the head is \<open>expected\<close>, only the first to append anything
  succeeds; the other gets a sequence conflict and changes nothing.\<close>

theorem ms_second_writer_conflicts:
  assumes "ms_inv s" and "ms_append w events expected s = (Inr (), s')" and "events \<noteq> []"
  shows "\<exists>found. ms_append w events' expected s' = (Inl (SequenceConflict expected found), s')"
  using memory.second_writer_conflicts [of s w events expected s' events'] assms
  by (simp add: memory_store_def)

theorem ms_second_writer_conflicts_witness:
  "\<exists>found s'. ms_append s_workflow [s_signal 1] 0 s' = (Inl (SequenceConflict 0 found), s')
     \<and> s' = snd (ms_append s_workflow [s_started 1] 0 in_memory_default)"
proof -
  have "ms_append s_workflow [s_started 1] 0 in_memory_default =
      (Inr (), snd (ms_append s_workflow [s_started 1] 0 in_memory_default))"
    by (simp add: ms_append_def in_memory_default_def seq_def)
  from ms_second_writer_conflicts [OF in_memory_default_inv this] show ?thesis by fastforce
qed

section \<open>Listings and timers\<close>

lemma ms_listed:
  assumes "ms_inv s"
  shows "w \<in> set (map fst (filter (\<lambda>(w, h). status_from_events (history_in_sequence_order h) = st)
      (ims_histories s)))
    \<longleftrightarrow> w \<in> fst ` set (ims_histories s) \<and> status_from_events (ms_hist s w) = st"
proof -
  have d: "distinct (map fst (ims_histories s))" using assms by (simp add: ms_inv_def)
  have A: "history_in_sequence_order h = ms_hist s w" if "(w, h) \<in> set (ims_histories s)" for h
  proof -
    have "ms_hist s w = h" using map_of_is_SomeI [OF d that] by (simp add: ms_hist_def)
    moreover have "contiguous (ms_hist s w)" using assms by (simp add: ms_inv_def)
    ultimately show ?thesis by (simp add: history_in_sequence_order_contiguous)
  qed
  have B: "w \<in> set (map fst (filter (\<lambda>(w, h). status_from_events (history_in_sequence_order h) = st)
      (ims_histories s))) \<longleftrightarrow>
    (\<exists>h. (w, h) \<in> set (ims_histories s) \<and> status_from_events (history_in_sequence_order h) = st)"
    by (auto simp: image_iff)
  have C: "w \<in> fst ` set (ims_histories s) \<longleftrightarrow> (\<exists>h. (w, h) \<in> set (ims_histories s))"
    by force
  show ?thesis unfolding B C using A by metis
qed

text \<open>A stored workflow appears in the active listing exactly when its history projects to Running and
  in the paused listing exactly when it projects to Paused, once each; so no workflow is in both and a
  paused workflow is not active.\<close>

theorem ms_listings:
  assumes "ms_inv s" and "ms_list_active show_uuid s = Inr active" and "ms_list_paused show_uuid s = Inr paused"
  shows "(w \<in> set active \<longleftrightarrow> w \<in> fst ` set (ims_histories s) \<and> status_from_events (ms_hist s w) = Running)
    \<and> (w \<in> set paused \<longleftrightarrow> w \<in> fst ` set (ims_histories s) \<and> status_from_events (ms_hist s w) = Paused)
    \<and> distinct active \<and> distinct paused \<and> set active \<inter> set paused = {}"
proof -
  have d: "distinct (map fst (filter P (ims_histories s)))" for P
    using assms(1) by (simp add: ms_inv_def distinct_map_filter)
  have a: "v \<in> set active \<longleftrightarrow> v \<in> fst ` set (ims_histories s) \<and> status_from_events (ms_hist s v) = Running" for v
    using assms(2) ms_listed [OF assms(1), of v Running]
    by (simp only: ms_list_active_def sum.inject set_sort) (metis set_sort)
  have p: "v \<in> set paused \<longleftrightarrow> v \<in> fst ` set (ims_histories s) \<and> status_from_events (ms_hist s v) = Paused" for v
    using assms(3) ms_listed [OF assms(1), of v Paused]
    by (simp only: ms_list_paused_def sum.inject set_sort) (metis set_sort)
  have "distinct active" using assms(2) d by (auto simp: ms_list_active_def)
  moreover have "distinct paused" using assms(3) d by (auto simp: ms_list_paused_def)
  ultimately show ?thesis using a p by auto
qed

theorem ms_listings_witness: "set [] \<inter> set ([] :: workflow_id list) = {} \<and> distinct ([] :: workflow_id list)"
  using ms_listings [OF in_memory_default_inv, of decimal_uuid "[]" "[]" s_workflow]
  by (simp add: ms_list_active_def ms_list_paused_def in_memory_default_def)

lemma values_update:
  "distinct (map fst al)
   \<Longrightarrow> snd ` set (AList.update k v al) = insert v (snd ` {kv \<in> set al. fst kv \<noteq> k})"
proof (induction al)
  case (Cons a al)
  show ?case
  proof (cases "fst a = k")
    case True
    with Cons.prems have "{kv \<in> set (a # al). fst kv \<noteq> k} = set al" by (fastforce simp: image_iff)
    with True show ?thesis by (cases a) simp
  next
    case False
    then have "{kv \<in> set (a # al). fst kv \<noteq> k} = insert a {kv \<in> set al. fst kv \<noteq> k}" by auto
    with False Cons show ?thesis by (cases a) (simp add: insert_commute)
  qed
qed simp

lemma filed_values: "filed key al \<Longrightarrow> distinct (map key (map snd al))"
proof -
  assume f: "filed key al"
  then have "map key (map snd al) = map fst al" by (simp add: filed_def)
  with f show ?thesis unfolding filed_def by metis
qed

lemma sorted_map_fst: "sorted (map (\<lambda>x. (f x, g x)) xs) \<Longrightarrow> sorted (map f xs)"
  by (induction xs) (auto simp: less_eq_prod_def)

text \<open>The expired timers at an instant are exactly the scheduled entries due by then, one per workflow
  and timer, in order of their due time; scheduling a timer again replaces its earlier entry.\<close>

theorem ms_expired_timers_exact:
  assumes "ms_wf s" and "ms_expired_timers show_uuid as_of (snd (ms_schedule_timer w t at s)) = Inr due"
  shows "set due = {e. te_fire_at e \<le> as_of \<and>
        (e = \<lparr>te_workflow_id = w, te_timer_id = t, te_fire_at = at\<rparr>
         \<or> e \<in> snd ` set (ims_timers s) \<and> (te_workflow_id e, te_timer_id e) \<noteq> (w, t))}
    \<and> sorted (map te_fire_at due)
    \<and> distinct (map (\<lambda>e. (te_workflow_id e, te_timer_id e)) due)"
proof -
  let ?key = "\<lambda>t. (te_workflow_id t, te_timer_id t)"
  let ?e = "\<lparr>te_workflow_id = w, te_timer_id = t, te_fire_at = at\<rparr>"
  let ?al = "AList.update (w, t) ?e (ims_timers s)"
  let ?due = "filter (\<lambda>t. te_fire_at t \<le> as_of) (map snd ?al)"
  let ?sk = "\<lambda>t. (te_fire_at t, show_uuid (workflow_uuid (te_workflow_id t)), show_timer_id (te_timer_id t))"
  have filed: "filed ?key (ims_timers s)" using assms(1) by (simp add: ms_wf_def)
  have due: "due = sort_key ?sk ?due"
    using assms(2) by (simp add: ms_expired_timers_def ms_schedule_timer_def)
  have "set due = {e \<in> snd ` set ?al. te_fire_at e \<le> as_of}" unfolding due by auto
  also have "snd ` set ?al = insert ?e (snd ` {kv \<in> set (ims_timers s). fst kv \<noteq> (w, t)})"
    using filed by (intro values_update) (simp add: filed_def)
  also have "snd ` {kv \<in> set (ims_timers s). fst kv \<noteq> (w, t)} =
      {e \<in> snd ` set (ims_timers s). ?key e \<noteq> (w, t)}"
  proof -
    have "{kv \<in> set (ims_timers s). fst kv \<noteq> (w, t)} = {kv \<in> set (ims_timers s). ?key (snd kv) \<noteq> (w, t)}"
      using filed unfolding filed_def by fastforce
    then show ?thesis by auto
  qed
  finally have "set due = {e. te_fire_at e \<le> as_of \<and>
      (e = ?e \<or> e \<in> snd ` set (ims_timers s) \<and> ?key e \<noteq> (w, t))}" by auto
  moreover have "sorted (map te_fire_at due)"
    unfolding due by (rule sorted_map_fst) (rule sorted_sort_key)
  moreover have "distinct (map ?key (map snd ?al))"
    by (rule filed_values [OF filed_update [OF filed]]) simp
  then have "distinct (map ?key ?due)" by (simp only: distinct_map_filter)
  then have "distinct (map ?key due)"
    unfolding due by (simp add: distinct_map)
  ultimately show ?thesis by blast
qed

theorem ms_expired_timers_exact_witness:
  "set [\<lparr>te_workflow_id = s_workflow, te_timer_id = Named ''t'', te_fire_at = 5\<rparr>] =
    {e. te_fire_at e \<le> 9 \<and> e = \<lparr>te_workflow_id = s_workflow, te_timer_id = Named ''t'', te_fire_at = 5\<rparr>}"
proof -
  have "ms_wf in_memory_default"
    by (simp add: ms_wf_def ms_inv_def ms_hist_def in_memory_default_def filed_def)
  from ms_expired_timers_exact [OF this, of decimal_uuid 9 s_workflow "Named ''t''" 5]
  show ?thesis
    by (simp add: ms_expired_timers_def ms_schedule_timer_def in_memory_default_def)
qed

end
