(* ===== verification/Recorder.thy ===== *)
theory Recorder
  imports Resolver Memory_Store
begin

text \<open>
  \<^verbatim>\<open>crates/aion/src/durability/recorder.rs\<close>, \<^verbatim>\<open>seq.rs\<close> and \<^verbatim>\<open>fail_on_violation\<close> of \<^verbatim>\<open>resolver.rs\<close>: the
  single-writer append path.  A recorder is its workflow id, its tracked sequence head, the run id of
  its visibility projection (when enabled) and its run context; it never reads the store's head.  Every
  operation maps a recorder and a store state to a result, the updated recorder and the updated store
  state, and is written over an arbitrary store's operations.

  Over any store that satisfies the event-store contract, a recorder whose head is the length of the
  history appends exactly the event it was asked to record, with the next sequence number, and stays in
  step; a recorder whose head is stale appends nothing and reports the conflict.
\<close>

section \<open>Sequence heads\<close>

record sequence_head =
  sh_head :: u64

definition from_head :: "u64 \<Rightarrow> sequence_head" where
  "from_head h = \<lparr>sh_head = h\<rparr>"

definition next_seq :: "sequence_head \<Rightarrow> u64 option" where
  "next_seq sq = checked_add (sh_head sq) 1"

definition mark_append_success :: "nat \<Rightarrow> sequence_head \<Rightarrow> (durability_error, sequence_head) result" where
  "mark_append_success event_count sq =
     (case u64_try_from event_count of
        None \<Rightarrow> Inl (HistoryShape (BatchLengthOverflow event_count))
      | Some added \<Rightarrow>
          (case checked_add (sh_head sq) added of
             None \<Rightarrow> Inl (HistoryShape (SequenceHeadOverflow (sh_head sq) event_count))
           | Some h \<Rightarrow> Inr (sq\<lparr>sh_head := h\<rparr>)))"

section \<open>The recorder\<close>

record recorder =
  rc_workflow_id :: workflow_id
  rc_sequence :: sequence_head
  rc_visibility :: "run_id option"
  rc_run_id :: "run_id option"

record workflow_start_record =
  wsr_workflow_type :: string
  wsr_input :: payload
  wsr_run_id :: run_id
  wsr_parent_run_id :: "run_id option"
  wsr_package_version :: package_version

definition recorder_resume_at :: "workflow_id \<Rightarrow> u64 \<Rightarrow> recorder" where
  "recorder_resume_at w head =
     \<lparr>rc_workflow_id = w, rc_sequence = from_head head, rc_visibility = None, rc_run_id = None\<rparr>"

definition recorder_new :: "workflow_id \<Rightarrow> recorder" where
  "recorder_new w = recorder_resume_at w 0"

definition recorder_with_run_id :: "recorder \<Rightarrow> run_id \<Rightarrow> recorder" where
  "recorder_with_run_id r run = r\<lparr>rc_run_id := Some run\<rparr>"

definition recorder_with_visibility :: "recorder \<Rightarrow> run_id \<Rightarrow> recorder" where
  "recorder_with_visibility r run = r\<lparr>rc_run_id := Some run, rc_visibility := Some run\<rparr>"

definition current_head :: "recorder \<Rightarrow> u64" where
  "current_head r = sh_head (rc_sequence r)"

type_synonym ('a, 's) recorded = "(durability_error, 'a) result \<times> recorder \<times> 's"

text \<open>\<^verbatim>\<open>?\<close> on an operation that threads the recorder and the store.\<close>

fun and_then :: "('a, 's) recorded \<Rightarrow> ('a \<Rightarrow> recorder \<Rightarrow> 's \<Rightarrow> ('b, 's) recorded) \<Rightarrow> ('b, 's) recorded" where
  "and_then (Inl e, r, s) f = (Inl e, r, s)"
| "and_then (Inr x, r, s) f = f x r s"

definition recorder_read_history :: "'s event_store \<Rightarrow> recorder \<Rightarrow> 's \<Rightarrow> (durability_error, history) result" where
  "recorder_read_history ops r s = map_err StoreErr (es_read_history ops (rc_workflow_id r) s)"

definition next_envelope :: "recorder \<Rightarrow> timestamp \<Rightarrow> (durability_error, event_envelope) result" where
  "next_envelope r at =
     bind_res (ok_or (next_seq (rc_sequence r)) (HistoryShape (SequenceHeadOverflow (current_head r) 1)))
       (\<lambda>n. Inr \<lparr>env_seq = n, env_recorded_at = at, env_workflow_id = rc_workflow_id r\<rparr>)"

definition envelope_after ::
  "recorder \<Rightarrow> event_envelope \<Rightarrow> timestamp \<Rightarrow> (durability_error, event_envelope) result" where
  "envelope_after r previous at =
     bind_res (ok_or (checked_add (env_seq previous) 1) (HistoryShape (SequenceHeadOverflow (env_seq previous) 1)))
       (\<lambda>n. Inr \<lparr>env_seq = n, env_recorded_at = at, env_workflow_id = rc_workflow_id r\<rparr>)"

text \<open>The store call and head update shared by \<^verbatim>\<open>append_one\<close> and the batch appends.\<close>

definition commit ::
  "(u64 \<Rightarrow> 's \<Rightarrow> (store_error, unit) result \<times> 's) \<Rightarrow> nat \<Rightarrow> recorder \<Rightarrow> 's \<Rightarrow> (unit, 's) recorded" where
  "commit append_at n r s =
     (case append_at (current_head r) s of
        (Inl e, s') \<Rightarrow> (Inl (StoreErr e), r, s')
      | (Inr _, s') \<Rightarrow>
          (case mark_append_success n (rc_sequence r) of
             Inl e \<Rightarrow> (Inl e, r, s')
           | Inr sq \<Rightarrow> (Inr (), r\<lparr>rc_sequence := sq\<rparr>, s')))"

definition append_one :: "'s event_store \<Rightarrow> event \<Rightarrow> recorder \<Rightarrow> 's \<Rightarrow> (unit, 's) recorded" where
  "append_one ops event r s = commit (es_append ops (rc_workflow_id r) [event]) 1 r s"

definition append_with ::
  "'s event_store \<Rightarrow> timestamp \<Rightarrow> (event_envelope \<Rightarrow> event) \<Rightarrow> recorder \<Rightarrow> 's \<Rightarrow> (unit, 's) recorded" where
  "append_with ops at build r s =
     (case next_envelope r at of
        Inl e \<Rightarrow> (Inl e, r, s)
      | Inr env \<Rightarrow> append_one ops (build env) r s)"

definition settle_terminal_outbox_rows_nonfatal :: "'s event_store \<Rightarrow> recorder \<Rightarrow> 's \<Rightarrow> (unit, 's) recorded" where
  "settle_terminal_outbox_rows_nonfatal ops r s =
     (Inr (), r, snd (es_settle_workflow_outbox_rows_cancelled ops (rc_workflow_id r) s))"

fun start_projection :: "event \<Rightarrow> (workflow_id \<times> string \<times> timestamp) option" where
  "start_projection (WorkflowStarted env ty _ _ _ _) = Some (env_workflow_id env, ty, env_recorded_at env)"
| "start_projection _ = None"

definition terminal_recorded_at :: "history \<Rightarrow> timestamp option" where
  "terminal_recorded_at h = map_option recorded_at (current_lease_terminal h)"

definition visibility_record_from_history ::
  "history \<Rightarrow> run_id \<Rightarrow> (durability_error, visibility_record) result" where
  "visibility_record_from_history h run =
     bind_res (ok_or (find_map start_projection h) (HistoryShape VisibilityWithoutStart)) (\<lambda>(w, ty, start).
       let (failed_step, failure_reason) = failure_projection h
       in Inr \<lparr>vr_workflow_id = w, vr_run_id = run, vr_workflow_type = ty,
               vr_status = status_from_events h, vr_start_time = start,
               vr_close_time = terminal_recorded_at h, vr_failed_step = failed_step,
               vr_failure_reason = failure_reason,
               vr_search_attributes = search_attributes_from_events h\<rparr>)"

definition upsert_visibility_projection ::
  "'s event_store \<Rightarrow> recorder \<Rightarrow> 's \<Rightarrow> (durability_error, unit) result \<times> 's" where
  "upsert_visibility_projection ops r s =
     (case rc_visibility r of
        None \<Rightarrow> (Inr (), s)
      | Some run \<Rightarrow>
          (case bind_res (recorder_read_history ops r s) (\<lambda>h. visibility_record_from_history h run) of
             Inl e \<Rightarrow> (Inl e, s)
           | Inr v \<Rightarrow>
               (let (res, s') = es_record_visibility ops v s in (map_err StoreErr res, s'))))"

definition upsert_visibility_projection_nonfatal :: "'s event_store \<Rightarrow> recorder \<Rightarrow> 's \<Rightarrow> (unit, 's) recorded" where
  "upsert_visibility_projection_nonfatal ops r s = (Inr (), r, snd (upsert_visibility_projection ops r s))"

section \<open>Recording operations\<close>

definition record_workflow_started ::
  "'s event_store \<Rightarrow> timestamp \<Rightarrow> workflow_start_record \<Rightarrow> recorder \<Rightarrow> 's \<Rightarrow> (unit, 's) recorded" where
  "record_workflow_started ops at start r s =
     and_then
       (append_with ops at (\<lambda>env. WorkflowStarted env (wsr_workflow_type start) (wsr_input start)
          (wsr_run_id start) (wsr_parent_run_id start) (wsr_package_version start)) r s)
       (\<lambda>_ r s. (Inr (), r\<lparr>rc_run_id := Some (wsr_run_id start)\<rparr>, s))"

fun validate_all :: "schema \<Rightarrow> attributes \<Rightarrow> (durability_error, unit) result" where
  "validate_all sch [] = Inr ()"
| "validate_all sch ((name, v) # attrs) =
     bind_res (map_err SearchAttributeErr (validate sch name v)) (\<lambda>_. validate_all sch attrs)"

definition record_workflow_started_with_attributes ::
  "'s event_store \<Rightarrow> timestamp \<Rightarrow> workflow_start_record \<Rightarrow> attributes \<Rightarrow> schema
    \<Rightarrow> recorder \<Rightarrow> 's \<Rightarrow> (unit, 's) recorded" where
  "record_workflow_started_with_attributes ops at start attrs sch r s =
     (if attrs = [] then record_workflow_started ops at start r s
      else
        (case bind_res (validate_all sch attrs) (\<lambda>_.
                bind_res (next_envelope r at) (\<lambda>started.
                bind_res (envelope_after r started at) (\<lambda>updated. Inr (started, updated)))) of
           Inl e \<Rightarrow> (Inl e, r, s)
         | Inr (started, updated) \<Rightarrow>
             (let batch =
                [WorkflowStarted started (wsr_workflow_type start) (wsr_input start)
                   (wsr_run_id start) (wsr_parent_run_id start) (wsr_package_version start),
                 SearchAttributesUpdated updated (rc_workflow_id r) attrs]
              in and_then (commit (es_append ops (rc_workflow_id r) batch) (length batch) r s)
                   (\<lambda>_ r s. (Inr (), r\<lparr>rc_run_id := Some (wsr_run_id start)\<rparr>, s)))))"

definition record_schedule_created ::
  "'s event_store \<Rightarrow> timestamp \<Rightarrow> schedule_id \<Rightarrow> schedule_config \<Rightarrow> recorder \<Rightarrow> 's \<Rightarrow> (unit, 's) recorded" where
  "record_schedule_created ops at sid config r s =
     append_with ops at (\<lambda>env. ScheduleCreated env sid config) r s"

definition record_schedule_updated ::
  "'s event_store \<Rightarrow> timestamp \<Rightarrow> schedule_id \<Rightarrow> schedule_config \<Rightarrow> recorder \<Rightarrow> 's \<Rightarrow> (unit, 's) recorded" where
  "record_schedule_updated ops at sid config r s =
     append_with ops at (\<lambda>env. ScheduleUpdated env sid config) r s"

definition record_schedule_paused ::
  "'s event_store \<Rightarrow> timestamp \<Rightarrow> schedule_id \<Rightarrow> recorder \<Rightarrow> 's \<Rightarrow> (unit, 's) recorded" where
  "record_schedule_paused ops at sid r s =
     append_with ops at (\<lambda>env. SchedulePaused env sid) r s"

definition record_schedule_resumed ::
  "'s event_store \<Rightarrow> timestamp \<Rightarrow> schedule_id \<Rightarrow> recorder \<Rightarrow> 's \<Rightarrow> (unit, 's) recorded" where
  "record_schedule_resumed ops at sid r s =
     append_with ops at (\<lambda>env. ScheduleResumed env sid) r s"

definition record_schedule_deleted ::
  "'s event_store \<Rightarrow> timestamp \<Rightarrow> schedule_id \<Rightarrow> recorder \<Rightarrow> 's \<Rightarrow> (unit, 's) recorded" where
  "record_schedule_deleted ops at sid r s =
     append_with ops at (\<lambda>env. ScheduleDeleted env sid) r s"

definition record_schedule_triggered ::
  "'s event_store \<Rightarrow> timestamp \<Rightarrow> schedule_id \<Rightarrow> workflow_id \<Rightarrow> run_id \<Rightarrow> recorder \<Rightarrow> 's \<Rightarrow> (unit, 's) recorded" where
  "record_schedule_triggered ops at sid target run r s =
     append_with ops at (\<lambda>env. ScheduleTriggered env sid target run) r s"

definition record_workflow_completed ::
  "'s event_store \<Rightarrow> timestamp \<Rightarrow> payload \<Rightarrow> recorder \<Rightarrow> 's \<Rightarrow> (unit, 's) recorded" where
  "record_workflow_completed ops at p r s =
     and_then (append_with ops at (\<lambda>env. WorkflowCompleted env p) r s) (\<lambda>_. settle_terminal_outbox_rows_nonfatal ops)"

definition record_workflow_failed ::
  "'s event_store \<Rightarrow> timestamp \<Rightarrow> workflow_error \<Rightarrow> recorder \<Rightarrow> 's \<Rightarrow> (unit, 's) recorded" where
  "record_workflow_failed ops at err r s =
     and_then (append_with ops at (\<lambda>env. WorkflowFailed env err) r s) (\<lambda>_. settle_terminal_outbox_rows_nonfatal ops)"

definition record_workflow_cancelled ::
  "'s event_store \<Rightarrow> timestamp \<Rightarrow> string \<Rightarrow> recorder \<Rightarrow> 's \<Rightarrow> (unit, 's) recorded" where
  "record_workflow_cancelled ops at reason r s =
     and_then (append_with ops at (\<lambda>env. WorkflowCancelled env reason) r s) (\<lambda>_. settle_terminal_outbox_rows_nonfatal ops)"

definition record_workflow_timed_out ::
  "'s event_store \<Rightarrow> timestamp \<Rightarrow> string \<Rightarrow> recorder \<Rightarrow> 's \<Rightarrow> (unit, 's) recorded" where
  "record_workflow_timed_out ops at timeout r s =
     and_then (append_with ops at (\<lambda>env. WorkflowTimedOut env timeout) r s) (\<lambda>_. settle_terminal_outbox_rows_nonfatal ops)"

definition record_workflow_continued_as_new ::
  "'s event_store \<Rightarrow> timestamp \<Rightarrow> payload \<Rightarrow> string option \<Rightarrow> run_id \<Rightarrow> recorder \<Rightarrow> 's \<Rightarrow> (unit, 's) recorded" where
  "record_workflow_continued_as_new ops at p ty parent r s =
     and_then (append_with ops at (\<lambda>env. WorkflowContinuedAsNew env p ty parent) r s) (\<lambda>_. upsert_visibility_projection_nonfatal ops)"

definition record_workflow_reopened ::
  "'s event_store \<Rightarrow> timestamp \<Rightarrow> run_id \<Rightarrow> activity_id list \<Rightarrow> recorder \<Rightarrow> 's \<Rightarrow> (unit, 's) recorded" where
  "record_workflow_reopened ops at run reopened r s =
     and_then (append_with ops at (\<lambda>env. WorkflowReopened env run reopened) r s) (\<lambda>_. upsert_visibility_projection_nonfatal ops)"

definition record_workflow_paused ::
  "'s event_store \<Rightarrow> timestamp \<Rightarrow> run_id \<Rightarrow> string option \<Rightarrow> string option \<Rightarrow> recorder \<Rightarrow> 's \<Rightarrow> (unit, 's) recorded" where
  "record_workflow_paused ops at run reason operator r s =
     and_then (append_with ops at (\<lambda>env. WorkflowPaused env run reason operator) r s) (\<lambda>_. upsert_visibility_projection_nonfatal ops)"

definition record_workflow_resumed ::
  "'s event_store \<Rightarrow> timestamp \<Rightarrow> run_id \<Rightarrow> string option \<Rightarrow> recorder \<Rightarrow> 's \<Rightarrow> (unit, 's) recorded" where
  "record_workflow_resumed ops at run operator r s =
     and_then (append_with ops at (\<lambda>env. WorkflowResumed env run operator) r s) (\<lambda>_. upsert_visibility_projection_nonfatal ops)"

definition record_search_attributes_updated ::
  "'s event_store \<Rightarrow> timestamp \<Rightarrow> attributes \<Rightarrow> schema \<Rightarrow> recorder \<Rightarrow> 's \<Rightarrow> (unit, 's) recorded" where
  "record_search_attributes_updated ops at attrs sch r s =
     (case validate_all sch attrs of
        Inl e \<Rightarrow> (Inl e, r, s)
      | Inr _ \<Rightarrow>
          and_then (append_with ops at (\<lambda>env. SearchAttributesUpdated env (rc_workflow_id r) attrs) r s)
            (\<lambda>_. upsert_visibility_projection_nonfatal ops))"

definition record_activity_scheduled ::
  "'s event_store \<Rightarrow> timestamp \<Rightarrow> activity_id \<Rightarrow> string \<Rightarrow> payload \<Rightarrow> string \<Rightarrow> string option \<Rightarrow> recorder \<Rightarrow> 's \<Rightarrow> (unit, 's) recorded" where
  "record_activity_scheduled ops at a ty inp queue node r s =
     append_with ops at (\<lambda>env. ActivityScheduled env a ty inp queue node) r s"

definition record_activity_started ::
  "'s event_store \<Rightarrow> timestamp \<Rightarrow> activity_id \<Rightarrow> u32 \<Rightarrow> recorder \<Rightarrow> 's \<Rightarrow> (unit, 's) recorded" where
  "record_activity_started ops at a attempt r s =
     append_with ops at (\<lambda>env. ActivityStarted env a attempt) r s"

definition record_activity_completed ::
  "'s event_store \<Rightarrow> timestamp \<Rightarrow> activity_id \<Rightarrow> payload \<Rightarrow> u32 \<Rightarrow> recorder \<Rightarrow> 's \<Rightarrow> (unit, 's) recorded" where
  "record_activity_completed ops at a p attempt r s =
     append_with ops at (\<lambda>env. ActivityCompleted env a p attempt) r s"

definition record_activity_failed ::
  "'s event_store \<Rightarrow> timestamp \<Rightarrow> activity_id \<Rightarrow> activity_error \<Rightarrow> u32 \<Rightarrow> recorder \<Rightarrow> 's \<Rightarrow> (unit, 's) recorded" where
  "record_activity_failed ops at a err attempt r s =
     append_with ops at (\<lambda>env. ActivityFailed env a err attempt) r s"

definition record_activity_cancelled ::
  "'s event_store \<Rightarrow> timestamp \<Rightarrow> activity_id \<Rightarrow> u32 \<Rightarrow> recorder \<Rightarrow> 's \<Rightarrow> (unit, 's) recorded" where
  "record_activity_cancelled ops at a attempt r s =
     append_with ops at (\<lambda>env. ActivityCancelled env a attempt) r s"

definition record_activity_cancelled_and_settle_outbox ::
  "show_uuid \<Rightarrow> 's event_store \<Rightarrow> timestamp \<Rightarrow> u64 \<Rightarrow> u32 \<Rightarrow> recorder \<Rightarrow> 's \<Rightarrow> (unit, 's) recorded" where
  "record_activity_cancelled_and_settle_outbox show_uuid ops at ordinal attempt r s =
     and_then (record_activity_cancelled ops at (from_sequence_position ordinal) attempt r s)
       (\<lambda>_ r s. let (res, s') = es_settle_outbox_row_cancelled ops
                    (dispatch_key_for show_uuid (rc_workflow_id r) ordinal) s
                in (map_err StoreErr res, r, s'))"

definition record_timer_started ::
  "'s event_store \<Rightarrow> timestamp \<Rightarrow> timer_id \<Rightarrow> timestamp \<Rightarrow> recorder \<Rightarrow> 's \<Rightarrow> (unit, 's) recorded" where
  "record_timer_started ops at t fire_at r s =
     append_with ops at (\<lambda>env. TimerStarted env t fire_at) r s"

definition record_timer_fired ::
  "'s event_store \<Rightarrow> timestamp \<Rightarrow> timer_id \<Rightarrow> recorder \<Rightarrow> 's \<Rightarrow> (unit, 's) recorded" where
  "record_timer_fired ops at t r s =
     append_with ops at (\<lambda>env. TimerFired env t) r s"

definition record_timer_cancelled ::
  "'s event_store \<Rightarrow> timestamp \<Rightarrow> timer_id \<Rightarrow> timer_cancel_cause \<Rightarrow> recorder \<Rightarrow> 's \<Rightarrow> (unit, 's) recorded" where
  "record_timer_cancelled ops at t cause r s =
     append_with ops at (\<lambda>env. TimerCancelled env t cause) r s"

definition record_with_timeout_completed ::
  "'s event_store \<Rightarrow> timestamp \<Rightarrow> timer_id \<Rightarrow> with_timeout_outcome \<Rightarrow> payload option \<Rightarrow> recorder \<Rightarrow> 's \<Rightarrow> (unit, 's) recorded" where
  "record_with_timeout_completed ops at t outcome p r s =
     append_with ops at (\<lambda>env. WithTimeoutCompleted env t outcome p) r s"

definition record_signal_received ::
  "'s event_store \<Rightarrow> timestamp \<Rightarrow> string \<Rightarrow> payload \<Rightarrow> recorder \<Rightarrow> 's \<Rightarrow> (unit, 's) recorded" where
  "record_signal_received ops at name p r s =
     append_with ops at (\<lambda>env. SignalReceived env name p) r s"

definition record_signal_sent ::
  "'s event_store \<Rightarrow> timestamp \<Rightarrow> workflow_id \<Rightarrow> string \<Rightarrow> payload \<Rightarrow> recorder \<Rightarrow> 's \<Rightarrow> (unit, 's) recorded" where
  "record_signal_sent ops at target name p r s =
     append_with ops at (\<lambda>env. SignalSent env target name p) r s"

definition record_child_workflow_started ::
  "'s event_store \<Rightarrow> timestamp \<Rightarrow> workflow_id \<Rightarrow> string \<Rightarrow> payload \<Rightarrow> package_version \<Rightarrow> recorder \<Rightarrow> 's \<Rightarrow> (unit, 's) recorded" where
  "record_child_workflow_started ops at child ty inp v r s =
     append_with ops at (\<lambda>env. ChildWorkflowStarted env child ty inp v) r s"

definition record_child_workflow_completed ::
  "'s event_store \<Rightarrow> timestamp \<Rightarrow> workflow_id \<Rightarrow> payload \<Rightarrow> recorder \<Rightarrow> 's \<Rightarrow> (unit, 's) recorded" where
  "record_child_workflow_completed ops at child p r s =
     append_with ops at (\<lambda>env. ChildWorkflowCompleted env child p) r s"

definition record_child_workflow_failed ::
  "'s event_store \<Rightarrow> timestamp \<Rightarrow> workflow_id \<Rightarrow> workflow_error \<Rightarrow> recorder \<Rightarrow> 's \<Rightarrow> (unit, 's) recorded" where
  "record_child_workflow_failed ops at child err r s =
     append_with ops at (\<lambda>env. ChildWorkflowFailed env child err) r s"

definition NON_DETERMINISM_WORKFLOW_ERROR_PREFIX :: string where
  "NON_DETERMINISM_WORKFLOW_ERROR_PREFIX = ''non-determinism violation''"

text \<open>\<^verbatim>\<open>fail_on_violation\<close>; the \<^verbatim>\<open>Display\<close> text of a violation is generated by \<^verbatim>\<open>thiserror\<close> from debug
  formatting and is the parameter \<open>show_violation\<close>.\<close>

definition fail_on_violation ::
  "(non_determinism_error \<Rightarrow> string) \<Rightarrow> 's event_store \<Rightarrow> timestamp \<Rightarrow> non_determinism_error
    \<Rightarrow> recorder \<Rightarrow> 's \<Rightarrow> (unit, 's) recorded" where
  "fail_on_violation show_violation ops at violation r s =
     record_workflow_failed ops at
       \<lparr>we_message = NON_DETERMINISM_WORKFLOW_ERROR_PREFIX @ '': '' @ show_violation violation,
        we_details = None\<rparr> r s"

section \<open>What every recording operation does\<close>

text \<open>The recording operations, each with the event it is meant to append (given the recorder's workflow
  id and the envelope).\<close>

inductive recording_op ::
  "'s event_store \<Rightarrow> timestamp \<Rightarrow> (recorder \<Rightarrow> 's \<Rightarrow> (unit, 's) recorded)
    \<Rightarrow> (workflow_id \<Rightarrow> event_envelope \<Rightarrow> event) \<Rightarrow> bool" for ops at where
  "recording_op ops at (record_workflow_started ops at start)
     (\<lambda>w env. WorkflowStarted env (wsr_workflow_type start) (wsr_input start) (wsr_run_id start)
        (wsr_parent_run_id start) (wsr_package_version start))"
| "validate_all sch attrs = Inr () \<Longrightarrow>
   recording_op ops at (record_search_attributes_updated ops at attrs sch)
     (\<lambda>w env. SearchAttributesUpdated env w attrs)"
| "recording_op ops at (fail_on_violation show_violation ops at violation)
     (\<lambda>w env. WorkflowFailed env
        \<lparr>we_message = NON_DETERMINISM_WORKFLOW_ERROR_PREFIX @ '': '' @ show_violation violation,
         we_details = None\<rparr>)"
| "recording_op ops at (record_schedule_created ops at sid config) (\<lambda>w env. ScheduleCreated env sid config)"
| "recording_op ops at (record_schedule_updated ops at sid config) (\<lambda>w env. ScheduleUpdated env sid config)"
| "recording_op ops at (record_schedule_paused ops at sid) (\<lambda>w env. SchedulePaused env sid)"
| "recording_op ops at (record_schedule_resumed ops at sid) (\<lambda>w env. ScheduleResumed env sid)"
| "recording_op ops at (record_schedule_deleted ops at sid) (\<lambda>w env. ScheduleDeleted env sid)"
| "recording_op ops at (record_schedule_triggered ops at sid target run) (\<lambda>w env. ScheduleTriggered env sid target run)"
| "recording_op ops at (record_workflow_completed ops at p) (\<lambda>w env. WorkflowCompleted env p)"
| "recording_op ops at (record_workflow_failed ops at err) (\<lambda>w env. WorkflowFailed env err)"
| "recording_op ops at (record_workflow_cancelled ops at reason) (\<lambda>w env. WorkflowCancelled env reason)"
| "recording_op ops at (record_workflow_timed_out ops at timeout) (\<lambda>w env. WorkflowTimedOut env timeout)"
| "recording_op ops at (record_workflow_continued_as_new ops at p ty parent) (\<lambda>w env. WorkflowContinuedAsNew env p ty parent)"
| "recording_op ops at (record_workflow_reopened ops at run reopened) (\<lambda>w env. WorkflowReopened env run reopened)"
| "recording_op ops at (record_workflow_paused ops at run reason operator) (\<lambda>w env. WorkflowPaused env run reason operator)"
| "recording_op ops at (record_workflow_resumed ops at run operator) (\<lambda>w env. WorkflowResumed env run operator)"
| "recording_op ops at (record_activity_scheduled ops at a ty inp queue node) (\<lambda>w env. ActivityScheduled env a ty inp queue node)"
| "recording_op ops at (record_activity_started ops at a attempt) (\<lambda>w env. ActivityStarted env a attempt)"
| "recording_op ops at (record_activity_completed ops at a p attempt) (\<lambda>w env. ActivityCompleted env a p attempt)"
| "recording_op ops at (record_activity_failed ops at a err attempt) (\<lambda>w env. ActivityFailed env a err attempt)"
| "recording_op ops at (record_activity_cancelled ops at a attempt) (\<lambda>w env. ActivityCancelled env a attempt)"
| "recording_op ops at (record_timer_started ops at t fire_at) (\<lambda>w env. TimerStarted env t fire_at)"
| "recording_op ops at (record_timer_fired ops at t) (\<lambda>w env. TimerFired env t)"
| "recording_op ops at (record_timer_cancelled ops at t cause) (\<lambda>w env. TimerCancelled env t cause)"
| "recording_op ops at (record_with_timeout_completed ops at t outcome p) (\<lambda>w env. WithTimeoutCompleted env t outcome p)"
| "recording_op ops at (record_signal_received ops at name p) (\<lambda>w env. SignalReceived env name p)"
| "recording_op ops at (record_signal_sent ops at target name p) (\<lambda>w env. SignalSent env target name p)"
| "recording_op ops at (record_child_workflow_started ops at child ty inp v) (\<lambda>w env. ChildWorkflowStarted env child ty inp v)"
| "recording_op ops at (record_child_workflow_completed ops at child p) (\<lambda>w env. ChildWorkflowCompleted env child p)"
| "recording_op ops at (record_child_workflow_failed ops at child err) (\<lambda>w env. ChildWorkflowFailed env child err)"

lemma recording_op_envelope: "recording_op ops at f build \<Longrightarrow> envelope (build w env) = env"
  by (induction rule: recording_op.induct) simp_all

text \<open>The recorder's head is the length of the history it writes.\<close>

definition in_step :: "('s \<Rightarrow> workflow_id \<Rightarrow> history) \<Rightarrow> recorder \<Rightarrow> 's \<Rightarrow> bool" where
  "in_step hist r s \<longleftrightarrow> unat (current_head r) = length (hist s (rc_workflow_id r))"

text \<open>A recording operation is its append, followed by steps that cannot fail and touch no history.\<close>

definition quiet ::
  "('s \<Rightarrow> bool) \<Rightarrow> ('s \<Rightarrow> workflow_id \<Rightarrow> history) \<Rightarrow> (recorder \<Rightarrow> 's \<Rightarrow> (unit, 's) recorded) \<Rightarrow> bool" where
  "quiet ok hist post \<longleftrightarrow>
     (\<forall>r s. ok s \<longrightarrow> (\<exists>r' s'. post r s = (Inr (), r', s') \<and> ok s' \<and> hist s' = hist s
        \<and> rc_workflow_id r' = rc_workflow_id r \<and> rc_sequence r' = rc_sequence r))"

definition next_env :: "recorder \<Rightarrow> timestamp \<Rightarrow> event_envelope" where
  "next_env r at =
     \<lparr>env_seq = current_head r + 1, env_recorded_at = at, env_workflow_id = rc_workflow_id r\<rparr>"

lemma next_envelope_eq:
  "next_envelope r at =
     (if current_head r = - 1 then Inl (HistoryShape (SequenceHeadOverflow (current_head r) 1))
      else Inr (next_env r at))"
  using checked_add_one_None_iff [of "current_head r"]
  by (cases "checked_add (current_head r) 1")
     (auto simp: next_envelope_def next_seq_def next_env_def current_head_def checked_add_def
        split: if_splits)

lemma unat_head_Suc:
  assumes "(h :: u64) \<noteq> - 1"
  shows "unat (h + 1) = Suc (unat h)"
proof -
  have "checked_add h 1 \<noteq> None" using assms by (simp add: checked_add_one_None_iff)
  then have "checked_add h 1 = Some (h + 1)" by (simp add: checked_add_def split: if_splits)
  from checked_add_SomeD [OF this] show ?thesis by simp
qed

lemmas recording_defs =
  record_workflow_started_def record_schedule_created_def record_schedule_updated_def
  record_schedule_paused_def record_schedule_resumed_def record_schedule_deleted_def
  record_schedule_triggered_def record_workflow_completed_def record_workflow_failed_def
  record_workflow_cancelled_def record_workflow_timed_out_def
  record_workflow_continued_as_new_def record_workflow_reopened_def record_workflow_paused_def
  record_workflow_resumed_def record_search_attributes_updated_def record_activity_scheduled_def
  record_activity_started_def record_activity_completed_def record_activity_failed_def
  record_activity_cancelled_def record_timer_started_def record_timer_fired_def
  record_timer_cancelled_def record_with_timeout_completed_def record_signal_received_def
  record_signal_sent_def record_child_workflow_started_def record_child_workflow_completed_def
  record_child_workflow_failed_def
  fail_on_violation_def

context event_store_laws
begin

lemma append_with_in_step:
  assumes "store_inv s" and "in_step hist r s" and "current_head r \<noteq> - 1"
    and "envelope (build (next_env r at)) = next_env r at"
  shows "\<exists>s'. append_with ops at build r s =
      (Inr (), r\<lparr>rc_sequence := (rc_sequence r)\<lparr>sh_head := current_head r + 1\<rparr>\<rparr>, s')
    \<and> store_inv s'
    \<and> hist s' = (hist s)(rc_workflow_id r := hist s (rc_workflow_id r) @ [build (next_env r at)])"
proof -
  let ?w = "rc_workflow_id r" and ?e = "build (next_env r at)"
  have "unat (seq ?e) = Suc (length (hist s ?w))"
    using assms unat_head_Suc [of "current_head r"] by (simp add: seq_def next_env_def in_step_def)
  then have "appendable (hist s ?w) (current_head r) [?e]"
    using assms(2) by (simp add: appendable_def in_step_def)
  from append_ok [OF assms(1) this] obtain s' where
    "es_append ops ?w [?e] (current_head r) s = (Inr (), s')" "store_inv s'"
    "hist s' = (hist s)(?w := hist s ?w @ [?e])" by blast
  moreover have "mark_append_success 1 (rc_sequence r) =
      Inr ((rc_sequence r)\<lparr>sh_head := current_head r + 1\<rparr>)"
    using assms(3) checked_add_one_None_iff [of "current_head r"]
    by (auto simp: mark_append_success_def u64_try_from_def current_head_def checked_add_def
        split: if_splits)
  ultimately show ?thesis
    using assms(3) by (simp add: append_with_def next_envelope_eq append_one_def commit_def)
qed

text \<open>A recorder that is out of step cannot append: the store's head check stops it.\<close>

lemma append_with_stale:
  assumes "store_inv s" and "\<not> in_step hist r s"
  shows "\<exists>e. append_with ops at build r s = (Inl e, r, s)
    \<and> (current_head r \<noteq> - 1 \<longrightarrow>
        e = StoreErr (SequenceConflict (current_head r) (of_nat (length (hist s (rc_workflow_id r))))))"
  using append_conflict [OF assms(1), of "current_head r" "rc_workflow_id r"] assms(2)
  by (simp add: append_with_def next_envelope_eq append_one_def commit_def in_step_def)

lemma quiet_settle: "quiet store_inv hist (settle_terminal_outbox_rows_nonfatal ops)"
  unfolding quiet_def settle_terminal_outbox_rows_nonfatal_def
proof (intro allI impI)
  fix r :: recorder and s
  assume "store_inv s"
  then show "\<exists>r' s'. (Inr (), r, snd (es_settle_workflow_outbox_rows_cancelled ops (rc_workflow_id r) s)) =
      (Inr (), r', s') \<and> store_inv s' \<and> hist s' = hist s
      \<and> rc_workflow_id r' = rc_workflow_id r \<and> rc_sequence r' = rc_sequence r"
    using settle_rows_frame [of s "rc_workflow_id r"]
    by (cases "es_settle_workflow_outbox_rows_cancelled ops (rc_workflow_id r) s") auto
qed

lemma upsert_frame:
  assumes "store_inv s"
  shows "store_inv (snd (upsert_visibility_projection ops r s))
    \<and> hist (snd (upsert_visibility_projection ops r s)) = hist s"
proof -
  have "store_inv (snd (es_record_visibility ops v s)) \<and> hist (snd (es_record_visibility ops v s)) = hist s" for v
    using visibility_frame [OF assms, of v] by (cases "es_record_visibility ops v s") auto
  then show ?thesis
    using assms by (simp add: upsert_visibility_projection_def Let_def split_beta split: option.split sum.split)
qed

lemma quiet_visibility: "quiet store_inv hist (upsert_visibility_projection_nonfatal ops)"
  using upsert_frame by (auto simp: quiet_def upsert_visibility_projection_nonfatal_def)

lemma recording_op_shape:
  assumes "recording_op ops at f build"
  shows "\<exists>post. quiet store_inv hist post \<and>
    f r s = and_then (append_with ops at (build (rc_workflow_id r)) r s) (\<lambda>_. post)"
proof -
  have plain: "\<exists>post. quiet store_inv hist post \<and> m = and_then m (\<lambda>_. post)" for m :: "(unit, 's) recorded"
  proof -
    obtain res r s where m: "m = (res, r, s)" by (cases m) auto
    have "m = and_then m (\<lambda>_ r s. (Inr (), r, s))" unfolding m by (cases res) auto
    then show ?thesis by (intro exI [of _ "\<lambda>r s. (Inr (), r, s)"]) (simp add: quiet_def)
  qed
  have run: "quiet store_inv hist (\<lambda>r s. (Inr (), r\<lparr>rc_run_id := run\<rparr>, s))" for run
    by (simp add: quiet_def)
  have post: "quiet store_inv hist p
      \<Longrightarrow> \<exists>q. quiet store_inv hist q \<and> and_then m (\<lambda>_. p) = and_then m (\<lambda>_. q)" for p m
    by blast
  from assms show ?thesis
    by (induction rule: recording_op.induct; simp only: recording_defs sum.case)
       (rule post [OF quiet_settle] post [OF quiet_visibility] post [OF run] plain)+
qed

lemma recording_op_appends:
  assumes "recording_op ops at f build" and "store_inv s" and "in_step hist r s"
    and "current_head r \<noteq> - 1"
  shows "\<exists>r' s'. f r s = (Inr (), r', s') \<and> store_inv s' \<and> in_step hist r' s'
    \<and> rc_workflow_id r' = rc_workflow_id r \<and> current_head r' = current_head r + 1
    \<and> hist s' = (hist s)(rc_workflow_id r :=
         hist s (rc_workflow_id r) @ [build (rc_workflow_id r) (next_env r at)])"
proof -
  let ?w = "rc_workflow_id r"
  let ?r1 = "r\<lparr>rc_sequence := (rc_sequence r)\<lparr>sh_head := current_head r + 1\<rparr>\<rparr>"
  from recording_op_shape [OF assms(1)] obtain post where quiet: "quiet store_inv hist post"
    and f: "f r s = and_then (append_with ops at (build ?w) r s) (\<lambda>_. post)" by blast
  from append_with_in_step [where at = at and build = "build ?w", OF assms(2-4)
      recording_op_envelope [OF assms(1)]] obtain s1 where
    "append_with ops at (build ?w) r s = (Inr (), ?r1, s1)" and inv1: "store_inv s1"
    and hist1: "hist s1 = (hist s)(?w := hist s ?w @ [build ?w (next_env r at)])" by blast
  moreover from quiet inv1 obtain r' s' where "post ?r1 s1 = (Inr (), r', s')" "store_inv s'"
    "hist s' = hist s1" "rc_workflow_id r' = ?w" "rc_sequence r' = rc_sequence ?r1"
    unfolding quiet_def by fastforce
  ultimately show ?thesis
    using f assms(3) unat_head_Suc [OF assms(4)]
    by (intro exI [of _ r'] exI [of _ s']) (auto simp: in_step_def current_head_def)
qed

lemma recording_op_stale:
  assumes "recording_op ops at f build" and "store_inv s" and "\<not> in_step hist r s"
  shows "\<exists>e. f r s = (Inl e, r, s)
    \<and> (current_head r \<noteq> - 1 \<longrightarrow>
        e = StoreErr (SequenceConflict (current_head r) (of_nat (length (hist s (rc_workflow_id r))))))"
proof -
  from recording_op_shape [OF assms(1)] obtain post where
    "f r s = and_then (append_with ops at (build (rc_workflow_id r)) r s) (\<lambda>_. post)" by blast
  with append_with_stale [OF assms(2,3), of at "build (rc_workflow_id r)"] show ?thesis by auto
qed

lemma recording_op_full:
  assumes "recording_op ops at f build" and "current_head r = - 1"
  shows "f r s = (Inl (HistoryShape (SequenceHeadOverflow (current_head r) 1)), r, s)"
proof -
  from recording_op_shape [OF assms(1)] obtain post where
    "f r s = and_then (append_with ops at (build (rc_workflow_id r)) r s) (\<lambda>_. post)" by blast
  with assms(2) show ?thesis by (simp add: append_with_def next_envelope_eq)
qed

lemma mark_append_success_fits:
  assumes "store_inv s'" and "appendable (hist s w) h batch" and "hist s' w = hist s w @ batch"
    and "h = sh_head sq"
  shows "mark_append_success (length batch) sq = Inr (sq\<lparr>sh_head := h + of_nat (length batch)\<rparr>)"
    and "unat (h + of_nat (length batch)) = length (hist s' w)"
proof -
  have "length (hist s w @ batch) < 2 ^ 64"
    using contiguous_length [of "hist s' w"] contiguous_hist [OF assms(1), of w] assms(3) by simp
  then have fits: "unat h + length batch < 2 ^ 64" using assms(2) by (simp add: appendable_def)
  then have len: "unat (of_nat (length batch) :: u64) = length batch" by (simp add: of_nat_inverse)
  then have add: "checked_add h (of_nat (length batch)) = Some (h + of_nat (length batch))"
    using fits by (simp add: checked_add_def)
  show "mark_append_success (length batch) sq = Inr (sq\<lparr>sh_head := h + of_nat (length batch)\<rparr>)"
    using add fits assms(4) by (simp add: mark_append_success_def u64_try_from_def)
  show "unat (h + of_nat (length batch)) = length (hist s' w)"
    using checked_add_SomeD [OF add] len assms(2,3) by (simp add: appendable_def)
qed

text \<open>A batch commit is all-or-nothing and keeps the recorder in step.\<close>

lemma commit_cases:
  assumes "store_inv s" and "rc_workflow_id r = w"
    and "\<And>res0 s0. append_at (current_head r) s = (res0, s0) \<Longrightarrow> store_inv s0 \<and>
      (case res0 of
         Inl e \<Rightarrow> hist s0 = hist s
       | Inr _ \<Rightarrow> appendable (hist s w) (current_head r) batch \<and> hist s0 = (hist s)(w := hist s w @ batch))"
    and "commit append_at (length batch) r s = (res, r', s')"
  shows "store_inv s' \<and>
    (case res of
       Inl e \<Rightarrow> hist s' = hist s \<and> r' = r
     | Inr _ \<Rightarrow> appendable (hist s w) (current_head r) batch
         \<and> hist s' = (hist s)(w := hist s w @ batch)
         \<and> r' = r\<lparr>rc_sequence := (rc_sequence r)\<lparr>sh_head := current_head r + of_nat (length batch)\<rparr>\<rparr>
         \<and> in_step hist r' s')"
proof -
  obtain res0 s0 where app: "append_at (current_head r) s = (res0, s0)" by fastforce
  note post = assms(3) [OF app]
  show ?thesis
  proof (cases res0)
    case (Inl e)
    with post app assms(4) show ?thesis by (auto simp: commit_def)
  next
    case (Inr u)
    with post have "store_inv s0" and can: "appendable (hist s w) (current_head r) batch"
      and h: "hist s0 = (hist s)(w := hist s w @ batch)" by simp_all
    with mark_append_success_fits [OF this(1) can, of "rc_sequence r"] Inr app assms(2,4)
    show ?thesis by (auto simp: commit_def current_head_def in_step_def)
  qed
qed

lemma commit_append_cases:
  assumes "store_inv s" and "rc_workflow_id r = w"
    and "commit (es_append ops w batch) (length batch) r s = (res, r', s')"
  shows "store_inv s' \<and>
    (case res of
       Inl e \<Rightarrow> hist s' = hist s \<and> r' = r
     | Inr _ \<Rightarrow> appendable (hist s w) (current_head r) batch
         \<and> hist s' = (hist s)(w := hist s w @ batch)
         \<and> r' = r\<lparr>rc_sequence := (rc_sequence r)\<lparr>sh_head := current_head r + of_nat (length batch)\<rparr>\<rparr>
         \<and> in_step hist r' s')"
proof (rule commit_cases [OF assms(1,2) _ assms(3)])
  fix res0 s0
  assume "es_append ops w batch (current_head r) s = (res0, s0)"
  from append_cases [OF assms(1) this]
  show "store_inv s0 \<and> (case res0 of Inl e \<Rightarrow> hist s0 = hist s
      | Inr _ \<Rightarrow> appendable (hist s w) (current_head r) batch \<and> hist s0 = (hist s)(w := hist s w @ batch))"
    by (auto split: sum.splits)
qed

text \<open>The start of a run and its initial attributes become durable together or not at all.\<close>

lemma start_with_attributes_cases:
  assumes "store_inv s" and "attrs \<noteq> []"
    and "record_workflow_started_with_attributes ops at start attrs sch r s = (res, r', s')"
  shows "store_inv s' \<and>
    (case res of
       Inl e \<Rightarrow> hist s' = hist s \<and> r' = r
     | Inr _ \<Rightarrow> validate_all sch attrs = Inr () \<and> in_step hist r' s' \<and> rc_run_id r' = Some (wsr_run_id start)
         \<and> (\<exists>env env'. unat (env_seq env') = Suc (unat (env_seq env))
              \<and> hist s' = (hist s)(rc_workflow_id r := hist s (rc_workflow_id r) @
                  [WorkflowStarted env (wsr_workflow_type start) (wsr_input start) (wsr_run_id start)
                     (wsr_parent_run_id start) (wsr_package_version start),
                   SearchAttributesUpdated env' (rc_workflow_id r) attrs])))"
proof -
  consider (err) e where "(res, r', s') = (Inl e, r, s)"
    | (ok) env env' where "validate_all sch attrs = Inr ()"
      "unat (env_seq env') = Suc (unat (env_seq env))"
      "and_then (commit (es_append ops (rc_workflow_id r)
          [WorkflowStarted env (wsr_workflow_type start) (wsr_input start) (wsr_run_id start)
             (wsr_parent_run_id start) (wsr_package_version start),
           SearchAttributesUpdated env' (rc_workflow_id r) attrs]) (Suc (Suc 0)) r s)
         (\<lambda>_ r s. (Inr (), r\<lparr>rc_run_id := Some (wsr_run_id start)\<rparr>, s)) = (res, r', s')"
    using assms(2,3)
    by (fastforce simp: record_workflow_started_with_attributes_def envelope_after_def Let_def
        bind_res_eq_Inr_iff dest!: checked_add_SomeD split: sum.splits)
  then show ?thesis
  proof cases
    case err
    with assms(1) show ?thesis by simp
  next
    case ok
    let ?batch = "[WorkflowStarted env (wsr_workflow_type start) (wsr_input start) (wsr_run_id start)
             (wsr_parent_run_id start) (wsr_package_version start),
           SearchAttributesUpdated env' (rc_workflow_id r) attrs]"
    obtain res1 r1 s1 where c: "commit (es_append ops (rc_workflow_id r) ?batch) (length ?batch) r s = (res1, r1, s1)"
      by (metis prod_cases3)
    note post = commit_append_cases [OF assms(1) refl this]
    show ?thesis
    proof (cases res1)
      case (Inl e)
      with post c ok(3) show ?thesis by auto
    next
      case (Inr u)
      with c ok(3) have "res = Inr ()" "r' = r1\<lparr>rc_run_id := Some (wsr_run_id start)\<rparr>" "s' = s1" by auto
      with post Inr ok(1,2) show ?thesis by (auto simp: in_step_def current_head_def)
    qed
  qed
qed

end

section \<open>Properties of the recorder over the in-memory store\<close>

text \<open>On a recorder that is in step with its history, every recording operation succeeds, appends
  exactly the one event it stands for, stamped with the next sequence number, the given time and the
  recorder's workflow, changes no other history, and leaves the recorder in step.\<close>

theorem recorder_appends:
  assumes "recording_op memory_store at f build" and "ms_inv s" and "in_step ms_hist r s"
    and "current_head r \<noteq> - 1"
  shows "\<exists>r' s'. f r s = (Inr (), r', s') \<and> ms_inv s' \<and> in_step ms_hist r' s'
    \<and> rc_workflow_id r' = rc_workflow_id r \<and> current_head r' = current_head r + 1
    \<and> ms_hist s' = (ms_hist s)(rc_workflow_id r :=
         ms_hist s (rc_workflow_id r) @ [build (rc_workflow_id r) (next_env r at)])"
  by (rule memory.recording_op_appends [OF assms])

lemma recorder_resume_at_sel [simp]:
  "rc_workflow_id (recorder_resume_at w h) = w" "current_head (recorder_resume_at w h) = h"
  "rc_run_id (recorder_resume_at w h) = None" "rc_visibility (recorder_resume_at w h) = None"
  by (simp_all add: recorder_resume_at_def from_head_def current_head_def)

lemma ms_hist_default [simp]: "ms_hist in_memory_default w = []"
  by (simp add: ms_hist_def in_memory_default_def)

lemma fresh_in_step: "in_step ms_hist (recorder_new w) in_memory_default"
  by (simp add: in_step_def recorder_new_def)

theorem recorder_appends_witness:
  "\<exists>r' s'. record_signal_received memory_store 9 ''go'' s_payload (recorder_new s_workflow) in_memory_default
      = (Inr (), r', s')
    \<and> ms_hist s' s_workflow = [SignalReceived \<lparr>env_seq = 1, env_recorded_at = 9, env_workflow_id = s_workflow\<rparr>
         ''go'' s_payload]"
proof -
  have "recording_op memory_store 9 (record_signal_received memory_store 9 ''go'' s_payload)
      (\<lambda>w env. SignalReceived env ''go'' s_payload)" by (rule recording_op.intros)
  from recorder_appends [OF this in_memory_default_inv fresh_in_step, of s_workflow]
  obtain r' s' where "record_signal_received memory_store 9 ''go'' s_payload (recorder_new s_workflow)
      in_memory_default = (Inr (), r', s')"
    and "ms_hist s' s_workflow = [SignalReceived (next_env (recorder_new s_workflow) 9) ''go'' s_payload]"
    by (auto simp: recorder_new_def)
  then show ?thesis by (simp add: next_env_def recorder_new_def)
qed

text \<open>A second writer cannot corrupt a history.  A recorder whose head no longer matches the stored
  history has every recording operation refused with a sequence conflict naming both heads, with
  neither the store nor its own head changed.\<close>

theorem stale_recorder_conflicts:
  assumes "recording_op memory_store at f build" and "ms_inv s" and "\<not> in_step ms_hist r s"
    and "current_head r \<noteq> - 1"
  shows "f r s = (Inl (StoreErr (SequenceConflict (current_head r)
      (of_nat (length (ms_hist s (rc_workflow_id r)))))), r, s)"
  using memory.recording_op_stale [OF assms(1-3)] assms(4) by blast

theorem stale_recorder_conflicts_witness:
  "record_timer_fired memory_store 9 (Named ''t'') (recorder_resume_at s_workflow 4) in_memory_default =
     (Inl (StoreErr (SequenceConflict 4 0)), recorder_resume_at s_workflow 4, in_memory_default)"
proof -
  have "recording_op memory_store 9 (record_timer_fired memory_store 9 (Named ''t''))
      (\<lambda>w env. TimerFired env (Named ''t''))" by (rule recording_op.intros)
  from stale_recorder_conflicts [OF this in_memory_default_inv, of "recorder_resume_at s_workflow 4"]
  show ?thesis by (simp add: in_step_def)
qed

text \<open>Starting a run with initial search attributes is atomic: either both the start event and the
  attribute event are appended, consecutively numbered, with validated attributes and the recorder in
  step, or no history and not the recorder changes, so a crash or an error can never leave a started
  run without its attributes.\<close>

theorem start_with_attributes_atomic:
  assumes "ms_inv s" and "attrs \<noteq> []"
    and "record_workflow_started_with_attributes memory_store at start attrs sch r s = (res, r', s')"
  shows "ms_inv s' \<and>
    (case res of
       Inl e \<Rightarrow> ms_hist s' = ms_hist s \<and> r' = r
     | Inr _ \<Rightarrow> validate_all sch attrs = Inr () \<and> in_step ms_hist r' s' \<and> rc_run_id r' = Some (wsr_run_id start)
         \<and> (\<exists>env env'. unat (env_seq env') = Suc (unat (env_seq env))
              \<and> ms_hist s' = (ms_hist s)(rc_workflow_id r := ms_hist s (rc_workflow_id r) @
                  [WorkflowStarted env (wsr_workflow_type start) (wsr_input start) (wsr_run_id start)
                     (wsr_parent_run_id start) (wsr_package_version start),
                   SearchAttributesUpdated env' (rc_workflow_id r) attrs])))"
  by (rule memory.start_with_attributes_cases [OF assms])

abbreviation s_start :: workflow_start_record where
  "s_start \<equiv> \<lparr>wsr_workflow_type = ''order'', wsr_input = s_payload, wsr_run_id = s_run,
     wsr_parent_run_id = None, wsr_package_version = PackageVersion ''v1''\<rparr>"

theorem start_with_attributes_atomic_witness:
  "\<exists>res r' s'. record_workflow_started_with_attributes memory_store 9 s_start [(''k'', SBool True)] []
      (recorder_new s_workflow) in_memory_default = (res, r', s') \<and> ms_hist s' = ms_hist in_memory_default"
proof -
  obtain res r' s' where eq: "record_workflow_started_with_attributes memory_store 9 s_start
      [(''k'', SBool True)] [] (recorder_new s_workflow) in_memory_default = (res, r', s')"
    by (metis prod_cases3)
  have "validate_all [] [(''k'', SBool True)] \<noteq> Inr ()" by (simp add: validate_def)
  with start_with_attributes_atomic [OF in_memory_default_inv _ eq] have "ms_hist s' = ms_hist in_memory_default"
    by (cases res) auto
  with eq show ?thesis by blast
qed

end
