(* ===== verification/Executor.thy ===== *)
theory Executor
  imports Resolver Recorder
begin

text \<open>
  \<^verbatim>\<open>crates/aion/src/durability/executor.rs\<close>: the hand-over from replay to live execution.  The live
  executor is code outside this module (a trait object); it is the argument \<open>ex\<close>, whose methods may also
  change the store, as the services behind them do.

  The lemmas show that an answered command touches neither executor nor history, and that an activity
  executed live is recorded in such a way that replaying it gives the very resolution it gave live.
\<close>

datatype live_activity_outcome = LiveCompleted payload | LiveFailed activity_error

datatype live_child_outcome =
  LiveChildCompleted workflow_id package_version payload
| LiveChildFailed workflow_id package_version workflow_error

fun live_child_package_version :: "live_child_outcome \<Rightarrow> package_version" where
  "live_child_package_version (LiveChildCompleted _ v _) = v"
| "live_child_package_version (LiveChildFailed _ v _) = v"

fun live_child_workflow_id :: "live_child_outcome \<Rightarrow> workflow_id" where
  "live_child_workflow_id (LiveChildCompleted w _ _) = w"
| "live_child_workflow_id (LiveChildFailed w _ _) = w"

datatype handoff_outcome = Resolved resolution | HandoffWorkflowCompleted

record 's live_executor =
  le_run_activity :: "string \<Rightarrow> payload \<Rightarrow> 's \<Rightarrow> (durability_error, live_activity_outcome) result \<times> 's"
  le_start_timer :: "timer_id \<Rightarrow> timestamp \<Rightarrow> 's \<Rightarrow> (durability_error, unit) result \<times> 's"
  le_await_signal :: "string \<Rightarrow> nat \<Rightarrow> 's \<Rightarrow> (durability_error, payload) result \<times> 's"
  le_spawn_child :: "string \<Rightarrow> payload \<Rightarrow> 's \<Rightarrow> (durability_error, live_child_outcome) result \<times> 's"

definition ensure_terminal_activity_error :: "activity_error \<Rightarrow> (durability_error, unit) result" where
  "ensure_terminal_activity_error err =
     (if is_retryable err then Inl (HistoryShape LiveActivityFailureNotTerminal) else Inr ())"

fun activity_id_from_key :: "correlation_key \<Rightarrow> (durability_error, activity_id) result" where
  "activity_id_from_key (KActivity n) = Inr (from_sequence_position n)"
| "activity_id_from_key other = Inl (HistoryShape (WrongKeyFor ''RunActivity'' other))"

fun timer_id_from_key :: "correlation_key \<Rightarrow> (durability_error, timer_id) result" where
  "timer_id_from_key (KTimer t) = Inr t"
| "timer_id_from_key other = Inl (HistoryShape (WrongKeyFor ''StartTimer'' other))"

fun signal_from_key :: "correlation_key \<Rightarrow> (durability_error, string \<times> nat) result" where
  "signal_from_key (KSignal name n) = Inr (name, n)"
| "signal_from_key other = Inl (HistoryShape (WrongKeyFor ''AwaitSignal'' other))"

fun child_from_key :: "correlation_key \<Rightarrow> (durability_error, u64) result" where
  "child_from_key (KChild n) = Inr n"
| "child_from_key other = Inl (HistoryShape (WrongKeyFor ''SpawnChild'' other))"

text \<open>\<^verbatim>\<open>?\<close> on a pure result, and on an executor call, inside a recording computation.\<close>

definition pure_step ::
  "(durability_error, 'a) result \<Rightarrow> ('a \<Rightarrow> recorder \<Rightarrow> 's \<Rightarrow> ('b, 's) recorded) \<Rightarrow> recorder \<Rightarrow> 's \<Rightarrow> ('b, 's) recorded" where
  "pure_step res k r s = (case res of Inl e \<Rightarrow> (Inl e, r, s) | Inr x \<Rightarrow> k x r s)"

definition world_step ::
  "(durability_error, 'a) result \<times> 's \<Rightarrow> ('a \<Rightarrow> recorder \<Rightarrow> 's \<Rightarrow> ('b, 's) recorded) \<Rightarrow> recorder \<Rightarrow> ('b, 's) recorded" where
  "world_step call k r = (case call of (Inl e, s) \<Rightarrow> (Inl e, r, s) | (Inr x, s) \<Rightarrow> k x r s)"

fun execute_live_and_record ::
  "'s event_store \<Rightarrow> 's live_executor \<Rightarrow> command \<Rightarrow> timestamp \<Rightarrow> recorder \<Rightarrow> 's \<Rightarrow> (handoff_outcome, 's) recorded" where
  "execute_live_and_record ops ex (RunActivity key activity_type input) at r s =
     pure_step (activity_id_from_key key) (\<lambda>a r s.
       and_then (record_activity_scheduled ops at a activity_type input DEFAULT_TASK_QUEUE None r s) (\<lambda>_ r s.
       and_then (record_activity_started ops at a 1 r s) (\<lambda>_ r s.
       world_step (le_run_activity ex activity_type input s) (\<lambda>outcome r s.
         case outcome of
           LiveCompleted result \<Rightarrow>
             and_then (record_activity_completed ops at a result 1 r s)
               (\<lambda>_ r s. (Inr (Resolved (ResActivityCompleted result)), r, s))
         | LiveFailed err \<Rightarrow>
             pure_step (ensure_terminal_activity_error err) (\<lambda>_ r s.
               and_then (record_activity_failed ops at a err 1 r s)
                 (\<lambda>_ r s. (Inr (Resolved (ResActivityFailedTerminal err)), r, s))) r s) r))) r s"
| "execute_live_and_record ops ex (StartTimer key fire_at) at r s =
     pure_step (timer_id_from_key key) (\<lambda>t r s.
       and_then (record_timer_started ops at t fire_at r s) (\<lambda>_ r s.
       world_step (le_start_timer ex t fire_at s) (\<lambda>_ r s. (Inr (Resolved ResTimerFired), r, s)) r)) r s"
| "execute_live_and_record ops ex (AwaitSignal key) at r s =
     pure_step (signal_from_key key) (\<lambda>(name, n) r s.
       world_step (le_await_signal ex name n s) (\<lambda>p r s. (Inr (Resolved (ResSignalDelivered p)), r, s)) r) r s"
| "execute_live_and_record ops ex (SendSignal _ _) at r s = (Inl (HistoryShape SendSignalOwnedByNif), r, s)"
| "execute_live_and_record ops ex (AwaitChild _) at r s = (Inl (HistoryShape AwaitChildOwnedByNif), r, s)"
| "execute_live_and_record ops ex (SpawnChild key workflow_type input) at r s =
     pure_step (child_from_key key) (\<lambda>_ r s.
       world_step (le_spawn_child ex workflow_type input s) (\<lambda>outcome r s.
       and_then (record_child_workflow_started ops at (live_child_workflow_id outcome) workflow_type input
                   (live_child_package_version outcome) r s) (\<lambda>_ r s.
         (Inr (Resolved (case outcome of
            LiveChildCompleted _ _ result \<Rightarrow> ResChildCompleted result
          | LiveChildFailed _ _ err \<Rightarrow> ResChildFailed err)), r, s))) r) r s"
| "execute_live_and_record ops ex (CompleteWorkflow result) at r s =
     and_then (record_workflow_completed ops at result r s) (\<lambda>_ r s. (Inr HandoffWorkflowCompleted, r, s))"

definition resolve_or_execute_live ::
  "'s event_store \<Rightarrow> 's live_executor \<Rightarrow> command \<Rightarrow> timestamp \<Rightarrow> resolver \<Rightarrow> recorder \<Rightarrow> 's
    \<Rightarrow> (handoff_outcome, 's) recorded \<times> resolver" where
  "resolve_or_execute_live ops ex command at rs r s =
     (case resolve command rs of
        (Inl e, rs') \<Rightarrow> ((Inl e, r, s), rs')
      | (Inr (OutRecorded resolution), rs') \<Rightarrow> ((Inr (Resolved resolution), r, s), rs')
      | (Inr OutResumeLive, rs') \<Rightarrow> (execute_live_and_record ops ex command at r s, rs'))"

section \<open>Recording what ran live\<close>

lemma and_then_Inr:
  "and_then p f = (Inr y, r', s') \<longleftrightarrow> (\<exists>x r1 s1. p = (Inr x, r1, s1) \<and> f x r1 s1 = (Inr y, r', s'))"
  by (cases "(p, f)" rule: and_then.cases) auto

lemma pure_step_Inr: "pure_step p k r s = (Inr y, r', s') \<longleftrightarrow> (\<exists>x. p = Inr x \<and> k x r s = (Inr y, r', s'))"
  by (auto simp: pure_step_def split: sum.splits)

lemma world_step_Inr:
  "world_step call k r = (Inr y, r', s') \<longleftrightarrow> (\<exists>x s1. call = (Inr x, s1) \<and> k x r s1 = (Inr y, r', s'))"
  by (auto simp: world_step_def split: prod.splits sum.splits)

lemmas handoff_success = and_then_Inr pure_step_Inr world_step_Inr

text \<open>An executor call that leaves the workflow's own history alone.\<close>

definition keeps_history ::
  "('s \<Rightarrow> bool) \<Rightarrow> ('s \<Rightarrow> workflow_id \<Rightarrow> history) \<Rightarrow> workflow_id \<Rightarrow> ('s \<Rightarrow> 'r \<times> 's) \<Rightarrow> bool" where
  "keeps_history ok hist w call \<longleftrightarrow>
     (\<forall>s res s'. ok s \<longrightarrow> call s = (res, s') \<longrightarrow> ok s' \<and> hist s' w = hist s w)"

context event_store_laws
begin

lemma append_with_Inr:
  assumes "store_inv s" and "append_with ops at build r s = (Inr u, r', s')"
  shows "store_inv s' \<and> in_step hist r' s' \<and> rc_workflow_id r' = rc_workflow_id r
    \<and> (\<exists>env. hist s' = (hist s)(rc_workflow_id r := hist s (rc_workflow_id r) @ [build env]))"
proof -
  from assms(2) obtain env where "commit (es_append ops (rc_workflow_id r) [build env]) (length [build env]) r s
      = (Inr u, r', s')" by (auto simp: append_with_def append_one_def split: sum.splits)
  from commit_append_cases [OF assms(1) refl this] show ?thesis by auto
qed

lemma live_activity_recorded:
  assumes "store_inv s" and "keeps_history store_inv hist (rc_workflow_id r) (le_run_activity ex ty inp)"
    and "execute_live_and_record ops ex (RunActivity (KActivity n) ty inp) at r s = (Inr outcome, r', s')"
  shows "\<exists>e1 e2 e3 res final. outcome = Resolved res \<and> store_inv s' \<and> in_step hist r' s'
    \<and> hist s' (rc_workflow_id r) = hist s (rc_workflow_id r) @
        [ActivityScheduled e1 (ActivityId n) ty inp DEFAULT_TASK_QUEUE None, ActivityStarted e2 (ActivityId n) 1, final]
    \<and> ((\<exists>p. res = ResActivityCompleted p \<and> final = ActivityCompleted e3 (ActivityId n) p 1)
       \<or> (\<exists>err. res = ResActivityFailedTerminal err \<and> \<not> is_retryable err
              \<and> final = ActivityFailed e3 (ActivityId n) err 1))"
proof -
  let ?w = "rc_workflow_id r" and ?a = "ActivityId n"
  from assms(3) obtain r1 s1 r2 s2 o3 s3 where
    1: "append_with ops at (\<lambda>env. ActivityScheduled env ?a ty inp DEFAULT_TASK_QUEUE None) r s = (Inr (), r1, s1)"
    and 2: "append_with ops at (\<lambda>env. ActivityStarted env ?a 1) r1 s1 = (Inr (), r2, s2)"
    and 3: "le_run_activity ex ty inp s2 = (Inr o3, s3)"
    and 4: "(case o3 of
           LiveCompleted result \<Rightarrow>
             and_then (record_activity_completed ops at ?a result 1 r2 s3)
               (\<lambda>_ r s. (Inr (Resolved (ResActivityCompleted result)), r, s))
         | LiveFailed err \<Rightarrow>
             pure_step (ensure_terminal_activity_error err) (\<lambda>_ r s.
               and_then (record_activity_failed ops at ?a err 1 r s)
                 (\<lambda>_ r s. (Inr (Resolved (ResActivityFailedTerminal err)), r, s))) r2 s3) = (Inr outcome, r', s')"
    by (auto simp: handoff_success record_activity_scheduled_def record_activity_started_def
        from_sequence_position_def)
  note s1 = append_with_Inr [OF assms(1) 1]
  note s2 = append_with_Inr [OF conjunct1 [OF s1] 2]
  have s3: "store_inv s3 \<and> hist s3 ?w = hist s2 ?w"
    using assms(2) 3 s2 by (auto simp: keeps_history_def)
  show ?thesis
  proof (cases o3)
    case (LiveCompleted p)
    with 4 have "append_with ops at (\<lambda>env. ActivityCompleted env ?a p 1) r2 s3 = (Inr (), r', s')"
      and "outcome = Resolved (ResActivityCompleted p)"
      by (auto simp: handoff_success record_activity_completed_def)
    with append_with_Inr [OF conjunct1 [OF s3] this(1)] s1 s2 s3 show ?thesis by auto
  next
    case (LiveFailed err)
    with 4 have "append_with ops at (\<lambda>env. ActivityFailed env ?a err 1) r2 s3 = (Inr (), r', s')"
      and "outcome = Resolved (ResActivityFailedTerminal err)" and "\<not> is_retryable err"
      by (auto simp: handoff_success record_activity_failed_def ensure_terminal_activity_error_def split: if_splits)
    with append_with_Inr [OF conjunct1 [OF s3] this(1)] s1 s2 s3 show ?thesis by auto
  qed
qed

end

section \<open>Replaying what ran live\<close>

text \<open>The cursor of a replay over a history that has grown by \<open>new\<close> events, having consumed the same
  events as \<open>c\<close>.\<close>

definition extend_cursor :: "history \<Rightarrow> history_cursor \<Rightarrow> history_cursor" where
  "extend_cursor new c = c\<lparr>hc_events := hc_events c @ new, hc_consumed := hc_consumed c @ replicate (length new) False\<rparr>"

lemma extend_cursor_wf: "cursor_wf c \<Longrightarrow> cursor_wf (extend_cursor new c)"
  by (auto simp: cursor_wf_def extend_cursor_def)

lemma next_matchable_index_NoneD:
  assumes "cursor_wf c" and "next_matchable_index c = None" and "hc_position c \<le> j" and "j < length (hc_events c)"
  shows "hc_consumed c ! j \<or> family_for_event (hc_events c ! j) = None"
proof -
  let ?z = "drop (hc_position c) (zip (hc_events c) (hc_consumed c))"
  have len: "j - hc_position c < length ?z" using assms by (simp add: cursor_wf_def)
  then have "?z ! (j - hc_position c) \<in> set ?z" by (rule nth_mem)
  moreover have "position matchable ?z = None"
    using assms(1,2) by (simp add: next_matchable_index_def cursor_wf_def drop_zip)
  ultimately have "\<not> matchable (?z ! (j - hc_position c))" by (simp add: position_None_iff)
  then show ?thesis using len assms by (simp add: matchable_def cursor_wf_def)
qed

lemma extend_cursor_next:
  assumes "cursor_wf c" and "next_matchable_index c = None" and "family_for_event e \<noteq> None"
  shows "next_matchable_index (extend_cursor (e # new) c) = Some (length (hc_events c))"
proof (rule next_matchable_index_eq_SomeI)
  fix j
  assume "hc_position (extend_cursor (e # new) c) \<le> j" and "j < length (hc_events c)"
  with next_matchable_index_NoneD [OF assms(1,2), of j] assms(1)
  show "hc_consumed (extend_cursor (e # new) c) ! j
      \<or> family_for_event (hc_events (extend_cursor (e # new) c) ! j) = None"
    by (simp add: extend_cursor_def nth_append cursor_wf_def)
qed (use assms in \<open>auto simp: extend_cursor_def cursor_wf_def nth_append\<close>)

lemma extended_activity:
  assumes "cursor_wf c" and "next_matchable_index c = None"
  shows "at_activity (extend_cursor (ActivityScheduled env a ty inp q nd # new) c) (length (hc_events c)) a"
  using extend_cursor_next [OF assms, of "ActivityScheduled env a ty inp q nd"]
  by (simp add: at_activity_def) (simp add: extend_cursor_def)

lemma extended_activity_resolution:
  assumes "resolver_wf rs" and "next_matchable_index (rs_cursor rs) = None"
    and "new = [ActivityScheduled e1 (ActivityId n) ty inp q nd, ActivityStarted e2 (ActivityId n) k, final]"
    and "(\<exists>p. res = ResActivityCompleted p \<and> final = ActivityCompleted e3 (ActivityId n) p k)
       \<or> (\<exists>err. res = ResActivityFailedTerminal err \<and> \<not> is_retryable err \<and> final = ActivityFailed e3 (ActivityId n) err k)"
  shows "fst (resolve (RunActivity (KActivity n) ty inp) (rs\<lparr>rs_cursor := extend_cursor new (rs_cursor rs)\<rparr>))
    = Inr (OutRecorded res)"
proof -
  let ?c = "extend_cursor new (rs_cursor rs)" and ?i = "length (hc_events (rs_cursor rs))"
  have wf: "cursor_wf ?c" using assms(1) by (rule extend_cursor_wf)
  have at: "at_activity ?c ?i (ActivityId n)"
    unfolding assms(3) by (rule extended_activity [OF assms(1,2)])
  have later: "later_events ?c ?i = [ActivityStarted e2 (ActivityId n) k, final]"
    by (simp add: later_events_def extend_cursor_def assms(3))
  have "settle_index (ActivityId n) (later_events ?c ?i) = Some 1"
    using assms(4) unfolding later
    by (auto simp: settles_def activity_reopened_after_def has_later_activity_attempt_or_outcome_def)
  then obtain es c' where "resolve_next FActivity (KActivity (sequence_position (ActivityId n))) ?c = (Matched es, c')"
    "es \<noteq> []" "last es = final"
    by (rule activity_answer [OF wf at]) (simp add: later)
  with assms(4) show ?thesis
    by (auto simp: resolve_def resolve_keyed resolution_from_matched_def is_retryable_def
        intro: activity_error_kind.exhaust)
qed

text \<open>C1: what ran live replays as it ran.  When replay has consumed the whole history and an activity
  command is executed live, the history grows by exactly the schedule, the start and the outcome of that
  activity, and replaying the grown history up to the same command answers it from the record with the
  very resolution the live execution returned.\<close>

theorem live_activity_replays:
  assumes "ms_inv s" and "resolver_wf rs" and "next_matchable_index (rs_cursor rs) = None"
    and "keeps_history ms_inv ms_hist (rc_workflow_id r) (le_run_activity ex ty inp)"
    and "resolve_or_execute_live memory_store ex (RunActivity (KActivity n) ty inp) at rs r s =
      ((Inr outcome, r', s'), rs')"
  shows "\<exists>new res. outcome = Resolved res \<and> ms_inv s' \<and> in_step ms_hist r' s' \<and> length new = 3
    \<and> ms_hist s' (rc_workflow_id r) = ms_hist s (rc_workflow_id r) @ new
    \<and> fst (resolve (RunActivity (KActivity n) ty inp) (rs\<lparr>rs_cursor := extend_cursor new (rs_cursor rs)\<rparr>))
        = Inr (OutRecorded res)"
proof -
  have "resolve (RunActivity (KActivity n) ty inp) rs = (Inr OutResumeLive, rs)"
    using assms(2,3) by (simp add: resolve_def resolve_keyed resolve_next_eq)
  with assms(5) have "execute_live_and_record memory_store ex (RunActivity (KActivity n) ty inp) at r s
      = (Inr outcome, r', s')" by (simp add: resolve_or_execute_live_def del: execute_live_and_record.simps)
  from memory.live_activity_recorded [OF assms(1,4) this] obtain e1 e2 e3 res final where
    out: "outcome = Resolved res" "ms_inv s'" "in_step ms_hist r' s'" and
    h: "ms_hist s' (rc_workflow_id r) = ms_hist s (rc_workflow_id r) @
        [ActivityScheduled e1 (ActivityId n) ty inp DEFAULT_TASK_QUEUE None, ActivityStarted e2 (ActivityId n) 1, final]"
    and fin: "(\<exists>p. res = ResActivityCompleted p \<and> final = ActivityCompleted e3 (ActivityId n) p 1)
       \<or> (\<exists>err. res = ResActivityFailedTerminal err \<and> \<not> is_retryable err
              \<and> final = ActivityFailed e3 (ActivityId n) err 1)" by blast
  from extended_activity_resolution [OF assms(2,3) refl fin] out h show ?thesis
    by (intro exI [of _ "[ActivityScheduled e1 (ActivityId n) ty inp DEFAULT_TASK_QUEUE None,
        ActivityStarted e2 (ActivityId n) 1, final]"] exI [of _ res]) simp
qed

text \<open>A timer does not replay as it ran.  Starting a timer live returns only after the wait, with the
  resolution "fired"; what it recorded is the start alone, so replaying the same command over the grown
  history answers it with "started" as long as no fire directly follows.\<close>

theorem live_timer_replays_as_started:
  assumes "ms_inv s" and "resolver_wf rs" and "next_matchable_index (rs_cursor rs) = None"
    and "keeps_history ms_inv ms_hist (rc_workflow_id r) (le_start_timer ex t fire_at)"
    and "resolve_or_execute_live memory_store ex (StartTimer (KTimer t) fire_at) at rs r s =
      ((Inr outcome, r', s'), rs')"
  shows "outcome = Resolved ResTimerFired
    \<and> (\<exists>env. ms_hist s' (rc_workflow_id r) = ms_hist s (rc_workflow_id r) @ [TimerStarted env t fire_at]
        \<and> fst (resolve (StartTimer (KTimer t) fire_at)
            (rs\<lparr>rs_cursor := extend_cursor [TimerStarted env t fire_at] (rs_cursor rs)\<rparr>))
          = Inr (OutRecorded ResTimerStarted))"
proof -
  have "resolve (StartTimer (KTimer t) fire_at) rs = (Inr OutResumeLive, rs)"
    using assms(2,3) by (simp add: resolve_def resolve_keyed resolve_next_eq)
  with assms(5) obtain r1 s1 where
    1: "append_with memory_store at (\<lambda>env. TimerStarted env t fire_at) r s = (Inr (), r1, s1)"
    and 2: "le_start_timer ex t fire_at s1 = (Inr (), s')" and out: "outcome = Resolved ResTimerFired"
    by (auto simp: resolve_or_execute_live_def handoff_success record_timer_started_def)
  from memory.append_with_Inr [OF assms(1) 1] obtain env where inv: "ms_inv s1"
    and h: "ms_hist s1 (rc_workflow_id r) = ms_hist s (rc_workflow_id r) @ [TimerStarted env t fire_at]" by auto
  let ?c = "extend_cursor [TimerStarted env t fire_at] (rs_cursor rs)"
  have next_i: "next_matchable_index ?c = Some (length (hc_events (rs_cursor rs)))"
    by (rule extend_cursor_next [OF assms(2,3)]) simp
  have "fst (resolve (StartTimer (KTimer t) fire_at) (rs\<lparr>rs_cursor := ?c\<rparr>)) = Inr (OutRecorded ResTimerStarted)"
    using extend_cursor_wf [OF assms(2), of "[TimerStarted env t fire_at]"] next_i
    by (simp add: resolve_def resolve_keyed resolve_next_eq)
       (simp add: extend_cursor_def answer_indices_def key_for_event_def resolution_from_matched_def)
  with out h inv assms(4) 2 show ?thesis by (auto simp: keeps_history_def)
qed

section \<open>Witnesses\<close>

definition s_executor :: "'s live_executor" where
  "s_executor = \<lparr>le_run_activity = (\<lambda>ty inp s. (Inr (LiveCompleted inp), s)),
     le_start_timer = (\<lambda>t at s. (Inr (), s)), le_await_signal = (\<lambda>name n s. (Inr s_payload, s)),
     le_spawn_child = (\<lambda>ty inp s. (Inr (LiveChildCompleted s_child (PackageVersion ''v1'') inp), s))\<rparr>"

lemma s_executor_keeps:
  "keeps_history ok hist w (le_run_activity s_executor ty inp)"
  "keeps_history ok hist w (le_start_timer s_executor t at)"
  by (simp_all add: keeps_history_def s_executor_def)

abbreviation s_live :: resolver where
  "s_live \<equiv> resolver_new s_workflow (s_cursor [])"

lemma s_live_ok: "resolver_wf s_live" "next_matchable_index (rs_cursor s_live) = None"
  by (simp_all add: resolver_new_def s_cursor_wf s_cursor_next)

lemma s_live_resume:
  "family_and_key cmd = Some (family, key) \<Longrightarrow> resolve cmd s_live = (Inr OutResumeLive, s_live)"
  using s_live_ok by (simp add: resolve_def resolve_keyed resolve_next_eq)

lemma memory_append_fresh:
  assumes "ms_inv s" and "in_step ms_hist r s" and "current_head r \<noteq> - 1"
    and "envelope (build (next_env r at)) = next_env r at"
  shows "\<exists>r' s'. append_with memory_store at build r s = (Inr (), r', s') \<and> ms_inv s' \<and> in_step ms_hist r' s'
    \<and> rc_workflow_id r' = rc_workflow_id r \<and> current_head r' = current_head r + 1"
proof -
  from memory.append_with_in_step [where build = build and at = at, OF assms] obtain s' where
    ok: "append_with memory_store at build r s =
      (Inr (), r\<lparr>rc_sequence := (rc_sequence r)\<lparr>sh_head := current_head r + 1\<rparr>\<rparr>, s')" by blast
  with memory.append_with_Inr [OF assms(1) ok] show ?thesis by (auto simp: current_head_def)
qed

theorem live_timer_replays_as_started_witness:
  "\<exists>r' s'. resolve_or_execute_live memory_store s_executor (StartTimer (KTimer (Named ''t'')) 500) 9 s_live
      (recorder_new s_workflow) in_memory_default = ((Inr (Resolved ResTimerFired), r', s'), s_live)"
proof -
  have "envelope (TimerStarted (next_env (recorder_new s_workflow) 9) (Named ''t'') 500) =
      next_env (recorder_new s_workflow) 9" by simp
  from memory_append_fresh [where build = "\<lambda>env. TimerStarted env (Named ''t'') 500",
      OF in_memory_default_inv fresh_in_step _ this]
  obtain r' s' where "append_with memory_store 9 (\<lambda>env. TimerStarted env (Named ''t'') 500)
      (recorder_new s_workflow) in_memory_default = (Inr (), r', s')"
    by (auto simp: recorder_new_def)
  then have run: "\<exists>outcome. resolve_or_execute_live memory_store s_executor (StartTimer (KTimer (Named ''t'')) 500) 9
      s_live (recorder_new s_workflow) in_memory_default = ((Inr outcome, r', s'), s_live)"
    by (simp add: resolve_or_execute_live_def s_live_resume record_timer_started_def pure_step_def world_step_def
        s_executor_def)
  then obtain outcome where run: "resolve_or_execute_live memory_store s_executor
      (StartTimer (KTimer (Named ''t'')) 500) 9 s_live (recorder_new s_workflow) in_memory_default
      = ((Inr outcome, r', s'), s_live)" by blast
  from live_timer_replays_as_started [OF in_memory_default_inv s_live_ok s_executor_keeps(2) run] run
  show ?thesis by auto
qed

theorem live_activity_replays_witness:
  "\<exists>r' s' new. resolve_or_execute_live memory_store s_executor (RunActivity (KActivity 0) ''charge'' s_payload) 9
      s_live (recorder_new s_workflow) in_memory_default
      = ((Inr (Resolved (ResActivityCompleted s_payload)), r', s'), s_live)
    \<and> fst (resolve (RunActivity (KActivity 0) ''charge'' s_payload)
        (s_live\<lparr>rs_cursor := extend_cursor new (rs_cursor s_live)\<rparr>))
      = Inr (OutRecorded (ResActivityCompleted s_payload))"
proof -
  let ?r = "recorder_new s_workflow" and ?a = "ActivityId 0"
  let ?b1 = "\<lambda>env. ActivityScheduled env ?a ''charge'' s_payload DEFAULT_TASK_QUEUE None"
  let ?b2 = "\<lambda>env. ActivityStarted env ?a 1" and ?b3 = "\<lambda>env. ActivityCompleted env ?a s_payload 1"
  have h0: "current_head ?r = 0" by (simp add: recorder_new_def)
  from memory_append_fresh [where r = ?r and build = ?b1 and at = 9, OF in_memory_default_inv fresh_in_step] h0
  obtain r1 s1 where 1: "append_with memory_store 9 ?b1 ?r in_memory_default = (Inr (), r1, s1)"
    and i1: "ms_inv s1" "in_step ms_hist r1 s1" and h1: "current_head r1 = 1" by fastforce
  from memory_append_fresh [where build = ?b2 and at = 9, OF i1] h1
  obtain r2 s2 where 2: "append_with memory_store 9 ?b2 r1 s1 = (Inr (), r2, s2)"
    and i2: "ms_inv s2" "in_step ms_hist r2 s2" and h2: "current_head r2 = 2" by fastforce
  from memory_append_fresh [where build = ?b3 and at = 9, OF i2] h2
  obtain r3 s3 where 3: "append_with memory_store 9 ?b3 r2 s2 = (Inr (), r3, s3)" by fastforce
  have run: "resolve_or_execute_live memory_store s_executor (RunActivity (KActivity 0) ''charge'' s_payload) 9
      s_live ?r in_memory_default = ((Inr (Resolved (ResActivityCompleted s_payload)), r3, s3), s_live)"
    using 1 2 3
    by (simp add: resolve_or_execute_live_def s_live_resume record_activity_scheduled_def from_sequence_position_def
        record_activity_started_def record_activity_completed_def pure_step_def world_step_def s_executor_def)
  from live_activity_replays [OF in_memory_default_inv s_live_ok s_executor_keeps(1) run] run
  show ?thesis by auto
qed

end
