(* ===== verification/Namespace_Registry.thy ===== *)
theory Namespace_Registry
  imports Memory_Store
begin

text \<open>
  \<^verbatim>\<open>crates/aion-store/src/namespace.rs\<close> and the \<^verbatim>\<open>NamespaceStore\<close> of \<^verbatim>\<open>memory.rs\<close>: the minted-on-use
  namespace registry, a map from names to records behind its own mutex.  \<^verbatim>\<open>Utc::now()\<close> is the argument
  \<open>now\<close> of the operations that read the clock.  The byte codec of a record is \<^verbatim>\<open>serde_json\<close>'s and is not
  modelled.
\<close>

datatype namespace_origin = WorkerMint | StartMint | Explicit | InferredFromState

datatype namespace_state = Active | Deprecated

datatype mint_outcome = Created | AlreadyExisted

record namespace_config =
  nc_kind :: "string option"
  nc_max_in_flight_activities :: "u32 option"

datatype namespace_placement = Unplaced | Prefer "string set" | Pinned "string set"

record namespace_record =
  nr_name :: string
  nr_created_at :: timestamp
  nr_last_seen :: timestamp
  nr_origin :: namespace_origin
  nr_config :: namespace_config
  nr_placement :: namespace_placement
  nr_state :: namespace_state

type_synonym namespaces = "(string \<times> namespace_record) list"

definition new_minted :: "string \<Rightarrow> namespace_origin \<Rightarrow> timestamp \<Rightarrow> namespace_record" where
  "new_minted name origin now =
     \<lparr>nr_name = name, nr_created_at = now, nr_last_seen = now, nr_origin = origin,
      nr_config = \<lparr>nc_kind = None, nc_max_in_flight_activities = None\<rparr>,
      nr_placement = Unplaced, nr_state = Active\<rparr>"

definition bump_last_seen :: "timestamp \<Rightarrow> namespace_record \<Rightarrow> namespace_record" where
  "bump_last_seen now r = r\<lparr>nr_last_seen := now\<rparr>"

definition register_namespace ::
  "timestamp \<Rightarrow> string \<Rightarrow> namespace_origin \<Rightarrow> namespaces \<Rightarrow> (store_error, mint_outcome) result \<times> namespaces" where
  "register_namespace now name origin ns =
     (case map_of ns name of
        Some existing \<Rightarrow> (Inr AlreadyExisted, AList.update name (bump_last_seen now existing) ns)
      | None \<Rightarrow> (Inr Created, AList.update name (new_minted name origin now) ns))"

definition put_namespace ::
  "timestamp \<Rightarrow> namespace_record \<Rightarrow> namespaces \<Rightarrow> (store_error, mint_outcome) result \<times> namespaces" where
  "put_namespace now r ns =
     (case map_of ns (nr_name r) of
        Some existing \<Rightarrow> (Inr AlreadyExisted, AList.update (nr_name r) (bump_last_seen now existing) ns)
      | None \<Rightarrow> (Inr Created, AList.update (nr_name r) r ns))"

definition list_namespaces :: "namespaces \<Rightarrow> (store_error, namespace_record list) result" where
  "list_namespaces ns = Inr (sort_key (\<lambda>r. (nr_created_at r, nr_name r)) (map snd ns))"

definition get_namespace :: "string \<Rightarrow> namespaces \<Rightarrow> (store_error, namespace_record option) result" where
  "get_namespace name ns = Inr (map_of ns name)"

definition set_namespace_placement ::
  "timestamp \<Rightarrow> string \<Rightarrow> namespace_placement \<Rightarrow> namespaces
    \<Rightarrow> (store_error, unit option) result \<times> namespaces" where
  "set_namespace_placement now name placement ns =
     (case map_of ns name of
        None \<Rightarrow> (Inr None, ns)
      | Some existing \<Rightarrow>
          (Inr (Some ()), AList.update name (bump_last_seen now (existing\<lparr>nr_placement := placement\<rparr>)) ns))"

definition deprecate_namespace :: "string \<Rightarrow> namespaces \<Rightarrow> (store_error, unit) result \<times> namespaces" where
  "deprecate_namespace name ns =
     (case map_of ns name of
        Some existing \<Rightarrow> (Inr (), AList.update name (existing\<lparr>nr_state := Deprecated\<rparr>) ns)
      | None \<Rightarrow> (Inr (), ns))"

section \<open>Registered names persist\<close>

inductive ns_step :: "namespaces \<Rightarrow> namespaces \<Rightarrow> bool" where
  "ns_step ns (snd (register_namespace now name origin ns))"
| "ns_step ns (snd (put_namespace now r ns))"
| "ns_step ns (snd (set_namespace_placement now name placement ns))"
| "ns_step ns (snd (deprecate_namespace name ns))"

text \<open>What the operations preserve of a record.\<close>

definition same_namespace :: "namespace_record \<Rightarrow> namespace_record \<Rightarrow> bool" where
  "same_namespace r r' \<longleftrightarrow>
     nr_name r' = nr_name r \<and> nr_origin r' = nr_origin r \<and> nr_created_at r' = nr_created_at r
   \<and> nr_config r' = nr_config r \<and> (nr_state r = Deprecated \<longrightarrow> nr_state r' = Deprecated)"

definition ns_kept :: "namespaces \<Rightarrow> namespaces \<Rightarrow> bool" where
  "ns_kept ns ns' \<longleftrightarrow> filed nr_name ns'
   \<and> (\<forall>name r. map_of ns name = Some r \<longrightarrow> (\<exists>r'. map_of ns' name = Some r' \<and> same_namespace r r'))"

lemma same_namespace_refl: "same_namespace r r"
  by (simp add: same_namespace_def)

lemma same_namespace_trans: "same_namespace a b \<Longrightarrow> same_namespace b c \<Longrightarrow> same_namespace a c"
  by (auto simp: same_namespace_def)

lemma filed_map_of: "filed key al \<Longrightarrow> map_of al k = Some v \<Longrightarrow> key v = k"
  by (drule map_of_SomeD) (auto simp: filed_def)

lemma ns_kept_refl: "filed nr_name ns \<Longrightarrow> ns_kept ns ns"
  by (auto simp: ns_kept_def same_namespace_refl)

lemma ns_kept_update:
  assumes "filed nr_name ns" and "nr_name v = k"
    and "\<And>e. map_of ns k = Some e \<Longrightarrow> same_namespace e v"
  shows "ns_kept ns (AList.update k v ns)"
  using assms same_namespace_refl unfolding ns_kept_def
  by (simp add: filed_update update_conv')

lemma ns_step_keeps:
  assumes "ns_step ns ns'" and "filed nr_name ns"
  shows "ns_kept ns ns'"
  using assms
  by (cases rule: ns_step.cases)
     (auto simp: register_namespace_def put_namespace_def set_namespace_placement_def
        deprecate_namespace_def bump_last_seen_def new_minted_def same_namespace_def
        intro!: ns_kept_update ns_kept_refl dest: filed_map_of split: option.splits)

text \<open>No operation of the namespace registry removes a namespace or rewrites its identity: once a name
  is registered, every later registry holds exactly one record under it, with the same origin,
  creation time and configuration, and a deprecated namespace stays deprecated.\<close>

theorem namespace_persists:
  assumes "ns_step\<^sup>*\<^sup>* ns ns'" and "filed nr_name ns" and "map_of ns name = Some r"
  shows "filed nr_name ns' \<and> (\<exists>r'. map_of ns' name = Some r' \<and> same_namespace r r')"
  using assms
proof (induction rule: rtranclp_induct)
  case base
  then show ?case by (simp add: same_namespace_refl)
next
  case (step y z)
  then obtain r' where "filed nr_name y" "map_of y name = Some r'" "same_namespace r r'" by blast
  with ns_step_keeps [OF step.hyps(2)] show ?case
    unfolding ns_kept_def by (metis same_namespace_trans)
qed

theorem namespace_persists_witness:
  "\<exists>r'. map_of (snd (register_namespace 9 ''a'' StartMint [(''a'', new_minted ''a'' Explicit 3)])) ''a'' = Some r'
     \<and> nr_origin r' = Explicit \<and> nr_created_at r' = 3"
proof -
  let ?ns = "[(''a'', new_minted ''a'' Explicit 3)]"
  have "ns_step\<^sup>*\<^sup>* ?ns (snd (register_namespace 9 ''a'' StartMint ?ns))"
    by (blast intro: ns_step.intros)
  moreover have "filed nr_name ?ns" "map_of ?ns ''a'' = Some (new_minted ''a'' Explicit 3)"
    by (simp_all add: filed_def new_minted_def)
  ultimately obtain r' where
    "map_of (snd (register_namespace 9 ''a'' StartMint ?ns)) ''a'' = Some r'"
    and "same_namespace (new_minted ''a'' Explicit 3) r'"
    using namespace_persists by blast
  then show ?thesis by (simp only: same_namespace_def) (simp add: new_minted_def)
qed

end
