(* ===== verification/Schedule.thy ===== *)
theory Schedule
  imports Samples
begin

text \<open>
  \<^verbatim>\<open>crates/aion/src/schedule/trigger.rs\<close>, \<^verbatim>\<open>policy.rs\<close> and \<^verbatim>\<open>state.rs\<close>: when a schedule fires next, what it does
  when a tick meets a running execution or was missed, and the projection of schedule state from events.

  The cron parser and the calendar arithmetic are crates the source only calls (\<^verbatim>\<open>saffron\<close>, \<^verbatim>\<open>chrono\<close>): they
  are the argument \<open>cal\<close>, and \<open>calendar_ok\<close> is what their documentation promises: the next cron match is
  strictly after the reference, an addition that does not overflow is exact.  The catch-up loops have no
  bound in the source; they are partial functions whose value \<open>None\<close> would mean that they do not return.

  The lemmas show that they do return, and what the three catch-up policies agree and differ on.
\<close>

section \<open>Triggers\<close>

record 'c calendar =
  cal_from_str :: "string \<Rightarrow> (string, 'c) result"
  cal_next_after :: "'c \<Rightarrow> timestamp \<Rightarrow> timestamp option"
  cal_from_std :: "duration \<Rightarrow> duration option"
  cal_checked_add :: "timestamp \<Rightarrow> duration \<Rightarrow> timestamp option"

datatype schedule_error =
  EmptyCronExpression
| CronParse string string \<comment> \<open>expression, source\<close>
| NoNextFireTime string
| ZeroInterval
| IntervalOutOfRange
| NextFireTimeOutOfRange

definition is_whitespace :: "char \<Rightarrow> bool" where
  "is_whitespace c \<longleftrightarrow> (let n = (of_char c :: nat) in n \<in> {9..13} \<or> n = 32 \<or> n = 133 \<or> n = 160)"

definition trim :: "string \<Rightarrow> string" where
  "trim s = rev (dropWhile is_whitespace (rev (dropWhile is_whitespace s)))"

definition parse_cron_expression :: "'c calendar \<Rightarrow> string \<Rightarrow> (schedule_error, 'c) result" where
  "parse_cron_expression cal expression =
     (let e = trim expression
      in if e = [] then Inl EmptyCronExpression
         else map_err (\<lambda>source. CronParse e source) (cal_from_str cal e))"

fun next_fire_time :: "'c calendar \<Rightarrow> trigger_spec \<Rightarrow> timestamp \<Rightarrow> (schedule_error, timestamp) result" where
  "next_fire_time cal (Cron expression) after =
     bind_res (parse_cron_expression cal expression) (\<lambda>cron.
       ok_or (cal_next_after cal cron after) (NoNextFireTime (trim expression)))"
| "next_fire_time cal (Interval period) after =
     (if period = 0 then Inl ZeroInterval
      else bind_res (ok_or (cal_from_std cal period) IntervalOutOfRange) (\<lambda>d.
        ok_or (cal_checked_add cal after d) NextFireTimeOutOfRange))"

section \<open>Policies\<close>

record schedule_execution =
  se_workflow_id :: workflow_id
  se_run_id :: run_id

datatype overlap_decision =
  OverlapStart | OverlapSkipTick | BufferPending | CancelThenStart schedule_execution

fun evaluate_overlap :: "overlap_policy \<Rightarrow> schedule_execution option \<Rightarrow> bool \<Rightarrow> overlap_decision" where
  "evaluate_overlap _ None _ = OverlapStart"
| "evaluate_overlap AllowAll (Some _) _ = OverlapStart"
| "evaluate_overlap OverlapSkip (Some _) _ = OverlapSkipTick"
| "evaluate_overlap BufferOne (Some _) has_pending_tick =
     (if has_pending_tick then OverlapSkipTick else BufferPending)"
| "evaluate_overlap CancelPrevious (Some execution) _ = CancelThenStart execution"

record catch_up_plan =
  cp_fire_times :: "timestamp list"
  cp_next_trigger_at :: timestamp

partial_function (option) catch_up_all_loop ::
  "'c calendar \<Rightarrow> trigger_spec \<Rightarrow> timestamp \<Rightarrow> timestamp list \<Rightarrow> timestamp \<Rightarrow> (schedule_error, catch_up_plan) result option" where
  "catch_up_all_loop cal trigger now fire_times cursor =
     (if cursor \<le> now
      then (case next_fire_time cal trigger cursor of
              Inl e \<Rightarrow> Some (Inl e)
            | Inr next_cursor \<Rightarrow> catch_up_all_loop cal trigger now (fire_times @ [cursor]) next_cursor)
      else Some (Inr \<lparr>cp_fire_times = fire_times, cp_next_trigger_at = cursor\<rparr>))"

text \<open>The loop shared by \<^verbatim>\<open>catch_up_one\<close> and \<^verbatim>\<open>catch_up_skip\<close>.\<close>

partial_function (option) skip_past ::
  "'c calendar \<Rightarrow> trigger_spec \<Rightarrow> timestamp \<Rightarrow> timestamp \<Rightarrow> (schedule_error, timestamp) result option" where
  "skip_past cal trigger now cursor =
     (if cursor \<le> now
      then (case next_fire_time cal trigger cursor of
              Inl e \<Rightarrow> Some (Inl e)
            | Inr next_cursor \<Rightarrow> skip_past cal trigger now next_cursor)
      else Some (Inr cursor))"

definition catch_up_all ::
  "'c calendar \<Rightarrow> trigger_spec \<Rightarrow> timestamp \<Rightarrow> timestamp \<Rightarrow> (schedule_error, catch_up_plan) result option" where
  "catch_up_all cal trigger next_trigger_at now = catch_up_all_loop cal trigger now [] next_trigger_at"

definition catch_up_one ::
  "'c calendar \<Rightarrow> trigger_spec \<Rightarrow> timestamp \<Rightarrow> timestamp \<Rightarrow> (schedule_error, catch_up_plan) result option" where
  "catch_up_one cal trigger next_trigger_at now =
     (case next_fire_time cal trigger next_trigger_at of
        Inl e \<Rightarrow> Some (Inl e)
      | Inr cursor \<Rightarrow>
          map_option (\<lambda>res. bind_res res (\<lambda>c.
            Inr \<lparr>cp_fire_times = [next_trigger_at], cp_next_trigger_at = c\<rparr>)) (skip_past cal trigger now cursor))"

definition catch_up_skip ::
  "'c calendar \<Rightarrow> trigger_spec \<Rightarrow> timestamp \<Rightarrow> timestamp \<Rightarrow> (schedule_error, catch_up_plan) result option" where
  "catch_up_skip cal trigger next_trigger_at now =
     map_option (\<lambda>res. bind_res res (\<lambda>c. Inr \<lparr>cp_fire_times = [], cp_next_trigger_at = c\<rparr>))
       (skip_past cal trigger now next_trigger_at)"

definition evaluate_catch_up ::
  "'c calendar \<Rightarrow> catch_up_policy \<Rightarrow> trigger_spec \<Rightarrow> timestamp \<Rightarrow> timestamp
    \<Rightarrow> (schedule_error, catch_up_plan) result option" where
  "evaluate_catch_up cal policy trigger next_trigger_at now =
     (if next_trigger_at > now
      then Some (Inr \<lparr>cp_fire_times = [], cp_next_trigger_at = next_trigger_at\<rparr>)
      else (case policy of
              CatchUpAll \<Rightarrow> catch_up_all cal trigger next_trigger_at now
            | CatchUpOne \<Rightarrow> catch_up_one cal trigger next_trigger_at now
            | CatchUpSkip \<Rightarrow> catch_up_skip cal trigger next_trigger_at now))"

section \<open>State\<close>

record schedule_state =
  ss_schedule_id :: schedule_id
  ss_config :: schedule_config
  ss_is_paused :: bool
  ss_is_deleted :: bool
  ss_last_triggered_at :: "timestamp option"
  ss_next_trigger_at :: timestamp
  ss_current_execution :: "schedule_execution option"

definition schedule_created ::
  "'c calendar \<Rightarrow> schedule_id \<Rightarrow> schedule_config \<Rightarrow> timestamp \<Rightarrow> (schedule_error, schedule_state) result" where
  "schedule_created cal sid config at =
     bind_res (next_fire_time cal (sc_trigger config) at) (\<lambda>next_at.
       Inr \<lparr>ss_schedule_id = sid, ss_config = config, ss_is_paused = False, ss_is_deleted = False,
            ss_last_triggered_at = None, ss_next_trigger_at = next_at, ss_current_execution = None\<rparr>)"

definition rearm_after :: "'c calendar \<Rightarrow> timestamp \<Rightarrow> schedule_state \<Rightarrow> (schedule_error, schedule_state) result" where
  "rearm_after cal at st =
     bind_res (next_fire_time cal (sc_trigger (ss_config st)) at) (\<lambda>next_at.
       Inr (st\<lparr>ss_next_trigger_at := next_at\<rparr>))"

fun schedule_apply :: "'c calendar \<Rightarrow> event \<Rightarrow> schedule_state \<Rightarrow> (schedule_error, schedule_state) result" where
  "schedule_apply cal (ScheduleCreated env sid config) st =
     (if sid = ss_schedule_id st then rearm_after cal (env_recorded_at env) (st\<lparr>ss_config := config\<rparr>) else Inr st)"
| "schedule_apply cal (ScheduleUpdated env sid config) st =
     (if sid = ss_schedule_id st then rearm_after cal (env_recorded_at env) (st\<lparr>ss_config := config\<rparr>) else Inr st)"
| "schedule_apply cal (SchedulePaused env sid) st =
     Inr (if sid = ss_schedule_id st then st\<lparr>ss_is_paused := True\<rparr> else st)"
| "schedule_apply cal (ScheduleResumed env sid) st =
     (if sid = ss_schedule_id st then rearm_after cal (env_recorded_at env) (st\<lparr>ss_is_paused := False\<rparr>) else Inr st)"
| "schedule_apply cal (ScheduleDeleted env sid) st =
     Inr (if sid = ss_schedule_id st then st\<lparr>ss_is_deleted := True\<rparr> else st)"
| "schedule_apply cal (ScheduleTriggered env sid w run) st =
     (if sid = ss_schedule_id st
      then rearm_after cal (env_recorded_at env)
             (st\<lparr>ss_last_triggered_at := Some (env_recorded_at env),
                ss_current_execution := Some \<lparr>se_workflow_id = w, se_run_id = run\<rparr>\<rparr>)
      else Inr st)"
| "schedule_apply cal _ st = Inr st"

definition schedule_is_active :: "schedule_state \<Rightarrow> bool" where
  "schedule_is_active st \<longleftrightarrow> \<not> ss_is_paused st \<and> \<not> ss_is_deleted st"

definition set_next_trigger_at :: "timestamp \<Rightarrow> schedule_state \<Rightarrow> schedule_state" where
  "set_next_trigger_at at st = st\<lparr>ss_next_trigger_at := at\<rparr>"

definition record_triggered :: "schedule_execution \<Rightarrow> timestamp \<Rightarrow> schedule_state \<Rightarrow> schedule_state" where
  "record_triggered execution at st = st\<lparr>ss_last_triggered_at := Some at, ss_current_execution := Some execution\<rparr>"

definition project_step ::
  "'c calendar \<Rightarrow> event \<Rightarrow> schedule_state list \<Rightarrow> (schedule_error, schedule_state list) result" where
  "project_step cal e states =
     (case e of
        ScheduleCreated env sid config \<Rightarrow>
          if list_ex (\<lambda>st. ss_schedule_id st = sid) states then map_res (schedule_apply cal e) states
          else bind_res (schedule_created cal sid config (env_recorded_at env)) (\<lambda>st. Inr (states @ [st]))
      | _ \<Rightarrow> map_res (schedule_apply cal e) states)"

fun project_from ::
  "'c calendar \<Rightarrow> history \<Rightarrow> schedule_state list \<Rightarrow> (schedule_error, schedule_state list) result" where
  "project_from cal [] states = Inr states"
| "project_from cal (e # es) states = bind_res (project_step cal e states) (project_from cal es)"

definition project_schedule_state :: "'c calendar \<Rightarrow> history \<Rightarrow> (schedule_error, schedule_state list) result" where
  "project_schedule_state cal events = project_from cal events []"

section \<open>The catch-up loops return\<close>

definition calendar_ok :: "'c calendar \<Rightarrow> bool" where
  "calendar_ok cal \<longleftrightarrow>
     (\<forall>c t u. cal_next_after cal c t = Some u \<longrightarrow> t < u)
   \<and> (\<forall>d d'. cal_from_std cal d = Some d' \<longrightarrow> d' = d)
   \<and> (\<forall>t d u. cal_checked_add cal t d = Some u \<longrightarrow> u = t + int d)"

lemma next_fire_time_later: "calendar_ok cal \<Longrightarrow> next_fire_time cal trigger t = Inr u \<Longrightarrow> t < u"
  by (cases trigger) (fastforce simp: calendar_ok_def bind_res_eq_Inr_iff split: if_splits)+

text \<open>The \<open>n\<close>-th fire instant counted from \<open>t\<close>.\<close>

fun fire_instant :: "'c calendar \<Rightarrow> trigger_spec \<Rightarrow> timestamp \<Rightarrow> nat \<Rightarrow> (schedule_error, timestamp) result" where
  "fire_instant cal trigger t 0 = Inr t"
| "fire_instant cal trigger t (Suc n) = bind_res (next_fire_time cal trigger t) (\<lambda>u. fire_instant cal trigger u n)"

text \<open>The missed fire instants from \<open>t\<close> on, and where they fin: the first instant after \<open>now\<close>, or the
  error of the trigger.\<close>

definition missed ::
  "'c calendar \<Rightarrow> trigger_spec \<Rightarrow> timestamp \<Rightarrow> timestamp \<Rightarrow> timestamp list \<Rightarrow> (schedule_error, timestamp) result \<Rightarrow> bool" where
  "missed cal trigger now t ts fin \<longleftrightarrow>
     (\<forall>i < length ts. fire_instant cal trigger t i = Inr (ts ! i) \<and> ts ! i \<le> now)
   \<and> fire_instant cal trigger t (length ts) = fin
   \<and> (\<forall>u. fin = Inr u \<longrightarrow> now < u)"

lemma missed_Cons:
  assumes "t \<le> now" and "next_fire_time cal trigger t = Inr u" and "missed cal trigger now u ts fin"
  shows "missed cal trigger now t (t # ts) fin"
  using assms unfolding missed_def by (auto simp: less_Suc_eq_0_disj)

lemma missed_exists:
  assumes "calendar_ok cal"
  shows "\<exists>ts fin. missed cal trigger now t ts fin \<and> sorted_wrt (<) ts \<and> (\<forall>u \<in> set ts. t \<le> u)
    \<and> (t \<le> now \<longrightarrow> ts \<noteq> [])
    \<and> (\<forall>acc. catch_up_all_loop cal trigger now acc t =
          Some (bind_res fin (\<lambda>u. Inr \<lparr>cp_fire_times = acc @ ts, cp_next_trigger_at = u\<rparr>)))
    \<and> skip_past cal trigger now t = Some fin"
proof (induction "nat (now + 1 - t)" arbitrary: t rule: less_induct)
  case less
  show ?case
  proof (cases "t \<le> now")
    case False
    then show ?thesis
      by (intro exI [of _ "[]"] exI [of _ "Inr t"])
         (auto simp: missed_def catch_up_all_loop.simps skip_past.simps)
  next
    case True
    show ?thesis
    proof (cases "next_fire_time cal trigger t")
      case (Inl e)
      with True show ?thesis
        by (intro exI [of _ "[t]"] exI [of _ "Inl e"])
           (auto simp: missed_def catch_up_all_loop.simps skip_past.simps)
    next
      case (Inr u)
      have later: "t < u" by (rule next_fire_time_later [OF assms Inr])
      with True have "nat (now + 1 - u) < nat (now + 1 - t)" by simp
      from less [OF this] obtain ts fin where m: "missed cal trigger now u ts fin" "sorted_wrt (<) ts"
        "\<forall>v \<in> set ts. u \<le> v"
        "\<forall>acc. catch_up_all_loop cal trigger now acc u =
          Some (bind_res fin (\<lambda>u. Inr \<lparr>cp_fire_times = acc @ ts, cp_next_trigger_at = u\<rparr>))"
        "skip_past cal trigger now u = Some fin" by blast
      have "missed cal trigger now t (t # ts) fin" by (rule missed_Cons [OF True Inr m(1)])
      moreover have "sorted_wrt (<) (t # ts)" using m(2,3) later by auto
      moreover have "catch_up_all_loop cal trigger now acc t =
          Some (bind_res fin (\<lambda>u. Inr \<lparr>cp_fire_times = acc @ t # ts, cp_next_trigger_at = u\<rparr>))" for acc
        using True Inr m(4) by (simp add: catch_up_all_loop.simps [of cal trigger now acc t])
      moreover have "skip_past cal trigger now t = Some fin"
        using True Inr m(5) by (simp add: skip_past.simps [of cal trigger now t])
      ultimately show ?thesis using m(3) later by (intro exI [of _ "t # ts"] exI [of _ fin]) auto
    qed
  qed
qed

section \<open>Projection lemmas\<close>

fun schedule_of :: "event \<Rightarrow> schedule_id option" where
  "schedule_of (ScheduleCreated _ sid _) = Some sid"
| "schedule_of (ScheduleUpdated _ sid _) = Some sid"
| "schedule_of (SchedulePaused _ sid) = Some sid"
| "schedule_of (ScheduleResumed _ sid) = Some sid"
| "schedule_of (ScheduleDeleted _ sid) = Some sid"
| "schedule_of (ScheduleTriggered _ sid _ _) = Some sid"
| "schedule_of _ = None"

lemma schedule_apply_foreign: "schedule_of e \<noteq> Some (ss_schedule_id st) \<Longrightarrow> schedule_apply cal e st = Inr st"
  by (cases e) auto

lemma schedule_apply_id: "schedule_apply cal e st = Inr st' \<Longrightarrow> ss_schedule_id st' = ss_schedule_id st"
  by (cases e) (auto simp: rearm_after_def bind_res_eq_Inr_iff split: if_splits)

lemma map_apply_filter:
  "map_res (schedule_apply cal e) states = Inr states' \<Longrightarrow>
     map ss_schedule_id states' = map ss_schedule_id states
   \<and> map_res (schedule_apply cal e) (filter (\<lambda>st. ss_schedule_id st = sid) states) =
       Inr (filter (\<lambda>st. ss_schedule_id st = sid) states')
   \<and> (schedule_of e \<noteq> Some sid \<longrightarrow>
        filter (\<lambda>st. ss_schedule_id st = sid) states' = filter (\<lambda>st. ss_schedule_id st = sid) states)"
proof (induction states arbitrary: states')
  case (Cons st states)
  then obtain st' rest where st': "schedule_apply cal e st = Inr st'" and rest: "map_res (schedule_apply cal e) states = Inr rest"
    and "states' = st' # rest" by (auto simp: bind_res_eq_Inr_iff)
  with Cons.IH [OF rest] schedule_apply_id [OF st'] schedule_apply_foreign [of e st cal] show ?case by auto
qed simp

lemma project_step_filter:
  assumes "project_step cal e states = Inr states'" and "distinct (map ss_schedule_id states)"
  shows "distinct (map ss_schedule_id states')
    \<and> (if schedule_of e = Some sid
       then project_step cal e (filter (\<lambda>st. ss_schedule_id st = sid) states) =
              Inr (filter (\<lambda>st. ss_schedule_id st = sid) states')
       else filter (\<lambda>st. ss_schedule_id st = sid) states' = filter (\<lambda>st. ss_schedule_id st = sid) states)"
proof (cases "\<exists>env sid' config. e = ScheduleCreated env sid' config \<and> \<not> list_ex (\<lambda>st. ss_schedule_id st = sid') states")
  case True
  then obtain env sid' config where e: "e = ScheduleCreated env sid' config"
    and new: "\<not> list_ex (\<lambda>st. ss_schedule_id st = sid') states" by blast
  with assms obtain st where st: "schedule_created cal sid' config (env_recorded_at env) = Inr st"
    and states': "states' = states @ [st]" by (auto simp: project_step_def bind_res_eq_Inr_iff)
  from st have "ss_schedule_id st = sid'" by (auto simp: schedule_created_def bind_res_eq_Inr_iff)
  with e new st states' assms(2) show ?thesis
    by (auto simp: project_step_def list_ex_iff filter_empty_conv)
next
  case False
  then have step: "project_step cal e states = map_res (schedule_apply cal e) states"
    by (cases e) (auto simp: project_step_def)
  have part: "project_step cal e (filter (\<lambda>st. ss_schedule_id st = sid) states) =
      map_res (schedule_apply cal e) (filter (\<lambda>st. ss_schedule_id st = sid) states)" if "schedule_of e = Some sid"
    using False that by (cases e) (auto simp: project_step_def list_ex_iff)
  from step map_apply_filter [of cal e states states' sid] assms part show ?thesis by auto
qed

lemma project_from_snoc:
  "project_from cal (es @ [e]) states = bind_res (project_from cal es states) (project_step cal e)"
proof (induction es arbitrary: states)
  case (Cons a es)
  then show ?case by (cases "project_step cal a states") simp_all
next
  case Nil
  then show ?case by (cases "project_step cal e states") simp_all
qed

lemma project_filter:
  "project_from cal es [] = Inr states \<Longrightarrow> distinct (map ss_schedule_id states)
     \<and> project_from cal (filter (\<lambda>e. schedule_of e = Some sid) es) [] =
         Inr (filter (\<lambda>st. ss_schedule_id st = sid) states)"
proof (induction es arbitrary: states rule: rev_induct)
  case (snoc e es)
  then obtain mid where mid: "project_from cal es [] = Inr mid" and step: "project_step cal e mid = Inr states"
    by (auto simp: project_from_snoc bind_res_eq_Inr_iff)
  from snoc.IH [OF mid] project_step_filter [OF step, of sid] show ?case by (auto simp: project_from_snoc)
qed simp

section \<open>Properties\<close>

text \<open>C31: catching up returns, whatever the trigger, and the three policies differ only in which of the
  missed instants they start.  Starting from the overdue instant there is a finite, strictly increasing,
  non-empty list of fire instants up to now; the policy "all" starts every one, "one" the first, "skip"
  none; all three then arm the same instant, the first one after now, or fail with the same trigger
  error.\<close>

theorem catch_up_policies:
  assumes "calendar_ok cal" and "overdue \<le> now"
  shows "\<exists>ts fin. ts \<noteq> [] \<and> hd ts = overdue \<and> sorted_wrt (<) ts
    \<and> (\<forall>i < length ts. fire_instant cal trigger overdue i = Inr (ts ! i) \<and> ts ! i \<le> now)
    \<and> fire_instant cal trigger overdue (length ts) = fin \<and> (\<forall>u. fin = Inr u \<longrightarrow> now < u)
    \<and> (\<forall>policy. evaluate_catch_up cal policy trigger overdue now =
         Some (bind_res fin (\<lambda>u. Inr \<lparr>cp_fire_times =
            (case policy of CatchUpAll \<Rightarrow> ts | CatchUpOne \<Rightarrow> [overdue] | CatchUpSkip \<Rightarrow> []), cp_next_trigger_at = u\<rparr>)))"
proof -
  from missed_exists [OF assms(1), of trigger now overdue] assms(2) obtain ts fin where
    m: "missed cal trigger now overdue ts fin" "sorted_wrt (<) ts" "ts \<noteq> []"
    "\<forall>acc. catch_up_all_loop cal trigger now acc overdue =
          Some (bind_res fin (\<lambda>u. Inr \<lparr>cp_fire_times = acc @ ts, cp_next_trigger_at = u\<rparr>))"
    "skip_past cal trigger now overdue = Some fin" by blast
  have "catch_up_one cal trigger overdue now =
      Some (bind_res fin (\<lambda>u. Inr \<lparr>cp_fire_times = [overdue], cp_next_trigger_at = u\<rparr>))"
    using m(5) assms(2) unfolding skip_past.simps [of cal trigger now overdue]
    by (auto simp: catch_up_one_def split: sum.splits)
  moreover have "hd ts = overdue" using m(1,3) by (cases ts) (auto simp: missed_def)
  ultimately show ?thesis
    using m assms(2)
    by (intro exI [of _ ts] exI [of _ fin])
       (auto simp: missed_def evaluate_catch_up_def catch_up_all_def catch_up_skip_def split: catch_up_policy.splits)
qed

text \<open>The projection keeps schedules apart: a schedule appears once, in the state its own events
  alone project to, however the events of other schedules and of workflows are interleaved with them.\<close>

theorem schedule_projection_isolated:
  assumes "project_schedule_state cal events = Inr states" and "st \<in> set states"
  shows "distinct (map ss_schedule_id states)
    \<and> project_schedule_state cal (filter (\<lambda>e. schedule_of e = Some (ss_schedule_id st)) events) = Inr [st]"
proof -
  from project_filter [of cal events states] assms(1)
  have d: "distinct (map ss_schedule_id states)"
    and f: "project_schedule_state cal (filter (\<lambda>e. schedule_of e = Some (ss_schedule_id st)) events) =
      Inr (filter (\<lambda>x. ss_schedule_id x = ss_schedule_id st) states)" by (auto simp: project_schedule_state_def)
  have "filter (\<lambda>x. ss_schedule_id x = ss_schedule_id st) states = [st]"
    using d assms(2) by (induction states) (auto simp: filter_empty_conv image_iff)
  with d f show ?thesis by simp
qed

section \<open>Witnesses\<close>

definition s_calendar :: "unit calendar" where
  "s_calendar = \<lparr>cal_from_str = (\<lambda>_. Inr ()), cal_next_after = (\<lambda>_ t. Some (t + 60)),
     cal_from_std = Some, cal_checked_add = (\<lambda>t d. Some (t + int d))\<rparr>"

lemma s_calendar_ok: "calendar_ok s_calendar"
  by (simp add: calendar_ok_def s_calendar_def)

lemma s_interval: "next_fire_time s_calendar (Interval 5) t = Inr (t + 5)"
  by (simp add: s_calendar_def)

theorem catch_up_policies_witness:
  "evaluate_catch_up s_calendar CatchUpOne (Interval 5) 10 21 =
     Some (Inr \<lparr>cp_fire_times = [10], cp_next_trigger_at = 25\<rparr>)"
proof -
  have "(10 :: timestamp) \<le> 21" by simp
  from catch_up_policies [OF s_calendar_ok this, of "Interval 5"] obtain ts fin where
    all: "\<forall>policy. evaluate_catch_up s_calendar policy (Interval 5) 10 21 = Some (bind_res fin (\<lambda>u. Inr \<lparr>cp_fire_times =
      (case policy of CatchUpAll \<Rightarrow> ts | CatchUpOne \<Rightarrow> [10] | CatchUpSkip \<Rightarrow> []), cp_next_trigger_at = u\<rparr>))" by blast
  note one = all [THEN spec, of CatchUpOne]
  have "skip_past s_calendar (Interval 5) 21 15 = Some (Inr 25)"
    by (simp add: skip_past.simps s_interval del: next_fire_time.simps)
  then show ?thesis
    using one by (simp add: evaluate_catch_up_def catch_up_one_def s_interval del: next_fire_time.simps)
qed

abbreviation s_config :: "overlap_policy \<Rightarrow> schedule_config" where
  "s_config policy \<equiv> \<lparr>sc_trigger = Interval 5, sc_overlap_policy = policy, sc_catch_up_policy = CatchUpAll,
     sc_workflow_type = ''order'', sc_input = s_payload, sc_search_attributes = []\<rparr>"

definition s_schedule :: "u64 \<Rightarrow> schedule_state" where
  "s_schedule n = \<lparr>ss_schedule_id = ScheduleId (ucast n), ss_config = s_config OverlapSkip, ss_is_paused = False,
     ss_is_deleted = False, ss_last_triggered_at = None, ss_next_trigger_at = 105, ss_current_execution = None\<rparr>"

theorem schedule_projection_isolated_witness:
  "project_schedule_state s_calendar [ScheduleCreated (s_env 1) (ScheduleId 1) (s_config OverlapSkip)] = Inr [s_schedule 1]"
proof -
  let ?e1 = "ScheduleCreated (s_env 1) (ScheduleId 1) (s_config OverlapSkip)"
  let ?e2 = "ScheduleCreated (s_env 2) (ScheduleId 2) (s_config OverlapSkip)"
  have "project_schedule_state s_calendar [?e1, ?e2] = Inr [s_schedule 1, s_schedule 2]"
    by (simp add: project_schedule_state_def project_step_def schedule_created_def s_schedule_def s_calendar_def)
  from schedule_projection_isolated [OF this, of "s_schedule 1"] show ?thesis by (simp add: s_schedule_def)
qed

end
