(* ===== verification/Schedule_Evaluator.thy ===== *)
theory Schedule_Evaluator
  imports Schedule Outbox
begin

text \<open>
  \<^verbatim>\<open>crates/aion/src/schedule/evaluator.rs\<close>: handling the tick of a schedule, the completion of the execution
  it started, and recovery after a restart.  The timer, starter, canceller and event-sink seams are trait
  objects; they are the record \<open>sm\<close> of functions on a world they may change.  The maps of the evaluator
  are an association list and a set; recovery visits the schedules in the list's order.

  The lemmas are stated over an arbitrary implementation of the seams, instrumented to log its calls.
\<close>

datatype evaluator_error =
  TriggerErr schedule_error
| TimerIdErr id_error
| ScheduleNotFound schedule_id
| SideEffect string

record 'w schedule_seams =
  sm_arm_timer :: "schedule_id \<Rightarrow> timer_id \<Rightarrow> timestamp \<Rightarrow> 'w \<Rightarrow> (evaluator_error, unit) result \<times> 'w"
  sm_start_workflow :: "string \<Rightarrow> payload \<Rightarrow> attributes \<Rightarrow> 'w \<Rightarrow> (evaluator_error, schedule_execution) result \<times> 'w"
  sm_cancel_workflow :: "schedule_execution \<Rightarrow> string \<Rightarrow> 'w \<Rightarrow> (evaluator_error, unit) result \<times> 'w"
  sm_record_triggered :: "schedule_id \<Rightarrow> schedule_execution \<Rightarrow> timestamp \<Rightarrow> 'w \<Rightarrow> (evaluator_error, unit) result \<times> 'w"

datatype timer_evaluation_outcome = TickStarted schedule_execution | TickSkipped | TickBuffered | TickInactive

record schedule_evaluator =
  ev_states :: "(schedule_id \<times> schedule_state) list"
  ev_pending_ticks :: "schedule_id set"

type_synonym ('a, 'w) evaluated = "(evaluator_error, 'a) result \<times> schedule_evaluator \<times> 'w"

definition evaluator_new :: schedule_evaluator where
  "evaluator_new = \<lparr>ev_states = [], ev_pending_ticks = {}\<rparr>"

definition replace_state_from_events ::
  "'c calendar \<Rightarrow> history \<Rightarrow> schedule_evaluator \<Rightarrow> (evaluator_error, schedule_evaluator) result" where
  "replace_state_from_events cal events ev =
     bind_res (map_err TriggerErr (project_schedule_state cal events)) (\<lambda>states.
       Inr \<lparr>ev_states = foldl (\<lambda>m st. AList.update (ss_schedule_id st) st m) [] states, ev_pending_ticks = {}\<rparr>)"

definition upsert_state :: "schedule_state \<Rightarrow> schedule_evaluator \<Rightarrow> schedule_evaluator" where
  "upsert_state st ev =
     \<lparr>ev_states = AList.update (ss_schedule_id st) st (ev_states ev),
      ev_pending_ticks =
        (if schedule_is_active st then ev_pending_ticks ev else ev_pending_ticks ev - {ss_schedule_id st})\<rparr>"

definition has_pending_tick :: "schedule_id \<Rightarrow> schedule_evaluator \<Rightarrow> bool" where
  "has_pending_tick sid ev \<longleftrightarrow> sid \<in> ev_pending_ticks ev"

definition timer_id_for :: "show_uuid \<Rightarrow> schedule_id \<Rightarrow> (id_error, timer_id) result" where
  "timer_id_for show_uuid sid = timer_named (''schedule:'' @ show_uuid (schedule_uuid sid))"

definition arm_state_if_active :: "show_uuid \<Rightarrow> 'w schedule_seams \<Rightarrow> schedule_state \<Rightarrow> 'w \<Rightarrow> (evaluator_error, bool) result \<times> 'w" where
  "arm_state_if_active show_uuid sm st w =
     (if \<not> schedule_is_active st then (Inr False, w)
      else
        (case timer_id_for show_uuid (ss_schedule_id st) of
           Inl e \<Rightarrow> (Inl (TimerIdErr e), w)
         | Inr t \<Rightarrow>
             (case sm_arm_timer sm (ss_schedule_id st) t (ss_next_trigger_at st) w of
                (Inl e, w') \<Rightarrow> (Inl e, w')
              | (Inr _, w') \<Rightarrow> (Inr True, w'))))"

definition arm_active_schedule ::
  "show_uuid \<Rightarrow> 'w schedule_seams \<Rightarrow> schedule_id \<Rightarrow> schedule_evaluator \<Rightarrow> 'w \<Rightarrow> (evaluator_error, bool) result \<times> 'w" where
  "arm_active_schedule show_uuid sm sid ev w =
     (case map_of (ev_states ev) sid of
        None \<Rightarrow> (Inl (ScheduleNotFound sid), w)
      | Some st \<Rightarrow> arm_state_if_active show_uuid sm st w)"

text \<open>\<^verbatim>\<open>states.get_mut(id)\<close>: change the state in place when there is one.\<close>

definition modify_state :: "schedule_id \<Rightarrow> (schedule_state \<Rightarrow> schedule_state) \<Rightarrow> schedule_evaluator \<Rightarrow> schedule_evaluator" where
  "modify_state sid f ev =
     (case map_of (ev_states ev) sid of
        None \<Rightarrow> ev
      | Some st \<Rightarrow> ev\<lparr>ev_states := AList.update sid (f st) (ev_states ev)\<rparr>)"

definition start_and_record ::
  "'w schedule_seams \<Rightarrow> schedule_id \<Rightarrow> timestamp \<Rightarrow> schedule_evaluator \<Rightarrow> 'w \<Rightarrow> (timer_evaluation_outcome, 'w) evaluated" where
  "start_and_record sm sid at ev w =
     (case map_of (ev_states ev) sid of
        None \<Rightarrow> (Inl (ScheduleNotFound sid), ev, w)
      | Some st \<Rightarrow>
          (case sm_start_workflow sm (sc_workflow_type (ss_config st)) (sc_input (ss_config st))
                  (sc_search_attributes (ss_config st)) w of
             (Inl e, w') \<Rightarrow> (Inl e, ev, w')
           | (Inr execution, w') \<Rightarrow>
               (case sm_record_triggered sm sid execution at w' of
                  (Inl e, w'') \<Rightarrow> (Inl e, ev, w'')
                | (Inr _, w'') \<Rightarrow>
                    (Inr (TickStarted execution), modify_state sid (record_triggered execution at) ev, w''))))"

definition CANCEL_REASON :: string where
  "CANCEL_REASON = ''schedule overlap policy CancelPrevious''"

definition process_fire ::
  "'w schedule_seams \<Rightarrow> schedule_id \<Rightarrow> timestamp \<Rightarrow> schedule_evaluator \<Rightarrow> 'w \<Rightarrow> (timer_evaluation_outcome, 'w) evaluated" where
  "process_fire sm sid fire_at ev w =
     (case map_of (ev_states ev) sid of
        None \<Rightarrow> (Inl (ScheduleNotFound sid), ev, w)
      | Some st \<Rightarrow>
          (case evaluate_overlap (sc_overlap_policy (ss_config st)) (ss_current_execution st)
                  (sid \<in> ev_pending_ticks ev) of
             OverlapStart \<Rightarrow> start_and_record sm sid fire_at ev w
           | OverlapSkipTick \<Rightarrow> (Inr TickSkipped, ev, w)
           | BufferPending \<Rightarrow> (Inr TickBuffered, ev\<lparr>ev_pending_ticks := insert sid (ev_pending_ticks ev)\<rparr>, w)
           | CancelThenStart execution \<Rightarrow>
               (case sm_cancel_workflow sm execution CANCEL_REASON w of
                  (Inl e, w') \<Rightarrow> (Inl e, ev, w')
                | (Inr _, w') \<Rightarrow>
                    start_and_record sm sid fire_at (modify_state sid (\<lambda>st. st\<lparr>ss_current_execution := None\<rparr>) ev) w')))"

definition advance_and_arm ::
  "'c calendar \<Rightarrow> show_uuid \<Rightarrow> 'w schedule_seams \<Rightarrow> schedule_id \<Rightarrow> timestamp \<Rightarrow> schedule_evaluator \<Rightarrow> 'w
    \<Rightarrow> (unit, 'w) evaluated" where
  "advance_and_arm cal show_uuid sm sid after ev w =
     (case map_of (ev_states ev) sid of
        None \<Rightarrow> (Inl (ScheduleNotFound sid), ev, w)
      | Some st \<Rightarrow>
          (case next_fire_time cal (sc_trigger (ss_config st)) after of
             Inl e \<Rightarrow> (Inl (TriggerErr e), ev, w)
           | Inr next_at \<Rightarrow>
               (let st' = set_next_trigger_at next_at st; ev' = modify_state sid (set_next_trigger_at next_at) ev
                in case arm_state_if_active show_uuid sm st' w of
                     (Inl e, w') \<Rightarrow> (Inl e, ev', w')
                   | (Inr _, w') \<Rightarrow> (Inr (), ev', w'))))"

definition handle_timer_fired ::
  "'c calendar \<Rightarrow> show_uuid \<Rightarrow> 'w schedule_seams \<Rightarrow> schedule_id \<Rightarrow> timestamp \<Rightarrow> schedule_evaluator \<Rightarrow> 'w
    \<Rightarrow> (timer_evaluation_outcome, 'w) evaluated" where
  "handle_timer_fired cal show_uuid sm sid fire_at ev w =
     (case map_of (ev_states ev) sid of
        None \<Rightarrow> (Inl (ScheduleNotFound sid), ev, w)
      | Some st \<Rightarrow>
          if \<not> schedule_is_active st then (Inr TickInactive, ev, w)
          else
            (case process_fire sm sid fire_at ev w of
               (Inl e, ev', w') \<Rightarrow> (Inl e, ev', w')
             | (Inr outcome, ev', w') \<Rightarrow>
                 (case advance_and_arm cal show_uuid sm sid fire_at ev' w' of
                    (Inl e, ev'', w'') \<Rightarrow> (Inl e, ev'', w'')
                  | (Inr _, ev'', w'') \<Rightarrow> (Inr outcome, ev'', w''))))"

fun process_fires ::
  "'w schedule_seams \<Rightarrow> schedule_id \<Rightarrow> timestamp list \<Rightarrow> schedule_evaluator \<Rightarrow> 'w \<Rightarrow> (unit, 'w) evaluated" where
  "process_fires sm sid [] ev w = (Inr (), ev, w)"
| "process_fires sm sid (t # ts) ev w =
     (case process_fire sm sid t ev w of
        (Inl e, ev', w') \<Rightarrow> (Inl e, ev', w')
      | (Inr _, ev', w') \<Rightarrow> process_fires sm sid ts ev' w')"

text \<open>One round of the recovery loop; \<open>None\<close> when its catch-up does not return.\<close>

definition recover_schedule ::
  "'c calendar \<Rightarrow> show_uuid \<Rightarrow> 'w schedule_seams \<Rightarrow> timestamp \<Rightarrow> schedule_id \<Rightarrow> schedule_evaluator \<Rightarrow> 'w
    \<Rightarrow> (unit, 'w) evaluated option" where
  "recover_schedule cal show_uuid sm now sid ev w =
     (case map_of (ev_states ev) sid of
        None \<Rightarrow> Some (Inr (), ev, w)
      | Some st \<Rightarrow>
          if \<not> schedule_is_active st then Some (Inr (), ev, w)
          else
            (let ev1 = modify_state sid (\<lambda>st. st\<lparr>ss_current_execution := None\<rparr>) ev
             in case evaluate_catch_up cal (sc_catch_up_policy (ss_config st)) (sc_trigger (ss_config st))
                       (ss_next_trigger_at st) now of
                  None \<Rightarrow> None
                | Some (Inl e) \<Rightarrow> Some (Inl (TriggerErr e), ev1, w)
                | Some (Inr plan) \<Rightarrow>
                    Some (case process_fires sm sid (cp_fire_times plan) ev1 w of
                            (Inl e, ev2, w2) \<Rightarrow> (Inl e, ev2, w2)
                          | (Inr _, ev2, w2) \<Rightarrow>
                              (let ev3 = modify_state sid (set_next_trigger_at (cp_next_trigger_at plan)) ev2
                               in case arm_active_schedule show_uuid sm sid ev3 w2 of
                                    (Inl e, w3) \<Rightarrow> (Inl e, ev3, w3)
                                  | (Inr _, w3) \<Rightarrow> (Inr (), ev3, w3)))))"

fun recover_all ::
  "'c calendar \<Rightarrow> show_uuid \<Rightarrow> 'w schedule_seams \<Rightarrow> timestamp \<Rightarrow> schedule_id list \<Rightarrow> schedule_evaluator \<Rightarrow> 'w
    \<Rightarrow> (unit, 'w) evaluated option" where
  "recover_all cal show_uuid sm now [] ev w = Some (Inr (), ev, w)"
| "recover_all cal show_uuid sm now (sid # sids) ev w =
     (case recover_schedule cal show_uuid sm now sid ev w of
        None \<Rightarrow> None
      | Some (Inl e, ev', w') \<Rightarrow> Some (Inl e, ev', w')
      | Some (Inr _, ev', w') \<Rightarrow> recover_all cal show_uuid sm now sids ev' w')"

definition recover_projected_state ::
  "'c calendar \<Rightarrow> show_uuid \<Rightarrow> 'w schedule_seams \<Rightarrow> timestamp \<Rightarrow> schedule_evaluator \<Rightarrow> 'w \<Rightarrow> (unit, 'w) evaluated option" where
  "recover_projected_state cal show_uuid sm now ev w =
     recover_all cal show_uuid sm now (map fst (ev_states ev)) ev w"

definition recover_on_startup ::
  "'c calendar \<Rightarrow> show_uuid \<Rightarrow> 'w schedule_seams \<Rightarrow> (evaluator_error, history) result \<Rightarrow> timestamp
    \<Rightarrow> schedule_evaluator \<Rightarrow> 'w \<Rightarrow> (unit, 'w) evaluated option" where
  "recover_on_startup cal show_uuid sm source now ev w =
     (case bind_res source (\<lambda>events. replace_state_from_events cal events ev) of
        Inl e \<Rightarrow> Some (Inl e, ev, w)
      | Inr ev' \<Rightarrow> recover_projected_state cal show_uuid sm now ev' w)"

definition complete_current_execution ::
  "'w schedule_seams \<Rightarrow> schedule_id \<Rightarrow> timestamp \<Rightarrow> schedule_evaluator \<Rightarrow> 'w
    \<Rightarrow> (schedule_execution option, 'w) evaluated" where
  "complete_current_execution sm sid completed_at ev w =
     (case map_of (ev_states ev) sid of
        None \<Rightarrow> (Inl (ScheduleNotFound sid), ev, w)
      | Some st \<Rightarrow>
          (let ev1 = modify_state sid (\<lambda>st. st\<lparr>ss_current_execution := None\<rparr>) ev;
               ev2 = ev1\<lparr>ev_pending_ticks := ev_pending_ticks ev1 - {sid}\<rparr>
           in if \<not> schedule_is_active st then (Inr None, ev2, w)
              else if sid \<notin> ev_pending_ticks ev1 then (Inr None, ev2, w)
              else (case start_and_record sm sid completed_at ev2 w of
                      (Inl e, ev3, w') \<Rightarrow> (Inl e, ev3, w')
                    | (Inr (TickStarted execution), ev3, w') \<Rightarrow> (Inr (Some execution), ev3, w')
                    | (Inr _, ev3, w') \<Rightarrow>
                        (Inl (SideEffect ''buffered schedule tick did not start a workflow''), ev3, w'))))"

section \<open>Frame lemmas\<close>

lemma modify_state_pending [simp]: "ev_pending_ticks (modify_state sid f ev) = ev_pending_ticks ev"
  by (simp add: modify_state_def split: option.split)

lemma modify_state_lookup [simp]:
  "map_of (ev_states (modify_state sid f ev)) k =
     (if k = sid then map_option f (map_of (ev_states ev) sid) else map_of (ev_states ev) k)"
  by (auto simp: modify_state_def update_conv' split: option.split)

text \<open>What a tick may change of a schedule's state: only which execution is current and when it started.\<close>

definition same_plan :: "schedule_state \<Rightarrow> schedule_state \<Rightarrow> bool" where
  "same_plan st st' \<longleftrightarrow> ss_schedule_id st' = ss_schedule_id st \<and> ss_config st' = ss_config st
     \<and> ss_is_paused st' = ss_is_paused st \<and> ss_is_deleted st' = ss_is_deleted st
     \<and> ss_next_trigger_at st' = ss_next_trigger_at st"

definition tick_frame :: "schedule_id \<Rightarrow> schedule_evaluator \<Rightarrow> schedule_evaluator \<Rightarrow> bool" where
  "tick_frame sid ev ev' \<longleftrightarrow>
     (\<forall>k. k \<noteq> sid \<longrightarrow> map_of (ev_states ev') k = map_of (ev_states ev) k \<and> (k \<in> ev_pending_ticks ev' \<longleftrightarrow> k \<in> ev_pending_ticks ev))
   \<and> rel_option same_plan (map_of (ev_states ev) sid) (map_of (ev_states ev') sid)"

lemma same_plan_refl [simp]: "same_plan st st"
  by (simp add: same_plan_def)

lemma same_plan_execution [simp]:
  "same_plan st (st\<lparr>ss_current_execution := x\<rparr>)" "same_plan st (record_triggered x' at st)"
  "same_plan st (record_triggered x' at (st\<lparr>ss_current_execution := x\<rparr>))"
  by (simp_all add: same_plan_def record_triggered_def)

lemma tick_frame_refl [simp]: "tick_frame sid ev ev"
  by (simp add: tick_frame_def option.rel_refl)

lemma tick_frame_trans: "tick_frame sid a b \<Longrightarrow> tick_frame sid b c \<Longrightarrow> tick_frame sid a c"
  unfolding tick_frame_def
  by (cases "map_of (ev_states a) sid"; cases "map_of (ev_states b) sid"; cases "map_of (ev_states c) sid")
     (auto simp: same_plan_def)

lemma modify_execution_frame: "tick_frame sid ev (modify_state sid (\<lambda>st. st\<lparr>ss_current_execution := x\<rparr>) ev)"
  by (cases "map_of (ev_states ev) sid") (auto simp: tick_frame_def)

lemma start_and_record_frame:
  "start_and_record sm sid at ev w = (res, ev', w') \<Longrightarrow> tick_frame sid ev ev' \<and> ev_pending_ticks ev' = ev_pending_ticks ev"
  by (auto simp: start_and_record_def tick_frame_def option.rel_refl split: option.splits prod.splits sum.splits)

lemma process_fire_frame:
  assumes "process_fire sm sid at ev w = (res, ev', w')"
  shows "tick_frame sid ev ev'"
proof (cases "map_of (ev_states ev) sid")
  case None
  with assms show ?thesis by (simp add: process_fire_def)
next
  case (Some st)
  show ?thesis
  proof (cases "evaluate_overlap (sc_overlap_policy (ss_config st)) (ss_current_execution st) (sid \<in> ev_pending_ticks ev)")
    case OverlapStart
    with assms Some start_and_record_frame [of sm sid at ev w res ev' w'] show ?thesis by (simp add: process_fire_def)
  next
    case (CancelThenStart x)
    with assms Some start_and_record_frame [of sm sid at "modify_state sid (\<lambda>st. st\<lparr>ss_current_execution := None\<rparr>) ev"]
      modify_execution_frame [of sid ev None]
    show ?thesis by (auto simp: process_fire_def split: prod.splits sum.splits intro: tick_frame_trans)
  qed (use assms Some in \<open>auto simp: process_fire_def tick_frame_def option.rel_refl\<close>)
qed

lemma process_fires_frame: "process_fires sm sid ts ev w = (res, ev', w') \<Longrightarrow> tick_frame sid ev ev'"
proof (induction ts arbitrary: ev w)
  case (Cons t ts)
  then show ?case
    by (auto split: prod.splits sum.splits dest!: process_fire_frame intro: tick_frame_trans)
qed simp

section \<open>Recovery returns and arms the future\<close>

lemma catch_up_future:
  assumes "calendar_ok cal"
  shows "\<exists>res. evaluate_catch_up cal policy trigger at now = Some res
    \<and> (\<forall>plan. res = Inr plan \<longrightarrow> now < cp_next_trigger_at plan)"
proof (cases "now < at")
  case True
  then show ?thesis by (simp add: evaluate_catch_up_def)
next
  case False
  from missed_exists [OF assms, of trigger now at] obtain ts fin where
    m: "missed cal trigger now at ts fin"
    "\<forall>acc. catch_up_all_loop cal trigger now acc at =
          Some (bind_res fin (\<lambda>u. Inr \<lparr>cp_fire_times = acc @ ts, cp_next_trigger_at = u\<rparr>))"
    "skip_past cal trigger now at = Some fin" by blast
  have one: "catch_up_one cal trigger at now =
      Some (bind_res fin (\<lambda>u. Inr \<lparr>cp_fire_times = [at], cp_next_trigger_at = u\<rparr>))"
    using m(3) False unfolding skip_past.simps [of cal trigger now at]
    by (auto simp: catch_up_one_def split: sum.splits)
  with m False show ?thesis
    by (cases fin; cases policy)
       (auto simp: evaluate_catch_up_def catch_up_all_def catch_up_skip_def missed_def)
qed

definition armed_after :: "timestamp \<Rightarrow> schedule_state \<Rightarrow> bool" where
  "armed_after now st \<longleftrightarrow> (schedule_is_active st \<longrightarrow> now < ss_next_trigger_at st)"

lemma recover_schedule_cases:
  assumes "calendar_ok cal"
  shows "\<exists>res ev' w'. recover_schedule cal show_uuid sm now sid ev w = Some (res, ev', w')
    \<and> (\<forall>k. k \<noteq> sid \<longrightarrow> map_of (ev_states ev') k = map_of (ev_states ev) k)
    \<and> (map_of (ev_states ev') sid = None \<longleftrightarrow> map_of (ev_states ev) sid = None)
    \<and> (res = Inr () \<longrightarrow> (\<forall>st. map_of (ev_states ev') sid = Some st \<longrightarrow> armed_after now st))"
proof (cases "map_of (ev_states ev) sid")
  case None
  then show ?thesis by (simp add: recover_schedule_def)
next
  case (Some st)
  show ?thesis
  proof (cases "schedule_is_active st")
    case False
    with Some show ?thesis by (simp add: recover_schedule_def armed_after_def)
  next
    case True
    let ?ev1 = "modify_state sid (\<lambda>st. st\<lparr>ss_current_execution := None\<rparr>) ev"
    from catch_up_future [OF assms] obtain plan_res where
      plan: "evaluate_catch_up cal (sc_catch_up_policy (ss_config st)) (sc_trigger (ss_config st))
         (ss_next_trigger_at st) now = Some plan_res"
      and future: "\<And>plan. plan_res = Inr plan \<Longrightarrow> now < cp_next_trigger_at plan" by blast
    show ?thesis
    proof (cases plan_res)
      case (Inl e)
      with Some True plan show ?thesis by (simp add: recover_schedule_def)
    next
      case (Inr p)
      obtain r2 ev2 w2 where fires: "process_fires sm sid (cp_fire_times p) ?ev1 w = (r2, ev2, w2)" by (metis prod_cases3)
      note frame = process_fires_frame [OF fires]
      then obtain st2 where st2: "map_of (ev_states ev2) sid = Some st2" and others:
        "\<forall>k. k \<noteq> sid \<longrightarrow> map_of (ev_states ev2) k = map_of (ev_states ev) k"
        using Some by (cases "map_of (ev_states ev2) sid") (auto simp: tick_frame_def)
      show ?thesis
      proof (cases r2)
        case (Inl e)
        with Some True plan Inr fires st2 others show ?thesis by (simp add: recover_schedule_def Let_def)
      next
        case (Inr u)
        let ?ev3 = "modify_state sid (set_next_trigger_at (cp_next_trigger_at p)) ev2"
        obtain r3 w3 where arm: "arm_active_schedule show_uuid sm sid ?ev3 w2 = (r3, w3)" by fastforce
        have "recover_schedule cal show_uuid sm now sid ev w =
            Some (case r3 of Inl e \<Rightarrow> Inl e | Inr _ \<Rightarrow> Inr (), ?ev3, w3)"
          using Some True plan \<open>plan_res = Inr p\<close> fires Inr arm
          by (cases r3) (simp_all add: recover_schedule_def Let_def)
        moreover have "armed_after now (set_next_trigger_at (cp_next_trigger_at p) st2)"
          using future [OF \<open>plan_res = Inr p\<close>] by (simp add: armed_after_def set_next_trigger_at_def)
        ultimately show ?thesis using st2 others Some by auto
      qed
    qed
  qed
qed

lemma recover_all_cases:
  assumes "calendar_ok cal"
  shows "\<exists>res ev' w'. recover_all cal show_uuid sm now sids ev w = Some (res, ev', w')
    \<and> (\<forall>k. k \<notin> set sids \<longrightarrow> map_of (ev_states ev') k = map_of (ev_states ev) k)
    \<and> (\<forall>k. map_of (ev_states ev') k = None \<longleftrightarrow> map_of (ev_states ev) k = None)
    \<and> (res = Inr () \<longrightarrow> (\<forall>k st. k \<in> set sids \<longrightarrow> map_of (ev_states ev') k = Some st \<longrightarrow> armed_after now st))"
proof (induction sids arbitrary: ev w)
  case (Cons sid sids)
  from recover_schedule_cases [OF assms, of show_uuid sm now sid ev w] obtain r1 ev1 w1 where
    1: "recover_schedule cal show_uuid sm now sid ev w = Some (r1, ev1, w1)"
    and others: "\<forall>k. k \<noteq> sid \<longrightarrow> map_of (ev_states ev1) k = map_of (ev_states ev) k"
    and none: "map_of (ev_states ev1) sid = None \<longleftrightarrow> map_of (ev_states ev) sid = None"
    and armed: "r1 = Inr () \<longrightarrow> (\<forall>st. map_of (ev_states ev1) sid = Some st \<longrightarrow> armed_after now st)" by (elim exE conjE) (rule that)
  show ?case
  proof (cases r1)
    case (Inl e)
    with 1 others none show ?thesis by auto (metis option.distinct(1))+
  next
    case (Inr u)
    from Cons.IH [of ev1 w1] obtain res ev' w' where
      2: "recover_all cal show_uuid sm now sids ev1 w1 = Some (res, ev', w')"
      and o2: "\<forall>k. k \<notin> set sids \<longrightarrow> map_of (ev_states ev') k = map_of (ev_states ev1) k"
      and n2: "\<forall>k. map_of (ev_states ev') k = None \<longleftrightarrow> map_of (ev_states ev1) k = None"
      and a2: "res = Inr () \<longrightarrow> (\<forall>k st. k \<in> set sids \<longrightarrow> map_of (ev_states ev') k = Some st \<longrightarrow> armed_after now st)"
      by blast
    have "recover_all cal show_uuid sm now (sid # sids) ev w = Some (res, ev', w')" using 1 2 Inr by simp
    moreover have "\<forall>k st. res = Inr () \<longrightarrow> k \<in> set (sid # sids) \<longrightarrow> map_of (ev_states ev') k = Some st \<longrightarrow> armed_after now st"
      using a2 o2 armed Inr by (metis old.unit.exhaust set_ConsD)
    moreover have "\<forall>k. map_of (ev_states ev') k = None \<longleftrightarrow> map_of (ev_states ev) k = None"
      using n2 others none by metis
    moreover have "\<forall>k. k \<notin> set (sid # sids) \<longrightarrow> map_of (ev_states ev') k = map_of (ev_states ev) k"
      using o2 others by simp
    ultimately show ?thesis by blast
  qed
qed simp

section \<open>The calls of a tick\<close>

datatype schedule_call =
  CallArm schedule_id timer_id timestamp
| CallStart string payload attributes
| CallCancel schedule_execution string
| CallTriggered schedule_id schedule_execution timestamp

text \<open>The seams, instrumented: every call is logged before its result is used.\<close>

definition logging :: "schedule_call \<Rightarrow> ('w \<Rightarrow> 'r \<times> 'w) \<Rightarrow> 'w \<times> schedule_call list \<Rightarrow> 'r \<times> 'w \<times> schedule_call list" where
  "logging c f = (\<lambda>(w, log). case f w of (r, w') \<Rightarrow> (r, w', log @ [c]))"

definition logged :: "'w schedule_seams \<Rightarrow> ('w \<times> schedule_call list) schedule_seams" where
  "logged sm =
     \<lparr>sm_arm_timer = (\<lambda>sid t at. logging (CallArm sid t at) (sm_arm_timer sm sid t at)),
      sm_start_workflow = (\<lambda>ty input sa. logging (CallStart ty input sa) (sm_start_workflow sm ty input sa)),
      sm_cancel_workflow = (\<lambda>x reason. logging (CallCancel x reason) (sm_cancel_workflow sm x reason)),
      sm_record_triggered = (\<lambda>sid x at. logging (CallTriggered sid x at) (sm_record_triggered sm sid x at))\<rparr>"

definition start_call :: "schedule_state \<Rightarrow> schedule_call" where
  "start_call st =
     CallStart (sc_workflow_type (ss_config st)) (sc_input (ss_config st)) (sc_search_attributes (ss_config st))"

fun is_start :: "schedule_call \<Rightarrow> bool" where
  "is_start (CallStart _ _ _) = True"
| "is_start _ = False"

lemma is_start_call [simp]: "is_start (start_call st)"
  by (simp add: start_call_def)

lemmas logged_defs = logged_def logging_def

text \<open>How far a start may get: the start fails, its recording fails, or both succeed.\<close>

definition start_outcome ::
  "schedule_id \<Rightarrow> timestamp \<Rightarrow> schedule_state \<Rightarrow> schedule_evaluator \<Rightarrow> (evaluator_error, timer_evaluation_outcome) result
    \<Rightarrow> schedule_evaluator \<Rightarrow> schedule_call list \<Rightarrow> bool" where
  "start_outcome sid at st ev res ev' calls \<longleftrightarrow>
     (\<exists>e. res = Inl e \<and> ev' = ev \<and> (calls = [start_call st] \<or> (\<exists>x. calls = [start_call st, CallTriggered sid x at])))
   \<or> (\<exists>x. res = Inr (TickStarted x) \<and> ev' = modify_state sid (record_triggered x at) ev
         \<and> calls = [start_call st, CallTriggered sid x at])"

lemma start_and_record_calls:
  assumes "map_of (ev_states ev) sid = Some st"
    and "start_and_record (logged sm) sid at ev (w, log) = (res, ev', w', log')"
  shows "\<exists>calls. log' = log @ calls \<and> start_outcome sid at st ev res ev' calls"
  using assms
  by (auto simp: start_and_record_def logged_defs start_outcome_def start_call_def split: prod.splits sum.splits)

abbreviation idle :: "schedule_id \<Rightarrow> schedule_evaluator \<Rightarrow> schedule_evaluator" where
  "idle sid ev \<equiv> modify_state sid (\<lambda>st. st\<lparr>ss_current_execution := None\<rparr>) ev"

lemma start_call_idle [simp]: "start_call (st\<lparr>ss_current_execution := x\<rparr>) = start_call st"
  by (simp add: start_call_def)

lemma process_fire_calls:
  assumes "map_of (ev_states ev) sid = Some st"
    and "process_fire (logged sm) sid at ev (w, log) = (res, ev', w', log')"
  shows "\<exists>calls. log' = log @ calls \<and>
    (case evaluate_overlap (sc_overlap_policy (ss_config st)) (ss_current_execution st) (sid \<in> ev_pending_ticks ev) of
       OverlapStart \<Rightarrow> start_outcome sid at st ev res ev' calls
     | OverlapSkipTick \<Rightarrow> calls = [] \<and> res = Inr TickSkipped \<and> ev' = ev
     | BufferPending \<Rightarrow> calls = [] \<and> res = Inr TickBuffered
         \<and> ev' = ev\<lparr>ev_pending_ticks := insert sid (ev_pending_ticks ev)\<rparr>
     | CancelThenStart x \<Rightarrow>
         (\<exists>e. res = Inl e \<and> ev' = ev \<and> calls = [CallCancel x CANCEL_REASON])
       \<or> (\<exists>rest. calls = CallCancel x CANCEL_REASON # rest \<and> start_outcome sid at st (idle sid ev) res ev' rest))"
proof (cases "evaluate_overlap (sc_overlap_policy (ss_config st)) (ss_current_execution st) (sid \<in> ev_pending_ticks ev)")
  case OverlapStart
  with assms start_and_record_calls [OF assms(1), of sm at w log res ev' w' log'] show ?thesis
    by (simp add: process_fire_def)
next
  case (CancelThenStart x)
  obtain r1 w1 where cancel: "sm_cancel_workflow sm x CANCEL_REASON w = (r1, w1)" by fastforce
  have lookup: "map_of (ev_states (idle sid ev)) sid = Some (st\<lparr>ss_current_execution := None\<rparr>)"
    using assms(1) by simp
  show ?thesis
  proof (cases r1)
    case (Inl e)
    with assms CancelThenStart cancel show ?thesis by (auto simp: process_fire_def logged_defs)
  next
    case (Inr u)
    with assms CancelThenStart cancel
    have "start_and_record (logged sm) sid at (idle sid ev) (w1, log @ [CallCancel x CANCEL_REASON]) = (res, ev', w', log')"
      by (simp add: process_fire_def logged_defs)
    from start_and_record_calls [OF lookup this] CancelThenStart show ?thesis
      by (auto simp: start_outcome_def)
  qed
qed (use assms in \<open>auto simp: process_fire_def\<close>)

lemma advance_and_arm_calls:
  assumes "map_of (ev_states ev) sid = Some st" and "schedule_is_active st" and "ss_schedule_id st = sid"
    and "advance_and_arm cal show_uuid (logged sm) sid at ev (w, log) = (res, ev', w', log')"
  shows "\<exists>calls. log' = log @ calls \<and> (\<forall>c \<in> set calls. \<not> is_start c)
    \<and> (res = Inr () \<longrightarrow> (\<exists>t u. timer_id_for show_uuid sid = Inr t \<and> next_fire_time cal (sc_trigger (ss_config st)) at = Inr u
         \<and> calls = [CallArm sid t u] \<and> ev' = modify_state sid (set_next_trigger_at u) ev))"
  using assms
  by (auto simp: advance_and_arm_def arm_state_if_active_def logged_defs set_next_trigger_at_def schedule_is_active_def Let_def
      split: prod.splits sum.splits if_splits)

text \<open>A schedule is stored under its own id.\<close>

definition states_keyed :: "schedule_evaluator \<Rightarrow> bool" where
  "states_keyed ev \<longleftrightarrow> (\<forall>sid st. map_of (ev_states ev) sid = Some st \<longrightarrow> ss_schedule_id st = sid)"

lemma states_keyed_update:
  "states_keyed ev \<Longrightarrow> ev_states ev' = AList.update (ss_schedule_id st) st (ev_states ev) \<Longrightarrow> states_keyed ev'"
  unfolding states_keyed_def by (metis fun_upd_apply option.inject update_conv')

lemma projected_keyed:
  "states_keyed \<lparr>ev_states = acc, ev_pending_ticks = p\<rparr> \<Longrightarrow>
     states_keyed \<lparr>ev_states = foldl (\<lambda>m st. AList.update (ss_schedule_id st) st m) acc states, ev_pending_ticks = p\<rparr>"
proof (induction states arbitrary: acc)
  case (Cons st states)
  from Cons.IH [OF states_keyed_update [OF Cons.prems, of _ st]] show ?case by simp
qed simp

lemma states_keyed_empty: "states_keyed \<lparr>ev_states = [], ev_pending_ticks = p\<rparr>"
  by (simp add: states_keyed_def)

lemma replace_state_keyed: "replace_state_from_events cal events ev = Inr ev' \<Longrightarrow> states_keyed ev'"
  using projected_keyed [OF states_keyed_empty]
  by (cases "project_schedule_state cal events") (auto simp: replace_state_from_events_def)

lemma upsert_state_keyed: "states_keyed ev \<Longrightarrow> states_keyed (upsert_state st ev)"
  by (rule states_keyed_update [of ev _ st]) (simp_all add: upsert_state_def)

lemma tick_frame_keyed:
  assumes "tick_frame sid ev ev'" and "states_keyed ev"
  shows "states_keyed ev'"
  unfolding states_keyed_def
proof (intro allI impI)
  fix k st'
  assume "map_of (ev_states ev') k = Some st'"
  with assms show "ss_schedule_id st' = k"
    by (cases "k = sid"; cases "map_of (ev_states ev) sid") (auto simp: tick_frame_def states_keyed_def same_plan_def)
qed

lemma projected_dom:
  "dom (map_of (foldl (\<lambda>m st. AList.update (ss_schedule_id st) st m) acc states)) =
     dom (map_of acc) \<union> ss_schedule_id ` set states"
  by (induction states arbitrary: acc) (auto simp: update_conv')

lemma evaluate_overlap_cases:
  "(evaluate_overlap policy current pending = OverlapStart \<longleftrightarrow> policy = AllowAll \<or> current = None)"
  "(evaluate_overlap policy current pending = CancelThenStart x \<longleftrightarrow> policy = CancelPrevious \<and> current = Some x)"
  "(evaluate_overlap policy current pending = BufferPending \<longleftrightarrow> policy = BufferOne \<and> current \<noteq> None \<and> \<not> pending)"
  by (cases policy; cases current; auto)+

lemma process_fire_script:
  assumes "map_of (ev_states ev) sid = Some st"
    and "process_fire (logged sm) sid at ev (w, log) = (res, ev', w', log')"
  shows "\<exists>calls. log' = log @ calls \<and> res \<noteq> Inr TickInactive
    \<and> length (filter is_start calls) \<le> 1
    \<and> (filter is_start calls \<noteq> [] \<longrightarrow>
         sc_overlap_policy (ss_config st) = AllowAll \<or> ss_current_execution st = None
       \<or> sc_overlap_policy (ss_config st) = CancelPrevious
         \<and> (\<exists>x rest. ss_current_execution st = Some x \<and> calls = CallCancel x CANCEL_REASON # start_call st # rest))
    \<and> (\<forall>x. res = Inr (TickStarted x) \<longrightarrow>
         (\<exists>pre. calls = pre @ [start_call st, CallTriggered sid x at] \<and> length pre \<le> 1))
    \<and> (res \<in> {Inr TickSkipped, Inr TickBuffered} \<longrightarrow> calls = []
         \<and> (res = Inr TickBuffered \<longleftrightarrow> sc_overlap_policy (ss_config st) = BufferOne \<and> sid \<notin> ev_pending_ticks ev))"
proof (cases "evaluate_overlap (sc_overlap_policy (ss_config st)) (ss_current_execution st) (sid \<in> ev_pending_ticks ev)")
  case OverlapStart
  with process_fire_calls [OF assms] evaluate_overlap_cases(1) [THEN iffD1, OF OverlapStart] show ?thesis
    by (auto simp: start_outcome_def)
next
  case (CancelThenStart x)
  with process_fire_calls [OF assms] evaluate_overlap_cases(2) [THEN iffD1, OF CancelThenStart] show ?thesis
    by (auto simp: start_outcome_def)
next
  case BufferPending
  with process_fire_calls [OF assms] evaluate_overlap_cases(3) [THEN iffD1, OF BufferPending] show ?thesis by auto
next
  case OverlapSkipTick
  then have "\<not> (sc_overlap_policy (ss_config st) = BufferOne \<and> sid \<notin> ev_pending_ticks ev)"
    by (cases "ss_current_execution st") (auto split: if_splits)
  with OverlapSkipTick process_fire_calls [OF assms] show ?thesis by auto
qed

text \<open>The calls that arm a schedule's timer; catching up makes none.\<close>

fun arms :: "schedule_id \<Rightarrow> schedule_call \<Rightarrow> bool" where
  "arms k (CallArm sid _ _) \<longleftrightarrow> sid = k"
| "arms _ _ = False"

lemma arms_start_call [simp]: "\<not> arms k (start_call st)"
  by (simp add: start_call_def)

lemma start_outcome_arms: "start_outcome sid at st ev res ev' calls \<Longrightarrow> filter (arms k) calls = []"
  by (auto simp: start_outcome_def)

lemma process_fire_extends:
  assumes "process_fire (logged sm) sid at ev (w, log) = (res, ev', w', log')"
  shows "\<exists>calls. log' = log @ calls \<and> (\<forall>k. filter (arms k) calls = [])"
proof (cases "map_of (ev_states ev) sid")
  case None
  with assms show ?thesis by (simp add: process_fire_def)
next
  case (Some st)
  from process_fire_calls [OF this assms] show ?thesis
    by (cases "evaluate_overlap (sc_overlap_policy (ss_config st)) (ss_current_execution st) (sid \<in> ev_pending_ticks ev)")
       (auto simp del: evaluate_overlap.simps dest: start_outcome_arms)
qed

lemma process_fires_extends:
  "process_fires (logged sm) sid ts ev (w, log) = (res, ev', w', log')
    \<Longrightarrow> \<exists>calls. log' = log @ calls \<and> (\<forall>k. filter (arms k) calls = [])"
proof (induction ts arbitrary: ev w log)
  case (Cons t ts)
  obtain r1 ev1 w1 log1 where fire: "process_fire (logged sm) sid t ev (w, log) = (r1, ev1, w1, log1)"
    by (metis prod_cases4)
  from process_fire_extends [OF fire] obtain c1 where c1: "log1 = log @ c1" "\<forall>k. filter (arms k) c1 = []" by blast
  show ?case
  proof (cases r1)
    case (Inl e)
    with c1 Cons.prems fire show ?thesis by auto
  next
    case (Inr u)
    with Cons.prems fire have "process_fires (logged sm) sid ts ev1 (w1, log1) = (res, ev', w', log')" by simp
    from Cons.IH [OF this] c1 show ?thesis by (metis append_assoc filter_append append_Nil)
  qed
qed simp

lemma arm_active_extends:
  "arm_active_schedule show_uuid (logged sm) sid ev (w, log) = (res, w', log') \<Longrightarrow> \<exists>calls. log' = log @ calls"
  by (auto simp: arm_active_schedule_def arm_state_if_active_def logged_defs split: option.splits prod.splits sum.splits if_splits)

text \<open>The call that arms schedule \<open>k\<close> at its next instant, when it is active.\<close>

definition arm_calls :: "show_uuid \<Rightarrow> schedule_evaluator \<Rightarrow> schedule_id \<Rightarrow> schedule_call list" where
  "arm_calls show_uuid ev k =
     (case map_of (ev_states ev) k of
        Some st \<Rightarrow>
          if schedule_is_active st
          then [CallArm k (Named (''schedule:'' @ show_uuid (schedule_uuid k))) (ss_next_trigger_at st)] else []
      | None \<Rightarrow> [])"

lemma arm_active_calls:
  assumes "states_keyed ev" and "arm_active_schedule show_uuid (logged sm) sid ev (w, log) = (Inr u, w', log')"
  shows "log' = log @ arm_calls show_uuid ev sid"
  using assms
  by (auto simp: states_keyed_def arm_active_schedule_def arm_state_if_active_def arm_calls_def timer_id_for_def timer_named_def
      logged_defs split: option.splits prod.splits sum.splits if_splits)

lemma arm_active_only:
  assumes "states_keyed ev" and "arm_active_schedule show_uuid (logged sm) sid ev (w, log) = (res, w', log')"
  shows "\<exists>calls. log' = log @ calls \<and> (\<forall>k. k \<noteq> sid \<longrightarrow> filter (arms k) calls = [])"
  using assms
  by (auto simp: states_keyed_def arm_active_schedule_def arm_state_if_active_def logged_defs
      split: option.splits prod.splits sum.splits if_splits)

lemma arm_calls_own: "filter (arms k) (arm_calls show_uuid ev k) = arm_calls show_uuid ev k"
  "k \<noteq> sid \<Longrightarrow> filter (arms k) (arm_calls show_uuid ev sid) = []"
  by (auto simp: arm_calls_def split: option.split)

lemma modify_next_keyed: "states_keyed ev \<Longrightarrow> states_keyed (modify_state sid (set_next_trigger_at u) ev)"
  by (auto simp: states_keyed_def set_next_trigger_at_def split: if_splits)

lemma recover_schedule_calls:
  assumes "states_keyed ev" and "recover_schedule cal show_uuid (logged sm) now sid ev (w, log) = Some (res, ev', w', log')"
  shows "states_keyed ev' \<and> (\<exists>calls. log' = log @ calls \<and> (\<forall>k. k \<noteq> sid \<longrightarrow> filter (arms k) calls = [])
    \<and> (res = Inr () \<longrightarrow> filter (arms sid) calls = arm_calls show_uuid ev' sid))"
proof (cases "\<exists>st. map_of (ev_states ev) sid = Some st \<and> schedule_is_active st")
  case False
  with assms have "ev' = ev" "log' = log" by (auto simp: recover_schedule_def split: option.splits)
  with False assms(1) show ?thesis by (auto simp: arm_calls_def split: option.splits)
next
  case True
  then obtain st where st: "map_of (ev_states ev) sid = Some st" "schedule_is_active st" by blast
  have keyed1: "states_keyed (idle sid ev)" by (rule tick_frame_keyed [OF modify_execution_frame assms(1)])
  from assms(2) st consider (bad) e where "ev' = idle sid ev" "log' = log" "res = Inl e"
    | (plan) p where "evaluate_catch_up cal (sc_catch_up_policy (ss_config st)) (sc_trigger (ss_config st))
        (ss_next_trigger_at st) now = Some (Inr p)"
    by (auto simp: recover_schedule_def Let_def split: option.splits sum.splits)
  then show ?thesis
  proof cases
    case bad
    with keyed1 show ?thesis by auto
  next
    case plan
    obtain r2 ev2 w2 log2 where fires: "process_fires (logged sm) sid (cp_fire_times p) (idle sid ev) (w, log) = (r2, ev2, w2, log2)"
      by (metis prod_cases4)
    from process_fires_extends [OF fires] obtain c2 where c2: "log2 = log @ c2" "\<forall>k. filter (arms k) c2 = []" by blast
    have keyed2: "states_keyed ev2" by (rule tick_frame_keyed [OF process_fires_frame [OF fires] keyed1])
    show ?thesis
    proof (cases r2)
      case (Inl e)
      with assms(2) st plan fires have "res = Inl e" "ev' = ev2" "log' = log2" by (auto simp: recover_schedule_def Let_def)
      with c2 keyed2 show ?thesis by auto
    next
      case (Inr u)
      let ?ev3 = "modify_state sid (set_next_trigger_at (cp_next_trigger_at p)) ev2"
      have keyed3: "states_keyed ?ev3" by (rule modify_next_keyed [OF keyed2])
      obtain r3 w3 log3 where arm: "arm_active_schedule show_uuid (logged sm) sid ?ev3 (w2, log2) = (r3, w3, log3)"
        by (metis prod_cases3)
      with Inr assms(2) st plan fires have ev': "ev' = ?ev3" "log' = log3" and res: "res = Inr () \<longrightarrow> (\<exists>b. r3 = Inr b)"
        by (cases r3; auto simp: recover_schedule_def Let_def)+
      from arm_active_only [OF keyed3 arm] obtain c3 where c3: "log3 = log2 @ c3" "\<forall>k. k \<noteq> sid \<longrightarrow> filter (arms k) c3 = []" by blast
      have "c3 = arm_calls show_uuid ?ev3 sid" if "res = Inr ()"
      proof -
        obtain b where "r3 = Inr b" using res \<open>res = Inr ()\<close> by blast
        with arm have "arm_active_schedule show_uuid (logged sm) sid ?ev3 (w2, log2) = (Inr b, w3, log3)" by simp
        from arm_active_calls [OF keyed3 this] c3(1) show ?thesis by simp
      qed
      with c2 c3 ev' keyed3 show ?thesis by (intro conjI exI [of _ "c2 @ c3"]) (auto simp: arm_calls_own)
    qed
  qed
qed

lemma recover_all_calls:
  assumes "calendar_ok cal" and "states_keyed ev" and "distinct sids"
    and "recover_all cal show_uuid (logged sm) now sids ev (w, log) = Some (res, ev', w', log')"
  shows "\<exists>calls. log' = log @ calls \<and> (\<forall>k. k \<notin> set sids \<longrightarrow> filter (arms k) calls = [])
    \<and> (res = Inr () \<longrightarrow> (\<forall>k \<in> set sids. filter (arms k) calls = arm_calls show_uuid ev' k))"
  using assms(2-4)
proof (induction sids arbitrary: ev w log)
  case (Cons sid sids)
  obtain r1 ev1 w1 log1 where 1: "recover_schedule cal show_uuid (logged sm) now sid ev (w, log) = Some (r1, ev1, w1, log1)"
    using Cons.prems(3) by (cases "recover_schedule cal show_uuid (logged sm) now sid ev (w, log)") auto
  from recover_schedule_calls [OF Cons.prems(1) 1] obtain c1 where keyed: "states_keyed ev1" and c1: "log1 = log @ c1"
    "\<forall>k. k \<noteq> sid \<longrightarrow> filter (arms k) c1 = []" "r1 = Inr () \<longrightarrow> filter (arms sid) c1 = arm_calls show_uuid ev1 sid" by blast
  show ?case
  proof (cases r1)
    case (Inl e)
    with 1 c1 Cons.prems(3) show ?thesis by auto
  next
    case (Inr u)
    with 1 Cons.prems(3) have 2: "recover_all cal show_uuid (logged sm) now sids ev1 (w1, log1) = Some (res, ev', w', log')" by simp
    from Cons.IH [OF keyed _ 2] Cons.prems(2) obtain c2 where c2: "log' = log1 @ c2"
      "\<forall>k. k \<notin> set sids \<longrightarrow> filter (arms k) c2 = []"
      "res = Inr () \<longrightarrow> (\<forall>k \<in> set sids. filter (arms k) c2 = arm_calls show_uuid ev' k)" by auto
    have "map_of (ev_states ev') sid = map_of (ev_states ev1) sid"
      using recover_all_cases [OF assms(1), of show_uuid "logged sm" now sids ev1 "(w1, log1)"] 2 Cons.prems(2) by auto
    then have "arm_calls show_uuid ev1 sid = arm_calls show_uuid ev' sid" by (simp add: arm_calls_def)
    with c1 c2 Inr Cons.prems(2) show ?thesis by (intro exI [of _ "c1 @ c2"]) auto
  qed
qed simp

lemma projected_distinct:
  "distinct (map fst acc) \<Longrightarrow> distinct (map fst (foldl (\<lambda>m st. AList.update (ss_schedule_id st) st m) acc states))"
  by (induction states arbitrary: acc) (simp_all add: distinct_update)

section \<open>Properties\<close>

text \<open>C29: a tick obeys the overlap policy, whatever the timer, starter, canceller and event sink do.  A
  paused or deleted schedule makes no call.  Otherwise a tick starts at most one workflow, and only when
  every execution may run, when none is current, or right after asking for the cancellation of the current
  one; a tick that started a workflow has recorded it before arming the next instant; a tick that did not
  start one has only armed it, and is buffered exactly when the policy is to buffer one and none is
  buffered.\<close>

theorem tick_respects_overlap:
  assumes "map_of (ev_states ev) sid = Some st" and "states_keyed ev"
    and "handle_timer_fired cal show_uuid (logged sm) sid at ev (w, log) = (res, ev', w', log')"
  shows "\<exists>calls. log' = log @ calls
    \<and> (\<not> schedule_is_active st \<longrightarrow> calls = [] \<and> res = Inr TickInactive \<and> ev' = ev)
    \<and> length (filter is_start calls) \<le> 1
    \<and> (filter is_start calls \<noteq> [] \<longrightarrow>
         sc_overlap_policy (ss_config st) = AllowAll \<or> ss_current_execution st = None
       \<or> sc_overlap_policy (ss_config st) = CancelPrevious
         \<and> (\<exists>x rest. ss_current_execution st = Some x \<and> calls = CallCancel x CANCEL_REASON # start_call st # rest))
    \<and> (\<forall>x. res = Inr (TickStarted x) \<longrightarrow> (\<exists>pre t u. next_fire_time cal (sc_trigger (ss_config st)) at = Inr u
         \<and> timer_id_for show_uuid sid = Inr t
         \<and> calls = pre @ [start_call st, CallTriggered sid x at, CallArm sid t u] \<and> length pre \<le> 1))
    \<and> (res \<in> {Inr TickSkipped, Inr TickBuffered} \<longrightarrow> (\<exists>t u. calls = [CallArm sid t u]
         \<and> (res = Inr TickBuffered \<longleftrightarrow> sc_overlap_policy (ss_config st) = BufferOne \<and> sid \<notin> ev_pending_ticks ev)))"
proof (cases "schedule_is_active st")
  case False
  with assms show ?thesis by (auto simp: handle_timer_fired_def)
next
  case True
  obtain r1 ev1 w1 log1 where fire: "process_fire (logged sm) sid at ev (w, log) = (r1, ev1, w1, log1)"
    by (metis prod_cases4)
  from process_fire_script [OF assms(1) fire] obtain c1 where log1: "log1 = log @ c1" and active: "r1 \<noteq> Inr TickInactive"
    and once: "length (filter is_start c1) \<le> 1" and allowed: "filter is_start c1 \<noteq> [] \<longrightarrow>
         sc_overlap_policy (ss_config st) = AllowAll \<or> ss_current_execution st = None
       \<or> sc_overlap_policy (ss_config st) = CancelPrevious
         \<and> (\<exists>x rest. ss_current_execution st = Some x \<and> c1 = CallCancel x CANCEL_REASON # start_call st # rest)"
    and started: "\<forall>x. r1 = Inr (TickStarted x) \<longrightarrow> (\<exists>pre. c1 = pre @ [start_call st, CallTriggered sid x at] \<and> length pre \<le> 1)"
    and idle: "r1 \<in> {Inr TickSkipped, Inr TickBuffered} \<longrightarrow> c1 = []
         \<and> (r1 = Inr TickBuffered \<longleftrightarrow> sc_overlap_policy (ss_config st) = BufferOne \<and> sid \<notin> ev_pending_ticks ev)"
    by (elim exE conjE) (rule that)
  show ?thesis
  proof (cases r1)
    case (Inl e)
    with assms True fire have "res = Inl e" "log' = log @ c1" by (auto simp: handle_timer_fired_def log1)
    with once allowed True show ?thesis by (intro exI [of _ c1]) simp
  next
    case (Inr outcome)
    obtain r2 ev2 w2 log2 where arm: "advance_and_arm cal show_uuid (logged sm) sid at ev1 (w1, log1) = (r2, ev2, w2, log2)"
      by (metis prod_cases4)
    from process_fire_frame [OF fire] assms(1) obtain st1 where st1: "map_of (ev_states ev1) sid = Some st1" "same_plan st st1"
      by (cases "map_of (ev_states ev1) sid") (auto simp: tick_frame_def)
    with True assms(1,2) have "schedule_is_active st1" "ss_schedule_id st1 = sid" "ss_config st1 = ss_config st"
      by (auto simp: same_plan_def schedule_is_active_def states_keyed_def)
    with advance_and_arm_calls [OF st1(1) _ _ arm] obtain c2 where c2: "log2 = log1 @ c2" "\<forall>c \<in> set c2. \<not> is_start c"
      "r2 = Inr () \<longrightarrow> (\<exists>t u. timer_id_for show_uuid sid = Inr t \<and> next_fire_time cal (sc_trigger (ss_config st)) at = Inr u
         \<and> c2 = [CallArm sid t u])" by auto
    have res: "res = (case r2 of Inl e \<Rightarrow> Inl e | Inr _ \<Rightarrow> Inr outcome)" and log': "log' = log @ c1 @ c2"
      using assms(1,3) True fire Inr arm c2(1) log1 by (auto simp: handle_timer_fired_def split: sum.splits)
    have starts: "filter is_start (c1 @ c2) = filter is_start c1" using c2(2) by (simp add: filter_empty_conv)
    have armed: "res = Inr x \<Longrightarrow> r2 = Inr () \<and> x = outcome" for x using res by (cases r2) auto
    show ?thesis
    proof (intro exI [of _ "c1 @ c2"] conjI)
      show "log' = log @ c1 @ c2" by (rule log')
      show "length (filter is_start (c1 @ c2)) \<le> 1" using once starts by simp
    qed (use True starts allowed started idle c2(3) armed Inr in \<open>auto dest!: armed\<close>)
  qed
qed

text \<open>When a tick has started a workflow, the schedule's state in memory is the one that projecting the
  recorded trigger event gives, so restarting right after it would not change it.\<close>

theorem started_tick_matches_projection:
  assumes "map_of (ev_states ev) sid = Some st" and "states_keyed ev"
    and "handle_timer_fired cal show_uuid sm sid at ev w = (Inr (TickStarted x), ev', w')"
    and "env_recorded_at env = at"
  shows "\<exists>st'. map_of (ev_states ev') sid = Some st'
    \<and> schedule_apply cal (ScheduleTriggered env sid (se_workflow_id x) (se_run_id x)) st = Inr st'"
proof -
  from assms(1,3) obtain ev1 w1 where fire: "process_fire sm sid at ev w = (Inr (TickStarted x), ev1, w1)"
    and arm: "advance_and_arm cal show_uuid sm sid at ev1 w1 = (Inr (), ev', w')"
    by (auto simp: handle_timer_fired_def split: if_splits prod.splits sum.splits)
  have st1: "map_of (ev_states ev1) sid = Some (record_triggered x at st)
      \<or> map_of (ev_states ev1) sid = Some (record_triggered x at (st\<lparr>ss_current_execution := None\<rparr>))"
    using fire assms(1) by (auto simp: process_fire_def start_and_record_def split: overlap_decision.splits prod.splits sum.splits)
  then obtain u where "next_fire_time cal (sc_trigger (ss_config st)) at = Inr u"
    and "map_of (ev_states ev') sid = Some (set_next_trigger_at u (record_triggered x at st))"
    using arm by (auto simp: advance_and_arm_def Let_def record_triggered_def set_next_trigger_at_def
        split: prod.splits sum.splits)
  with assms(1,2,4) show ?thesis
    by (auto simp: rearm_after_def states_keyed_def record_triggered_def set_next_trigger_at_def)
qed

text \<open>C30: recovery returns, and when it reports success it has left no active schedule behind: for every active schedule of
  the durable events it has made exactly one call to arm the schedule's timer, at the instant it has stored as the
  next trigger, which lies strictly after now; it has armed no timer of a paused, deleted or unknown schedule, and no
  schedule was added or lost.\<close>

theorem recovery_arms_future:
  assumes "calendar_ok cal"
  shows "\<exists>res ev' w' calls. recover_on_startup cal show_uuid (logged sm) source now ev (w, log) = Some (res, ev', w', log @ calls)
    \<and> (res = Inr () \<longrightarrow> (\<exists>events states. source = Inr events \<and> project_schedule_state cal events = Inr states
         \<and> (\<forall>k. map_of (ev_states ev') k \<noteq> None \<longleftrightarrow> k \<in> ss_schedule_id ` set states)
         \<and> (\<forall>k. case map_of (ev_states ev') k of
              Some st \<Rightarrow>
                if schedule_is_active st
                then now < ss_next_trigger_at st
                  \<and> filter (arms k) calls = [CallArm k (Named (''schedule:'' @ show_uuid (schedule_uuid k))) (ss_next_trigger_at st)]
                else filter (arms k) calls = []
            | None \<Rightarrow> filter (arms k) calls = [])))"
proof (cases "bind_res source (\<lambda>events. replace_state_from_events cal events ev)")
  case (Inl e)
  then show ?thesis by (simp add: recover_on_startup_def)
next
  case (Inr ev0)
  then obtain events states where src: "source = Inr events" "project_schedule_state cal events = Inr states"
    and ev0: "ev_states ev0 = foldl (\<lambda>m st. AList.update (ss_schedule_id st) st m) [] states"
    by (cases source; cases "project_schedule_state cal (projr source)") (auto simp: replace_state_from_events_def)
  have keyed: "states_keyed ev0" using Inr src(1) replace_state_keyed [of cal events ev ev0] by simp
  let ?sids = "map fst (ev_states ev0)"
  have dom0: "dom (map_of (ev_states ev0)) = ss_schedule_id ` set states"
    using projected_dom [of "[]" states] by (simp add: ev0)
  have dist: "distinct ?sids" using projected_distinct [of "[]" states] by (simp add: ev0)
  from recover_all_cases [OF assms, of show_uuid "logged sm" now ?sids ev0 "(w, log)"] obtain res ev' wl where
    run': "recover_all cal show_uuid (logged sm) now ?sids ev0 (w, log) = Some (res, ev', wl)"
    and kept: "\<forall>k. map_of (ev_states ev') k = None \<longleftrightarrow> map_of (ev_states ev0) k = None"
    and armed: "res = Inr () \<longrightarrow> (\<forall>k st. k \<in> set ?sids \<longrightarrow> map_of (ev_states ev') k = Some st \<longrightarrow> armed_after now st)"
    by (elim exE conjE) (rule that)
  obtain w' log' where "wl = (w', log')" by fastforce
  then have run: "recover_all cal show_uuid (logged sm) now ?sids ev0 (w, log) = Some (res, ev', w', log')" using run' by simp
  from recover_all_calls [OF assms keyed dist run] obtain calls where calls: "log' = log @ calls"
    "\<forall>k. k \<notin> set ?sids \<longrightarrow> filter (arms k) calls = []"
    "res = Inr () \<longrightarrow> (\<forall>k \<in> set ?sids. filter (arms k) calls = arm_calls show_uuid ev' k)" by blast
  have mem: "k \<in> set ?sids \<longleftrightarrow> map_of (ev_states ev') k \<noteq> None" for k
    using kept by (metis map_of_eq_None_iff set_map)
  have armed_once: "case map_of (ev_states ev') k of
      Some st \<Rightarrow>
        if schedule_is_active st
        then now < ss_next_trigger_at st
          \<and> filter (arms k) calls = [CallArm k (Named (''schedule:'' @ show_uuid (schedule_uuid k))) (ss_next_trigger_at st)]
        else filter (arms k) calls = []
    | None \<Rightarrow> filter (arms k) calls = []" if ok: "res = Inr ()" for k
  proof (cases "map_of (ev_states ev') k")
    case None
    then have "k \<notin> set ?sids" using mem [of k] by simp
    then show ?thesis using calls(2) None by simp
  next
    case (Some st)
    then have k: "k \<in> set ?sids" using mem [of k] by simp
    then have "armed_after now st" "filter (arms k) calls = arm_calls show_uuid ev' k" using armed calls(3) ok Some by blast+
    then show ?thesis using Some by (simp add: arm_calls_def armed_after_def)
  qed
  have same: "map_of (ev_states ev') k \<noteq> None \<longleftrightarrow> k \<in> ss_schedule_id ` set states" for k
    using kept dom0 by (metis domIff)
  have "recover_on_startup cal show_uuid (logged sm) source now ev (w, log) = Some (res, ev', w', log @ calls)"
    using run src Inr calls(1) by (simp add: recover_on_startup_def recover_projected_state_def)
  then show ?thesis
    by (intro exI [of _ res] exI [of _ ev'] exI [of _ w'] exI [of _ calls] conjI impI allI exI [of _ events] exI [of _ states])
       (assumption | rule src same armed_once)+
qed

text \<open>When the current execution completes, a buffered tick starts exactly one workflow, and only then;
  afterwards no tick is buffered, whether the start succeeded or not, so a tick is never started twice.\<close>

theorem completion_starts_buffered_once:
  assumes "map_of (ev_states ev) sid = Some st"
    and "complete_current_execution (logged sm) sid at ev (w, log) = (res, ev', w', log')"
  shows "ev_pending_ticks ev' = ev_pending_ticks ev - {sid}
    \<and> (\<exists>calls. log' = log @ calls
        \<and> (if sid \<in> ev_pending_ticks ev \<and> schedule_is_active st
           then filter is_start calls = [start_call st]
              \<and> (\<forall>r. res = Inr r \<longrightarrow> (\<exists>x. r = Some x \<and> calls = [start_call st, CallTriggered sid x at]))
           else calls = [] \<and> res = Inr None))"
proof -
  let ?ev2 = "(idle sid ev)\<lparr>ev_pending_ticks := ev_pending_ticks ev - {sid}\<rparr>"
  show ?thesis
  proof (cases "sid \<in> ev_pending_ticks ev \<and> schedule_is_active st")
    case False
    with assms show ?thesis
      by (auto simp: complete_current_execution_def Let_def split: if_splits)
  next
    case True
    obtain r2 ev3 w2 log2 where start: "start_and_record (logged sm) sid at ?ev2 (w, log) = (r2, ev3, w2, log2)"
      by (metis prod_cases4)
    have lookup: "map_of (ev_states ?ev2) sid = Some (st\<lparr>ss_current_execution := None\<rparr>)" using assms(1) by simp
    from start_and_record_calls [OF lookup start] obtain calls where
      calls: "log2 = log @ calls" "start_outcome sid at (st\<lparr>ss_current_execution := None\<rparr>) ?ev2 r2 ev3 calls" by blast
    have complete: "complete_current_execution (logged sm) sid at ev (w, log) =
      (case r2 of Inl e \<Rightarrow> Inl e | Inr (TickStarted x) \<Rightarrow> Inr (Some x)
         | Inr _ \<Rightarrow> Inl (SideEffect ''buffered schedule tick did not start a workflow''), ev3, w2, log2)"
      using True assms(1) start
      by (simp add: complete_current_execution_def Let_def split: sum.split timer_evaluation_outcome.split)
    have eqs: "ev' = ev3" "log' = log2" "res = (case r2 of Inl e \<Rightarrow> Inl e | Inr (TickStarted x) \<Rightarrow> Inr (Some x)
         | Inr _ \<Rightarrow> Inl (SideEffect ''buffered schedule tick did not start a workflow''))"
      using assms(2) unfolding complete by simp_all
    have "filter is_start calls = [start_call st]
        \<and> (\<forall>r. res = Inr r \<longrightarrow> (\<exists>x. r = Some x \<and> calls = [start_call st, CallTriggered sid x at]))"
      using calls(2) unfolding start_outcome_def eqs(3) start_call_idle by (elim disjE exE conjE) simp_all
    moreover have "ev_pending_ticks ev3 = ev_pending_ticks ev - {sid}" using start_and_record_frame [OF start] by simp
    ultimately show ?thesis using True calls(1) eqs(1,2) by simp
  qed
qed

text \<open>Recovery forgets which execution was running: it clears the current execution before it catches
  up, so the first missed tick starts a workflow under every overlap policy, with no cancellation and no
  skip before it, even when the run it had started before the restart is still going.\<close>

theorem recovery_ignores_running_execution:
  assumes "map_of (ev_states ev) sid = Some st" and "schedule_is_active st"
    and "evaluate_catch_up cal (sc_catch_up_policy (ss_config st)) (sc_trigger (ss_config st)) (ss_next_trigger_at st) now =
      Some (Inr \<lparr>cp_fire_times = t # ts, cp_next_trigger_at = u\<rparr>)"
    and "recover_schedule cal show_uuid (logged sm) now sid ev (w, log) = Some (res, ev', w', log')"
  shows "\<exists>rest. log' = log @ start_call st # rest"
proof -
  have t: "map_of (ev_states (idle sid ev)) sid = Some (st\<lparr>ss_current_execution := None\<rparr>)" using assms(1) by simp
  obtain r1 ev1 w1 log1 where fire: "process_fire (logged sm) sid t (idle sid ev) (w, log) = (r1, ev1, w1, log1)"
    by (metis prod_cases4)
  from process_fire_calls [OF t fire] obtain c1 where log1: "log1 = log @ start_call st # c1"
    by (auto simp: start_outcome_def)
  obtain r2 ev2 w2 log2 where fires: "process_fires (logged sm) sid (t # ts) (idle sid ev) (w, log) = (r2, ev2, w2, log2)"
    by (metis prod_cases4)
  with fire log1 obtain c2 where c2: "log2 = log @ start_call st # c2"
    by (cases r1) (auto dest!: process_fires_extends)
  show ?thesis
  proof (cases r2)
    case (Inl e)
    with assms fires c2 show ?thesis by (auto simp: recover_schedule_def Let_def)
  next
    case (Inr u')
    let ?ev3 = "modify_state sid (set_next_trigger_at u) ev2"
    obtain r3 w3 log3 where arm: "arm_active_schedule show_uuid (logged sm) sid ?ev3 (w2, log2) = (r3, w3, log3)"
      by (metis prod_cases3)
    with Inr assms fires have "log' = log3" by (cases r3) (auto simp: recover_schedule_def Let_def)
    with arm_active_extends [OF arm] c2 show ?thesis by auto
  qed
qed

section \<open>Witnesses\<close>

definition s_execution :: "u64 \<Rightarrow> schedule_execution" where
  "s_execution n = \<lparr>se_workflow_id = WorkflowId (ucast n), se_run_id = RunId (ucast n)\<rparr>"

text \<open>Seams that always succeed; the world is the number of workflows started so far.\<close>

definition s_seams :: "u64 schedule_seams" where
  "s_seams = \<lparr>sm_arm_timer = (\<lambda>_ _ _ n. (Inr (), n)),
     sm_start_workflow = (\<lambda>_ _ _ n. (Inr (s_execution (n + 1)), n + 1)),
     sm_cancel_workflow = (\<lambda>_ _ n. (Inr (), n)),
     sm_record_triggered = (\<lambda>_ _ _ n. (Inr (), n))\<rparr>"

definition s_running :: "overlap_policy \<Rightarrow> schedule_state" where
  "s_running policy = \<lparr>ss_schedule_id = ScheduleId 1, ss_config = s_config policy, ss_is_paused = False,
     ss_is_deleted = False, ss_last_triggered_at = Some 105, ss_next_trigger_at = 110,
     ss_current_execution = Some (s_execution 7)\<rparr>"

definition s_evaluator :: "overlap_policy \<Rightarrow> schedule_evaluator" where
  "s_evaluator policy = \<lparr>ev_states = [(ScheduleId 1, s_running policy)], ev_pending_ticks = {}\<rparr>"

lemma s_evaluator_keyed: "states_keyed (s_evaluator policy)"
  by (simp add: states_keyed_def s_evaluator_def s_running_def)

lemmas s_eval = s_evaluator_def s_running_def s_seams_def handle_timer_fired_def process_fire_def advance_and_arm_def
  arm_state_if_active_def schedule_is_active_def logged_defs start_and_record_def modify_state_def s_interval timer_id_for_def
  timer_named_def set_next_trigger_at_def record_triggered_def start_call_def Let_def

theorem tick_respects_overlap_witness:
  "\<exists>ev' w' log'. handle_timer_fired s_calendar decimal_uuid (logged s_seams) (ScheduleId 1) 110 (s_evaluator OverlapSkip) (0, [])
      = (Inr TickSkipped, ev', w', log') \<and> filter is_start log' = []"
proof -
  obtain ev' w' log' where run: "handle_timer_fired s_calendar decimal_uuid (logged s_seams) (ScheduleId 1) 110
      (s_evaluator OverlapSkip) (0, []) = (Inr TickSkipped, ev', w', log')"
    by (simp add: s_eval del: next_fire_time.simps)
  have "map_of (ev_states (s_evaluator OverlapSkip)) (ScheduleId 1) = Some (s_running OverlapSkip)"
    by (simp add: s_evaluator_def)
  from tick_respects_overlap [OF this s_evaluator_keyed run] run show ?thesis by auto
qed

theorem started_tick_matches_projection_witness:
  "\<exists>ev' w' st'. handle_timer_fired s_calendar decimal_uuid s_seams (ScheduleId 1) 110 (s_evaluator CancelPrevious) 0
      = (Inr (TickStarted (s_execution 1)), ev', w') \<and> map_of (ev_states ev') (ScheduleId 1) = Some st'
    \<and> ss_next_trigger_at st' = 115"
proof -
  obtain ev' w' where run: "handle_timer_fired s_calendar decimal_uuid s_seams (ScheduleId 1) 110
      (s_evaluator CancelPrevious) 0 = (Inr (TickStarted (s_execution 1)), ev', w')"
    by (simp add: s_eval del: next_fire_time.simps)
  have look: "map_of (ev_states (s_evaluator CancelPrevious)) (ScheduleId 1) = Some (s_running CancelPrevious)"
    by (simp add: s_evaluator_def)
  have env: "env_recorded_at ((s_env 1)\<lparr>env_recorded_at := 110\<rparr>) = 110" by simp
  from started_tick_matches_projection [OF look s_evaluator_keyed run env] obtain st' where
    st': "map_of (ev_states ev') (ScheduleId 1) = Some st'"
    "schedule_apply s_calendar (ScheduleTriggered ((s_env 1)\<lparr>env_recorded_at := 110\<rparr>) (ScheduleId 1)
       (se_workflow_id (s_execution 1)) (se_run_id (s_execution 1))) (s_running CancelPrevious) = Inr st'" by blast
  from st'(2) have "ss_next_trigger_at st' = 115"
    by (auto simp: s_running_def rearm_after_def s_interval simp del: next_fire_time.simps)
  with run st'(1) show ?thesis by blast
qed

theorem recovery_arms_future_witness:
  "\<exists>ev' w' st calls. recover_on_startup s_calendar decimal_uuid (logged s_seams)
      (Inr [ScheduleCreated (s_env 1) (ScheduleId 1) (s_config OverlapSkip)]) 121 evaluator_new (0, []) = Some (Inr (), ev', w', calls)
    \<and> map_of (ev_states ev') (ScheduleId 1) = Some st \<and> 121 < ss_next_trigger_at st
    \<and> filter (arms (ScheduleId 1)) calls = [CallArm (ScheduleId 1) (Named (''schedule:'' @ decimal_uuid (schedule_uuid (ScheduleId 1)))) (ss_next_trigger_at st)]"
proof -
  let ?source = "Inr [ScheduleCreated (s_env 1) (ScheduleId 1) (s_config OverlapSkip)] :: (evaluator_error, history) result"
  have "\<exists>ev' w' st calls. recover_on_startup s_calendar decimal_uuid (logged s_seams) ?source 121 evaluator_new (0, []) = Some (Inr (), ev', w', calls)
      \<and> map_of (ev_states ev') (ScheduleId 1) = Some st \<and> schedule_is_active st"
    by (simp add: s_eval recover_on_startup_def replace_state_from_events_def project_schedule_state_def project_step_def
        schedule_created_def recover_projected_state_def recover_schedule_def arm_active_schedule_def
        evaluate_catch_up_def catch_up_all_def catch_up_all_loop.simps del: next_fire_time.simps)
  then obtain ev' w' st calls where run: "recover_on_startup s_calendar decimal_uuid (logged s_seams) ?source 121 evaluator_new (0, []) =
      Some (Inr (), ev', w', calls)" "map_of (ev_states ev') (ScheduleId 1) = Some st" "schedule_is_active st" by blast
  have "case map_of (ev_states ev') k of
      Some st \<Rightarrow>
        if schedule_is_active st
        then 121 < ss_next_trigger_at st
          \<and> filter (arms k) calls = [CallArm k (Named (''schedule:'' @ decimal_uuid (schedule_uuid k))) (ss_next_trigger_at st)]
        else filter (arms k) calls = []
    | None \<Rightarrow> filter (arms k) calls = []" for k
    using recovery_arms_future [OF s_calendar_ok, of decimal_uuid s_seams ?source 121 evaluator_new 0 "[]"]
    by (simp only: run(1) option.inject prod.inject append_Nil) blast
  from this [of "ScheduleId 1"] run show ?thesis by (simp only: option.case if_True) blast
qed

theorem completion_starts_buffered_once_witness:
  "\<exists>ev' w' log'. complete_current_execution (logged s_seams) (ScheduleId 1) 112
      ((s_evaluator BufferOne)\<lparr>ev_pending_ticks := {ScheduleId 1}\<rparr>) (0, [])
    = (Inr (Some (s_execution 1)), ev', w', log') \<and> length (filter is_start log') = 1 \<and> ev_pending_ticks ev' = {}"
proof -
  let ?ev = "(s_evaluator BufferOne)\<lparr>ev_pending_ticks := {ScheduleId 1}\<rparr>"
  obtain ev' w' log' where run: "complete_current_execution (logged s_seams) (ScheduleId 1) 112 ?ev (0, []) =
      (Inr (Some (s_execution 1)), ev', w', log')"
    by (simp add: s_eval complete_current_execution_def)
  have look: "map_of (ev_states ?ev) (ScheduleId 1) = Some (s_running BufferOne)" by (simp add: s_evaluator_def)
  have "schedule_is_active (s_running BufferOne)" by (simp add: s_running_def schedule_is_active_def)
  with completion_starts_buffered_once [OF look run] have "filter is_start log' = [start_call (s_running BufferOne)]"
    and "ev_pending_ticks ev' = {}" by simp_all
  then show ?thesis using run by (intro exI [of _ ev'] exI [of _ w'] exI [of _ log']) simp
qed

theorem recovery_ignores_running_execution_witness:
  "\<exists>res ev' w' log'. recover_schedule s_calendar decimal_uuid (logged s_seams) 111 (ScheduleId 1) (s_evaluator OverlapSkip) (0, [])
      = Some (res, ev', w', log') \<and> filter is_start log' \<noteq> []"
proof -
  have look: "map_of (ev_states (s_evaluator OverlapSkip)) (ScheduleId 1) = Some (s_running OverlapSkip)"
    by (simp add: s_evaluator_def)
  have act: "schedule_is_active (s_running OverlapSkip)" by (simp add: s_running_def schedule_is_active_def)
  have plan: "evaluate_catch_up s_calendar (sc_catch_up_policy (ss_config (s_running OverlapSkip)))
      (sc_trigger (ss_config (s_running OverlapSkip))) (ss_next_trigger_at (s_running OverlapSkip)) 111 =
      Some (Inr \<lparr>cp_fire_times = [110], cp_next_trigger_at = 115\<rparr>)"
    by (simp add: s_running_def evaluate_catch_up_def catch_up_all_def catch_up_all_loop.simps s_interval del: next_fire_time.simps)
  from recover_schedule_cases [OF s_calendar_ok, of decimal_uuid "logged s_seams" 111 "ScheduleId 1" "s_evaluator OverlapSkip" "(0, [])"]
  obtain res ev' w' log' where run: "recover_schedule s_calendar decimal_uuid (logged s_seams) 111 (ScheduleId 1)
      (s_evaluator OverlapSkip) (0, []) = Some (res, ev', w', log')" by (metis prod.exhaust)
  from recovery_ignores_running_execution [OF look act plan run] run show ?thesis by auto
qed

end
