(* ===== verification/Reopen.thy ===== *)
theory Reopen
  imports Cursor Samples
begin

text \<open>
  The decisions of \<^verbatim>\<open>crates/aion/src/lifecycle/reopen.rs\<close> that are taken from history alone: whether a run
  may be reopened, which failed activities its reopen re-executes, and which durable timers it gets back.
  The \<^verbatim>\<open>HashMap\<close> of timer traces is an association list, the \<^verbatim>\<open>HashSet\<close>s are duplicate-free lists.

  The lemmas replace each scan by what it decides, event by event.
\<close>

section \<open>Timers to re-arm\<close>

record rearm_timer =
  rt_timer_id :: timer_id
  rt_fire_at :: timestamp
  rt_needs_restart_marker :: bool

record timer_trace =
  tt_fire_at :: timestamp
  tt_last_was_teardown_cancel :: "bool option"

type_synonym timer_traces = "(timer_id \<times> timer_trace) list"

fun trace_timer_event :: "timer_traces \<times> timer_id list \<Rightarrow> event \<Rightarrow> timer_traces \<times> timer_id list" where
  "trace_timer_event (traces, order) (TimerStarted _ t fire_at) =
     (AList.update t \<lparr>tt_fire_at = fire_at, tt_last_was_teardown_cancel = None\<rparr> traces,
      if map_of traces t = None then order @ [t] else order)"
| "trace_timer_event (traces, order) (TimerFired _ t) = (AList.delete t traces, order)"
| "trace_timer_event (traces, order) (TimerCancelled _ t cause) =
     (case map_of traces t of
        None \<Rightarrow> (traces, order)
      | Some trace \<Rightarrow>
          (case cause of
             CancelTeardown \<Rightarrow> (AList.update t (trace\<lparr>tt_last_was_teardown_cancel := Some True\<rparr>) traces, order)
           | WorkflowIntent \<Rightarrow> (AList.delete t traces, order)))"
| "trace_timer_event (traces, order) _ = (traces, order)"

fun drain_traces :: "timer_id list \<Rightarrow> timer_traces \<Rightarrow> rearm_timer list" where
  "drain_traces [] traces = []"
| "drain_traces (t # order) traces =
     (case map_of traces t of
        None \<Rightarrow> drain_traces order traces
      | Some trace \<Rightarrow>
          \<lparr>rt_timer_id = t, rt_fire_at = tt_fire_at trace,
           rt_needs_restart_marker = (tt_last_was_teardown_cancel trace = Some True)\<rparr>
          # drain_traces order (AList.delete t traces))"

definition rearmable_timers :: "history \<Rightarrow> rearm_timer list" where
  "rearmable_timers segment =
     (let (traces, order) = foldl trace_timer_event ([], []) segment in drain_traces order traces)"

section \<open>Activities to re-execute\<close>

fun outcome_sets :: "activity_id list \<times> activity_id list \<Rightarrow> event \<Rightarrow> activity_id list \<times> activity_id list" where
  "outcome_sets (failed, settled) (ActivityFailed _ a _ _) = (List.insert a failed, settled)"
| "outcome_sets (failed, settled) (ActivityCompleted _ a _ _) = (failed, List.insert a settled)"
| "outcome_sets (failed, settled) (ActivityCancelled _ a _) = (failed, List.insert a settled)"
| "outcome_sets (failed, settled) _ = (failed, settled)"

definition reopened_failed_activities :: "history \<Rightarrow> activity_id list" where
  "reopened_failed_activities segment =
     (let (failed, settled) = foldl outcome_sets ([], []) (current_lease segment)
      in sort_key sequence_position (filter (\<lambda>a. a \<notin> set settled) failed))"

section \<open>May the run be reopened?\<close>

datatype invalid_state =
  NotPausable workflow_id run_id workflow_status
| NotResumable workflow_id run_id workflow_status
| NonReopenableTerminal workflow_id run_id string
| NotReopenable workflow_id run_id workflow_status
| ConcurrentReopen workflow_id run_id

datatype engine_error =
  WorkflowNotFound workflow_id run_id
| InvalidState invalid_state
| EngineStore store_error
| EngineDurability durability_error
| EngineRuntime string
| TerminalAlreadyRecorded workflow_id run_id
| RuntimeDropped workflow_id run_id
| ContinueAsNewTypeMismatch string string
| PendingWork "activity_id list" "workflow_id list"
| WorkflowTypeNotFound string
| LoadWithoutStart

fun terminal_status_name :: "event \<Rightarrow> string" where
  "terminal_status_name (WorkflowCompleted _ _) = ''Completed''"
| "terminal_status_name (WorkflowTimedOut _ _) = ''TimedOut''"
| "terminal_status_name (WorkflowContinuedAsNew _ _ _ _) = ''ContinuedAsNew''"
| "terminal_status_name (WorkflowFailed _ _) = ''Failed''"
| "terminal_status_name (WorkflowCancelled _ _) = ''Cancelled''"
| "terminal_status_name _ = ''non-terminal''"

definition validate_and_compute_reopened ::
  "workflow_id \<Rightarrow> run_id \<Rightarrow> history \<Rightarrow> (engine_error, activity_id list) result" where
  "validate_and_compute_reopened w run segment =
     (case current_lease_terminal segment of
        Some (WorkflowFailed _ _) \<Rightarrow> Inr (reopened_failed_activities segment)
      | Some (WorkflowCancelled _ _) \<Rightarrow> Inr []
      | Some other \<Rightarrow> Inl (InvalidState (NonReopenableTerminal w run (terminal_status_name other)))
      | None \<Rightarrow> Inl (InvalidState (NotReopenable w run (status_from_events segment))))"

section \<open>Lemmas: timers\<close>

fun starts_timer :: "timer_id \<Rightarrow> event \<Rightarrow> bool" where
  "starts_timer t (TimerStarted _ u _) = (u = t)"
| "starts_timer t _ = False"

text \<open>A fire, or a cancellation the workflow asked for, settles the timer for good.\<close>

fun settles_timer :: "timer_id \<Rightarrow> event \<Rightarrow> bool" where
  "settles_timer t (TimerFired _ u) = (u = t)"
| "settles_timer t (TimerCancelled _ u cause) = (u = t \<and> cause = WorkflowIntent)"
| "settles_timer t _ = False"

fun tears_down_timer :: "timer_id \<Rightarrow> event \<Rightarrow> bool" where
  "tears_down_timer t (TimerCancelled _ u cause) = (u = t \<and> cause = CancelTeardown)"
| "tears_down_timer t _ = False"

text \<open>\<open>outstanding t f torn h\<close>: the last start of \<open>t\<close> in \<open>h\<close> is due at \<open>f\<close> and nothing has settled it
  since; \<open>torn\<close> says whether a cancel teardown has retired it since.\<close>

definition outstanding :: "timer_id \<Rightarrow> timestamp \<Rightarrow> bool \<Rightarrow> history \<Rightarrow> bool" where
  "outstanding t f torn h \<longleftrightarrow> (\<exists>before env after.
     h = before @ TimerStarted env t f # after
   \<and> (\<forall>e \<in> set after. \<not> starts_timer t e \<and> \<not> settles_timer t e)
   \<and> (torn \<longleftrightarrow> (\<exists>e \<in> set after. tears_down_timer t e)))"

fun timer_fate :: "timer_id \<Rightarrow> (timestamp \<times> bool) option \<Rightarrow> event \<Rightarrow> (timestamp \<times> bool) option" where
  "timer_fate t acc (TimerStarted _ u f) = (if u = t then Some (f, False) else acc)"
| "timer_fate t acc (TimerFired _ u) = (if u = t then None else acc)"
| "timer_fate t acc (TimerCancelled _ u cause) =
     (if u \<noteq> t then acc
      else if cause = WorkflowIntent then None else map_option (\<lambda>(f, _). (f, True)) acc)"
| "timer_fate t acc _ = acc"

lemma outstanding_snoc_split:
  "outstanding t f torn (h @ [e]) \<longleftrightarrow>
     (\<exists>env. e = TimerStarted env t f \<and> \<not> torn)
   \<or> (\<not> starts_timer t e \<and> \<not> settles_timer t e
      \<and> (\<exists>torn'. outstanding t f torn' h \<and> (torn \<longleftrightarrow> torn' \<or> tears_down_timer t e)))"
  (is "?L \<longleftrightarrow> ?R")
proof
  assume ?L
  then obtain before env after where h: "h @ [e] = before @ TimerStarted env t f # after"
    and quiet: "\<forall>x \<in> set after. \<not> starts_timer t x \<and> \<not> settles_timer t x"
    and torn: "torn \<longleftrightarrow> (\<exists>x \<in> set after. tears_down_timer t x)"
    by (auto simp: outstanding_def)
  show ?R
  proof (cases after rule: rev_cases)
    case Nil
    with h torn show ?thesis by auto
  next
    case (snoc after' x)
    with h have h': "h = before @ TimerStarted env t f # after'" and e: "e = x" by auto
    from h' quiet snoc have "outstanding t f (\<exists>x \<in> set after'. tears_down_timer t x) h"
      unfolding outstanding_def by (intro exI [of _ before] exI [of _ env] exI [of _ after']) simp
    with quiet torn snoc e show ?thesis by (intro disjI2) auto
  qed
next
  assume ?R
  then show ?L
  proof
    assume "\<exists>env. e = TimerStarted env t f \<and> \<not> torn"
    then obtain env where e: "e = TimerStarted env t f" "\<not> torn" by blast
    then show ?L unfolding outstanding_def by (intro exI [of _ h] exI [of _ env] exI [of _ "[]"]) simp
  next
    assume "\<not> starts_timer t e \<and> \<not> settles_timer t e
      \<and> (\<exists>torn'. outstanding t f torn' h \<and> (torn \<longleftrightarrow> torn' \<or> tears_down_timer t e))"
    then obtain torn' before env after where "\<not> starts_timer t e" "\<not> settles_timer t e"
      "torn \<longleftrightarrow> torn' \<or> tears_down_timer t e" "h = before @ TimerStarted env t f # after"
      "\<forall>x \<in> set after. \<not> starts_timer t x \<and> \<not> settles_timer t x"
      "torn' \<longleftrightarrow> (\<exists>x \<in> set after. tears_down_timer t x)"
      unfolding outstanding_def by blast
    then show ?L
      unfolding outstanding_def by (intro exI [of _ before] exI [of _ env] exI [of _ "after @ [e]"]) auto
  qed
qed

lemma timer_fate_iff: "foldl (timer_fate t) None h = Some (f, torn) \<longleftrightarrow> outstanding t f torn h"
proof (induction h arbitrary: f torn rule: rev_induct)
  case Nil
  show ?case by (simp add: outstanding_def)
next
  case (snoc e h)
  show ?case
    by (cases e; simp add: outstanding_snoc_split snoc [symmetric]) (auto split: if_splits intro: timer_cancel_cause.exhaust)
qed

text \<open>The trace table holds, for every timer, its fate; the order list covers the table.\<close>

lemma trace_table_fate:
  "foldl trace_timer_event ([], []) h = (traces, order) \<Longrightarrow>
   map_of traces t =
     map_option (\<lambda>(f, torn). \<lparr>tt_fire_at = f, tt_last_was_teardown_cancel = (if torn then Some True else None)\<rparr>)
       (foldl (timer_fate t) None h)"
proof (induction h arbitrary: traces order t rule: rev_induct)
  case (snoc e h)
  obtain tr od where prev: "foldl trace_timer_event ([], []) h = (tr, od)" by fastforce
  note IH = snoc.IH [OF prev]
  have step: "trace_timer_event (tr, od) e = (traces, order)" using snoc.prems prev by simp
  show ?case
  proof (cases e)
    case (TimerCancelled env u cause)
    with step IH [of u] IH [of t] show ?thesis
      by (cases cause; cases "foldl (timer_fate u) None h") (auto simp: update_conv' delete_conv')
  qed (use step IH [of t] in \<open>auto simp: update_conv' delete_conv'\<close>)
qed simp

lemma trace_table_order:
  "foldl trace_timer_event ([], []) h = (traces, order) \<Longrightarrow> map_of traces t \<noteq> None \<Longrightarrow> t \<in> set order"
proof (induction h arbitrary: traces order t rule: rev_induct)
  case (snoc e h)
  obtain tr od where prev: "foldl trace_timer_event ([], []) h = (tr, od)" by fastforce
  note IH = snoc.IH [OF prev]
  have step: "trace_timer_event (tr, od) e = (traces, order)" using snoc.prems(1) prev by simp
  show ?case
    using step snoc.prems(2) IH [of t]
    by (cases e) (auto simp: update_conv' delete_conv' split: if_splits option.splits timer_cancel_cause.splits)
qed simp

definition rearm_entry :: "timer_id \<Rightarrow> timer_trace \<Rightarrow> rearm_timer" where
  "rearm_entry t trace = \<lparr>rt_timer_id = t, rt_fire_at = tt_fire_at trace,
     rt_needs_restart_marker = (tt_last_was_teardown_cancel trace = Some True)\<rparr>"

lemma rt_timer_id_entry [simp]: "rt_timer_id (rearm_entry t trace) = t"
  by (simp add: rearm_entry_def)

lemma drain_traces_Cons:
  "drain_traces (t # order) traces =
     (case map_of traces t of
        None \<Rightarrow> drain_traces order traces
      | Some trace \<Rightarrow> rearm_entry t trace # drain_traces order (AList.delete t traces))"
  by (simp add: rearm_entry_def split: option.split)

lemma drain_traces_iff:
  "rt \<in> set (drain_traces order traces) \<longleftrightarrow> rt_timer_id rt \<in> set order
     \<and> (\<exists>trace. map_of traces (rt_timer_id rt) = Some trace \<and> rt = rearm_entry (rt_timer_id rt) trace)"
proof (induction order arbitrary: traces)
  case (Cons t order)
  show ?case
  proof (cases "map_of traces t")
    case None
    then show ?thesis by (auto simp: drain_traces_Cons Cons simp del: drain_traces.simps)
  next
    case (Some trace)
    then show ?thesis
      by (cases "rt_timer_id rt = t")
         (auto simp: drain_traces_Cons Cons delete_conv' simp del: drain_traces.simps)
  qed
qed simp

lemma drain_traces_distinct: "distinct (map rt_timer_id (drain_traces order traces))"
  by (induction order arbitrary: traces)
     (auto simp: drain_traces_Cons drain_traces_iff delete_conv' simp del: drain_traces.simps(2) split: option.splits)

lemma rearmable_timers_iff:
  "rt \<in> set (rearmable_timers h) \<longleftrightarrow>
     outstanding (rt_timer_id rt) (rt_fire_at rt) (rt_needs_restart_marker rt) h"
proof -
  obtain traces order where f: "foldl trace_timer_event ([], []) h = (traces, order)" by fastforce
  have entry: "rt = rearm_entry (rt_timer_id rt) trace \<longleftrightarrow> rt_fire_at rt = tt_fire_at trace
      \<and> rt_needs_restart_marker rt = (tt_last_was_teardown_cancel trace = Some True)" for trace
    by (cases rt) (auto simp: rearm_entry_def)
  have "rt \<in> set (rearmable_timers h) \<longleftrightarrow>
      (\<exists>trace. map_of traces (rt_timer_id rt) = Some trace \<and> rt = rearm_entry (rt_timer_id rt) trace)"
    using trace_table_order [OF f, of "rt_timer_id rt"] by (auto simp: rearmable_timers_def f drain_traces_iff)
  also have "\<dots> \<longleftrightarrow> foldl (timer_fate (rt_timer_id rt)) None h = Some (rt_fire_at rt, rt_needs_restart_marker rt)"
    unfolding entry trace_table_fate [OF f, of "rt_timer_id rt"]
    by (cases "foldl (timer_fate (rt_timer_id rt)) None h") (auto split: if_splits)
  finally show ?thesis by (simp add: timer_fate_iff)
qed

lemma rearmable_timers_distinct: "distinct (map rt_timer_id (rearmable_timers h))"
  by (simp add: rearmable_timers_def drain_traces_distinct split: prod.split)

section \<open>Lemmas: activities\<close>

lemma outcome_sets_fold:
  assumes "foldl outcome_sets ([], []) h = (failed, settled)"
  shows "set failed = {a. \<exists>e \<in> set h. is_failure_of a e} \<and> distinct failed
    \<and> set settled = {a. \<exists>e \<in> set h. is_success_of a e}"
  using assms
proof (induction h arbitrary: failed settled rule: rev_induct)
  case (snoc e h)
  obtain f s where prev: "foldl outcome_sets ([], []) h = (f, s)" by fastforce
  from snoc.IH [OF prev] snoc.prems prev show ?case by (cases e) auto
qed simp

lemma reopened_failed_activities_set:
  "set (reopened_failed_activities h) =
     {a. (\<exists>e \<in> set (current_lease h). is_failure_of a e) \<and> (\<forall>e \<in> set (current_lease h). \<not> is_success_of a e)}"
  using outcome_sets_fold [of "current_lease h"]
  by (cases "foldl outcome_sets ([], []) (current_lease h)") (auto simp: reopened_failed_activities_def)

lemma reopened_failed_activities_sorted:
  "sorted (map sequence_position (reopened_failed_activities h)) \<and> distinct (reopened_failed_activities h)"
  using outcome_sets_fold [of "current_lease h"]
  by (cases "foldl outcome_sets ([], []) (current_lease h)") (auto simp: reopened_failed_activities_def)

section \<open>Properties\<close>

text \<open>C15: reopening re-arms a timer exactly when the run still owes it: its last start has been followed
  neither by a fire nor by a cancellation the workflow asked for.  The timer comes back once, with the
  deadline of that start, and gets a fresh start event exactly when a cancel teardown had retired it.\<close>

theorem rearmable_timers_exact:
  "distinct (map rt_timer_id (rearmable_timers h))
   \<and> (rt \<in> set (rearmable_timers h) \<longleftrightarrow> (\<exists>before env after.
        h = before @ TimerStarted env (rt_timer_id rt) (rt_fire_at rt) # after
      \<and> (\<forall>e \<in> set after. \<not> starts_timer (rt_timer_id rt) e \<and> \<not> settles_timer (rt_timer_id rt) e)
      \<and> (rt_needs_restart_marker rt \<longleftrightarrow> (\<exists>e \<in> set after. tears_down_timer (rt_timer_id rt) e))))"
  using rearmable_timers_distinct rearmable_timers_iff [of rt h] by (simp only: outstanding_def)

text \<open>A run is reopened only from a failed or a cancelled end of its current lease; a failed run
  re-executes exactly the activities that failed in this lease and were neither completed nor cancelled
  in it, each once, in ordinal order, and a cancelled run re-executes none.\<close>

theorem reopen_decision:
  "validate_and_compute_reopened w run h = Inr reopened \<longleftrightarrow>
     (\<exists>env err. current_lease_terminal h = Some (WorkflowFailed env err))
       \<and> set reopened = {a. (\<exists>e \<in> set (current_lease h). is_failure_of a e)
                          \<and> (\<forall>e \<in> set (current_lease h). \<not> is_success_of a e)}
       \<and> sorted (map sequence_position reopened) \<and> distinct reopened
   \<or> (\<exists>env reason. current_lease_terminal h = Some (WorkflowCancelled env reason)) \<and> reopened = []"
proof -
  have inj: "inj_on sequence_position A" for A
    by (rule inj_onI) (metis activity_id.exhaust activity_id.sel)
  have unique: "reopened = reopened_failed_activities h"
    if "set reopened = set (reopened_failed_activities h)" "sorted (map sequence_position reopened)"
      "distinct reopened"
    using that reopened_failed_activities_sorted [of h]
    by (intro map_sorted_distinct_set_unique [OF inj]) (simp_all add: distinct_map inj)
  show ?thesis
    using unique reopened_failed_activities_sorted [of h]
    by (cases "current_lease_terminal h")
       (auto simp: validate_and_compute_reopened_def reopened_failed_activities_set split: event.splits)
qed

section \<open>Witnesses\<close>

theorem rearmable_timers_exact_witness:
  "\<lparr>rt_timer_id = Named ''t'', rt_fire_at = 500, rt_needs_restart_marker = True\<rparr>
     \<in> set (rearmable_timers [s_timer 1, TimerCancelled (s_env 2) (Named ''t'') CancelTeardown])"
  by (rule rearmable_timers_exact [THEN conjunct2, THEN iffD2])
     (auto intro!: exI [of _ "[]"])

theorem reopen_decision_witness:
  "validate_and_compute_reopened s_workflow s_run (take 5 s_reopened) = Inr [ActivityId 0]"
proof -
  have "current_lease (take 5 s_reopened) = drop 1 (take 5 s_reopened)"
    by (simp add: current_lease_def rposition_def)
  moreover have "current_lease_terminal (take 5 s_reopened) =
      Some (WorkflowFailed (s_env 5) \<lparr>we_message = ''boom'', we_details = None\<rparr>)"
    by (simp add: current_lease_terminal_def)
  ultimately show ?thesis
    using reopen_decision [of s_workflow s_run "take 5 s_reopened" "[ActivityId 0]"] by auto
qed

end
