(* ===== verification/Libsql_Store.thy ===== *)
theory Libsql_Store
  imports Memory_Store
begin

text \<open>
  \<^verbatim>\<open>crates/aion-store-libsql/src\<close>: the durable store (\<^verbatim>\<open>append.rs\<close>) and its outbox (\<^verbatim>\<open>outbox.rs\<close>,
  \<^verbatim>\<open>outbox/transitions.rs\<close>).  A table is the list of its rows; a statement is the function its SQL text
  denotes (\<^verbatim>\<open>WHERE\<close> a filter, \<^verbatim>\<open>ORDER BY\<close> a stable sort, \<^verbatim>\<open>LIMIT\<close> a prefix, \<^verbatim>\<open>UPDATE\<close> a map over the
  table, \<^verbatim>\<open>INSERT OR IGNORE\<close> an append guarded by the unique key) and an \<^verbatim>\<open>IMMEDIATE\<close> transaction is one
  state transition, so a rollback returns the state it began with.  Failures of the database engine
  itself are not modelled, nor are the byte codecs of the columns: instants, ids and payloads are kept
  as values; a sequence number above \<^verbatim>\<open>i64::MAX\<close>, which the code refuses, is outside the
  model.  \<open>now\<close> is the clock read of the operations that call \<^verbatim>\<open>Utc::now\<close>.

  The store is an instance of the event-store contract.  The lemmas show that a claim hands a row to one
  dispatcher only, never touches a held, foreign-pool or terminal row, and that the key is unique.
\<close>

record libsql_state =
  ls_events :: "(workflow_id \<times> event) list"
  ls_outbox :: "outbox_row list"
  ls_visibility :: "(workflow_id \<times> visibility_record) list"
  ls_timers :: "((workflow_id \<times> timer_id) \<times> timestamp) list"

section \<open>Appending\<close>

definition ls_rows :: "workflow_id \<Rightarrow> libsql_state \<Rightarrow> history" where
  "ls_rows w s = map snd (filter (\<lambda>(v, e). v = w) (ls_events s))"

text \<open>\<^verbatim>\<open>SELECT COALESCE(MAX(seq), 0)\<close>.\<close>

definition ls_current_head :: "workflow_id \<Rightarrow> libsql_state \<Rightarrow> u64" where
  "ls_current_head w s = fold max (map seq (ls_rows w s)) 0"

definition insert_event :: "workflow_id \<Rightarrow> event \<Rightarrow> libsql_state \<Rightarrow> (store_error, libsql_state) result" where
  "insert_event w e s =
     (if list_ex (\<lambda>(v, f). v = w \<and> seq f = seq e) (ls_events s)
      then Inl (Backend ''UNIQUE constraint failed: events.workflow_id, events.seq'')
      else Inr (s\<lparr>ls_events := ls_events s @ [(w, e)]\<rparr>))"

definition has_key :: "string \<Rightarrow> outbox_row list \<Rightarrow> bool" where
  "has_key key table \<longleftrightarrow> list_ex (\<lambda>r. or_dispatch_key r = key) table"

definition i64_overflow :: "u64 \<Rightarrow> bool" where
  "i64_overflow n \<longleftrightarrow> 2 ^ 63 \<le> unat n"

definition insert_outbox_row :: "outbox_row \<Rightarrow> libsql_state \<Rightarrow> (store_error, libsql_state) result" where
  "insert_outbox_row row s =
     (if i64_overflow (or_ordinal row)
      then Inl (Backend (''outbox ordinal overflow: '' @ show_u64 (or_ordinal row)))
      else if has_key (or_dispatch_key row) (ls_outbox s) then Inr s
      else Inr (s\<lparr>ls_outbox := ls_outbox s @ [row]\<rparr>))"

fun fold_res :: "('a \<Rightarrow> 'st \<Rightarrow> ('e, 'st) result) \<Rightarrow> 'a list \<Rightarrow> 'st \<Rightarrow> ('e, 'st) result" where
  "fold_res f [] s = Inr s"
| "fold_res f (x # xs) s = bind_res (f x s) (fold_res f xs)"

definition ls_append_with_outbox ::
  "workflow_id \<Rightarrow> history \<Rightarrow> u64 \<Rightarrow> outbox_row list \<Rightarrow> libsql_state
    \<Rightarrow> (store_error, unit) result \<times> libsql_state" where
  "ls_append_with_outbox w events expected rows s =
     (let stored_head = ls_current_head w s
      in if stored_head \<noteq> expected then (Inl (SequenceConflict expected stored_head), s)
         else if events = [] \<and> rows = [] then (Inr (), s)
         else
           (case first_gap (Suc (unat expected)) events of
              Some (next_seq, got) \<Rightarrow>
                (Inl (Backend (''event sequence must be contiguous: expected '' @ show_nat next_seq
                   @ '', got '' @ show_u64 got)), s)
            | None \<Rightarrow>
                (case bind_res (fold_res (insert_event w) events s) (fold_res insert_outbox_row rows) of
                   Inl e \<Rightarrow> (Inl e, s)
                 | Inr s' \<Rightarrow> (Inr (), s'))))"

definition ls_append ::
  "workflow_id \<Rightarrow> history \<Rightarrow> u64 \<Rightarrow> libsql_state \<Rightarrow> (store_error, unit) result \<times> libsql_state" where
  "ls_append w events expected s = ls_append_with_outbox w events expected [] s"

definition ls_read_history :: "workflow_id \<Rightarrow> libsql_state \<Rightarrow> (store_error, history) result" where
  "ls_read_history w s = Inr (sort_key seq (ls_rows w s))"

definition ls_read_history_from ::
  "workflow_id \<Rightarrow> u64 \<Rightarrow> libsql_state \<Rightarrow> (store_error, history) result" where
  "ls_read_history_from w from_seq s = Inr (sort_key seq (filter (\<lambda>e. from_seq \<le> seq e) (ls_rows w s)))"

definition ls_read_run_chain :: "workflow_id \<Rightarrow> libsql_state \<Rightarrow> (store_error, run_summary list) result" where
  "ls_read_run_chain w s = bind_res (ls_read_history w s) run_chain_from_history"

text \<open>The visibility table's primary key is the workflow id alone.\<close>

definition ls_record_visibility ::
  "visibility_record \<Rightarrow> libsql_state \<Rightarrow> (store_error, unit) result \<times> libsql_state" where
  "ls_record_visibility v s =
     (Inr (), s\<lparr>ls_visibility := AList.update (vr_workflow_id v) v (ls_visibility s)\<rparr>)"

section \<open>The outbox\<close>

text \<open>\<^verbatim>\<open>UPDATE outbox SET ... WHERE ...\<close>.\<close>

definition update_outbox :: "(outbox_row \<Rightarrow> bool) \<Rightarrow> (outbox_row \<Rightarrow> outbox_row) \<Rightarrow> libsql_state \<Rightarrow> libsql_state" where
  "update_outbox p f s = s\<lparr>ls_outbox := map (\<lambda>r. if p r then f r else r) (ls_outbox s)\<rparr>"

definition append_outbox_batch :: "outbox_row list \<Rightarrow> libsql_state \<Rightarrow> (store_error, unit) result \<times> libsql_state" where
  "append_outbox_batch rows s =
     (if rows = [] then (Inr (), s)
      else (case fold_res insert_outbox_row rows s of Inl e \<Rightarrow> (Inl e, s) | Inr s' \<Rightarrow> (Inr (), s')))"

text \<open>The re-arm upsert: a new key is inserted without a run id, an existing row keeps everything but
  its status, fence and claim instant.\<close>

definition rearm_outbox_row :: "outbox_row \<Rightarrow> libsql_state \<Rightarrow> (store_error, libsql_state) result" where
  "rearm_outbox_row row s =
     (if i64_overflow (or_ordinal row)
      then Inl (Backend (''outbox ordinal overflow: '' @ show_u64 (or_ordinal row)))
      else if has_key (or_dispatch_key row) (ls_outbox s)
      then Inr (update_outbox (\<lambda>r. or_dispatch_key r = or_dispatch_key row)
        (\<lambda>r. r\<lparr>or_status := Pending, or_visible_after := or_visible_after row, or_claimed_at := None\<rparr>) s)
      else Inr (s\<lparr>ls_outbox := ls_outbox s @
        [row\<lparr>or_status := Pending, or_claimed_at := None, or_run_id := None\<rparr>]\<rparr>))"

definition ls_rearm_outbox_pending :: "outbox_row list \<Rightarrow> libsql_state \<Rightarrow> (store_error, unit) result \<times> libsql_state" where
  "ls_rearm_outbox_pending rows s =
     (if rows = [] then (Inr (), s)
      else (case fold_res rearm_outbox_row rows s of Inl e \<Rightarrow> (Inl e, s) | Inr s' \<Rightarrow> (Inr (), s')))"

definition due_order :: "outbox_row \<Rightarrow> timestamp \<times> string" where
  "due_order r = (or_visible_after r, or_dispatch_key r)"

definition claimable :: "timestamp \<Rightarrow> outbox_row \<Rightarrow> bool" where
  "claimable now r \<longleftrightarrow> or_status r = Pending \<and> or_visible_after r \<le> now"

definition claimed_row :: "timestamp \<Rightarrow> outbox_row \<Rightarrow> outbox_row" where
  "claimed_row now r = r\<lparr>or_status := Claimed, or_claimed_at := Some now\<rparr>"

definition claim_row_sql :: "timestamp \<Rightarrow> string \<Rightarrow> libsql_state \<Rightarrow> libsql_state" where
  "claim_row_sql now key =
     update_outbox (\<lambda>r. or_dispatch_key r = key \<and> or_status r = Pending) (claimed_row now)"

text \<open>The claim loop over the selected rows: stop at the limit, skip the rows of held workflows.\<close>

fun claim_loop ::
  "timestamp \<Rightarrow> nat \<Rightarrow> workflow_id set \<Rightarrow> outbox_row list \<Rightarrow> outbox_row list \<Rightarrow> libsql_state
    \<Rightarrow> outbox_row list \<times> libsql_state" where
  "claim_loop now limit held [] claimed s = (claimed, s)"
| "claim_loop now limit held (r # rows) claimed s =
     (if limit \<le> length claimed then (claimed, s)
      else if or_workflow_id r \<in> held then claim_loop now limit held rows claimed s
      else claim_loop now limit held rows (claimed @ [claimed_row now r])
             (claim_row_sql now (or_dispatch_key r) s))"

definition claim_outbox_rows ::
  "timestamp \<Rightarrow> u32 \<Rightarrow> libsql_state \<Rightarrow> (store_error, outbox_row list) result \<times> libsql_state" where
  "claim_outbox_rows now limit s =
     (if limit = 0 then (Inr [], s)
      else
        (let rows = take (unat limit) (sort_key due_order (filter (claimable now) (ls_outbox s)));
             (claimed, s') = claim_loop now (unat limit) {} rows [] s
         in (Inr claimed, s')))"

definition claim_outbox_rows_excluding ::
  "timestamp \<Rightarrow> u32 \<Rightarrow> workflow_id set \<Rightarrow> libsql_state \<Rightarrow> (store_error, outbox_row list) result \<times> libsql_state" where
  "claim_outbox_rows_excluding now limit held s =
     (if limit = 0 then (Inr [], s)
      else if held = {} then claim_outbox_rows now limit s
      else
        (let rows = sort_key due_order (filter (claimable now) (ls_outbox s));
             (claimed, s') = claim_loop now (unat limit) held rows [] s
         in (Inr claimed, s')))"

text \<open>The node clause spliced into the scoped \<^verbatim>\<open>SELECT\<close>.\<close>

definition node_clause :: "claim_scope \<Rightarrow> outbox_row \<Rightarrow> bool" where
  "node_clause scope r =
     (case cs_node scope of
        Some node \<Rightarrow> or_node r = None \<or> or_node r = Some node
      | None \<Rightarrow> or_node r = None)"

definition scoped_claimable :: "timestamp \<Rightarrow> claim_scope \<Rightarrow> outbox_row \<Rightarrow> bool" where
  "scoped_claimable now scope r \<longleftrightarrow>
     claimable now r \<and> or_namespace r = cs_namespace scope \<and> or_task_queue r = cs_task_queue scope
   \<and> node_clause scope r"

definition claim_outbox_rows_scoped_excluding ::
  "timestamp \<Rightarrow> claim_scope \<Rightarrow> u32 \<Rightarrow> workflow_id set \<Rightarrow> libsql_state
    \<Rightarrow> (store_error, outbox_row list) result \<times> libsql_state" where
  "claim_outbox_rows_scoped_excluding now scope limit held s =
     (if limit = 0 then (Inr [], s)
      else
        (let selected = sort_key due_order (filter (scoped_claimable now scope) (ls_outbox s));
             rows = (if held = {} then take (unat limit) selected else selected);
             (claimed, s') = claim_loop now (unat limit) held rows [] s
         in (Inr claimed, s')))"

definition claim_outbox_rows_scoped ::
  "timestamp \<Rightarrow> claim_scope \<Rightarrow> u32 \<Rightarrow> libsql_state \<Rightarrow> (store_error, outbox_row list) result \<times> libsql_state" where
  "claim_outbox_rows_scoped now scope limit s = claim_outbox_rows_scoped_excluding now scope limit {} s"

definition stale_claimed :: "timestamp \<Rightarrow> outbox_row \<Rightarrow> bool" where
  "stale_claimed older_than r \<longleftrightarrow>
     or_status r = Claimed \<and> (case or_claimed_at r of None \<Rightarrow> False | Some at \<Rightarrow> at < older_than)"

definition select_stale :: "timestamp \<Rightarrow> u32 \<Rightarrow> libsql_state \<Rightarrow> outbox_row list" where
  "select_stale older_than limit s =
     take (unat limit) (sort_key (\<lambda>r. (the (or_claimed_at r), or_dispatch_key r))
       (filter (stale_claimed older_than) (ls_outbox s)))"

definition rearmed_row :: "timestamp \<Rightarrow> outbox_row \<Rightarrow> outbox_row" where
  "rearmed_row visible_after r =
     r\<lparr>or_status := Pending, or_visible_after := visible_after, or_claimed_at := None\<rparr>"

definition rearm_stale_claimed_outbox_rows ::
  "timestamp \<Rightarrow> timestamp \<Rightarrow> u32 \<Rightarrow> libsql_state \<Rightarrow> (store_error, outbox_row list) result \<times> libsql_state" where
  "rearm_stale_claimed_outbox_rows older_than visible_after limit s =
     (if limit = 0 then (Inr [], s)
      else
        (let rows = select_stale older_than limit s
         in (Inr (map (rearmed_row visible_after) rows),
             fold (\<lambda>row. update_outbox
                 (\<lambda>r. or_dispatch_key r = or_dispatch_key row \<and> or_status r = Claimed)
                 (rearmed_row visible_after)) rows s)))"

definition list_stale_claimed_outbox_rows ::
  "timestamp \<Rightarrow> u32 \<Rightarrow> libsql_state \<Rightarrow> (store_error, outbox_row list) result" where
  "list_stale_claimed_outbox_rows older_than limit s =
     (if limit = 0 then Inr [] else Inr (select_stale older_than limit s))"

definition live_row :: "outbox_row \<Rightarrow> bool" where
  "live_row r \<longleftrightarrow> or_status r = Pending \<or> or_status r = Claimed"

definition list_unsettled_outbox_workflow_ids ::
  "show_uuid \<Rightarrow> libsql_state \<Rightarrow> (store_error, workflow_id list) result" where
  "list_unsettled_outbox_workflow_ids show_uuid s =
     Inr (sort_key (\<lambda>w. show_uuid (workflow_uuid w))
       (remdups (map or_workflow_id (filter live_row (ls_outbox s)))))"

definition cancelled_row :: "outbox_row \<Rightarrow> outbox_row" where
  "cancelled_row r = r\<lparr>or_status := CancelledRow, or_claimed_at := None\<rparr>"

definition ls_settle_workflow_outbox_rows_cancelled ::
  "workflow_id \<Rightarrow> libsql_state \<Rightarrow> (store_error, string list) result \<times> libsql_state" where
  "ls_settle_workflow_outbox_rows_cancelled w s =
     (let settled = sort (map or_dispatch_key
            (filter (\<lambda>r. or_workflow_id r = w \<and> live_row r) (ls_outbox s)))
      in (Inr settled,
          if settled \<noteq> [] then update_outbox (\<lambda>r. or_workflow_id r = w \<and> live_row r) cancelled_row s else s))"

definition complete_outbox_row :: "string \<Rightarrow> libsql_state \<Rightarrow> (store_error, unit) result \<times> libsql_state" where
  "complete_outbox_row key s =
     (Inr (), update_outbox (\<lambda>r. or_dispatch_key r = key) (\<lambda>r. r\<lparr>or_status := Done, or_claimed_at := None\<rparr>) s)"

definition retry_outbox_row ::
  "string \<Rightarrow> u32 \<Rightarrow> timestamp \<Rightarrow> libsql_state \<Rightarrow> (store_error, unit) result \<times> libsql_state" where
  "retry_outbox_row key next_attempt visible_after s =
     (Inr (), update_outbox (\<lambda>r. or_dispatch_key r = key)
        (\<lambda>r. r\<lparr>or_status := Pending, or_attempt := next_attempt, or_visible_after := visible_after,
              or_claimed_at := None\<rparr>) s)"

definition fail_outbox_row :: "string \<Rightarrow> libsql_state \<Rightarrow> (store_error, unit) result \<times> libsql_state" where
  "fail_outbox_row key s =
     (Inr (), update_outbox (\<lambda>r. or_dispatch_key r = key)
        (\<lambda>r. r\<lparr>or_status := FailedRow, or_claimed_at := None\<rparr>) s)"

definition ls_settle_outbox_row_cancelled ::
  "string \<Rightarrow> libsql_state \<Rightarrow> (store_error, unit) result \<times> libsql_state" where
  "ls_settle_outbox_row_cancelled key s =
     (Inr (), update_outbox (\<lambda>r. or_dispatch_key r = key \<and> live_row r) cancelled_row s)"

definition count_inflight_outbox_rows :: "string \<Rightarrow> libsql_state \<Rightarrow> (store_error, nat) result" where
  "count_inflight_outbox_rows ns s =
     Inr (length (filter (\<lambda>r. or_namespace r = ns \<and> live_row r) (ls_outbox s)))"

definition count_claimed_outbox_rows :: "string \<Rightarrow> libsql_state \<Rightarrow> (store_error, nat) result" where
  "count_claimed_outbox_rows ns s =
     Inr (length (filter (\<lambda>r. or_namespace r = ns \<and> or_status r = Claimed) (ls_outbox s)))"

text \<open>The grouped count: every requested namespace starts at zero and the groups of the query overwrite
  the requested ones.\<close>

definition claimed_groups :: "libsql_state \<Rightarrow> (string \<times> nat) list" where
  "claimed_groups s =
     (let claimed = filter (\<lambda>r. or_status r = Claimed) (ls_outbox s)
      in map (\<lambda>ns. (ns, length (filter (\<lambda>r. or_namespace r = ns) claimed))) (remdups (map or_namespace claimed)))"

definition count_claimed_outbox_rows_by_namespace ::
  "string list \<Rightarrow> libsql_state \<Rightarrow> (store_error, (string \<times> nat) list) result" where
  "count_claimed_outbox_rows_by_namespace namespaces s =
     Inr (fold (\<lambda>(ns, n) counts. if ns \<in> set namespaces then AList.update ns n counts else counts)
       (claimed_groups s) (map (\<lambda>ns. (ns, 0)) (sort (remdups namespaces))))"

definition pending_outbox_routes :: "timestamp \<Rightarrow> libsql_state \<Rightarrow> (store_error, claim_scope list) result" where
  "pending_outbox_routes now s =
     Inr (map (\<lambda>(ns, queue, node). claim_scope_with_node (claim_scope_new ns queue) node)
       (remdups (map (\<lambda>r. (or_namespace r, or_task_queue r, or_node r)) (filter (claimable now) (ls_outbox s)))))"

definition libsql_store :: "libsql_state event_store" where
  "libsql_store =
     \<lparr>es_append = ls_append,
      es_append_with_outbox = ls_append_with_outbox,
      es_rearm_outbox_pending = ls_rearm_outbox_pending,
      es_settle_outbox_row_cancelled = ls_settle_outbox_row_cancelled,
      es_settle_workflow_outbox_rows_cancelled = ls_settle_workflow_outbox_rows_cancelled,
      es_read_history = ls_read_history,
      es_record_visibility = ls_record_visibility\<rparr>"

section \<open>The libSQL store satisfies the event-store contract\<close>

definition ls_inv :: "libsql_state \<Rightarrow> bool" where
  "ls_inv s \<longleftrightarrow> (\<forall>w. contiguous (ls_rows w s)) \<and> distinct (map or_dispatch_key (ls_outbox s))"

lemma ls_rows_append [simp]:
  "ls_rows w (s\<lparr>ls_events := ls_events s @ [(v, e)]\<rparr>) = (if v = w then ls_rows w s @ [e] else ls_rows w s)"
  by (simp add: ls_rows_def)

lemma ls_rows_frame [simp]:
  "ls_rows w (s\<lparr>ls_outbox := rows\<rparr>) = ls_rows w s" "ls_rows w (s\<lparr>ls_visibility := v\<rparr>) = ls_rows w s"
  "ls_rows w (update_outbox p f s) = ls_rows w s"
  by (simp_all add: ls_rows_def update_outbox_def)

lemma ls_current_head_eq:
  assumes "ls_inv s"
  shows "unat (ls_current_head w s) = length (ls_rows w s)"
  using history_head_contiguous [of "ls_rows w s"] assms
  by (simp add: ls_inv_def ls_current_head_def history_head_def)

lemma insert_event_fresh:
  assumes "contiguous (ls_rows w s)" and "unat (seq e) = Suc (length (ls_rows w s))"
  shows "insert_event w e s = Inr (s\<lparr>ls_events := ls_events s @ [(w, e)]\<rparr>)"
proof -
  have "unat (seq f) \<le> length (ls_rows w s)" if "(w, f) \<in> set (ls_events s)" for f
  proof -
    from that have "f \<in> set (ls_rows w s)" by (force simp: ls_rows_def)
    then obtain i where "i < length (ls_rows w s)" "ls_rows w s ! i = f" by (auto simp: in_set_conv_nth)
    with contiguous_from_nth [OF assms(1)] show ?thesis by fastforce
  qed
  with assms(2) show ?thesis by (fastforce simp: insert_event_def list_ex_iff)
qed

lemma insert_events_ok:
  assumes "contiguous (ls_rows w s)" and "contiguous_from (length (ls_rows w s)) events"
  shows "fold_res (insert_event w) events s = Inr (s\<lparr>ls_events := ls_events s @ map (Pair w) events\<rparr>)"
  using assms
proof (induction events arbitrary: s)
  case (Cons e es)
  let ?s = "s\<lparr>ls_events := ls_events s @ [(w, e)]\<rparr>"
  have "insert_event w e s = Inr ?s" using Cons.prems by (intro insert_event_fresh) simp_all
  moreover have "fold_res (insert_event w) es ?s = Inr (?s\<lparr>ls_events := ls_events ?s @ map (Pair w) es\<rparr>)"
    using Cons.prems by (intro Cons.IH) simp_all
  ultimately show ?case by simp
qed simp

text \<open>What a staged batch of rows does to the outbox: known keys are ignored, new rows are added.\<close>

fun stage_rows :: "outbox_row list \<Rightarrow> outbox_row list \<Rightarrow> outbox_row list" where
  "stage_rows [] table = table"
| "stage_rows (row # rows) table =
     stage_rows rows (if has_key (or_dispatch_key row) table then table else table @ [row])"

lemma insert_rows_eq:
  "fold_res insert_outbox_row rows s =
     (case List.find (\<lambda>r. i64_overflow (or_ordinal r)) rows of
        Some r \<Rightarrow> Inl (Backend (''outbox ordinal overflow: '' @ show_u64 (or_ordinal r)))
      | None \<Rightarrow> Inr (s\<lparr>ls_outbox := stage_rows rows (ls_outbox s)\<rparr>))"
  by (induction rows arbitrary: s) (auto simp: insert_outbox_row_def split: option.splits)

lemma has_key_iff: "has_key key table \<longleftrightarrow> key \<in> or_dispatch_key ` set table"
  by (auto simp: has_key_def list_ex_iff)

lemma stage_rows_distinct:
  "distinct (map or_dispatch_key table) \<Longrightarrow> distinct (map or_dispatch_key (stage_rows rows table))"
  by (induction rows arbitrary: table) (auto simp: has_key_iff)

lemma stage_rows_prefix: "prefix table (stage_rows rows table)"
proof (induction rows arbitrary: table)
  case (Cons r rows)
  have "prefix table (if has_key (or_dispatch_key r) table then table else table @ [r])" by simp
  with Cons show ?case by (metis stage_rows.simps(2) prefix_order.trans)
qed simp

lemma stage_rows_keys:
  "or_dispatch_key ` set (stage_rows rows table) = or_dispatch_key ` set table \<union> or_dispatch_key ` set rows"
  by (induction rows arbitrary: table) (auto simp: has_key_iff)

text \<open>The result of an append, by cases.\<close>

lemma ls_append_with_outbox_eq:
  assumes "ls_inv s"
  shows "ls_append_with_outbox w events expected rows s =
    (if unat expected \<noteq> length (ls_rows w s)
     then (Inl (SequenceConflict expected (of_nat (length (ls_rows w s)))), s)
     else if events = [] \<and> rows = [] then (Inr (), s)
     else case first_gap (Suc (length (ls_rows w s))) events of
            Some (n, got) \<Rightarrow>
              (Inl (Backend (''event sequence must be contiguous: expected '' @ show_nat n
                 @ '', got '' @ show_u64 got)), s)
          | None \<Rightarrow>
              (case List.find (\<lambda>r. i64_overflow (or_ordinal r)) rows of
                 Some r \<Rightarrow> (Inl (Backend (''outbox ordinal overflow: '' @ show_u64 (or_ordinal r))), s)
               | None \<Rightarrow> (Inr (), s\<lparr>ls_events := ls_events s @ map (Pair w) events,
                                  ls_outbox := stage_rows rows (ls_outbox s)\<rparr>)))"
proof -
  have c: "contiguous (ls_rows w s)" using assms by (simp add: ls_inv_def)
  have head: "ls_current_head w s = of_nat (length (ls_rows w s))"
    by (rule word_of_length [OF ls_current_head_eq [OF assms]])
  have same: "of_nat (length (ls_rows w s)) = expected \<longleftrightarrow> unat expected = length (ls_rows w s)"
    using unat_of_length [OF c] word_of_length [of expected "length (ls_rows w s)"] by auto
  have ins: "bind_res (fold_res (insert_event w) events s) (fold_res insert_outbox_row rows) =
      fold_res insert_outbox_row rows (s\<lparr>ls_events := ls_events s @ map (Pair w) events\<rparr>)"
    if "first_gap (Suc (length (ls_rows w s))) events = None"
    using that insert_events_ok [OF c] by (simp add: first_gap_None)
  show ?thesis
    unfolding ls_append_with_outbox_def Let_def head
    using same ins by (auto simp: insert_rows_eq split: option.splits)
qed

lemma ls_rows_append_many [simp]:
  "ls_rows v (s\<lparr>ls_events := ls_events s @ map (Pair w) events\<rparr>) =
     (if v = w then ls_rows v s @ events else ls_rows v s)"
  by (auto simp: ls_rows_def filter_map comp_def)

lemma ls_appended:
  assumes "ls_inv s" and "appendable (ls_rows w s) expected events"
    and "s' = s\<lparr>ls_events := ls_events s @ map (Pair w) events, ls_outbox := stage_rows rows (ls_outbox s)\<rparr>"
  shows "ls_inv s' \<and> (\<lambda>v. ls_rows v s') = (\<lambda>v. ls_rows v s)(w := ls_rows w s @ events)"
  using assms by (auto simp: ls_inv_def appendable_def fun_eq_iff stage_rows_distinct)

lemma ls_append_ok:
  assumes "ls_inv s" and "appendable (ls_rows w s) expected events"
    and "list_all (\<lambda>r. \<not> i64_overflow (or_ordinal r)) rows"
  shows "\<exists>s'. ls_append_with_outbox w events expected rows s = (Inr (), s') \<and> ls_inv s'
    \<and> (\<lambda>v. ls_rows v s') = (\<lambda>v. ls_rows v s)(w := ls_rows w s @ events)
    \<and> ls_outbox s' = stage_rows rows (ls_outbox s)"
proof -
  let ?s' = "s\<lparr>ls_events := ls_events s @ map (Pair w) events, ls_outbox := stage_rows rows (ls_outbox s)\<rparr>"
  have "List.find (\<lambda>r. i64_overflow (or_ordinal r)) rows = None"
    using assms(3) by (auto simp: find_None_iff list_all_iff)
  moreover have "first_gap (Suc (length (ls_rows w s))) events = None"
    using assms(2) by (simp add: first_gap_None appendable_def)
  ultimately have "ls_append_with_outbox w events expected rows s = (Inr (), ?s')"
    using assms(2) by (auto simp: ls_append_with_outbox_eq [OF assms(1)] appendable_def)
  with ls_appended [OF assms(1,2) refl] show ?thesis by force
qed

lemma ls_append_fails:
  assumes "ls_inv s"
    and "\<not> (appendable (ls_rows w s) expected events \<and> list_all (\<lambda>r. \<not> i64_overflow (or_ordinal r)) rows)"
  shows "\<exists>e. ls_append_with_outbox w events expected rows s = (Inl e, s)"
proof -
  have "first_gap (Suc (length (ls_rows w s))) events = None \<longleftrightarrow> contiguous_from (length (ls_rows w s)) events"
    by (rule first_gap_None)
  moreover have "List.find (\<lambda>r. i64_overflow (or_ordinal r)) rows = None \<longleftrightarrow>
      list_all (\<lambda>r. \<not> i64_overflow (or_ordinal r)) rows"
    by (auto simp: find_None_iff list_all_iff)
  ultimately show ?thesis
    using assms(2) unfolding ls_append_with_outbox_eq [OF assms(1)] appendable_def
    by (auto split: option.splits)
qed

lemma update_outbox_keys:
  "(\<And>r. or_dispatch_key (f r) = or_dispatch_key r)
   \<Longrightarrow> map or_dispatch_key (ls_outbox (update_outbox p f s)) = map or_dispatch_key (ls_outbox s)"
  by (simp add: update_outbox_def)

lemma ls_events_update [simp]: "ls_events (update_outbox p f s) = ls_events s"
  by (simp add: update_outbox_def)

lemma ls_inv_update:
  "ls_inv s \<Longrightarrow> (\<And>r. or_dispatch_key (f r) = or_dispatch_key r) \<Longrightarrow> ls_inv (update_outbox p f s)"
  by (simp add: ls_inv_def update_outbox_keys)

lemma rearm_row_frame:
  "rearm_outbox_row r s = Inr s' \<Longrightarrow> ls_events s' = ls_events s
   \<and> (distinct (map or_dispatch_key (ls_outbox s)) \<longrightarrow> distinct (map or_dispatch_key (ls_outbox s')))"
  by (auto simp: rearm_outbox_row_def has_key_iff update_outbox_keys split: if_splits)

lemma rearm_rows_frame:
  "fold_res rearm_outbox_row rows s = Inr s' \<Longrightarrow> ls_events s' = ls_events s
   \<and> (distinct (map or_dispatch_key (ls_outbox s)) \<longrightarrow> distinct (map or_dispatch_key (ls_outbox s')))"
proof (induction rows arbitrary: s)
  case (Cons r rows)
  then obtain s1 where "rearm_outbox_row r s = Inr s1" and "fold_res rearm_outbox_row rows s1 = Inr s'"
    by (auto simp: bind_res_eq_Inr_iff)
  with rearm_row_frame Cons.IH show ?case by metis
qed simp

abbreviation ls_hist :: "libsql_state \<Rightarrow> workflow_id \<Rightarrow> history" where
  "ls_hist s w \<equiv> ls_rows w s"

interpretation libsql: event_store_laws libsql_store ls_inv ls_hist
proof unfold_locales
  fix s w expected events rows res s' and key :: string and v keys
  assume inv: "ls_inv s"
  show "\<exists>s'. es_append libsql_store w events expected s = (Inr (), s') \<and> ls_inv s'
      \<and> (\<lambda>w. ls_rows w s') = (\<lambda>w. ls_rows w s)(w := ls_rows w s @ events)"
    if "appendable (ls_rows w s) expected events"
    using ls_append_ok [OF inv that, of "[]"] by (auto simp: libsql_store_def ls_append_def)
  show "es_append libsql_store w events expected s =
      (Inl (SequenceConflict expected (of_nat (length (ls_rows w s)))), s)"
    if "unat expected \<noteq> length (ls_rows w s)"
    using that by (simp add: libsql_store_def ls_append_def ls_append_with_outbox_eq [OF inv])
  show "\<exists>e. es_append libsql_store w events expected s = (Inl e, s)"
    if "\<not> appendable (ls_rows w s) expected events"
    using ls_append_fails [OF inv, of w expected events "[]"] that by (simp add: libsql_store_def ls_append_def)
  show "ls_inv s' \<and> (case res of Inl e \<Rightarrow> (\<lambda>w. ls_rows w s') = (\<lambda>w. ls_rows w s)
      | Inr _ \<Rightarrow> appendable (ls_rows w s) expected events
          \<and> (\<lambda>w. ls_rows w s') = (\<lambda>w. ls_rows w s)(w := ls_rows w s @ events))"
    if "es_append_with_outbox libsql_store w events expected rows s = (res, s')"
    using that inv ls_append_ok [OF inv, of w expected events rows] ls_append_fails [OF inv, of w expected events rows]
    by (cases "appendable (ls_rows w s) expected events \<and> list_all (\<lambda>r. \<not> i64_overflow (or_ordinal r)) rows")
       (auto simp: libsql_store_def)
  show "\<exists>e. fst (es_append_with_outbox libsql_store w events expected rows s) = Inl e"
    if "unat expected \<noteq> length (ls_rows w s)"
    using that by (simp add: libsql_store_def ls_append_with_outbox_eq [OF inv])
  show "ls_inv s' \<and> (\<lambda>w. ls_rows w s') = (\<lambda>w. ls_rows w s)"
    if "es_rearm_outbox_pending libsql_store rows s = (res, s')"
    using that inv rearm_rows_frame [of rows s]
    by (auto simp: libsql_store_def ls_rearm_outbox_pending_def ls_inv_def ls_rows_def split: if_splits sum.splits)
  show "ls_inv s' \<and> (\<lambda>w. ls_rows w s') = (\<lambda>w. ls_rows w s)"
    if "es_settle_outbox_row_cancelled libsql_store key s = (res, s')"
    using that inv by (auto simp: libsql_store_def ls_settle_outbox_row_cancelled_def cancelled_row_def intro!: ls_inv_update)
  show "ls_inv s' \<and> (\<lambda>w. ls_rows w s') = (\<lambda>w. ls_rows w s)"
    if "es_settle_workflow_outbox_rows_cancelled libsql_store w s = (keys, s')"
    using that inv
    by (auto simp: libsql_store_def ls_settle_workflow_outbox_rows_cancelled_def cancelled_row_def Let_def
        intro!: ls_inv_update split: if_splits)
  show "ls_inv s' \<and> (\<lambda>w. ls_rows w s') = (\<lambda>w. ls_rows w s)"
    if "es_record_visibility libsql_store v s = (res, s')"
    using that inv by (auto simp: libsql_store_def ls_record_visibility_def ls_inv_def)
  show "es_read_history libsql_store w s = Inr (ls_rows w s)"
    using inv sort_key_sorted [OF contiguous_sorted [of 0 "ls_rows w s"]]
    by (simp add: libsql_store_def ls_read_history_def ls_inv_def)
  show "contiguous (ls_rows w s)" using inv by (simp add: ls_inv_def)
qed

section \<open>Claims\<close>

definition mark_claimed :: "timestamp \<Rightarrow> string set \<Rightarrow> libsql_state \<Rightarrow> libsql_state" where
  "mark_claimed now keys =
     update_outbox (\<lambda>r. or_dispatch_key r \<in> keys \<and> or_status r = Pending) (claimed_row now)"

lemma mark_claimed_insert:
  "mark_claimed now K (claim_row_sql now k s) = mark_claimed now (insert k K) s"
proof -
  have "(\<lambda>r. if or_dispatch_key r \<in> K \<and> or_status r = Pending then claimed_row now r else r) \<circ>
      (\<lambda>r. if or_dispatch_key r = k \<and> or_status r = Pending then claimed_row now r else r) =
      (\<lambda>r. if or_dispatch_key r \<in> insert k K \<and> or_status r = Pending then claimed_row now r else r)"
    by (auto simp: fun_eq_iff claimed_row_def)
  then show ?thesis by (simp add: mark_claimed_def claim_row_sql_def update_outbox_def)
qed

lemma mark_claimed_empty [simp]: "mark_claimed now {} s = s"
  by (simp add: mark_claimed_def update_outbox_def)

lemma claim_loop_eq:
  "claim_loop now limit held rows claimed s =
     (let sel = take (limit - length claimed) (filter (\<lambda>r. or_workflow_id r \<notin> held) rows)
      in (claimed @ map (claimed_row now) sel, mark_claimed now (or_dispatch_key ` set sel) s))"
proof (induction rows arbitrary: claimed s)
  case (Cons r rows)
  show ?case
  proof (cases "limit \<le> length claimed \<or> or_workflow_id r \<in> held")
    case True
    then show ?thesis using Cons.IH [of claimed s] by (auto simp: Let_def)
  next
    case False
    then have "limit - length claimed = Suc (limit - Suc (length claimed))" by arith
    with False Cons.IH [of "claimed @ [claimed_row now r]" "claim_row_sql now (or_dispatch_key r) s"]
    show ?thesis by (simp add: Let_def mark_claimed_insert)
  qed
qed simp

text \<open>The rows a claim selects: the due rows of the queue that are not held, in due order, up to the
  limit.  Every claim operation is this selection.\<close>

definition selection ::
  "(outbox_row \<Rightarrow> bool) \<Rightarrow> nat \<Rightarrow> workflow_id set \<Rightarrow> libsql_state \<Rightarrow> outbox_row list" where
  "selection q limit held s =
     take limit (filter (\<lambda>r. or_workflow_id r \<notin> held) (sort_key due_order (filter q (ls_outbox s))))"

definition claim_result :: "timestamp \<Rightarrow> outbox_row list \<Rightarrow> libsql_state
    \<Rightarrow> (store_error, outbox_row list) result \<times> libsql_state" where
  "claim_result now sel s = (Inr (map (claimed_row now) sel), mark_claimed now (or_dispatch_key ` set sel) s)"

lemma claim_outbox_rows_eq:
  "claim_outbox_rows now limit s = claim_result now (selection (claimable now) (unat limit) {} s) s"
  by (auto simp: claim_outbox_rows_def claim_loop_eq claim_result_def selection_def Let_def unat_eq_zero)

lemma claim_excluding_eq:
  "claim_outbox_rows_excluding now limit held s =
     claim_result now (selection (claimable now) (unat limit) held s) s"
  by (auto simp: claim_outbox_rows_excluding_def claim_outbox_rows_eq claim_loop_eq claim_result_def
      selection_def Let_def)

lemma claim_scoped_eq:
  "claim_outbox_rows_scoped_excluding now scope limit held s =
     claim_result now (selection (scoped_claimable now scope) (unat limit) held s) s"
  by (auto simp: claim_outbox_rows_scoped_excluding_def claim_loop_eq claim_result_def selection_def Let_def)

lemma selection_in: "r \<in> set (selection q limit held s) \<Longrightarrow> q r \<and> or_workflow_id r \<notin> held \<and> r \<in> set (ls_outbox s)"
  by (auto simp: selection_def dest: in_set_takeD)

lemma length_selection:
  "length (selection q limit held s) =
     min limit (length (filter (\<lambda>r. q r \<and> or_workflow_id r \<notin> held) (ls_outbox s)))"
proof -
  have "length (filter p (sort_key f xs)) = length (filter p xs)" for p and f :: "outbox_row \<Rightarrow> timestamp \<times> string" and xs
    by (metis mset_filter mset_sort size_mset)
  then show ?thesis by (simp add: selection_def min.commute conj_commute)
qed

lemma marked_not_pending:
  "r \<in> set (ls_outbox (mark_claimed now K s)) \<Longrightarrow> or_dispatch_key r \<in> K \<Longrightarrow> or_status r \<noteq> Pending"
  by (auto simp: mark_claimed_def update_outbox_def claimed_row_def split: if_splits)


definition libsql_empty :: libsql_state where
  "libsql_empty = \<lparr>ls_events = [], ls_outbox = [], ls_visibility = [], ls_timers = []\<rparr>"

lemma libsql_empty_inv: "ls_inv libsql_empty"
  by (simp add: ls_inv_def ls_rows_def libsql_empty_def)

abbreviation s_row :: "workflow_id \<Rightarrow> u64 \<Rightarrow> outbox_row" where
  "s_row w n \<equiv> pending_row decimal_uuid w n ''charge'' s_payload 5"


text \<open>The scoped claim's SQL predicate is the pool contract: a scoped claim returns exactly due,
  unheld rows that the claim scope admits, in number up to the limit.\<close>

theorem scoped_claim_admits:
  assumes "claim_outbox_rows_scoped_excluding now scope limit held s = (Inr claimed, s')"
  shows "(\<forall>r \<in> set claimed. admits scope r \<and> or_workflow_id r \<notin> held)
    \<and> length claimed = min (unat limit)
        (length (filter (\<lambda>r. claimable now r \<and> admits scope r \<and> or_workflow_id r \<notin> held) (ls_outbox s)))"
proof -
  have sql: "scoped_claimable now scope r \<longleftrightarrow> claimable now r \<and> admits scope r" for r
    by (auto simp: scoped_claimable_def admits_def node_clause_def split: option.splits)
  have adm: "admits scope (claimed_row now r) \<longleftrightarrow> admits scope r" for r
    by (simp add: admits_def claimed_row_def)
  have c: "claimed = map (claimed_row now) (selection (scoped_claimable now scope) (unat limit) held s)"
    using assms by (auto simp: claim_scoped_eq claim_result_def)
  have wid: "or_workflow_id (claimed_row now r) = or_workflow_id r" for r by (simp add: claimed_row_def)
  have "\<forall>r \<in> set claimed. admits scope r \<and> or_workflow_id r \<notin> held"
    unfolding c by (auto simp: adm wid sql dest: selection_in)
  then show ?thesis by (simp add: c length_selection sql conj_assoc)
qed

theorem scoped_claim_admits_witness:
  "\<exists>claimed s'. claim_outbox_rows_scoped_excluding 9 (claim_scope_new ''default'' ''default'') 4 {}
      (libsql_empty\<lparr>ls_outbox := [s_row s_workflow 1]\<rparr>) = (Inr claimed, s') \<and> length claimed = 1"
proof -
  let ?s = "libsql_empty\<lparr>ls_outbox := [s_row s_workflow 1]\<rparr>"
  let ?sc = "claim_scope_new ''default'' ''default''"
  obtain claimed s' where 1: "claim_outbox_rows_scoped_excluding 9 ?sc 4 {} ?s = (Inr claimed, s')"
    by (auto simp: claim_scoped_eq claim_result_def)
  from scoped_claim_admits [OF 1] 1 show ?thesis
    by (auto simp: claimable_def pending_row_def admits_def claim_scope_new_def DEFAULT_OUTBOX_ROUTE_def
        DEFAULT_TASK_QUEUE_def)
qed

text \<open>Settling a finished workflow retires its dispatches: the returned keys are exactly its pending
  and claimed rows, none of its rows is live afterwards, so no claim can return one, and rows of other
  workflows and terminal rows are untouched.\<close>

theorem settled_workflow_not_claimed:
  assumes "ls_settle_workflow_outbox_rows_cancelled w s = (Inr keys, s')"
  shows "set keys = or_dispatch_key ` {r \<in> set (ls_outbox s). or_workflow_id r = w \<and> live_row r}
    \<and> ls_outbox s' = map (\<lambda>r. if or_workflow_id r = w \<and> live_row r then cancelled_row r else r) (ls_outbox s)
    \<and> (\<forall>r \<in> set (ls_outbox s'). or_workflow_id r = w \<longrightarrow> \<not> live_row r \<and> \<not> claimable now r)"
proof -
  let ?p = "\<lambda>r. or_workflow_id r = w \<and> live_row r"
  have keys: "set keys = or_dispatch_key ` {r \<in> set (ls_outbox s). ?p r}"
    using assms by (auto simp: ls_settle_workflow_outbox_rows_cancelled_def Let_def)
  have out: "ls_outbox s' = map (\<lambda>r. if ?p r then cancelled_row r else r) (ls_outbox s)"
  proof (cases "filter ?p (ls_outbox s) = []")
    case True
    then have "map (\<lambda>r. if ?p r then cancelled_row r else r) (ls_outbox s) = ls_outbox s"
      by (intro map_idI) (auto simp: filter_empty_conv)
    with True assms show ?thesis by (auto simp: ls_settle_workflow_outbox_rows_cancelled_def Let_def)
  next
    case False
    then have "sort (map or_dispatch_key (filter ?p (ls_outbox s))) \<noteq> []"
      by (simp only: length_greater_0_conv [symmetric] length_sort length_map)
    with assms show ?thesis
      by (auto simp: ls_settle_workflow_outbox_rows_cancelled_def Let_def update_outbox_def)
  qed
  moreover have "\<forall>r \<in> set (ls_outbox s'). or_workflow_id r = w \<longrightarrow> \<not> live_row r \<and> \<not> claimable now r"
  proof (intro ballI impI)
    fix r'
    assume mem: "r' \<in> set (ls_outbox s')" and w: "or_workflow_id r' = w"
    from mem obtain r where r': "r' = (if ?p r then cancelled_row r else r)"
      unfolding out set_map by (elim imageE)
    have "\<not> live_row r'"
      using w unfolding r' by (cases "?p r") (auto simp: cancelled_row_def live_row_def)
    then show "\<not> live_row r' \<and> \<not> claimable now r'" by (simp add: live_row_def claimable_def)
  qed
  ultimately show ?thesis using keys by blast
qed

theorem settled_workflow_not_claimed_witness:
  "\<exists>keys s'. ls_settle_workflow_outbox_rows_cancelled s_workflow (libsql_empty\<lparr>ls_outbox := [s_row s_workflow 1]\<rparr>)
      = (Inr keys, s') \<and> keys \<noteq> []"
proof -
  let ?s = "libsql_empty\<lparr>ls_outbox := [s_row s_workflow 1]\<rparr>"
  obtain keys s' where 1: "ls_settle_workflow_outbox_rows_cancelled s_workflow ?s = (Inr keys, s')"
    by (auto simp: ls_settle_workflow_outbox_rows_cancelled_def Let_def)
  have "s_row s_workflow 1 \<in> {r \<in> set (ls_outbox ?s). or_workflow_id r = s_workflow \<and> live_row r}"
    by (simp add: live_row_def pending_row_def)
  moreover have "set keys = or_dispatch_key ` {r \<in> set (ls_outbox ?s). or_workflow_id r = s_workflow \<and> live_row r}"
    using settled_workflow_not_claimed [OF 1, of 0] by (elim conjE)
  ultimately have "or_dispatch_key (s_row s_workflow 1) \<in> set keys" by (simp only: imageI)
  then have "keys \<noteq> []" by (cases keys) simp_all
  with 1 show ?thesis by blast
qed

lemma stage_rows_known: "or_dispatch_key ` set rows \<subseteq> or_dispatch_key ` set table \<Longrightarrow> stage_rows rows table = table"
  by (induction rows) (auto simp: has_key_iff)

text \<open>Staging is idempotent: staging a fan-out batch a second time changes nothing, whatever state the
  rows have reached meanwhile, because every key is already present; and no staging ever creates two
  rows with one dispatch key or alters an existing row.\<close>

theorem staging_idempotent:
  assumes "append_outbox_batch rows s = (Inr (), s')" and "ls_inv s"
    and "map or_dispatch_key (ls_outbox s'') = map or_dispatch_key (ls_outbox s')"
    and "ls_events s'' = ls_events s'"
  shows "ls_inv s' \<and> prefix (ls_outbox s) (ls_outbox s') \<and> append_outbox_batch rows s'' = (Inr (), s'')"
proof (cases "rows = []")
  case True
  with assms show ?thesis by (simp add: append_outbox_batch_def)
next
  case False
  with assms(1) have ok: "List.find (\<lambda>r. i64_overflow (or_ordinal r)) rows = None"
    and s': "s' = s\<lparr>ls_outbox := stage_rows rows (ls_outbox s)\<rparr>"
    by (auto simp: append_outbox_batch_def insert_rows_eq split: option.splits)
  have "ls_inv s'" using assms(2) by (simp add: s' ls_inv_def stage_rows_distinct)
  moreover have "or_dispatch_key ` set rows \<subseteq> or_dispatch_key ` set (ls_outbox s'')"
    using arg_cong [OF assms(3), of set] stage_rows_keys [of rows "ls_outbox s"] s' by auto
  then have "append_outbox_batch rows s'' = (Inr (), s'')"
    using False ok by (simp add: append_outbox_batch_def insert_rows_eq stage_rows_known)
  ultimately show ?thesis by (simp add: s' stage_rows_prefix)
qed

theorem staging_idempotent_witness:
  "\<exists>s'. append_outbox_batch [s_row s_workflow 1] libsql_empty = (Inr (), s')
     \<and> append_outbox_batch [s_row s_workflow 1] s' = (Inr (), s')"
proof -
  obtain s' where "append_outbox_batch [s_row s_workflow 1] libsql_empty = (Inr (), s')"
    by (simp add: append_outbox_batch_def insert_outbox_row_def has_key_def libsql_empty_def
        i64_overflow_def pending_row_def)
  from staging_idempotent [OF this libsql_empty_inv refl refl] this show ?thesis by blast
qed

text \<open>A retry is not fenced by the row's state: returning a row to the queue revives it even when the
  workflow has already been settled and the row cancelled, so the dispatch is claimed again.\<close>

theorem retry_revives_cancelled:
  assumes "r \<in> set (ls_outbox s)" and "or_status r = CancelledRow"
    and "retry_outbox_row (or_dispatch_key r) n at s = (Inr (), s')" and "at \<le> now" and "0 < limit"
  shows "\<exists>claimed s''. claim_outbox_rows now limit s' = (Inr claimed, s'') \<and> claimed \<noteq> []"
proof -
  let ?r = "r\<lparr>or_status := Pending, or_attempt := n, or_visible_after := at, or_claimed_at := None\<rparr>"
  have "?r \<in> set (ls_outbox s')" using assms(1,3) by (force simp: retry_outbox_row_def update_outbox_def)
  then have "filter (claimable now) (ls_outbox s') \<noteq> []"
    using assms(4) by (auto simp: claimable_def filter_empty_conv intro!: bexI [of _ ?r])
  then have "length (selection (claimable now) (unat limit) {} s') > 0"
    using assms(5) by (simp add: length_selection unat_gt_0 word_gt_0)
  then show ?thesis by (simp add: claim_outbox_rows_eq claim_result_def)
qed

theorem retry_revives_cancelled_witness:
  "\<exists>claimed s'. claim_outbox_rows 9 1 (snd (retry_outbox_row (or_dispatch_key (s_row s_workflow 1)) 1 5
      (libsql_empty\<lparr>ls_outbox := [cancelled_row (s_row s_workflow 1)]\<rparr>))) = (Inr claimed, s') \<and> claimed \<noteq> []"
  by (rule retry_revives_cancelled [of "cancelled_row (s_row s_workflow 1)" "libsql_empty\<lparr>ls_outbox := [cancelled_row (s_row s_workflow 1)]\<rparr>" 1 5])
     (simp_all add: cancelled_row_def pending_row_def retry_outbox_row_def)

end
