(* ===== verification/Fan_Out.thy ===== *)
theory Fan_Out
  imports Cursor Recorder Libsql_Store
begin

text \<open>
  \<^verbatim>\<open>crates/aion/src/durability/recorder/fan_out.rs\<close>: dispatching a batch of activities (their schedule
  and start events together with one outbox row each, in one store transaction), re-arming rows after a
  crash, and recording a completion at most once per ordinal and run.

  The lemmas hold over every store that satisfies the event-store contract; the properties are stated
  over the libSQL store, the one with a durable outbox.
\<close>

datatype fan_out_outcome =
  OutcomeCompleted payload u32
| OutcomeFailed activity_error u32

datatype fan_out_completion_result = CompletionRecorded | CompletionDropped

record fan_out_item =
  fi_ordinal :: u64
  fi_namespace :: string
  fi_task_queue :: string
  fi_node :: "string option"
  fi_activity_type :: string
  fi_input :: payload
  fi_attempt :: u32

definition fan_out_row :: "show_uuid \<Rightarrow> recorder \<Rightarrow> timestamp \<Rightarrow> fan_out_item \<Rightarrow> outbox_row" where
  "fan_out_row show_uuid r at item =
     with_node (with_task_queue (with_namespace (with_run_id
       (pending_row show_uuid (rc_workflow_id r) (fi_ordinal item) (fi_activity_type item) (fi_input item) at)
       (rc_run_id r)) (fi_namespace item)) (fi_task_queue item)) (fi_node item)"

text \<open>The loop that builds the event batch, \<open>previous\<close> being the last envelope stamped.\<close>

fun fan_out_events ::
  "recorder \<Rightarrow> timestamp \<Rightarrow> event_envelope option \<Rightarrow> fan_out_item list \<Rightarrow> (durability_error, history) result" where
  "fan_out_events r at previous [] = Inr []"
| "fan_out_events r at previous (item # items) =
     bind_res (case previous of Some p \<Rightarrow> envelope_after r p at | None \<Rightarrow> next_envelope r at) (\<lambda>scheduled.
     bind_res (envelope_after r scheduled at) (\<lambda>started.
     bind_res (fan_out_events r at (Some started) items) (\<lambda>events.
       Inr (ActivityScheduled scheduled (from_sequence_position (fi_ordinal item)) (fi_activity_type item)
              (fi_input item) (fi_task_queue item) (fi_node item)
            # ActivityStarted started (from_sequence_position (fi_ordinal item)) (fi_attempt item)
            # events))))"

definition record_fan_out_dispatch ::
  "show_uuid \<Rightarrow> 's event_store \<Rightarrow> timestamp \<Rightarrow> fan_out_item list \<Rightarrow> recorder \<Rightarrow> 's \<Rightarrow> (unit, 's) recorded" where
  "record_fan_out_dispatch show_uuid ops at items r s =
     (if items = [] then (Inr (), r, s)
      else
        (case fan_out_events r at None items of
           Inl e \<Rightarrow> (Inl e, r, s)
         | Inr events \<Rightarrow>
             commit (\<lambda>expected. es_append_with_outbox ops (rc_workflow_id r) events expected
                       (map (fan_out_row show_uuid r at) items)) (length events) r s))"

definition rearm_outbox_pending ::
  "show_uuid \<Rightarrow> 's event_store \<Rightarrow> timestamp \<Rightarrow> fan_out_item list \<Rightarrow> recorder \<Rightarrow> 's \<Rightarrow> (unit, 's) recorded" where
  "rearm_outbox_pending show_uuid ops at items r s =
     (if items = [] then (Inr (), r, s)
      else (let (res, s') = es_rearm_outbox_pending ops (map (fan_out_row show_uuid r at) items) s
            in (map_err StoreErr res, r, s')))"

definition run_id_mismatches_recorder :: "run_id option \<Rightarrow> run_id option \<Rightarrow> bool" where
  "run_id_mismatches_recorder completion current =
     (case (completion, current) of (Some a, Some b) \<Rightarrow> a \<noteq> b | _ \<Rightarrow> False)"

definition completion_history :: "history \<Rightarrow> run_id option \<Rightarrow> history" where
  "completion_history h run = (case run of Some r \<Rightarrow> run_segment h r | None \<Rightarrow> h)"

fun resolves_ordinal :: "activity_id \<Rightarrow> event \<Rightarrow> bool" where
  "resolves_ordinal a (ActivityCompleted _ b _ _) = (b = a)"
| "resolves_ordinal a (ActivityFailed _ b _ _) = (b = a)"
| "resolves_ordinal a (ActivityCancelled _ b _) = (b = a)"
| "resolves_ordinal a _ = False"

definition ordinal_is_resolved :: "history \<Rightarrow> activity_id \<Rightarrow> bool" where
  "ordinal_is_resolved h a = list_ex (resolves_ordinal a) h"

fun completion_event :: "activity_id \<Rightarrow> fan_out_outcome \<Rightarrow> event_envelope \<Rightarrow> event" where
  "completion_event a (OutcomeCompleted p attempt) env = ActivityCompleted env a p attempt"
| "completion_event a (OutcomeFailed err attempt) env = ActivityFailed env a err attempt"

definition record_fan_out_completion ::
  "'s event_store \<Rightarrow> timestamp \<Rightarrow> u64 \<Rightarrow> run_id option \<Rightarrow> fan_out_outcome \<Rightarrow> recorder \<Rightarrow> 's
    \<Rightarrow> (fan_out_completion_result, 's) recorded" where
  "record_fan_out_completion ops at ordinal run outcome r s =
     (case map_err StoreErr (es_read_history ops (rc_workflow_id r) s) of
        Inl e \<Rightarrow> (Inl e, r, s)
      | Inr h \<Rightarrow>
          if run_id_mismatches_recorder run (rc_run_id r) then (Inr CompletionDropped, r, s)
          else if ordinal_is_resolved (completion_history h run) (from_sequence_position ordinal)
          then (Inr CompletionDropped, r, s)
          else and_then
                 (append_with ops at (completion_event (from_sequence_position ordinal) outcome) r s)
                 (\<lambda>_ r s. (Inr CompletionRecorded, r, s)))"

section \<open>Dispatch\<close>

lemma or_ordinal_fan_out_row [simp]: "or_ordinal (fan_out_row show_uuid r at item) = fi_ordinal item"
  by (simp add: fan_out_row_def with_node_def with_task_queue_def with_namespace_def with_run_id_def pending_row_def)

lemma envelope_after_seq: "envelope_after r p at = Inr env \<Longrightarrow> unat (env_seq env) = Suc (unat (env_seq p))"
  by (auto simp: envelope_after_def bind_res_eq_Inr_iff dest!: checked_add_SomeD)

lemma next_envelope_seq: "next_envelope r at = Inr env \<Longrightarrow> unat (env_seq env) = Suc (unat (current_head r))"
  by (auto simp: next_envelope_eq next_env_def unat_head_Suc split: if_splits)

lemma length_fan_out_events: "fan_out_events r at p items = Inr events \<Longrightarrow> length events = 2 * length items"
  by (induction items arbitrary: p events) (auto simp: bind_res_eq_Inr_iff)

lemma contiguous_fan_out_events:
  assumes "fan_out_events r at p items = Inr events"
    and "n = (case p of Some env \<Rightarrow> unat (env_seq env) | None \<Rightarrow> unat (current_head r))"
  shows "contiguous_from n events"
  using assms
proof (induction items arbitrary: p n events)
  case (Cons item items)
  from Cons.prems(1) obtain sched started rest where
    1: "(case p of Some p \<Rightarrow> envelope_after r p at | None \<Rightarrow> next_envelope r at) = Inr sched"
    and 2: "envelope_after r sched at = Inr started"
    and 3: "fan_out_events r at (Some started) items = Inr rest"
    and ev: "events = ActivityScheduled sched (from_sequence_position (fi_ordinal item)) (fi_activity_type item)
              (fi_input item) (fi_task_queue item) (fi_node item)
            # ActivityStarted started (from_sequence_position (fi_ordinal item)) (fi_attempt item) # rest"
    by (auto simp: bind_res_eq_Inr_iff)
  have "unat (env_seq sched) = Suc n"
    using 1 Cons.prems(2) by (cases p) (auto dest: envelope_after_seq next_envelope_seq)
  moreover have "unat (env_seq started) = Suc (unat (env_seq sched))" by (rule envelope_after_seq [OF 2])
  moreover from Cons.IH [OF 3] calculation have "contiguous_from (Suc (Suc n)) rest" by simp
  ultimately show ?case by (simp add: ev seq_def)
qed simp

text \<open>The batch has, item by item, the schedule and start event of the item's ordinal.\<close>

lemma fan_out_events_shape:
  assumes "fan_out_events r at p items = Inr events" and "i < length items"
  shows "\<exists>env env'. events ! (2 * i) =
      ActivityScheduled env (from_sequence_position (fi_ordinal (items ! i))) (fi_activity_type (items ! i))
        (fi_input (items ! i)) (fi_task_queue (items ! i)) (fi_node (items ! i))
    \<and> events ! (2 * i + 1) =
      ActivityStarted env' (from_sequence_position (fi_ordinal (items ! i))) (fi_attempt (items ! i))"
  using assms
proof (induction items arbitrary: p events i)
  case (Cons item items)
  show ?case
  proof (cases i)
    case 0
    with Cons.prems show ?thesis by (auto simp: bind_res_eq_Inr_iff)
  next
    case (Suc j)
    from Cons.prems(1) obtain a b rest started where "events = a # b # rest"
      "fan_out_events r at (Some started) items = Inr rest" by (auto simp: bind_res_eq_Inr_iff)
    with Cons.IH [of "Some started" rest j] Cons.prems(2) Suc show ?thesis by simp
  qed
qed simp

context event_store_laws
begin

lemmas op_appends = recording_op_appends and op_stale = recording_op_stale

lemma recording_op_cases:
  assumes "recording_op ops at f build" and "store_inv s" and "f r s = (res, r', s')"
  shows "store_inv s' \<and>
    (case res of
       Inl e \<Rightarrow> s' = s \<and> r' = r
     | Inr _ \<Rightarrow> in_step hist r s \<and> in_step hist r' s' \<and> rc_workflow_id r' = rc_workflow_id r
         \<and> hist s' = (hist s)(rc_workflow_id r :=
              hist s (rc_workflow_id r) @ [build (rc_workflow_id r) (next_env r at)]))"
proof (cases "in_step hist r s \<and> current_head r \<noteq> - 1")
  case True
  with recording_op_appends [OF assms(1,2), of r] assms(3) show ?thesis by fastforce
next
  case False
  with recording_op_stale [OF assms(1,2), of r] recording_op_full [OF assms(1), of r s] assms(2,3) show ?thesis by fastforce
qed

lemma dispatch_cases:
  assumes "store_inv s" and "items \<noteq> []"
    and "record_fan_out_dispatch show_uuid ops at items r s = (res, r', s')"
  shows "store_inv s' \<and>
    (case res of
       Inl e \<Rightarrow> hist s' = hist s \<and> r' = r
     | Inr _ \<Rightarrow> \<exists>events. fan_out_events r at None items = Inr events
         \<and> hist s' = (hist s)(rc_workflow_id r := hist s (rc_workflow_id r) @ events)
         \<and> in_step hist r' s' \<and> current_head r' = current_head r + of_nat (2 * length items))"
proof (cases "fan_out_events r at None items")
  case (Inl e)
  with assms show ?thesis by (auto simp: record_fan_out_dispatch_def)
next
  case (Inr events)
  let ?app = "\<lambda>expected. es_append_with_outbox ops (rc_workflow_id r) events expected
      (map (fan_out_row show_uuid r at) items)"
  have c: "commit ?app (length events) r s = (res, r', s')"
    using assms(2,3) Inr by (simp add: record_fan_out_dispatch_def)
  from commit_cases [OF assms(1) refl _ c] outbox_append [OF assms(1)] Inr length_fan_out_events [OF Inr]
  show ?thesis by (cases res) (auto simp: current_head_def)
qed

lemma completion_cases:
  assumes "store_inv s" and "in_step hist r s" and "current_head r \<noteq> - 1"
  shows "record_fan_out_completion ops at ordinal run outcome r s = (Inr CompletionDropped, r, s)
      \<and> (run_id_mismatches_recorder run (rc_run_id r)
         \<or> ordinal_is_resolved (completion_history (hist s (rc_workflow_id r)) run) (ActivityId ordinal))
    \<or> (\<exists>r' s'. record_fan_out_completion ops at ordinal run outcome r s = (Inr CompletionRecorded, r', s')
        \<and> \<not> run_id_mismatches_recorder run (rc_run_id r)
        \<and> \<not> ordinal_is_resolved (completion_history (hist s (rc_workflow_id r)) run) (ActivityId ordinal)
        \<and> store_inv s' \<and> in_step hist r' s' \<and> current_head r' = current_head r + 1 \<and> rc_run_id r' = rc_run_id r
        \<and> rc_workflow_id r' = rc_workflow_id r
        \<and> hist s' = (hist s)(rc_workflow_id r := hist s (rc_workflow_id r) @
             [completion_event (ActivityId ordinal) outcome (next_env r at)]))"
proof -
  have "envelope (completion_event (ActivityId ordinal) outcome (next_env r at)) = next_env r at"
    by (cases outcome) simp_all
  from append_with_in_step [where at = at and build = "completion_event (ActivityId ordinal) outcome", OF assms this] assms(2) unat_head_Suc [OF assms(3)]
  show ?thesis
    by (auto simp: record_fan_out_completion_def read_back [OF assms(1)] from_sequence_position_def
        in_step_def current_head_def)
qed

end

section \<open>The run a completion belongs to\<close>

text \<open>\<open>latest_run h x\<close>: run \<open>x\<close> has started and no later run has, so new events belong to it.\<close>

definition latest_run :: "history \<Rightarrow> run_id \<Rightarrow> bool" where
  "latest_run h x = (case position (starts_run x) h of
     Some i \<Rightarrow> list_all (\<lambda>e. \<not> is_WorkflowStarted e) (drop (Suc i) h) | None \<Rightarrow> False)"

lemma run_segment_extend:
  assumes "latest_run h x" and "list_all (\<lambda>e. \<not> is_WorkflowStarted e) later"
  shows "run_segment (h @ later) x = run_segment h x @ later" and "latest_run (h @ later) x"
proof -
  from assms(1) obtain i where i: "position (starts_run x) h = Some i"
    and none: "list_all (\<lambda>e. \<not> is_WorkflowStarted e) (drop (Suc i) h)"
    by (auto simp: latest_run_def split: option.splits)
  have lt: "i < length h" using i by (rule position_SomeD(1))
  have i': "position (starts_run x) (h @ later) = Some i" using i by (simp add: position_append)
  have all: "list_all (\<lambda>e. \<not> is_WorkflowStarted e) (drop (Suc i) h @ later)"
    using none assms(2) by simp
  have whole: "takeWhile (\<lambda>e. \<not> is_WorkflowStarted e) t = t"
    if "list_all (\<lambda>e. \<not> is_WorkflowStarted e) t" for t
    using that by (simp add: takeWhile_eq_all_conv list_all_iff)
  show "run_segment (h @ later) x = run_segment h x @ later"
    using lt by (simp add: run_segment_eq [OF i] run_segment_eq [OF i'] whole [OF none] whole [OF all] nth_append)
  show "latest_run (h @ later) x" using i' all lt by (simp add: latest_run_def)
qed

lemma completion_history_extend:
  assumes "\<And>x. run = Some x \<Longrightarrow> latest_run h x" and "list_all (\<lambda>e. \<not> is_WorkflowStarted e) later"
  shows "completion_history (h @ later) run = completion_history h run @ later"
  using assms run_segment_extend(1) by (cases run) (auto simp: completion_history_def)

lemma completion_event_resolves [simp]:
  "resolves_ordinal a (completion_event a outcome env)"
  "\<not> is_WorkflowStarted (completion_event a outcome env)"
  by (cases outcome; simp)+

section \<open>Properties over the libSQL store\<close>

lemma dispatch_failed_unchanged:
  assumes "ls_inv s" and "items \<noteq> []"
    and "record_fan_out_dispatch show_uuid libsql_store at items r s = (Inl e, r', s')"
  shows "r' = r \<and> s' = s"
proof (cases "fan_out_events r at None items")
  case (Inl e)
  with assms show ?thesis by (auto simp: record_fan_out_dispatch_def)
next
  case (Inr events)
  have rest: "hist_same \<and> r' = r" if "hist_same \<longleftrightarrow> ls_hist s' = ls_hist s" for hist_same
    using libsql.dispatch_cases [OF assms] that by simp
  let ?rows = "map (fan_out_row show_uuid r at) items"
  have len: "events \<noteq> []" using length_fan_out_events [OF Inr] assms(2) by auto
  have def: "record_fan_out_dispatch show_uuid libsql_store at items r s =
      commit (\<lambda>expected. ls_append_with_outbox (rc_workflow_id r) events expected ?rows) (length events) r s"
    using assms(2) Inr by (simp add: record_fan_out_dispatch_def libsql_store_def)
  show ?thesis
  proof (cases "appendable (ls_hist s (rc_workflow_id r)) (current_head r) events
      \<and> list_all (\<lambda>r. \<not> i64_overflow (or_ordinal r)) ?rows")
    case True
    with ls_append_ok [OF assms(1)] obtain s1 where
      "ls_append_with_outbox (rc_workflow_id r) events (current_head r) ?rows s = (Inr (), s1)"
      "(\<lambda>v. ls_rows v s1) = (\<lambda>v. ls_rows v s)(rc_workflow_id r := ls_rows (rc_workflow_id r) s @ events)"
      by blast
    moreover from this(1) assms(3) def have "s' = s1" by (auto simp: commit_def split: sum.splits)
    ultimately have "ls_hist s' (rc_workflow_id r) \<noteq> ls_hist s (rc_workflow_id r)"
      using len by (simp add: fun_eq_iff)
    with rest [OF refl] show ?thesis by metis
  next
    case False
    from ls_append_fails [OF assms(1) this] assms(3) def show ?thesis by (auto simp: commit_def)
  qed
qed

text \<open>C8: dispatching a fan-out is atomic. When it fails, neither the recorder nor the database has
  changed. When it succeeds, the workflow's history has grown by exactly two events per item, in item
  order and contiguously numbered, the schedule and the start of the item's ordinal; every item has an
  outbox row under its dispatch key, existing rows are untouched, and the recorder is in step.\<close>

theorem fan_out_dispatch_atomic:
  assumes "ls_inv s" and "items \<noteq> []"
    and "record_fan_out_dispatch show_uuid libsql_store at items r s = (res, r', s')"
  shows "case res of
      Inl e \<Rightarrow> r' = r \<and> s' = s
    | Inr _ \<Rightarrow> ls_inv s' \<and> in_step ls_hist r' s'
        \<and> prefix (ls_outbox s) (ls_outbox s')
        \<and> or_dispatch_key ` set (ls_outbox s') =
            or_dispatch_key ` set (ls_outbox s) \<union> or_dispatch_key ` fan_out_row show_uuid r at ` set items
        \<and> (\<exists>events. ls_hist s' = (ls_hist s)(rc_workflow_id r := ls_hist s (rc_workflow_id r) @ events)
            \<and> length events = 2 * length items
            \<and> (\<forall>i < length items. \<exists>env env'.
                 events ! (2 * i) = ActivityScheduled env (ActivityId (fi_ordinal (items ! i)))
                   (fi_activity_type (items ! i)) (fi_input (items ! i)) (fi_task_queue (items ! i)) (fi_node (items ! i))
               \<and> events ! (2 * i + 1) = ActivityStarted env' (ActivityId (fi_ordinal (items ! i))) (fi_attempt (items ! i))))"
proof (cases res)
  case (Inl e)
  with dispatch_failed_unchanged [OF assms(1,2)] assms(3) show ?thesis by simp
next
  case (Inr u)
  from libsql.dispatch_cases [OF assms] Inr obtain events where
    ev: "fan_out_events r at None items = Inr events" and inv: "ls_inv s'" and step: "in_step ls_hist r' s'"
    and h: "ls_hist s' = (ls_hist s)(rc_workflow_id r := ls_hist s (rc_workflow_id r) @ events)" by auto
  have "ls_append_with_outbox (rc_workflow_id r) events (current_head r) (map (fan_out_row show_uuid r at) items) s
      = (Inr (), s')"
    using assms(2,3) Inr ev
    by (auto simp: record_fan_out_dispatch_def libsql_store_def commit_def split: prod.splits sum.splits)
  then have "ls_outbox s' = stage_rows (map (fan_out_row show_uuid r at) items) (ls_outbox s)"
    using assms(2) by (auto simp: ls_append_with_outbox_eq [OF assms(1)] split: if_splits option.splits)
  with Inr inv step h length_fan_out_events [OF ev] fan_out_events_shape [OF ev]
  show ?thesis by (auto simp: stage_rows_prefix stage_rows_keys image_image from_sequence_position_def)
qed

text \<open>C9: a completion is recorded at most once per ordinal and run. Once one delivery has been
  recorded, a redelivery for the same ordinal and run, with any outcome and through any recorder of the
  workflow, is dropped without touching the database, however far the run has advanced since.\<close>

theorem fan_out_completion_once:
  assumes "ls_inv s" and "in_step ls_hist r s" and "current_head r \<noteq> - 1"
    and "\<And>x. run = Some x \<Longrightarrow> latest_run (ls_hist s (rc_workflow_id r)) x"
    and "record_fan_out_completion libsql_store at ordinal run outcome r s = (Inr CompletionRecorded, r', s')"
    and "ls_inv s''" and "rc_workflow_id r'' = rc_workflow_id r"
    and "ls_hist s'' (rc_workflow_id r) = ls_hist s' (rc_workflow_id r) @ later"
    and "list_all (\<lambda>e. \<not> is_WorkflowStarted e) later"
  shows "record_fan_out_completion libsql_store at' ordinal run outcome' r'' s'' = (Inr CompletionDropped, r'', s'')"
proof -
  let ?w = "rc_workflow_id r" and ?e = "completion_event (ActivityId ordinal) outcome (next_env r at)"
  from libsql.completion_cases [OF assms(1-3), of at ordinal run outcome] assms(5)
  have "ls_hist s' ?w = ls_hist s ?w @ [?e]" by (auto simp: fun_eq_iff)
  then have "ls_hist s'' ?w = ls_hist s ?w @ ?e # later" using assms(8) by simp
  then have "completion_history (ls_hist s'' ?w) run = completion_history (ls_hist s ?w) run @ ?e # later"
    using completion_history_extend [where run = run and later = "?e # later", OF assms(4)] assms(9) by simp
  then have "ordinal_is_resolved (completion_history (ls_hist s'' ?w) run) (ActivityId ordinal)"
    by (simp add: ordinal_is_resolved_def)
  then show ?thesis
    using libsql.read_back [OF assms(6)] assms(7)
    by (simp add: record_fan_out_completion_def from_sequence_position_def)
qed

text \<open>A completion carrying a run other than the recorder's own is dropped, and so is one whose
  ordinal already has a completed, failed or cancelled event in its run; in both cases nothing changes.
  Every other completion appends exactly one event, the outcome as delivered, at the next sequence.\<close>

theorem fan_out_completion_exact:
  assumes "ls_inv s" and "in_step ls_hist r s" and "current_head r \<noteq> - 1"
  shows "if run_id_mismatches_recorder run (rc_run_id r)
            \<or> ordinal_is_resolved (completion_history (ls_hist s (rc_workflow_id r)) run) (ActivityId ordinal)
      then record_fan_out_completion libsql_store at ordinal run outcome r s = (Inr CompletionDropped, r, s)
      else \<exists>r' s'. record_fan_out_completion libsql_store at ordinal run outcome r s = (Inr CompletionRecorded, r', s')
        \<and> ls_inv s' \<and> in_step ls_hist r' s' \<and> current_head r' = current_head r + 1
        \<and> ls_hist s' = (ls_hist s)(rc_workflow_id r := ls_hist s (rc_workflow_id r) @
             [completion_event (ActivityId ordinal) outcome (next_env r at)])"
  using libsql.completion_cases [OF assms, of at ordinal run outcome] by auto

section \<open>Witnesses\<close>

abbreviation s_item :: "u64 \<Rightarrow> fan_out_item" where
  "s_item n \<equiv> \<lparr>fi_ordinal = n, fi_namespace = ''default'', fi_task_queue = ''default'', fi_node = None,
     fi_activity_type = ''charge'', fi_input = s_payload, fi_attempt = 1\<rparr>"

definition s_database :: "history \<Rightarrow> libsql_state" where
  "s_database h = libsql_empty\<lparr>ls_events := map (Pair s_workflow) h\<rparr>"

definition s_recorder :: "history \<Rightarrow> recorder" where
  "s_recorder h = (recorder_resume_at s_workflow (of_nat (length h)))\<lparr>rc_run_id := Some s_run\<rparr>"

lemma s_database_rows: "ls_rows w (s_database h) = (if w = s_workflow then h else [])"
  by (induction h) (auto simp: s_database_def ls_rows_def libsql_empty_def)

lemma s_database_inv: "contiguous h \<Longrightarrow> ls_inv (s_database h)"
  using libsql_empty_inv by (simp add: ls_inv_def s_database_rows) (simp add: s_database_def)

lemmas s_recorder_simps = s_recorder_def recorder_resume_at_def current_head_def

lemma s_recorded:
  "ls_inv (s_database [s_started 1])" "in_step ls_hist (s_recorder [s_started 1]) (s_database [s_started 1])"
  "current_head (s_recorder [s_started 1]) \<noteq> - 1"
  by (simp_all add: s_database_inv seq_def in_step_def s_database_rows s_recorder_simps from_head_def)

lemma s_dispatched:
  obtains r' s' where "record_fan_out_dispatch decimal_uuid libsql_store 9 [s_item 0, s_item 1]
       (s_recorder [s_started 1]) (s_database [s_started 1]) = (Inr (), r', s')"
    and "ls_inv s'" and "in_step ls_hist r' s'" and "current_head r' = 5" and "rc_workflow_id r' = s_workflow"
    and "length (ls_hist s' s_workflow) = 5"
proof -
  let ?r = "s_recorder [s_started 1]" and ?s = "s_database [s_started 1]" and ?items = "[s_item 0, s_item 1]"
  obtain res r' s' where 1: "record_fan_out_dispatch decimal_uuid libsql_store 9 ?items ?r ?s = (res, r', s')"
    by (metis prod_cases3)
  have 2: "res = Inr () \<and> rc_workflow_id r' = s_workflow"
    using 1 unfolding record_fan_out_dispatch_def
    by (simp add: commit_def s_recorder_simps from_head_def next_envelope_def next_seq_def envelope_after_def
        checked_add_def libsql_store_def ls_append_with_outbox_eq [OF s_recorded(1)] s_database_rows
        i64_overflow_def mark_append_success_def u64_try_from_def seq_def del: stage_rows.simps) auto
  from libsql.dispatch_cases [OF s_recorded(1) _ 1] 2 obtain events where
    "fan_out_events ?r 9 None ?items = Inr events" "ls_inv s'" "in_step ls_hist r' s'"
    "ls_hist s' s_workflow = s_started 1 # events" "current_head r' = current_head ?r + 4"
    by (auto simp: s_database_rows s_recorder_simps dest: fun_cong [where x = s_workflow])
  with 1 2 length_fan_out_events [of ?r 9 None ?items events] that [of r' s'] show ?thesis
    by (simp add: s_recorder_simps from_head_def)
qed

theorem fan_out_dispatch_atomic_witness:
  "\<exists>r' s'. record_fan_out_dispatch decimal_uuid libsql_store 9 [s_item 0, s_item 1]
       (s_recorder [s_started 1]) (s_database [s_started 1]) = (Inr (), r', s')
     \<and> length (ls_hist s' s_workflow) = 5"
proof -
  obtain r' s' where 1: "record_fan_out_dispatch decimal_uuid libsql_store 9 [s_item 0, s_item 1]
      (s_recorder [s_started 1]) (s_database [s_started 1]) = (Inr (), r', s')" by (rule s_dispatched)
  with fan_out_dispatch_atomic [OF s_recorded(1) _ 1] show ?thesis
    by (auto simp: s_database_rows s_recorder_simps dest: fun_cong [where x = s_workflow])
qed

lemma s_latest: "latest_run (ls_hist (s_database [s_started 1]) (rc_workflow_id (s_recorder [s_started 1]))) s_run"
  by (simp add: s_database_rows s_recorder_simps latest_run_def)

theorem fan_out_completion_exact_witness:
  "\<exists>r' s'. record_fan_out_completion libsql_store 9 0 (Some s_run) (OutcomeCompleted s_payload 1)
       (s_recorder [s_started 1]) (s_database [s_started 1]) = (Inr CompletionRecorded, r', s')"
  using fan_out_completion_exact [OF s_recorded, of "Some s_run" 0 9 "OutcomeCompleted s_payload 1"]
  by (auto simp: run_id_mismatches_recorder_def completion_history_def run_segment_def ordinal_is_resolved_def
      s_database_rows s_recorder_simps)

theorem fan_out_completion_once_witness:
  "\<exists>r' s'. record_fan_out_completion libsql_store 9 0 (Some s_run) (OutcomeCompleted s_payload 1)
       (s_recorder [s_started 1]) (s_database [s_started 1]) = (Inr CompletionRecorded, r', s')
     \<and> record_fan_out_completion libsql_store 10 0 (Some s_run) (OutcomeFailed s_terminal_error 2) r' s'
         = (Inr CompletionDropped, r', s')"
proof -
  let ?r = "s_recorder [s_started 1]" and ?s = "s_database [s_started 1]"
  have "\<not> run_id_mismatches_recorder (Some s_run) (rc_run_id ?r)"
    "\<not> ordinal_is_resolved (completion_history (ls_hist ?s (rc_workflow_id ?r)) (Some s_run)) (ActivityId 0)"
    by (simp_all add: run_id_mismatches_recorder_def completion_history_def run_segment_def
        ordinal_is_resolved_def s_database_rows s_recorder_simps)
  with libsql.completion_cases [OF s_recorded, of 9 0 "Some s_run" "OutcomeCompleted s_payload 1"]
  obtain r' s' where 1: "record_fan_out_completion libsql_store 9 0 (Some s_run) (OutcomeCompleted s_payload 1) ?r ?s
        = (Inr CompletionRecorded, r', s')" and inv: "ls_inv s'" and w: "rc_workflow_id r' = rc_workflow_id ?r"
    by blast
  from fan_out_completion_once [OF s_recorded _ 1 inv w, of "[]"] 1 s_latest show ?thesis by simp
qed

text \<open>C39: a reopened fan-out activity cannot deliver. After an operator has reopened a run whose activity
  failed, the replay cursor sends that activity to live execution, yet the recorder drops the completion
  this execution delivers: the failure recorded before the reopen still counts as the ordinal's outcome.\<close>

theorem reopened_completion_dropped:
  "fst (resolve_next FActivity (KActivity 0) (s_cursor s_reopened)) = Exhausted
   \<and> record_fan_out_completion libsql_store 9 0 (Some s_run) (OutcomeCompleted s_payload 2)
       (s_recorder s_reopened) (s_database s_reopened)
     = (Inr CompletionDropped, s_recorder s_reopened, s_database s_reopened)"
proof -
  have inv: "ls_inv (s_database s_reopened)" by (rule s_database_inv) (simp add: seq_def)
  have "fst (resolve_next FActivity (KActivity 0) (s_cursor s_reopened)) = Exhausted"
    by (simp add: resolve_next_activity [OF s_cursor_wf s_reopened_at, simplified]
        later_events_def settles_def activity_reopened_after_def)
  moreover have "ordinal_is_resolved (completion_history s_reopened (Some s_run)) (ActivityId 0)"
    by (simp add: completion_history_def run_segment_def ordinal_is_resolved_def)
  ultimately show ?thesis
    by (simp add: record_fan_out_completion_def libsql.read_back [OF inv] from_sequence_position_def
        s_database_rows s_recorder_def recorder_resume_at_def run_id_mismatches_recorder_def)
qed

end
