(* ===== verification/Registry_Table.thy ===== *)
theory Registry_Table
  imports Samples Core_Status
begin

text \<open>
  \<^verbatim>\<open>crates/aion/src/registry\<close>: the handles of the runs an engine has in memory, and the secondary index from
  a workflow to its newest run (\<^verbatim>\<open>table.rs\<close>), with the residency transitions of \<^verbatim>\<open>lifecycle/transition.rs\<close>.
  The two mutexes are always taken in one order, so every operation is one step; poisoning is not modelled.
  The handle map is an association list: its order stands for the iteration order of the \<^verbatim>\<open>HashMap\<close>, so a
  statement about every registry holds for every iteration order.  An insertion puts a new key last, where the
  \<^verbatim>\<open>HashMap\<close> may put it anywhere, so which handle is found first after one is one of the possible answers.  A handle shares its recorder and its
  completion channel with its clones: both are cells.

  The lemmas show that the index only ever names a registered run, and that removing a superseded run does
  not evict the run that replaced it.
\<close>

datatype residency = Resident | Suspended

datatype terminal_outcome =
  OutcomeCompleted payload
| OutcomeFailed workflow_error
| OutcomeCancelled string
| OutcomeTimedOut string
| OutcomeContinuedAsNew payload "string option" run_id

record workflow_handle =
  wh_workflow_id :: workflow_id
  wh_run_id :: run_id
  wh_pid :: u64
  wh_workflow_type :: string
  wh_namespace :: string
  wh_cached_status :: workflow_status
  wh_residency :: residency
  wh_recorder :: nat
  wh_completion :: nat

record registry =
  rg_handles :: "((workflow_id \<times> run_id) \<times> workflow_handle) list"
  rg_index :: "(workflow_id \<times> run_id \<times> u64) list"

definition registry_default :: registry where
  "registry_default = \<lparr>rg_handles = [], rg_index = []\<rparr>"

definition registry_insert ::
  "workflow_id \<times> run_id \<Rightarrow> workflow_handle \<Rightarrow> registry \<Rightarrow> workflow_handle option \<times> registry" where
  "registry_insert key hnd rg =
     (map_of (rg_handles rg) key,
      \<lparr>rg_handles = AList.update key hnd (rg_handles rg),
       rg_index = AList.update (fst key) (snd key, wh_pid hnd) (rg_index rg)\<rparr>)"

definition registry_insert_if_absent ::
  "workflow_id \<times> run_id \<Rightarrow> workflow_handle \<Rightarrow> registry \<Rightarrow> workflow_handle \<times> registry" where
  "registry_insert_if_absent key hnd rg =
     (case map_of (rg_handles rg) key of
        Some existing \<Rightarrow> (existing, rg)
      | None \<Rightarrow> (hnd, snd (registry_insert key hnd rg)))"

definition registry_get :: "workflow_id \<Rightarrow> run_id \<Rightarrow> registry \<Rightarrow> workflow_handle option" where
  "registry_get w run rg = map_of (rg_handles rg) (w, run)"

definition registry_remove :: "workflow_id \<Rightarrow> run_id \<Rightarrow> registry \<Rightarrow> workflow_handle option \<times> registry" where
  "registry_remove w run rg =
     (map_of (rg_handles rg) (w, run),
      \<lparr>rg_handles = AList.delete (w, run) (rg_handles rg),
       rg_index =
         (case map_of (rg_index rg) w of
            Some (run', _) \<Rightarrow> if run' = run then AList.delete w (rg_index rg) else rg_index rg
          | None \<Rightarrow> rg_index rg)\<rparr>)"

definition registry_list :: "registry \<Rightarrow> workflow_handle list" where
  "registry_list rg = map snd (rg_handles rg)"

text \<open>\<^verbatim>\<open>get_mut\<close> on a registered handle.\<close>

definition modify_handle ::
  "workflow_id \<Rightarrow> run_id \<Rightarrow> (workflow_handle \<Rightarrow> workflow_handle) \<Rightarrow> registry \<Rightarrow> workflow_handle option \<times> registry" where
  "modify_handle w run f rg =
     (case map_of (rg_handles rg) (w, run) of
        None \<Rightarrow> (None, rg)
      | Some hnd \<Rightarrow> (Some (f hnd), rg\<lparr>rg_handles := AList.update (w, run) (f hnd) (rg_handles rg)\<rparr>))"

definition registry_replace_residency ::
  "workflow_id \<Rightarrow> run_id \<Rightarrow> residency \<Rightarrow> registry \<Rightarrow> workflow_handle option \<times> registry" where
  "registry_replace_residency w run res rg = modify_handle w run (\<lambda>hnd. hnd\<lparr>wh_residency := res\<rparr>) rg"

definition registry_reconcile ::
  "workflow_id \<Rightarrow> run_id \<Rightarrow> history \<Rightarrow> registry \<Rightarrow> workflow_handle option \<times> registry" where
  "registry_reconcile w run events rg =
     modify_handle w run (\<lambda>hnd. hnd\<lparr>wh_cached_status := status_from_events events\<rparr>) rg"

definition live_run_pid :: "workflow_id \<Rightarrow> registry \<Rightarrow> (run_id \<times> u64) option" where
  "live_run_pid w rg = map_of (rg_index rg) w"

definition live_pid :: "workflow_id \<Rightarrow> registry \<Rightarrow> u64 option" where
  "live_pid w rg = map_option snd (map_of (rg_index rg) w)"

section \<open>Residency transitions\<close>

text \<open>\<open>Inl\<close> is \<^verbatim>\<open>WorkflowNotFound\<close>, which names the two ids.\<close>

definition transition_residency ::
  "residency \<Rightarrow> workflow_id \<Rightarrow> run_id \<Rightarrow> registry \<Rightarrow> (workflow_id \<times> run_id, workflow_handle) result \<times> registry" where
  "transition_residency res w run rg =
     (case registry_replace_residency w run res rg of
        (None, rg') \<Rightarrow> (Inl (w, run), rg')
      | (Some hnd, rg') \<Rightarrow> (Inr hnd, rg'))"

definition transition_suspend where
  "transition_suspend = transition_residency Suspended"

definition transition_resume where
  "transition_resume = transition_residency Resident"

section \<open>The index\<close>

text \<open>Every handle is filed under its own ids, and the index names registered runs only.\<close>

definition registry_inv :: "registry \<Rightarrow> bool" where
  "registry_inv rg \<longleftrightarrow>
     (\<forall>w run hnd. map_of (rg_handles rg) (w, run) = Some hnd \<longrightarrow> (wh_workflow_id hnd, wh_run_id hnd) = (w, run))
   \<and> (\<forall>w run pid. map_of (rg_index rg) w = Some (run, pid) \<longrightarrow>
        (\<exists>hnd. map_of (rg_handles rg) (w, run) = Some hnd \<and> wh_pid hnd = pid))"

inductive registry_op :: "registry \<Rightarrow> registry \<Rightarrow> bool" where
  op_insert: "registry_op rg (snd (registry_insert (wh_workflow_id hnd, wh_run_id hnd) hnd rg))"
| op_insert_if_absent: "registry_op rg (snd (registry_insert_if_absent (wh_workflow_id hnd, wh_run_id hnd) hnd rg))"
| op_remove: "registry_op rg (snd (registry_remove w run rg))"
| op_replace_residency: "registry_op rg (snd (registry_replace_residency w run res rg))"
| op_reconcile: "registry_op rg (snd (registry_reconcile w run events rg))"

lemma registry_default_inv: "registry_inv registry_default"
  by (simp add: registry_inv_def registry_default_def)

lemma registry_insert_inv:
  "registry_inv rg \<Longrightarrow> registry_inv (snd (registry_insert (wh_workflow_id hnd, wh_run_id hnd) hnd rg))"
  unfolding registry_inv_def registry_insert_def by (auto simp: update_conv' split: if_splits)

lemma registry_remove_inv: "registry_inv rg \<Longrightarrow> registry_inv (snd (registry_remove w run rg))"
  unfolding registry_inv_def registry_remove_def
  by (auto simp: delete_conv' split: option.splits if_splits prod.splits)

lemma modify_handle_inv:
  assumes "registry_inv rg" and "\<And>hnd. wh_workflow_id (f hnd) = wh_workflow_id hnd"
    and "\<And>hnd. wh_run_id (f hnd) = wh_run_id hnd" and "\<And>hnd. wh_pid (f hnd) = wh_pid hnd"
  shows "registry_inv (snd (modify_handle w run f rg))"
  using assms unfolding registry_inv_def modify_handle_def
  by (auto simp: update_conv' split: option.splits if_splits) fastforce

lemma registry_op_inv: "registry_op rg rg' \<Longrightarrow> registry_inv rg \<Longrightarrow> registry_inv rg'"
  by (induction rule: registry_op.induct)
     (auto simp: registry_insert_inv registry_remove_inv registry_insert_if_absent_def
        registry_replace_residency_def registry_reconcile_def modify_handle_inv split: option.split)

section \<open>Properties\<close>

text \<open>In every reachable registry the index names only a registered run, with that run's process; the
  newest insertion of a workflow is the one indexed; and removing another run of the workflow, the one it
  superseded, leaves the index entry alone, so a replacement run stays reachable through the whole
  continue-as-new window.\<close>

theorem live_index_follows_newest_run:
  assumes "registry_op\<^sup>*\<^sup>* registry_default rg"
  shows "(\<forall>w run pid. live_run_pid w rg = Some (run, pid) \<longrightarrow>
           (\<exists>hnd. registry_get w run rg = Some hnd \<and> wh_pid hnd = pid \<and> wh_run_id hnd = run))
    \<and> (\<forall>hnd old. old \<noteq> wh_run_id hnd \<longrightarrow>
         (let w = wh_workflow_id hnd; rg1 = snd (registry_insert (w, wh_run_id hnd) hnd rg);
              rg2 = snd (registry_remove w old rg1)
          in live_run_pid w rg1 = Some (wh_run_id hnd, wh_pid hnd) \<and> live_run_pid w rg2 = live_run_pid w rg1
           \<and> registry_get w (wh_run_id hnd) rg2 = Some hnd \<and> registry_get w old rg2 = None))"
proof -
  from assms have inv: "registry_inv rg"
    by (induction rule: rtranclp_induct) (auto simp: registry_default_inv intro: registry_op_inv)
  then have "\<exists>hnd. registry_get w run rg = Some hnd \<and> wh_pid hnd = pid \<and> wh_run_id hnd = run"
    if "live_run_pid w rg = Some (run, pid)" for w run pid
    using that unfolding registry_inv_def live_run_pid_def registry_get_def by blast
  then show ?thesis
    by (simp add: Let_def registry_insert_def registry_remove_def live_run_pid_def registry_get_def
        update_conv' delete_conv')
qed

section \<open>Witnesses\<close>

definition s_handle_for :: "run_id \<Rightarrow> u64 \<Rightarrow> nat \<Rightarrow> workflow_handle" where
  "s_handle_for run pid cell = \<lparr>wh_workflow_id = s_workflow, wh_run_id = run, wh_pid = pid,
     wh_workflow_type = ''order'', wh_namespace = ''default'', wh_cached_status = Running,
     wh_residency = Resident, wh_recorder = cell, wh_completion = cell\<rparr>"

theorem live_index_follows_newest_run_witness:
  "let rg = snd (registry_insert (s_workflow, RunId 1) (s_handle_for (RunId 1) 40 0) registry_default);
       rg1 = snd (registry_insert (s_workflow, RunId 2) (s_handle_for (RunId 2) 41 1) rg)
   in live_run_pid s_workflow (snd (registry_remove s_workflow (RunId 1) rg1)) = Some (RunId 2, 41)"
proof -
  let ?rg = "snd (registry_insert (s_workflow, RunId 1) (s_handle_for (RunId 1) 40 0) registry_default)"
  have "registry_op registry_default ?rg"
    using op_insert [of registry_default "s_handle_for (RunId 1) 40 0"] by (simp add: s_handle_for_def)
  then have "registry_op\<^sup>*\<^sup>* registry_default ?rg" by blast
  from live_index_follows_newest_run [OF this, THEN conjunct2, rule_format, of "RunId 1" "s_handle_for (RunId 2) 41 1"]
  show ?thesis by (simp add: Let_def s_handle_for_def)
qed

end
