(* ===== verification/Lifecycle.thy ===== *)
theory Lifecycle
  imports Reopen Fan_Out Registry_Table
begin

text \<open>
  \<^verbatim>\<open>crates/aion/src/lifecycle/pause.rs\<close> and the durable half of \<^verbatim>\<open>reopen.rs\<close>: pausing, resuming and
  reopening a run.  The engine state is the store, the registry of runs, the recorders and completion
  channels their handles share (\<^verbatim>\<open>Arc<Mutex<Recorder>>\<close> and \<^verbatim>\<open>watch::Sender\<close>, one cell each), the set of runs
  whose dispatch is held, the live timer wheel, and what was asked of the runtime: the processes woken and
  the processes cancelled.

  Between its first check and taking the recorder lock an operation can be overtaken by other tasks: the
  argument \<open>meanwhile\<close> is whatever they do.  The section under the lock is one step.  A reopen, and the resume of
  a run that is not resident, hold no lock: there \<open>meanwhile\<close> is asked again before the registry lookup, the
  marker, every timer restart and the history read-back.  Spawning the process
  of a run that is not resident, registering it and arming its timers is the runtime's work and the
  argument \<open>respawn\<close>.

  The lemmas show that the markers are only ever appended in the state that admits them, whatever happens
  meanwhile, and that a paused run's rows are not dispatched.
\<close>

record 's engine =
  en_store :: 's
  en_registry :: registry
  en_recorders :: "nat \<Rightarrow> recorder"
  en_completions :: "nat \<Rightarrow> terminal_outcome option"
  en_paused_runs :: "workflow_id set"
  en_wheel :: "((u64 \<times> timer_id) \<times> timestamp) list"
  en_woken :: "u64 list"
  en_cancelled :: "u64 list"

type_synonym 's respawn =
  "workflow_id \<Rightarrow> run_id \<Rightarrow> history \<Rightarrow> recorder \<Rightarrow> rearm_timer list \<Rightarrow> 's engine
    \<Rightarrow> (engine_error, workflow_handle) result \<times> 's engine"

section \<open>The dispatch hold\<close>

definition paused_insert :: "workflow_id \<Rightarrow> 's engine \<Rightarrow> 's engine" where
  "paused_insert w en = en\<lparr>en_paused_runs := insert w (en_paused_runs en)\<rparr>"

definition paused_remove :: "workflow_id \<Rightarrow> 's engine \<Rightarrow> 's engine" where
  "paused_remove w en = en\<lparr>en_paused_runs := en_paused_runs en - {w}\<rparr>"

definition paused_replace_all :: "workflow_id list \<Rightarrow> 's engine \<Rightarrow> 's engine" where
  "paused_replace_all ws en = en\<lparr>en_paused_runs := set ws\<rparr>"

definition paused_extend :: "workflow_id list \<Rightarrow> 's engine \<Rightarrow> 's engine" where
  "paused_extend ws en = en\<lparr>en_paused_runs := en_paused_runs en \<union> set ws\<rparr>"

section \<open>Pause and resume\<close>

text \<open>The check both operations make, on the history they have just read.\<close>

definition require_status ::
  "workflow_status \<Rightarrow> (workflow_status \<Rightarrow> invalid_state) \<Rightarrow> run_id \<Rightarrow> history \<Rightarrow> (engine_error, unit) result" where
  "require_status required refusal run h =
     (let status = status_from_events (run_segment h run)
      in if status \<noteq> required then Inl (InvalidState (refusal status)) else Inr ())"

definition find_run ::
  "'s event_store \<Rightarrow> workflow_id \<Rightarrow> run_id \<Rightarrow> 's engine \<Rightarrow> (engine_error, history) result" where
  "find_run ops w run en =
     bind_res (map_err EngineStore (es_read_history ops w (en_store en))) (\<lambda>h.
       if h = [] then Inl (WorkflowNotFound w run)
       else if run_segment h run = [] then Inl (WorkflowNotFound w run)
       else Inr h)"

text \<open>Under the recorder lock: read again, check again, append.\<close>

definition locked_record ::
  "'s event_store \<Rightarrow> (history \<Rightarrow> (engine_error, unit) result) \<Rightarrow> (recorder \<Rightarrow> 's \<Rightarrow> (unit, 's) recorded)
    \<Rightarrow> workflow_id \<Rightarrow> nat \<Rightarrow> 's engine \<Rightarrow> (engine_error, unit) result \<times> 's engine" where
  "locked_record ops check record_marker w cell en =
     (case bind_res (map_err EngineStore (es_read_history ops w (en_store en))) check of
        Inl e \<Rightarrow> (Inl e, en)
      | Inr _ \<Rightarrow>
          (let (res, r, s) = record_marker (en_recorders en cell) (en_store en)
           in (map_err EngineDurability res,
               en\<lparr>en_store := s, en_recorders := (en_recorders en)(cell := r)\<rparr>)))"

definition pause ::
  "'s event_store \<Rightarrow> ('s engine \<Rightarrow> 's engine) \<Rightarrow> timestamp \<Rightarrow> workflow_id \<Rightarrow> run_id \<Rightarrow> string option
    \<Rightarrow> string option \<Rightarrow> 's engine \<Rightarrow> (engine_error, workflow_handle) result \<times> 's engine" where
  "pause ops meanwhile now w run reason operator en =
     (let check = require_status Running (NotPausable w run) run
      in case bind_res (find_run ops w run en) check of
           Inl e \<Rightarrow> (Inl e, en)
         | Inr _ \<Rightarrow>
             (case registry_get w run (en_registry en) of
                None \<Rightarrow> (Inl (WorkflowNotFound w run), en)
              | Some handle \<Rightarrow>
                  (case locked_record ops check (record_workflow_paused ops now run reason operator) w
                          (wh_recorder handle) (meanwhile en) of
                     (Inl e, en') \<Rightarrow> (Inl e, en')
                   | (Inr _, en') \<Rightarrow> (Inr handle, paused_insert w en'))))"

text \<open>The appends of an operation that owns its recorder: the marker, then a fresh start for every timer
  a cancel teardown had retired.  Each append is a store transaction of its own and no lock is held, so
  other tasks may run before each of them, and again before the history is read back.\<close>

datatype reopen_point = BeforeLookup | BeforeMarker | BeforeRestart timer_id | BeforeReread

type_synonym 's reopen_interference = "reopen_point \<Rightarrow> 's engine \<Rightarrow> 's engine"

fun restart_timers ::
  "'s event_store \<Rightarrow> 's reopen_interference \<Rightarrow> timestamp \<Rightarrow> rearm_timer list \<Rightarrow> recorder \<Rightarrow> 's engine
    \<Rightarrow> (durability_error, unit) result \<times> recorder \<times> 's engine" where
  "restart_timers ops meanwhile now [] r en = (Inr (), r, en)"
| "restart_timers ops meanwhile now (t # ts) r en =
     (if rt_needs_restart_marker t
      then
        (let en1 = meanwhile (BeforeRestart (rt_timer_id t)) en;
             (res, r', s) = record_timer_started ops now (rt_timer_id t) (rt_fire_at t) r (en_store en1);
             en2 = en1\<lparr>en_store := s\<rparr>
         in case res of
              Inl e \<Rightarrow> (Inl e, r', en2)
            | Inr _ \<Rightarrow> restart_timers ops meanwhile now ts r' en2)
      else restart_timers ops meanwhile now ts r en)"

definition append_marker_and_restarts ::
  "'s event_store \<Rightarrow> 's reopen_interference \<Rightarrow> timestamp \<Rightarrow> (recorder \<Rightarrow> 's \<Rightarrow> (unit, 's) recorded) \<Rightarrow> rearm_timer list
    \<Rightarrow> recorder \<Rightarrow> 's engine \<Rightarrow> (durability_error, unit) result \<times> recorder \<times> 's engine" where
  "append_marker_and_restarts ops meanwhile now record_marker rearm r0 en =
     (let en1 = meanwhile BeforeMarker en;
          (res, r, s) = record_marker r0 (en_store en1);
          en2 = en1\<lparr>en_store := s\<rparr>
      in case res of
           Inl e \<Rightarrow> (Inl e, r, en2)
         | Inr _ \<Rightarrow> restart_timers ops meanwhile now rearm r en2)"

definition last_seq :: "history \<Rightarrow> u64" where
  "last_seq h = (if h = [] then 0 else seq (last h))"

definition resume ::
  "'s event_store \<Rightarrow> 's respawn \<Rightarrow> 's reopen_interference \<Rightarrow> timestamp \<Rightarrow> workflow_id \<Rightarrow> run_id
    \<Rightarrow> string option \<Rightarrow> 's engine \<Rightarrow> (engine_error, workflow_handle) result \<times> 's engine" where
  "resume ops respawn meanwhile now w run operator en =
     (let check = require_status Paused (NotResumable w run) run
      in case bind_res (find_run ops w run en) (\<lambda>h. bind_res (check h) (\<lambda>_. Inr h)) of
           Inl e \<Rightarrow> (Inl e, en)
         | Inr h \<Rightarrow>
             let en0 = meanwhile BeforeLookup en
             in case registry_get w run (en_registry en0) of
                  Some handle \<Rightarrow>
                    (case locked_record ops check (record_workflow_resumed ops now run operator) w
                            (wh_recorder handle) (meanwhile BeforeMarker en0) of
                       (Inl e, en') \<Rightarrow> (Inl e, en')
                     | (Inr _, en') \<Rightarrow> (Inr handle, paused_remove w en'))
                | None \<Rightarrow>
                    (let rearm = rearmable_timers (run_segment h run);
                         r0 = recorder_with_visibility (recorder_resume_at w (last_seq h)) run
                     in case append_marker_and_restarts ops meanwhile now (record_workflow_resumed ops now run operator)
                               rearm r0 en0 of
                          (Inl e, _, en1) \<Rightarrow> (Inl (EngineDurability e), en1)
                        | (Inr _, r, en1) \<Rightarrow>
                            (let en2 = meanwhile BeforeReread (paused_remove w en1)
                             in case map_err EngineStore (es_read_history ops w (en_store en2)) of
                                  Inl e \<Rightarrow> (Inl e, en2)
                                | Inr h' \<Rightarrow> respawn w run h' r rearm en2)))"

section \<open>Reopen\<close>

text \<open>After the registry check: one recorder, built at the head of the history that was validated, appends
  the marker and the timer restarts and is then handed to the respawn with the history read back.\<close>

definition reopen_append ::
  "'s event_store \<Rightarrow> 's respawn \<Rightarrow> 's reopen_interference \<Rightarrow> timestamp \<Rightarrow> workflow_id \<Rightarrow> run_id \<Rightarrow> history \<Rightarrow> activity_id list
    \<Rightarrow> 's engine \<Rightarrow> (engine_error, workflow_handle) result \<times> 's engine" where
  "reopen_append ops respawn meanwhile now w run h reopened en =
     (let rearm = rearmable_timers (run_segment h run);
          r0 = recorder_with_visibility (recorder_resume_at w (last_seq h)) run
      in case append_marker_and_restarts ops meanwhile now (record_workflow_reopened ops now run reopened) rearm r0 en of
           (Inl e, _, en1) \<Rightarrow> (Inl (EngineDurability e), en1)
         | (Inr _, r, en1) \<Rightarrow>
             (let en2 = meanwhile BeforeReread en1
              in case map_err EngineStore (es_read_history ops w (en_store en2)) of
                   Inl e \<Rightarrow> (Inl e, en2)
                 | Inr h' \<Rightarrow> respawn w run h' r rearm en2))"

definition reopen ::
  "'s event_store \<Rightarrow> 's respawn \<Rightarrow> 's reopen_interference \<Rightarrow> timestamp \<Rightarrow> workflow_id \<Rightarrow> run_id
    \<Rightarrow> 's engine \<Rightarrow> (engine_error, workflow_handle) result \<times> 's engine" where
  "reopen ops respawn meanwhile now w run en =
     (case map_err EngineStore (es_read_history ops w (en_store en)) of
        Inl e \<Rightarrow> (Inl e, en)
      | Inr h \<Rightarrow>
          if h = [] then (Inl (WorkflowNotFound w run), en)
          else
            (case validate_and_compute_reopened w run (run_segment h run) of
               Inl e \<Rightarrow> (Inl e, en)
             | Inr reopened \<Rightarrow>
                 let en0 = meanwhile BeforeLookup en
                 in case registry_get w run (en_registry en0) of
                      Some existing \<Rightarrow>
                        if is_terminal (wh_cached_status existing)
                        then reopen_append ops respawn meanwhile now w run h reopened
                               (en0\<lparr>en_registry := snd (registry_remove w run (en_registry en0))\<rparr>)
                        else (Inl (InvalidState (ConcurrentReopen w run)), en0)
                    | None \<Rightarrow> reopen_append ops respawn meanwhile now w run h reopened en0))"

section \<open>Lemmas over every event store\<close>

text \<open>What other tasks may do: add events to histories.  \<open>leaves_alone\<close>: they add none to this one.\<close>

definition grows_only ::
  "('s \<Rightarrow> bool) \<Rightarrow> ('s \<Rightarrow> workflow_id \<Rightarrow> history) \<Rightarrow> ('s engine \<Rightarrow> 's engine) \<Rightarrow> bool" where
  "grows_only ok hist others \<longleftrightarrow>
     (\<forall>en. ok (en_store en) \<longrightarrow> ok (en_store (others en))
        \<and> (\<forall>w. prefix (hist (en_store en) w) (hist (en_store (others en)) w)))"

lemma grows_onlyD:
  "grows_only ok hist others \<Longrightarrow> ok (en_store en) \<Longrightarrow>
     ok (en_store (others en)) \<and> prefix (hist (en_store en) w) (hist (en_store (others en)) w)"
  by (simp add: grows_only_def)

definition leaves_alone ::
  "('s \<Rightarrow> workflow_id \<Rightarrow> history) \<Rightarrow> workflow_id \<Rightarrow> 's reopen_interference \<Rightarrow> bool" where
  "leaves_alone hist w meanwhile \<longleftrightarrow> (\<forall>p en. hist (en_store (meanwhile p en)) w = hist (en_store en) w)"

text \<open>The conflict a writer gets that has seen \<open>seen\<close> when others have added \<open>foreign\<close>.\<close>

definition conflict_after :: "history \<Rightarrow> history \<Rightarrow> durability_error" where
  "conflict_after seen foreign =
     StoreErr (SequenceConflict (of_nat (length seen)) (of_nat (length (seen @ foreign))))"

definition restarts :: "rearm_timer \<Rightarrow> event \<Rightarrow> bool" where
  "restarts t e \<longleftrightarrow> (\<exists>env. e = TimerStarted env (rt_timer_id t) (rt_fire_at t))"

text \<open>The events a reopen or resume has recorded so far: none, or its marker and, in order, a start for
  each of the first timers that need one.\<close>

definition reopen_events :: "(event_envelope \<Rightarrow> event) \<Rightarrow> rearm_timer list \<Rightarrow> history \<Rightarrow> bool" where
  "reopen_events marker rearm own \<longleftrightarrow>
     own = [] \<or> (\<exists>env recs. own = marker env # recs
       \<and> list_all2 restarts (take (length recs) (filter rt_needs_restart_marker rearm)) recs)"

context event_store_laws
begin

lemma locked_record_cases:
  assumes "recording_op ops now f build" and "store_inv (en_store en)"
    and "rc_workflow_id (en_recorders en cell) = w" and "locked_record ops check f w cell en = (res, en')"
  shows "store_inv (en_store en') \<and> en_registry en' = en_registry en \<and> en_paused_runs en' = en_paused_runs en \<and>
    (case res of
       Inl e \<Rightarrow> en_store en' = en_store en
     | Inr _ \<Rightarrow> check (hist (en_store en) w) = Inr ()
         \<and> (\<exists>env. hist (en_store en') = (hist (en_store en))(w := hist (en_store en) w @ [build w env])))"
proof (cases "check (hist (en_store en) w)")
  case (Inl e)
  then have "locked_record ops check f w cell en = (Inl e, en)"
    by (simp add: locked_record_def read_back [OF assms(2)])
  with assms show ?thesis by auto
next
  case (Inr u)
  obtain res0 r s where f: "f (en_recorders en cell) (en_store en) = (res0, r, s)" by (metis prod_cases3)
  from assms(4) Inr f have "res = map_err EngineDurability res0"
    and "en' = en\<lparr>en_store := s, en_recorders := (en_recorders en)(cell := r)\<rparr>"
    by (auto simp: locked_record_def read_back [OF assms(2)])
  with recording_op_cases [OF assms(1,2) f] Inr assms(3) show ?thesis
    by (cases res0) auto
qed

lemma restart_timers_outcomes:
  assumes "store_inv (en_store en)" and "\<And>p. grows_only store_inv hist (meanwhile p)"
    and "rc_workflow_id r = w" and "unat (current_head r) = length base" and "hist (en_store en) w = base @ foreign"
    and "length base + length (filter rt_needs_restart_marker ts) < 2 ^ 64"
    and "restart_timers ops meanwhile now ts r en = (res, r', en')"
  shows "\<exists>recs foreign'. hist (en_store en') w = base @ recs @ foreign' \<and> store_inv (en_store en')
    \<and> list_all2 restarts (take (length recs) (filter rt_needs_restart_marker ts)) recs
    \<and> (leaves_alone hist w meanwhile \<and> foreign = [] \<longrightarrow> foreign' = [])
    \<and> (case res of
         Inl e \<Rightarrow> length recs < length (filter rt_needs_restart_marker ts) \<and> foreign' \<noteq> []
           \<and> e = conflict_after (base @ recs) foreign'
       | Inr _ \<Rightarrow> length recs = length (filter rt_needs_restart_marker ts)
           \<and> rc_workflow_id r' = w \<and> unat (current_head r') = length (base @ recs))"
  using assms
proof (induction ts arbitrary: r en base foreign)
  case Nil
  then show ?case by auto
next
  case (Cons t ts)
  show ?case
  proof (cases "rt_needs_restart_marker t")
    case False
    then have same: "filter rt_needs_restart_marker (t # ts) = filter rt_needs_restart_marker ts" by simp
    from Cons.IH [OF Cons.prems(1-5)] Cons.prems(6,7) False show ?thesis unfolding same by simp
  next
    case True
    let ?en1 = "meanwhile (BeforeRestart (rt_timer_id t)) en"
    let ?f = "record_timer_started ops now (rt_timer_id t) (rt_fire_at t)"
    have op: "recording_op ops now ?f (\<lambda>w env. TimerStarted env (rt_timer_id t) (rt_fire_at t))"
      by (rule recording_op.intros)
    from grows_onlyD [OF Cons.prems(2,1), of "BeforeRestart (rt_timer_id t)" w] Cons.prems(5) obtain more where
      inv1: "store_inv (en_store ?en1)" and h1: "hist (en_store ?en1) w = base @ foreign @ more"
      by (auto simp: prefix_def)
    have alone: "more = []" if "leaves_alone hist w meanwhile"
      using that h1 Cons.prems(5) by (simp add: leaves_alone_def)
    have room: "current_head r \<noteq> - 1"
      using Cons.prems(4,6) True by (auto simp: unsigned_minus_1_eq_mask mask_eq_exp_minus_1)
    show ?thesis
    proof (cases "foreign @ more = []")
      case False
      then have "\<not> in_step hist r (en_store ?en1)" using Cons.prems(3,4) h1 by (simp add: in_step_def)
      moreover have "current_head r = of_nat (length base)" by (simp add: Cons.prems(4) [symmetric])
      ultimately have "?f r (en_store ?en1) = (Inl (conflict_after base (foreign @ more)), r, en_store ?en1)"
        using recording_op_stale [OF op inv1] room Cons.prems(3) h1 by (force simp: conflict_after_def)
      with Cons.prems(7) True have "res = Inl (conflict_after base (foreign @ more))" "en' = ?en1" by auto
      with inv1 h1 False alone True show ?thesis
        by (intro exI [of _ "[]"] exI [of _ "foreign @ more"]) auto
    next
      case none: True
      then have "in_step hist r (en_store ?en1)" using Cons.prems(3,4) h1 by (simp add: in_step_def)
      from recording_op_appends [OF op inv1 this room] Cons.prems(3) h1 none obtain r1 s1 where
        1: "?f r (en_store ?en1) = (Inr (), r1, s1)" "store_inv s1" "rc_workflow_id r1 = w"
        "current_head r1 = current_head r + 1"
        "hist s1 w = base @ [TimerStarted (next_env r now) (rt_timer_id t) (rt_fire_at t)]"
        by (auto dest: fun_cong [where x = w])
      let ?e = "TimerStarted (next_env r now) (rt_timer_id t) (rt_fire_at t)" and ?en2 = "?en1\<lparr>en_store := s1\<rparr>"
      have rest: "restart_timers ops meanwhile now ts r1 ?en2 = (res, r', en')" using Cons.prems(7) True 1(1) by simp
      have head: "unat (current_head r1) = length (base @ [?e])" using unat_head_Suc [OF room] 1(4) Cons.prems(4) by simp
      have "store_inv (en_store ?en2)" "hist (en_store ?en2) w = (base @ [?e]) @ []"
        "length (base @ [?e]) + length (filter rt_needs_restart_marker ts) < 2 ^ 64"
        using 1(2,5) Cons.prems(6) True by simp_all
      from Cons.IH [OF this(1) Cons.prems(2) 1(3) head this(2,3) rest] obtain recs foreign' where
        "hist (en_store en') w = (base @ [?e]) @ recs @ foreign'" "store_inv (en_store en')"
        "list_all2 restarts (take (length recs) (filter rt_needs_restart_marker ts)) recs"
        "leaves_alone hist w meanwhile \<and> [] = ([] :: history) \<longrightarrow> foreign' = []"
        "case res of Inl e \<Rightarrow> length recs < length (filter rt_needs_restart_marker ts) \<and> foreign' \<noteq> []
           \<and> e = conflict_after ((base @ [?e]) @ recs) foreign'
         | Inr _ \<Rightarrow> length recs = length (filter rt_needs_restart_marker ts)
           \<and> rc_workflow_id r' = w \<and> unat (current_head r') = length ((base @ [?e]) @ recs)"
        by blast
      moreover have "restarts t ?e" by (simp add: restarts_def)
      ultimately show ?thesis
        using True none by (intro exI [of _ "?e # recs"] exI [of _ foreign']) (auto split: sum.splits)
    qed
  qed
qed

lemma append_marker_outcomes:
  assumes "recording_op ops now f (\<lambda>_. marker)" and "store_inv (en_store en)"
    and "\<And>p. grows_only store_inv hist (meanwhile p)"
    and "rc_workflow_id r0 = w" and "unat (current_head r0) = length base" and "hist (en_store en) w = base @ foreign"
    and "length base + length (filter rt_needs_restart_marker rearm) + 1 < 2 ^ 64"
    and "append_marker_and_restarts ops meanwhile now f rearm r0 en = (res, r', en')"
  shows "\<exists>own foreign'. reopen_events marker rearm own \<and> hist (en_store en') w = base @ own @ foreign'
    \<and> store_inv (en_store en') \<and> (leaves_alone hist w meanwhile \<and> foreign = [] \<longrightarrow> foreign' = [])
    \<and> (case res of
         Inl e \<Rightarrow> length own < Suc (length (filter rt_needs_restart_marker rearm)) \<and> foreign' \<noteq> []
           \<and> e = conflict_after (base @ own) foreign'
       | Inr _ \<Rightarrow> length own = Suc (length (filter rt_needs_restart_marker rearm))
           \<and> rc_workflow_id r' = w \<and> unat (current_head r') = length (base @ own))"
proof -
  let ?en1 = "meanwhile BeforeMarker en"
  from grows_onlyD [OF assms(3,2), of BeforeMarker w] assms(6) obtain more where
    inv1: "store_inv (en_store ?en1)" and h1: "hist (en_store ?en1) w = base @ foreign @ more"
    by (auto simp: prefix_def)
  have alone: "more = []" if "leaves_alone hist w meanwhile"
    using that h1 assms(6) by (simp add: leaves_alone_def)
  have room: "current_head r0 \<noteq> - 1" using assms(5,7) by (auto simp: unsigned_minus_1_eq_mask mask_eq_exp_minus_1)
  show ?thesis
  proof (cases "foreign @ more = []")
    case False
    then have "\<not> in_step hist r0 (en_store ?en1)" using assms(4,5) h1 by (simp add: in_step_def)
    moreover have "current_head r0 = of_nat (length base)" by (simp add: assms(5) [symmetric])
    ultimately have "f r0 (en_store ?en1) = (Inl (conflict_after base (foreign @ more)), r0, en_store ?en1)"
      using recording_op_stale [OF assms(1) inv1] room assms(4) h1 by (force simp: conflict_after_def)
    with assms(8) have "res = Inl (conflict_after base (foreign @ more))" "en' = ?en1"
      by (auto simp: append_marker_and_restarts_def Let_def)
    with inv1 h1 False alone show ?thesis
      by (intro exI [of _ "[]"] exI [of _ "foreign @ more"]) (auto simp: reopen_events_def)
  next
    case none: True
    then have "in_step hist r0 (en_store ?en1)" using assms(4,5) h1 by (simp add: in_step_def)
    from recording_op_appends [OF assms(1) inv1 this room] assms(4) h1 none obtain r1 s1 where
      1: "f r0 (en_store ?en1) = (Inr (), r1, s1)" "store_inv s1" "rc_workflow_id r1 = w"
      "current_head r1 = current_head r0 + 1" "hist s1 w = base @ [marker (next_env r0 now)]"
      by (auto dest: fun_cong [where x = w])
    let ?m = "marker (next_env r0 now)" and ?en2 = "?en1\<lparr>en_store := s1\<rparr>"
    have rest: "restart_timers ops meanwhile now rearm r1 ?en2 = (res, r', en')"
      using assms(8) 1(1) by (simp add: append_marker_and_restarts_def)
    have head: "unat (current_head r1) = length (base @ [?m])" using unat_head_Suc [OF room] 1(4) assms(5) by simp
    have "store_inv (en_store ?en2)" "hist (en_store ?en2) w = (base @ [?m]) @ []"
      "length (base @ [?m]) + length (filter rt_needs_restart_marker rearm) < 2 ^ 64"
      using 1(2,5) assms(7) by simp_all
    from restart_timers_outcomes [OF this(1) assms(3) 1(3) head this(2,3) rest] obtain recs foreign' where
      "hist (en_store en') w = (base @ [?m]) @ recs @ foreign'" "store_inv (en_store en')"
      "list_all2 restarts (take (length recs) (filter rt_needs_restart_marker rearm)) recs"
      "leaves_alone hist w meanwhile \<and> [] = ([] :: history) \<longrightarrow> foreign' = []"
      "case res of Inl e \<Rightarrow> length recs < length (filter rt_needs_restart_marker rearm) \<and> foreign' \<noteq> []
         \<and> e = conflict_after ((base @ [?m]) @ recs) foreign'
       | Inr _ \<Rightarrow> length recs = length (filter rt_needs_restart_marker rearm)
         \<and> rc_workflow_id r' = w \<and> unat (current_head r') = length ((base @ [?m]) @ recs)"
      by blast
    then show ?thesis
      by (intro exI [of _ "?m # recs"] exI [of _ foreign']) (auto simp: reopen_events_def split: sum.splits)
  qed
qed

end

section \<open>Properties over the libSQL store\<close>

lemma status_after_marker:
  assumes "latest_run h run" and "\<not> is_WorkflowStarted e"
  shows "status_from_events (run_segment (h @ [e]) run) =
    (case lifecycle_status e of None \<Rightarrow> status_from_events (run_segment h run) | Some st \<Rightarrow> st)"
  using run_segment_extend(1) [OF assms(1), of "[e]"] assms(2) by (simp add: status_from_events_snoc)

lemma require_status_Inr [simp]:
  "require_status required refusal run h = Inr u \<longleftrightarrow> status_from_events (run_segment h run) = required"
  by (auto simp: require_status_def Let_def)

text \<open>C13: a run is paused only while it is running, whatever overtakes the operation between its first
  check and the recorder lock.  On success the history at that moment projects to Running, it has grown by
  exactly the pause marker (so the run now projects to Paused), and the workflow's dispatch is held; on
  failure the operation itself has changed no history and held nothing.\<close>

theorem pause_only_running:
  assumes "ls_inv (en_store (meanwhile en))"
    and "\<And>hnd. registry_get w run (en_registry en) = Some hnd \<Longrightarrow>
           rc_workflow_id (en_recorders (meanwhile en) (wh_recorder hnd)) = w"
    and "pause libsql_store meanwhile now w run reason operator en = (res, en')"
  shows "case res of
      Inl e \<Rightarrow> en' = en \<or> en_store en' = en_store (meanwhile en) \<and> en_paused_runs en' = en_paused_runs (meanwhile en)
    | Inr _ \<Rightarrow>
        let h = ls_hist (en_store (meanwhile en)) w
        in status_from_events (run_segment h run) = Running \<and> ls_inv (en_store en')
         \<and> en_paused_runs en' = insert w (en_paused_runs (meanwhile en))
         \<and> (\<exists>env. ls_hist (en_store en') =
              (ls_hist (en_store (meanwhile en)))(w := h @ [WorkflowPaused env run reason operator]))
         \<and> (latest_run h run \<longrightarrow> status_from_events (run_segment (ls_hist (en_store en') w) run) = Paused)"
proof -
  let ?check = "require_status Running (NotPausable w run) run"
  let ?f = "record_workflow_paused libsql_store now run reason operator"
  have op: "recording_op libsql_store now ?f (\<lambda>w env. WorkflowPaused env run reason operator)"
    by (rule recording_op.intros)
  show ?thesis
  proof (cases "bind_res (find_run libsql_store w run en) ?check")
    case (Inl e)
    with assms(3) show ?thesis by (auto simp: pause_def)
  next
    case (Inr u)
    show ?thesis
    proof (cases "registry_get w run (en_registry en)")
      case None
      with assms(3) Inr show ?thesis by (auto simp: pause_def)
    next
      case (Some hnd)
      obtain r1 en1 where l: "locked_record libsql_store ?check ?f w (wh_recorder hnd) (meanwhile en) = (r1, en1)"
        by fastforce
      note post = libsql.locked_record_cases [OF op assms(1) assms(2) [OF Some] l]
      show ?thesis
      proof (cases r1)
        case (Inl e)
        with post assms(3) Inr Some l show ?thesis by (auto simp: pause_def)
      next
        case (Inr v)
        then have "res = Inr hnd" "en' = paused_insert w en1"
          using assms(3) \<open>bind_res _ _ = Inr u\<close> Some l by (auto simp: pause_def)
        with post Inr status_after_marker show ?thesis
          by (auto simp: Let_def paused_insert_def fun_eq_iff)
      qed
    qed
  qed
qed

text \<open>A resident run is resumed only while it is paused, under the same interference: on success the
  history at that moment projects to Paused, it has grown by exactly the resume marker and projects to
  Running, and the dispatch hold is released; on failure no history has changed and the hold stays.\<close>

theorem resume_only_paused:
  fixes meanwhile :: "libsql_state reopen_interference" and en
  defines "en1 \<equiv> meanwhile BeforeMarker (meanwhile BeforeLookup en)"
  assumes "ls_inv (en_store en1)" and "registry_get w run (en_registry (meanwhile BeforeLookup en)) = Some hnd"
    and "rc_workflow_id (en_recorders en1 (wh_recorder hnd)) = w"
    and "resume libsql_store respawn meanwhile now w run operator en = (res, en')"
  shows "case res of
      Inl e \<Rightarrow> en' = en \<or> en_store en' = en_store en1 \<and> en_paused_runs en' = en_paused_runs en1
    | Inr _ \<Rightarrow>
        let h = ls_hist (en_store en1) w
        in status_from_events (run_segment h run) = Paused \<and> ls_inv (en_store en')
         \<and> en_paused_runs en' = en_paused_runs en1 - {w}
         \<and> (\<exists>env. ls_hist (en_store en') =
              (ls_hist (en_store en1))(w := h @ [WorkflowResumed env run operator]))
         \<and> (latest_run h run \<longrightarrow> status_from_events (run_segment (ls_hist (en_store en') w) run) = Running)"
proof -
  let ?check = "require_status Paused (NotResumable w run) run"
  let ?f = "record_workflow_resumed libsql_store now run operator"
  have op: "recording_op libsql_store now ?f (\<lambda>w env. WorkflowResumed env run operator)"
    by (rule recording_op.intros)
  show ?thesis
  proof (cases "bind_res (find_run libsql_store w run en) (\<lambda>h. bind_res (?check h) (\<lambda>_. Inr h))")
    case (Inl e)
    with assms(5) show ?thesis by (auto simp: resume_def en1_def Let_def)
  next
    case (Inr h0)
    obtain r1 en2 where l: "locked_record libsql_store ?check ?f w (wh_recorder hnd) en1 = (r1, en2)"
      by fastforce
    note post = libsql.locked_record_cases [OF op assms(2,4) l]
    show ?thesis
    proof (cases r1)
      case (Inl e)
      with post assms(5) Inr assms(3) l show ?thesis by (auto simp: resume_def en1_def Let_def)
    next
      case (Inr v)
      then have "res = Inr hnd" "en' = paused_remove w en2"
        using assms(5) \<open>bind_res _ _ = Inr h0\<close> assms(3) l by (auto simp: resume_def en1_def Let_def)
      with post Inr status_after_marker show ?thesis
        by (auto simp: Let_def paused_remove_def fun_eq_iff)
    qed
  qed
qed

text \<open>C14: a paused run's work is held: once a pause has succeeded, a dispatcher that claims under the
  engine's hold set takes no row of the workflow, and leaves every one of its rows as it was, scoped or
  not, at any time and under any limit.\<close>

theorem paused_dispatch_held:
  assumes "pause libsql_store meanwhile now w run reason operator en = (Inr hnd, en')"
    and "ls_inv (en_store en')"
    and "claim = claim_outbox_rows_excluding at limit (en_paused_runs en') (en_store en')
       \<or> claim = claim_outbox_rows_scoped_excluding at scope limit (en_paused_runs en') (en_store en')"
    and "claim = (Inr claimed, s')"
  shows "(\<forall>row \<in> set claimed. or_workflow_id row \<noteq> w)
    \<and> (\<forall>row \<in> set (ls_outbox (en_store en')). or_workflow_id row = w \<longrightarrow> row \<in> set (ls_outbox s'))"
proof -
  let ?s = "en_store en'" and ?held = "en_paused_runs en'"
  have held: "w \<in> ?held"
    using assms(1) by (auto simp: pause_def paused_insert_def Let_def split: sum.splits option.splits prod.splits)
  from assms(3) obtain q where "claim = claim_result at (selection q (unat limit) ?held ?s) ?s"
    by (auto simp: claim_excluding_eq claim_scoped_eq)
  then have c: "claimed = map (claimed_row at) (selection q (unat limit) ?held ?s)"
    and s': "s' = mark_claimed at (or_dispatch_key ` set (selection q (unat limit) ?held ?s)) ?s"
    using assms(4) by (simp_all add: claim_result_def)
  have foreign: "or_workflow_id r \<noteq> w \<and> r \<in> set (ls_outbox ?s)" if "r \<in> set (selection q (unat limit) ?held ?s)" for r
    using selection_in [OF that] held by auto
  have keep: "or_dispatch_key row \<notin> or_dispatch_key ` set (selection q (unat limit) ?held ?s)"
    if "row \<in> set (ls_outbox ?s)" "or_workflow_id row = w" for row
    using that foreign assms(2) by (auto simp: ls_inv_def distinct_map dest: inj_onD)
  show ?thesis
    using foreign keep by (auto simp: c s' claimed_row_def mark_claimed_def update_outbox_def image_iff)
qed

lemma last_seq_contiguous: "contiguous h \<Longrightarrow> unat (last_seq h) = length h"
  using contiguous_from_nth [of 0 h "length h - 1"]
  by (cases "h = []") (simp_all add: last_seq_def last_conv_nth Suc_diff_1)

lemma reopen_append_cases:
  fixes h reopened w run respawn now
  defines "rearm \<equiv> rearmable_timers (run_segment h run)"
  assumes "ls_inv (en_store en)" and "\<And>p. grows_only ls_inv ls_hist (meanwhile p)"
    and "contiguous h" and "ls_hist (en_store en) w = h @ before" and "length h + length rearm + 1 < 2 ^ 64"
  shows "\<exists>own foreign r en'. reopen_events (\<lambda>env. WorkflowReopened env run reopened) rearm own
    \<and> ls_inv (en_store en') \<and> ls_hist (en_store en') w = h @ own @ foreign
    \<and> (leaves_alone ls_hist w meanwhile \<and> before = [] \<longrightarrow> foreign = [])
    \<and> (if length own = Suc (length (filter rt_needs_restart_marker rearm))
       then reopen_append libsql_store respawn meanwhile now w run h reopened en =
              respawn w run (ls_hist (en_store en') w) r rearm en'
         \<and> rc_workflow_id r = w \<and> unat (current_head r) = length (h @ own)
       else foreign \<noteq> [] \<and> reopen_append libsql_store respawn meanwhile now w run h reopened en =
              (Inl (EngineDurability (conflict_after (h @ own) foreign)), en'))"
proof -
  let ?r0 = "recorder_with_visibility (recorder_resume_at w (last_seq h)) run"
  let ?f = "record_workflow_reopened libsql_store now run reopened" and ?m = "\<lambda>env. WorkflowReopened env run reopened"
  have op: "recording_op libsql_store now ?f (\<lambda>_. ?m)" by (rule recording_op.intros)
  have r0: "rc_workflow_id ?r0 = w" "unat (current_head ?r0) = length h"
    using last_seq_contiguous [OF assms(4)]
    by (simp_all add: recorder_with_visibility_def recorder_resume_at_def current_head_def from_head_def)
  have room: "length h + length (filter rt_needs_restart_marker rearm) + 1 < 2 ^ 64"
    using assms(6) length_filter_le [of rt_needs_restart_marker rearm] by linarith
  obtain res r en1 where app: "append_marker_and_restarts libsql_store meanwhile now ?f rearm ?r0 en = (res, r, en1)"
    by (metis prod_cases3)
  from libsql.append_marker_outcomes [OF op assms(2,3) r0 assms(5) room app] obtain own foreign where
    own: "reopen_events ?m rearm own" "ls_hist (en_store en1) w = h @ own @ foreign" "ls_inv (en_store en1)"
    "leaves_alone ls_hist w meanwhile \<and> before = [] \<longrightarrow> foreign = []"
    and post: "case res of
         Inl e \<Rightarrow> length own < Suc (length (filter rt_needs_restart_marker rearm)) \<and> foreign \<noteq> []
           \<and> e = conflict_after (h @ own) foreign
       | Inr _ \<Rightarrow> length own = Suc (length (filter rt_needs_restart_marker rearm))
           \<and> rc_workflow_id r = w \<and> unat (current_head r) = length (h @ own)" by blast
  show ?thesis
  proof (cases res)
    case (Inl e)
    with app own post show ?thesis
      by (intro exI [of _ own] exI [of _ foreign] exI [of _ r] exI [of _ en1])
         (simp add: reopen_append_def rearm_def [symmetric])
  next
    case (Inr u)
    let ?en2 = "meanwhile BeforeReread en1"
    from grows_onlyD [OF assms(3) own(3), of BeforeReread w] own(2) obtain more where
      inv2: "ls_inv (en_store ?en2)" and h2: "ls_hist (en_store ?en2) w = h @ own @ foreign @ more"
      by (auto simp: prefix_def)
    have "more = []" if "leaves_alone ls_hist w meanwhile" using that h2 own(2) by (simp add: leaves_alone_def)
    moreover have "reopen_append libsql_store respawn meanwhile now w run h reopened en =
        respawn w run (ls_hist (en_store ?en2) w) r rearm ?en2"
      using app Inr libsql.read_back [OF inv2, of w] by (simp add: reopen_append_def rearm_def [symmetric] Let_def)
    ultimately show ?thesis
      using own post Inr inv2 h2
      by (intro exI [of _ own] exI [of _ "foreign @ more"] exI [of _ r] exI [of _ ?en2]) auto
  qed
qed

text \<open>C12: reopening, on every branch.  An unknown workflow or a run that did not end in failure or
  cancellation is refused and nothing changes; a run somebody else has already reopened is refused.
  Otherwise the reopen records its marker, naming the activities to re-execute, and one start per
  torn-down timer at its original deadline, in this order and each in a transaction of its own, while
  other tasks may append to the same history before each of them.  Either all of them are recorded, and
  the process is respawned over the history read back with the one recorder that wrote them; or the first
  append that finds a foreign event fails with a sequence conflict, the events before it stay recorded (so
  the run may be left reopened but only partly re-armed) and no process is spawned.  If the other tasks
  leave the history alone there is no conflict and the recorder is in step.\<close>

theorem reopen_branches:
  assumes "ls_inv (en_store en)" and "\<And>p. grows_only ls_inv ls_hist (meanwhile p)"
    and "length (ls_hist (en_store en) w) + length (rearmable_timers (run_segment (ls_hist (en_store en) w) run)) + 1 < 2 ^ 64"
  shows "let h = ls_hist (en_store en) w; en0 = meanwhile BeforeLookup en; rearm = rearmable_timers (run_segment h run);
      result = reopen libsql_store respawn meanwhile now w run en
    in if h = [] then result = (Inl (WorkflowNotFound w run), en)
       else case validate_and_compute_reopened w run (run_segment h run) of
         Inl e \<Rightarrow> result = (Inl e, en)
       | Inr reopened \<Rightarrow>
           if \<exists>hnd. registry_get w run (en_registry en0) = Some hnd \<and> \<not> is_terminal (wh_cached_status hnd)
           then result = (Inl (InvalidState (ConcurrentReopen w run)), en0)
           else \<exists>own foreign r en'. reopen_events (\<lambda>env. WorkflowReopened env run reopened) rearm own
                 \<and> ls_inv (en_store en') \<and> ls_hist (en_store en') w = h @ own @ foreign
                 \<and> (leaves_alone ls_hist w meanwhile \<longrightarrow> foreign = [])
                 \<and> (if length own = Suc (length (filter rt_needs_restart_marker rearm))
                    then result = respawn w run (ls_hist (en_store en') w) r rearm en'
                      \<and> rc_workflow_id r = w \<and> unat (current_head r) = length (h @ own)
                    else foreign \<noteq> []
                      \<and> result = (Inl (EngineDurability (conflict_after (h @ own) foreign)), en'))"
proof -
  let ?h = "ls_hist (en_store en) w" and ?en0 = "meanwhile BeforeLookup en"
  have c: "contiguous ?h" using assms(1) by (simp add: ls_inv_def)
  show ?thesis
  proof (cases "?h = []")
    case True
    then show ?thesis using libsql.read_back [OF assms(1), of w] by (simp add: reopen_def)
  next
    case False
    note nonempty = this
    show ?thesis
    proof (cases "validate_and_compute_reopened w run (run_segment ?h run)")
      case (Inl e)
      then show ?thesis using nonempty libsql.read_back [OF assms(1), of w] by (simp add: reopen_def Let_def)
    next
      case (Inr reopened)
      let ?live = "\<exists>hnd. registry_get w run (en_registry ?en0) = Some hnd \<and> \<not> is_terminal (wh_cached_status hnd)"
      define e1 where "e1 = (if registry_get w run (en_registry ?en0) = None then ?en0
        else ?en0\<lparr>en_registry := snd (registry_remove w run (en_registry ?en0))\<rparr>)"
      have st: "en_store e1 = en_store ?en0" by (simp add: e1_def)
      have res: "reopen libsql_store respawn meanwhile now w run en =
          (if ?live then (Inl (InvalidState (ConcurrentReopen w run)), ?en0)
           else reopen_append libsql_store respawn meanwhile now w run ?h reopened e1)"
        using nonempty Inr libsql.read_back [OF assms(1), of w]
        by (cases "registry_get w run (en_registry ?en0)") (simp_all add: reopen_def e1_def Let_def)
      from grows_onlyD [OF assms(2,1), of BeforeLookup w] obtain before where
        inv: "ls_inv (en_store e1)" and h1: "ls_hist (en_store e1) w = ?h @ before"
        by (auto simp: prefix_def st)
      have alone: "before = []" if "leaves_alone ls_hist w meanwhile" using that h1 st by (simp add: leaves_alone_def)
      show ?thesis
      proof (cases ?live)
        case True
        then show ?thesis using nonempty Inr res by (simp add: Let_def)
      next
        case False
        with res have run: "reopen libsql_store respawn meanwhile now w run en =
            reopen_append libsql_store respawn meanwhile now w run ?h reopened e1" by simp
        from reopen_append_cases [where reopened = reopened and respawn = respawn and now = now and run = run and meanwhile = meanwhile,
            OF inv assms(2) c h1 assms(3)] alone
        show ?thesis unfolding Let_def run Inr sum.case by (simp only: nonempty False if_False) blast
      qed
    qed
  qed
qed

section \<open>Witnesses\<close>

abbreviation s_paused :: "u64 \<Rightarrow> event" where
  "s_paused n \<equiv> WorkflowPaused (s_env n) s_run None None"

definition s_handle :: workflow_handle where
  "s_handle = s_handle_for s_run 40 0"

definition s_engine :: "history \<Rightarrow> libsql_state engine" where
  "s_engine h = \<lparr>en_store = s_database h,
     en_registry = \<lparr>rg_handles = [((s_workflow, s_run), s_handle)], rg_index = [(s_workflow, s_run, 40)]\<rparr>,
     en_recorders = (\<lambda>_. s_recorder h), en_completions = (\<lambda>_. None), en_paused_runs = {},
     en_wheel = [], en_woken = [], en_cancelled = []\<rparr>"

lemma s_engine_sel [simp]:
  "en_store (s_engine h) = s_database h" "registry_get s_workflow s_run (en_registry (s_engine h)) = Some s_handle"
  "en_recorders (s_engine h) c = s_recorder h" "rc_workflow_id (s_recorder h) = s_workflow"
  "wh_recorder s_handle = 0"
  by (simp_all add: s_engine_def s_recorder_def recorder_resume_at_def s_handle_def s_handle_for_def registry_get_def)

lemma s_find_run:
  assumes "contiguous h" and "h \<noteq> []" and "run_segment h s_run \<noteq> []"
  shows "find_run libsql_store s_workflow s_run (s_engine h) = Inr h"
  using assms libsql.read_back [OF s_database_inv [OF assms(1)], of s_workflow]
  by (simp add: find_run_def s_database_rows)

lemma s_locked:
  assumes "contiguous h" and "length h < 2 ^ 64 - 1" and "recording_op libsql_store at f build" and "check h = Inr ()"
  shows "\<exists>en'. locked_record libsql_store check f s_workflow c (s_engine h) = (Inr (), en')"
proof -
  have len: "unat (of_nat (length h) :: u64) = length h" using assms(2) by (simp add: of_nat_inverse)
  then have "in_step ls_hist (s_recorder h) (s_database h)" "current_head (s_recorder h) \<noteq> - 1"
    using assms(2)
    by (auto simp: in_step_def s_database_rows s_recorder_simps from_head_def
        unsigned_minus_1_eq_mask mask_eq_exp_minus_1 dest: arg_cong [where f = unat])
  from libsql.op_appends [OF assms(3) s_database_inv [OF assms(1)] this] obtain r s
    where "f (s_recorder h) (s_database h) = (Inr (), r, s)" by blast
  then show ?thesis
    using assms(4) libsql.read_back [OF s_database_inv [OF assms(1)], of s_workflow]
    by (simp add: locked_record_def s_database_rows)
qed

lemma s_pause_ok:
  "\<exists>en'. pause libsql_store id 9 s_workflow s_run None None (s_engine [s_started 1]) = (Inr s_handle, en')"
proof -
  have run: "run_segment [s_started 1] s_run = [s_started 1]" by (simp add: run_segment_def)
  have c: "contiguous [s_started 1]" by (simp add: seq_def)
  have "\<exists>en'. locked_record libsql_store (require_status Running (NotPausable s_workflow s_run) s_run)
      (record_workflow_paused libsql_store 9 s_run None None) s_workflow 0 (s_engine [s_started 1]) = (Inr (), en')"
    by (rule s_locked [OF c _ recording_op.intros(16)]) (simp_all add: run status_from_events_def)
  then show ?thesis
    using s_find_run [OF c] by (auto simp: pause_def run require_status_def status_from_events_def)
qed

theorem pause_only_running_witness:
  "\<exists>en'. pause libsql_store id 9 s_workflow s_run None None (s_engine [s_started 1]) = (Inr s_handle, en')
     \<and> en_paused_runs en' = {s_workflow}"
proof -
  from s_pause_ok obtain en' where
    p: "pause libsql_store id 9 s_workflow s_run None None (s_engine [s_started 1]) = (Inr s_handle, en')" by blast
  have "ls_inv (en_store (id (s_engine [s_started 1])))" by (simp add: s_database_inv seq_def)
  from pause_only_running [OF this _ p] p show ?thesis by (auto simp: Let_def s_engine_def s_recorder_def recorder_resume_at_def)
qed

theorem paused_dispatch_held_witness:
  "\<exists>en' claimed s'. pause libsql_store id 9 s_workflow s_run None None (s_engine [s_started 1]) = (Inr s_handle, en')
     \<and> claim_outbox_rows_excluding 10 5 (en_paused_runs en') (en_store en') = (Inr claimed, s')
     \<and> (\<forall>row \<in> set claimed. or_workflow_id row \<noteq> s_workflow)"
proof -
  from s_pause_ok obtain en' where
    p: "pause libsql_store id 9 s_workflow s_run None None (s_engine [s_started 1]) = (Inr s_handle, en')" by blast
  obtain claimed s' where
    c: "claim_outbox_rows_excluding 10 5 (en_paused_runs en') (en_store en') = (Inr claimed, s')"
    by (simp add: claim_excluding_eq claim_result_def)
  have op: "recording_op libsql_store 9 (record_workflow_paused libsql_store 9 s_run None None)
      (\<lambda>w env. WorkflowPaused env s_run None None)" by (rule recording_op.intros)
  have "ls_inv (en_store en')"
    using p libsql.locked_record_cases [OF op, of "s_engine [s_started 1]" 0 s_workflow]
      s_database_inv [of "[s_started 1]"]
    by (auto simp: pause_def paused_insert_def Let_def seq_def split: sum.splits option.splits prod.splits)
  from paused_dispatch_held [OF p this disjI1 [OF refl] c] p c show ?thesis by blast
qed

theorem resume_only_paused_witness:
  "\<exists>en'. resume libsql_store (\<lambda>w run h r ts en. (Inl (EngineRuntime []), en)) (\<lambda>_. id) 9 s_workflow s_run None
       (s_engine [s_started 1, s_paused 2]) = (Inr s_handle, en') \<and> en_paused_runs en' = {}"
proof -
  let ?h = "[s_started 1, s_paused 2]"
  have run: "run_segment ?h s_run = ?h" by (simp add: run_segment_def)
  have c: "contiguous ?h" by (simp add: seq_def)
  have "\<exists>en'. locked_record libsql_store (require_status Paused (NotResumable s_workflow s_run) s_run)
      (record_workflow_resumed libsql_store 9 s_run None) s_workflow 0 (s_engine ?h) = (Inr (), en')"
    by (rule s_locked [OF c _ recording_op.intros(17)]) (simp_all add: run status_from_events_def)
  then obtain en' where
    p: "resume libsql_store (\<lambda>w run h r ts en. (Inl (EngineRuntime []), en)) (\<lambda>_. id) 9 s_workflow s_run None (s_engine ?h)
      = (Inr s_handle, en')"
    using s_find_run [OF c] by (auto simp: resume_def run require_status_def status_from_events_def)
  have inv: "ls_inv (en_store (s_engine ?h))" using c by (simp add: s_database_inv)
  from resume_only_paused [OF _ _ _ p, of s_handle] inv p show ?thesis by (auto simp: Let_def s_engine_def registry_get_def)
qed

text \<open>A cancelled run with one torn-down timer, and another task that records a signal through a recorder
  of its own before that timer is restarted.\<close>

definition s_torn_down :: history where
  "s_torn_down = [s_started 1, TimerStarted (s_env 2) (Named ''t'') 50, TimerCancelled (s_env 3) (Named ''t'') CancelTeardown,
     WorkflowCancelled (s_env 4) ''stop'']"

definition s_intruder :: "libsql_state reopen_interference" where
  "s_intruder p en =
     (case p of
        BeforeRestart _ \<Rightarrow>
          en\<lparr>en_store := snd (snd (record_signal_received libsql_store 9 ''go'' s_payload
             (recorder_resume_at s_workflow 5) (en_store en)))\<rparr>
      | _ \<Rightarrow> en)"

lemma s_intruder_grows: "grows_only ls_inv ls_hist (s_intruder p)"
proof -
  let ?r = "recorder_resume_at s_workflow 5"
  have op: "recording_op libsql_store 9 (record_signal_received libsql_store 9 ''go'' s_payload) (\<lambda>w env. SignalReceived env ''go'' s_payload)"
    by (rule recording_op.intros)
  have "ls_inv (snd (snd (record_signal_received libsql_store 9 ''go'' s_payload ?r s)))
      \<and> prefix (ls_hist s w) (ls_hist (snd (snd (record_signal_received libsql_store 9 ''go'' s_payload ?r s))) w)"
    if "ls_inv s" for s w
    using libsql.recording_op_cases [OF op that, of ?r]
    by (cases "record_signal_received libsql_store 9 ''go'' s_payload ?r s") (fastforce split: sum.splits dest: fun_cong [where x = w])
  then show ?thesis by (cases p) (simp_all add: grows_only_def s_intruder_def)
qed

lemma s_torn_down_facts:
  "contiguous s_torn_down" "run_segment s_torn_down s_run = s_torn_down" "last_seq s_torn_down = 4"
  "rearmable_timers s_torn_down = [\<lparr>rt_timer_id = Named ''t'', rt_fire_at = 50, rt_needs_restart_marker = True\<rparr>]"
  "validate_and_compute_reopened s_workflow s_run s_torn_down = Inr []" "s_torn_down \<noteq> []" "length s_torn_down = 4"
  by (simp_all add: s_torn_down_def seq_def run_segment_def last_seq_def rearmable_timers_def
      validate_and_compute_reopened_def current_lease_terminal_def)

text \<open>The marker is recorded, the signal gets in before the timer's restart, and the restart conflicts.\<close>

lemma s_partly_reopened:
  "\<exists>en'. reopen libsql_store respawn s_intruder 9 s_workflow s_run ((s_engine s_torn_down)\<lparr>en_registry := registry_default\<rparr>)
     = (Inl (EngineDurability (StoreErr (SequenceConflict 5 6))), en')"
proof -
  let ?en = "(s_engine s_torn_down)\<lparr>en_registry := registry_default\<rparr>"
  let ?r0 = "recorder_with_visibility (recorder_resume_at s_workflow 4) s_run"
  let ?marker = "record_workflow_reopened libsql_store 9 s_run []"
  let ?signal = "record_signal_received libsql_store 9 ''go'' s_payload" and ?w = "recorder_resume_at s_workflow 5"
  let ?restart = "record_timer_started libsql_store 9 (Named ''t'') 50"
  have inv: "ls_inv (s_database s_torn_down)" by (rule s_database_inv [OF s_torn_down_facts(1)])
  have ops: "recording_op libsql_store 9 ?marker (\<lambda>w env. WorkflowReopened env s_run [])"
    "recording_op libsql_store 9 ?signal (\<lambda>w env. SignalReceived env ''go'' s_payload)"
    "recording_op libsql_store 9 ?restart (\<lambda>w env. TimerStarted env (Named ''t'') 50)"
    by (rule recording_op.intros)+
  have r0: "rc_workflow_id ?r0 = s_workflow" "current_head ?r0 = 4"
    by (simp_all add: recorder_with_visibility_def recorder_resume_at_def current_head_def from_head_def)
  then have "in_step ls_hist ?r0 (s_database s_torn_down)" "current_head ?r0 \<noteq> - 1"
    by (simp_all add: in_step_def s_database_rows s_torn_down_facts)
  from libsql.op_appends [OF ops(1) inv this] obtain r1 s1 where
    1: "?marker ?r0 (s_database s_torn_down) = (Inr (), r1, s1)" "ls_inv s1" "rc_workflow_id r1 = s_workflow"
    "current_head r1 = 5" "length (ls_hist s1 s_workflow) = 5"
    unfolding r0 by (auto simp: s_database_rows s_torn_down_facts dest: fun_cong [where x = s_workflow])
  have "in_step ls_hist ?w s1" "current_head ?w \<noteq> - 1" using 1(5) by (simp_all add: in_step_def)
  from libsql.op_appends [OF ops(2) 1(2) this] 1(5) obtain r2 s2 where
    2: "?signal ?w s1 = (Inr (), r2, s2)" "ls_inv s2" "length (ls_hist s2 s_workflow) = 6"
    by (auto dest: fun_cong [where x = s_workflow])
  have "\<not> in_step ls_hist r1 s2" "current_head r1 \<noteq> - 1" using 1(3,4) 2(3) by (simp_all add: in_step_def)
  from libsql.op_stale [OF ops(3) 2(2) this(1)] this(2) 1(3,4) 2(3)
  have 3: "?restart r1 s2 = (Inl (StoreErr (SequenceConflict 5 6)), r1, s2)" by auto
  show ?thesis
    using libsql.read_back [OF inv, of s_workflow] 1(1) 2(1) 3
    by (simp add: reopen_def reopen_append_def append_marker_and_restarts_def s_intruder_def s_torn_down_facts
        s_database_rows registry_get_def registry_default_def Let_def)
qed

theorem reopen_branches_witness:
  "let en = (s_engine s_torn_down)\<lparr>en_registry := registry_default\<rparr>;
       spawned = (\<lambda>w run h r ts en. (Inl (EngineRuntime (replicate (length h) (CHR ''x''))), en))
   in fst (reopen libsql_store spawned (\<lambda>_. id) 9 s_workflow s_run en) = Inl (EngineRuntime ''xxxxxx'')
    \<and> (\<exists>en' env. reopen libsql_store spawned s_intruder 9 s_workflow s_run en =
          (Inl (EngineDurability (StoreErr (SequenceConflict 5 6))), en')
        \<and> prefix (s_torn_down @ [WorkflowReopened env s_run []]) (ls_hist (en_store en') s_workflow))"
proof -
  let ?en = "(s_engine s_torn_down)\<lparr>en_registry := registry_default\<rparr>"
  let ?spawned = "\<lambda>w run h r ts en. (Inl (EngineRuntime (replicate (length h) (CHR ''x''))), en)"
  let ?marker = "\<lambda>env. WorkflowReopened env s_run []" and ?rearm = "rearmable_timers s_torn_down"
  have inv: "ls_inv (en_store ?en)" by (simp add: s_database_inv s_torn_down_facts)
  have quiet: "grows_only ls_inv ls_hist (id :: libsql_state engine \<Rightarrow> _)" "leaves_alone ls_hist s_workflow (\<lambda>_. id)"
    by (simp_all add: grows_only_def leaves_alone_def)
  note facts = s_database_rows s_torn_down_facts registry_get_def registry_default_def Let_def
  have "fst (reopen libsql_store ?spawned (\<lambda>_. id) 9 s_workflow s_run ?en) = Inl (EngineRuntime (replicate 6 (CHR ''x'')))"
    using reopen_branches [where en = ?en and w = s_workflow and run = s_run and respawn = ?spawned and now = 9 and meanwhile = "\<lambda>_. id",
        OF inv quiet(1)] quiet(2)
    by (auto simp: facts split: if_splits)
  moreover obtain en' where c: "reopen libsql_store ?spawned s_intruder 9 s_workflow s_run ?en =
      (Inl (EngineDurability (StoreErr (SequenceConflict 5 6))), en')" using s_partly_reopened by blast
  moreover from reopen_branches [where en = ?en and w = s_workflow and run = s_run and respawn = ?spawned and now = 9
      and meanwhile = s_intruder, OF inv s_intruder_grows] c
  obtain own foreign where own: "reopen_events ?marker ?rearm own" "ls_hist (en_store en') s_workflow = s_torn_down @ own @ foreign"
    "conflict_after (s_torn_down @ own) foreign = StoreErr (SequenceConflict 5 6)"
    by (auto simp: facts split: if_splits)
  have "own \<noteq> []" using own(3) by (auto simp: conflict_after_def s_torn_down_facts)
  with own(1,2) obtain env where "prefix (s_torn_down @ [?marker env]) (ls_hist (en_store en') s_workflow)"
    by (auto simp: reopen_events_def)
  ultimately show ?thesis by (simp add: eval_nat_numeral) blast
qed

end
