(* ===== verification/Libsql_Read.thy ===== *)
theory Libsql_Read
  imports Libsql_Store
begin

text \<open>
  The queries of the libSQL store: \<^verbatim>\<open>crates/aion-store-libsql/src/read.rs\<close> (listings and filtered summaries,
  with the columns \<^verbatim>\<open>append/metadata.rs\<close> derives from an event) and \<^verbatim>\<open>timer.rs\<close>.  Rows are values, a \<^verbatim>\<open>SELECT\<close>
  is the list it denotes, and the \<^verbatim>\<open>HashMap\<close> of histories is an association list.  The text of a uuid and of
  a timer id, which the statements order by, are the arguments \<open>show_uuid\<close> and \<open>show_timer\<close>.

  The lemmas show what the listings decide: the projection they read drops the pause and resume markers.
\<close>

section \<open>Columns\<close>

fun queryable_flag :: "event \<Rightarrow> bool" where
  "queryable_flag (WorkflowStarted _ _ _ _ _ _) = True"
| "queryable_flag (WorkflowCompleted _ _) = True"
| "queryable_flag (WorkflowFailed _ _) = True"
| "queryable_flag (WorkflowCancelled _ _) = True"
| "queryable_flag (WorkflowTimedOut _ _) = True"
| "queryable_flag (WorkflowContinuedAsNew _ _ _ _) = True"
| "queryable_flag (WorkflowReopened _ _ _) = True"
| "queryable_flag (WorkflowPaused _ _ _ _) = True"
| "queryable_flag (WorkflowResumed _ _ _) = True"
| "queryable_flag (ChildWorkflowStarted _ _ _ _ _) = True"
| "queryable_flag _ = False"

fun workflow_type_column :: "event \<Rightarrow> string option" where
  "workflow_type_column (WorkflowStarted _ ty _ _ _ _) = Some ty"
| "workflow_type_column (ChildWorkflowStarted _ _ ty _ _) = Some ty"
| "workflow_type_column _ = None"

fun child_workflow_id_column :: "event \<Rightarrow> workflow_id option" where
  "child_workflow_id_column (ChildWorkflowStarted _ child _ _ _) = Some child"
| "child_workflow_id_column _ = None"

section \<open>Summaries\<close>

definition select_events ::
  "show_uuid \<Rightarrow> (workflow_id \<Rightarrow> event \<Rightarrow> bool) \<Rightarrow> libsql_state \<Rightarrow> history" where
  "select_events show_uuid q s =
     map snd (sort_key (\<lambda>(w, e). (show_uuid (workflow_uuid w), seq e)) (filter (\<lambda>(w, e). q w e) (ls_events s)))"

text \<open>The clauses of \<^verbatim>\<open>QueryPlan::from_filter\<close>.\<close>

definition plan_admits :: "workflow_filter \<Rightarrow> libsql_state \<Rightarrow> workflow_id \<Rightarrow> event \<Rightarrow> bool" where
  "plan_admits f s w e \<longleftrightarrow> queryable_flag e
   \<and> is_none_or (\<lambda>ty. list_ex (\<lambda>(v, x). v = w \<and> is_WorkflowStarted x \<and> workflow_type_column x = Some ty) (ls_events s))
       (wf_workflow_type f)
   \<and> is_none_or (\<lambda>at. list_ex (\<lambda>(v, x). v = w \<and> is_WorkflowStarted x \<and> at \<le> recorded_at x) (ls_events s)) (wf_started_after f)
   \<and> is_none_or (\<lambda>at. list_ex (\<lambda>(v, x). v = w \<and> is_WorkflowStarted x \<and> recorded_at x \<le> at) (ls_events s)) (wf_started_before f)
   \<and> is_none_or (\<lambda>p. w = p \<or> list_ex (\<lambda>(v, x). v = p \<and> child_workflow_id_column x = Some w) (ls_events s)) (wf_parent f)"

definition group_event ::
  "(workflow_id \<times> history) list \<Rightarrow> event \<Rightarrow> (workflow_id \<times> history) list" where
  "group_event m e =
     AList.update (workflow_id_of e) ((case map_of m (workflow_id_of e) of None \<Rightarrow> [] | Some h \<Rightarrow> h) @ [e]) m"

definition load_candidate_histories ::
  "show_uuid \<Rightarrow> workflow_filter \<Rightarrow> libsql_state \<Rightarrow> (workflow_id \<times> history) list" where
  "load_candidate_histories show_uuid f s = foldl group_event [] (select_events show_uuid (plan_admits f s) s)"

fun parent_link :: "event \<Rightarrow> (workflow_id \<times> workflow_id) option" where
  "parent_link (ChildWorkflowStarted env child _ _ _) = Some (child, env_workflow_id env)"
| "parent_link _ = None"

definition load_parent_links :: "show_uuid \<Rightarrow> libsql_state \<Rightarrow> (workflow_id \<times> workflow_id) list" where
  "load_parent_links show_uuid s =
     foldl (\<lambda>m (child, parent). AList.update child parent m) []
       (List.map_filter parent_link (select_events show_uuid (\<lambda>_ e. child_workflow_id_column e \<noteq> None) s))"

fun is_queryable_event :: "event \<Rightarrow> bool" where
  "is_queryable_event (WorkflowStarted _ _ _ _ _ _) = True"
| "is_queryable_event (WorkflowCompleted _ _) = True"
| "is_queryable_event (WorkflowFailed _ _) = True"
| "is_queryable_event (WorkflowCancelled _ _) = True"
| "is_queryable_event (WorkflowTimedOut _ _) = True"
| "is_queryable_event (WorkflowContinuedAsNew _ _ _ _) = True"
| "is_queryable_event (WorkflowReopened _ _ _) = True"
| "is_queryable_event _ = False"

definition summary_of :: "(workflow_id \<times> workflow_id) list \<Rightarrow> history \<Rightarrow> workflow_summary option" where
  "summary_of parents history =
     (let h = filter is_queryable_event history
      in map_option (\<lambda>sm. sm\<lparr>ws_status := status_from_events h, ws_parent := map_of parents (ws_workflow_id sm)\<rparr>)
           (from_history h))"

definition load_summaries :: "show_uuid \<Rightarrow> workflow_filter \<Rightarrow> bool \<Rightarrow> libsql_state \<Rightarrow> workflow_summary list" where
  "load_summaries show_uuid f include_parents s =
     (let parents = (if include_parents then load_parent_links show_uuid s else [])
      in List.map_filter (\<lambda>(w, h). summary_of parents h) (load_candidate_histories show_uuid f s))"

definition default_filter :: workflow_filter where
  "default_filter = \<lparr>wf_workflow_type = None, wf_status = None, wf_started_after = None, wf_started_before = None, wf_parent = None\<rparr>"

definition list_by_status :: "show_uuid \<Rightarrow> workflow_status \<Rightarrow> libsql_state \<Rightarrow> (store_error, workflow_id list) result" where
  "list_by_status show_uuid status s =
     Inr (sort_key (\<lambda>w. show_uuid (workflow_uuid w))
       (map ws_workflow_id (filter (\<lambda>sm. ws_status sm = status) (load_summaries show_uuid default_filter False s))))"

definition ls_list_active :: "show_uuid \<Rightarrow> libsql_state \<Rightarrow> (store_error, workflow_id list) result" where
  "ls_list_active show_uuid s = list_by_status show_uuid Running s"

definition ls_list_paused :: "show_uuid \<Rightarrow> libsql_state \<Rightarrow> (store_error, workflow_id list) result" where
  "ls_list_paused show_uuid s = list_by_status show_uuid Paused s"

definition ls_list_workflow_ids :: "show_uuid \<Rightarrow> libsql_state \<Rightarrow> (store_error, workflow_id list) result" where
  "ls_list_workflow_ids show_uuid s =
     Inr (sort_key (\<lambda>w. show_uuid (workflow_uuid w)) (remdups (map fst (ls_events s))))"

definition ls_query :: "show_uuid \<Rightarrow> workflow_filter \<Rightarrow> libsql_state \<Rightarrow> (store_error, workflow_summary list) result" where
  "ls_query show_uuid f s =
     Inr (sort_key (\<lambda>sm. (ws_started_at sm, show_uuid (workflow_uuid (ws_workflow_id sm))))
       (filter (filter_matches f) (load_summaries show_uuid f True s)))"

section \<open>Timers\<close>

definition ls_schedule_timer ::
  "workflow_id \<Rightarrow> timer_id \<Rightarrow> timestamp \<Rightarrow> libsql_state \<Rightarrow> (store_error, unit) result \<times> libsql_state" where
  "ls_schedule_timer w t fire_at s = (Inr (), s\<lparr>ls_timers := AList.update (w, t) fire_at (ls_timers s)\<rparr>)"

definition ls_expired_timers ::
  "show_uuid \<Rightarrow> (timer_id \<Rightarrow> string) \<Rightarrow> timestamp \<Rightarrow> libsql_state \<Rightarrow> (store_error, timer_entry list) result" where
  "ls_expired_timers show_uuid show_timer as_of s =
     Inr (map (\<lambda>((w, t), at). \<lparr>te_workflow_id = w, te_timer_id = t, te_fire_at = at\<rparr>)
       (sort_key (\<lambda>((w, t), at). (at, show_uuid (workflow_uuid w), show_timer t))
         (filter (\<lambda>(_, at). at \<le> as_of) (ls_timers s))))"

section \<open>What the listings decide\<close>

text \<open>Events of a workflow's rows carry its id.\<close>

definition ls_stamped :: "libsql_state \<Rightarrow> bool" where
  "ls_stamped s \<longleftrightarrow> (\<forall>(w, e) \<in> set (ls_events s). workflow_id_of e = w)"

fun is_pause_marker :: "event \<Rightarrow> bool" where
  "is_pause_marker (WorkflowPaused _ _ _ _) = True"
| "is_pause_marker (WorkflowResumed _ _ _) = True"
| "is_pause_marker _ = False"

lemma status_queryable: "status_from_events (filter is_queryable_event h) = status_from_events (filter (\<lambda>e. \<not> is_pause_marker e) h)"
proof (induction h rule: rev_induct)
  case (snoc e h)
  then show ?case by (cases e) (simp_all add: status_from_events_snoc)
qed simp

lemma status_queryable_not_paused: "status_from_events (filter is_queryable_event h) \<noteq> Paused"
proof (induction h rule: rev_induct)
  case (snoc e h)
  then show ?case by (cases e) (simp_all add: status_from_events_snoc)
qed simp

lemma load_summaries_status:
  "sm \<in> set (load_summaries show_uuid f parents s) \<Longrightarrow> ws_status sm \<noteq> Paused"
  by (auto simp: load_summaries_def Let_def List.map_filter_def summary_of_def status_queryable_not_paused
      split: option.splits)

lemma group_fold:
  "map_of (foldl group_event m es) w =
     (case map_of m w of
        None \<Rightarrow> (case filter (\<lambda>e. workflow_id_of e = w) es of [] \<Rightarrow> None | h \<Rightarrow> Some h)
      | Some h \<Rightarrow> Some (h @ filter (\<lambda>e. workflow_id_of e = w) es))"
proof (induction es arbitrary: m)
  case (Cons e es)
  then show ?case by (auto simp: group_event_def update_conv' split: option.splits list.splits)
qed (simp split: option.split)

lemma in_map_filter: "y \<in> set (List.map_filter f xs) \<longleftrightarrow> (\<exists>x \<in> set xs. f x = Some y)"
  by (force simp: List.map_filter_def)

lemma group_distinct: "distinct (map fst m) \<Longrightarrow> distinct (map fst (foldl group_event m es))"
  by (induction es arbitrary: m) (simp_all add: group_event_def distinct_update)

lemma select_default:
  assumes "ls_inv s" and "ls_stamped s"
  shows "filter (\<lambda>e. workflow_id_of e = w) (select_events show_uuid (\<lambda>_. queryable_flag) s) = filter queryable_flag (ls_rows w s)"
proof -
  let ?k = "\<lambda>(v, e). (show_uuid (workflow_uuid v), seq e)"
  let ?rows = "filter (\<lambda>(v, e). v = w \<and> queryable_flag e) (ls_events s)"
  have sub: "filter (\<lambda>x. workflow_id_of (snd x) = w) (filter (\<lambda>(v, e). queryable_flag e) (ls_events s)) = ?rows"
    using assms(2) by (auto simp: ls_stamped_def intro!: filter_cong)
  have snd: "map snd ?rows = filter queryable_flag (ls_rows w s)"
    by (simp add: ls_rows_def filter_map comp_def case_prod_unfold conj_commute)
  have "sorted_wrt (\<le>) (map seq (ls_rows w s))"
    using assms(1) by (auto simp: ls_inv_def intro: contiguous_sorted)
  then have "sorted_wrt (\<lambda>a b. seq a \<le> seq b) (filter queryable_flag (ls_rows w s))"
    by (simp add: sorted_wrt_map sorted_wrt_filter)
  then have sw: "sorted_wrt (\<lambda>a b. seq (snd a) \<le> seq (snd b)) ?rows"
    unfolding snd [symmetric] by (simp add: sorted_wrt_map)
  have "sorted_wrt (\<lambda>a b. ?k a \<le> ?k b) ?rows"
    by (rule sorted_wrt_mono_rel [OF _ sw]) (auto simp: less_eq_prod_simp)
  then have "sort_key ?k ?rows = ?rows" by (intro sort_key_id_if_sorted) (simp add: sorted_wrt_map)
  then show ?thesis
    unfolding select_events_def filter_map comp_def using sub snd by (simp add: filter_sort)
qed

lemma candidate_histories:
  assumes "ls_inv s" and "ls_stamped s"
  shows "map_of (load_candidate_histories show_uuid default_filter s) w =
    (case filter queryable_flag (ls_rows w s) of [] \<Rightarrow> None | h \<Rightarrow> Some h)"
proof -
  have "plan_admits default_filter s = (\<lambda>_. queryable_flag)"
    by (simp add: fun_eq_iff plan_admits_def default_filter_def is_none_or_def)
  then show ?thesis by (simp add: load_candidate_histories_def group_fold select_default [OF assms])
qed

lemma queryable_subset [simp]: "queryable_flag e \<and> is_queryable_event e \<longleftrightarrow> is_queryable_event e"
  by (cases e) auto

lemma from_history_id:
  assumes "from_history h = Some sm" and "\<forall>e \<in> set h. workflow_id_of e = w"
  shows "ws_workflow_id sm = w"
proof -
  from assms(1) obtain x where x: "find_map started_info (rev h) = Some x" "ws_workflow_id sm = fst x"
    by (auto simp: from_history_def split: option.splits prod.splits)
  from find_map_SomeD [OF x(1)] obtain e where e: "e \<in> set h" "started_info e = Some x" by auto
  from e(2) have "fst x = workflow_id_of e" by (cases e rule: event.exhaust) (auto simp: workflow_id_of_def)
  with assms(2) e x show ?thesis by simp
qed

lemma summaries_default:
  assumes "ls_inv s" and "ls_stamped s"
  shows "(\<exists>sm \<in> set (load_summaries show_uuid default_filter False s). ws_workflow_id sm = w \<and> ws_status sm = status) \<longleftrightarrow>
    (\<exists>e \<in> set (ls_rows w s). is_WorkflowStarted e) \<and> status_from_events (filter (\<lambda>e. \<not> is_pause_marker e) (ls_rows w s)) = status"
proof -
  let ?m = "load_candidate_histories show_uuid default_filter s"
  have d: "distinct (map fst ?m)" by (simp add: load_candidate_histories_def group_distinct)
  have stamp: "\<forall>e \<in> set (ls_rows v s). workflow_id_of e = v" for v
    using assms(2) by (auto simp: ls_stamped_def ls_rows_def)
  have mem: "(v, h) \<in> set ?m \<longleftrightarrow> h \<noteq> [] \<and> h = filter queryable_flag (ls_rows v s)" for v h
    unfolding map_of_eq_Some_iff [OF d, symmetric] candidate_histories [OF assms] by (auto split: list.split)
  let ?sm = "\<lambda>v. summary_of [] (filter queryable_flag (ls_rows v s))"
  have sm: "?sm v = None \<longleftrightarrow> (\<forall>e \<in> set (ls_rows v s). \<not> is_WorkflowStarted e)" for v
  proof -
    have "is_WorkflowStarted e \<Longrightarrow> is_queryable_event e \<and> queryable_flag e" for e by (cases e) auto
    then show ?thesis by (auto simp: summary_of_def Let_def from_history_None_iff)
  qed
  have val: "ws_workflow_id x = v \<and> ws_status x = status_from_events (filter (\<lambda>e. \<not> is_pause_marker e) (ls_rows v s))"
    if "?sm v = Some x" for v x
    using that from_history_id [of "filter is_queryable_event (ls_rows v s)" _ v] stamp [of v]
    by (auto simp: summary_of_def Let_def status_queryable)
  have empty: "?sm v = None" if "filter queryable_flag (ls_rows v s) = []" for v
    using that by (simp add: summary_of_def from_history_None_iff)
  show ?thesis
  proof
    assume "\<exists>x \<in> set (load_summaries show_uuid default_filter False s). ws_workflow_id x = w \<and> ws_status x = status"
    then obtain v x where "?sm v = Some x" "ws_workflow_id x = w" "ws_status x = status"
      by (auto simp: load_summaries_def in_map_filter mem)
    with val [of v x] sm [of v] show "(\<exists>e \<in> set (ls_rows w s). is_WorkflowStarted e)
        \<and> status_from_events (filter (\<lambda>e. \<not> is_pause_marker e) (ls_rows w s)) = status" by auto
  next
    assume r: "(\<exists>e \<in> set (ls_rows w s). is_WorkflowStarted e)
        \<and> status_from_events (filter (\<lambda>e. \<not> is_pause_marker e) (ls_rows w s)) = status"
    then obtain x where x: "?sm w = Some x" using sm [of w] by blast
    then have "(w, filter queryable_flag (ls_rows w s)) \<in> set ?m" using empty [of w] by (auto simp: mem)
    with x have "x \<in> set (load_summaries show_uuid default_filter False s)"
      by (auto simp: load_summaries_def in_map_filter intro!: bexI [of _ "(w, filter queryable_flag (ls_rows w s))"])
    with val [OF x] r show "\<exists>x \<in> set (load_summaries show_uuid default_filter False s). ws_workflow_id x = w \<and> ws_status x = status"
      by (intro bexI [of _ x]) simp_all
  qed
qed

section \<open>Properties\<close>

text \<open>On the libSQL store no workflow is ever listed as paused, and a paused one is listed as active: the
  projection the listings read leaves out the pause and resume markers, so a started workflow is active
  exactly when it would be running had it never been paused.\<close>

theorem libsql_pause_invisible:
  assumes "ls_inv s" and "ls_stamped s"
  shows "ls_list_paused show_uuid s = Inr []
    \<and> (\<exists>active. ls_list_active show_uuid s = Inr active \<and> (\<forall>w. w \<in> set active \<longleftrightarrow>
         (\<exists>e \<in> set (ls_hist s w). is_WorkflowStarted e)
       \<and> status_from_events (filter (\<lambda>e. \<not> is_pause_marker e) (ls_hist s w)) = Running))"
proof -
  have "filter (\<lambda>sm. ws_status sm = Paused) (load_summaries show_uuid default_filter False s) = []"
    using load_summaries_status by (auto simp: filter_empty_conv)
  then have "ls_list_paused show_uuid s = Inr []" by (simp add: ls_list_paused_def list_by_status_def)
  moreover have "w \<in> set (map ws_workflow_id (filter (\<lambda>sm. ws_status sm = Running) (load_summaries show_uuid default_filter False s)))
      \<longleftrightarrow> (\<exists>e \<in> set (ls_hist s w). is_WorkflowStarted e)
       \<and> status_from_events (filter (\<lambda>e. \<not> is_pause_marker e) (ls_hist s w)) = Running" for w
    unfolding summaries_default [OF assms, of show_uuid w Running, symmetric] by auto
  ultimately show ?thesis by (simp add: ls_list_active_def list_by_status_def)
qed

theorem libsql_pause_invisible_witness:
  "let s = libsql_empty\<lparr>ls_events := [(s_workflow, s_started 1), (s_workflow, WorkflowPaused (s_env 2) s_run None None)]\<rparr>
   in status_from_events (ls_hist s s_workflow) = Paused \<and> ls_list_paused decimal_uuid s = Inr []
    \<and> (\<exists>active. ls_list_active decimal_uuid s = Inr active \<and> s_workflow \<in> set active)"
proof -
  let ?s = "libsql_empty\<lparr>ls_events := [(s_workflow, s_started 1), (s_workflow, WorkflowPaused (s_env 2) s_run None None)]\<rparr>"
  have "ls_inv ?s" by (simp add: ls_inv_def ls_rows_def seq_def libsql_empty_def)
  moreover have "ls_stamped ?s" by (simp add: ls_stamped_def workflow_id_of_def)
  ultimately show ?thesis
    using libsql_pause_invisible [of ?s decimal_uuid]
    by (auto simp: Let_def ls_rows_def status_from_events_def)
qed

end
