(* ===== verification/Timers.thy ===== *)
theory Timers
  imports Lifecycle Schedule Libsql_Read
begin

text \<open>
  Durable timers: \<^verbatim>\<open>crates/aion/src/time\<close> (the reserved deadline timer, the timer service, named timers and
  sleeps, recovery) over the engine seam that \<^verbatim>\<open>runtime/nif_timer_bridge.rs\<close> implements, and
  \<^verbatim>\<open>terminal_outcome_from_history\<close> of \<^verbatim>\<open>lifecycle/completion.rs\<close>, which the bridge consults.

  Parsing a uuid is the \<^verbatim>\<open>uuid\<close> crate's: the argument \<open>parse_uuid\<close>.  The wheel is the set of armed entries; the
  tokio task behind an entry, which sleeps and then calls \<^verbatim>\<open>fire_timer\<close>, is not modelled.  A service operation
  awaits between its liveness check and its append: \<open>interfere n\<close> is what other tasks do at its \<open>n\<close>-th such
  point.  \<open>record_workflow_event\<close> takes the lookup of the workflow's handle and the section under its recorder
  lock as one step; other tasks run before and after it.  The guard that excludes a cancel and a fire of the
  same timer is in the step relation.

  The lemmas show which timers are live, that a fire wakes a process only after it has been recorded for a
  run that had not ended, and that one start of a timer is settled at most once as long as the rest of the
  engine is orderly.
\<close>

section \<open>The recorded terminal of a run\<close>

definition terminal_outcome_from_history :: "history \<Rightarrow> run_id \<Rightarrow> terminal_outcome option" where
  "terminal_outcome_from_history events run =
     (case current_lease_terminal (run_segment events run) of
        Some (WorkflowCompleted _ result) \<Rightarrow> Some (OutcomeCompleted result)
      | Some (WorkflowFailed _ err) \<Rightarrow> Some (OutcomeFailed err)
      | Some (WorkflowCancelled _ reason) \<Rightarrow> Some (OutcomeCancelled reason)
      | Some (WorkflowTimedOut _ timeout) \<Rightarrow> Some (OutcomeTimedOut timeout)
      | Some (WorkflowContinuedAsNew _ input ty parent) \<Rightarrow>
          if parent = run then Some (OutcomeContinuedAsNew input ty parent) else None
      | _ \<Rightarrow> None)"

fun started_run :: "event \<Rightarrow> run_id option" where
  "started_run (WorkflowStarted _ _ _ run _ _) = Some run"
| "started_run _ = None"

definition active_run_has_terminal :: "history \<Rightarrow> bool" where
  "active_run_has_terminal h =
     (case find_map started_run (rev h) of
        None \<Rightarrow> False
      | Some run \<Rightarrow> terminal_outcome_from_history h run \<noteq> None)"

section \<open>The deadline timer\<close>

definition DEADLINE_TIMER_PREFIX :: string where
  "DEADLINE_TIMER_PREFIX = ''deadline:''"

definition WORKFLOW_TIMEOUT_DESCRIPTOR :: string where
  "WORKFLOW_TIMEOUT_DESCRIPTOR = ''workflow''"

definition strip_prefix :: "string \<Rightarrow> string \<Rightarrow> string option" where
  "strip_prefix p s = (if prefix p s then Some (drop (length p) s) else None)"

type_synonym parse_uuid = "string \<Rightarrow> uuid option"

definition deadline_timer_id :: "show_uuid \<Rightarrow> run_id \<Rightarrow> (id_error, timer_id) result" where
  "deadline_timer_id show_uuid run = timer_named (DEADLINE_TIMER_PREFIX @ show_uuid (run_uuid run))"

definition is_deadline_timer :: "timer_id \<Rightarrow> bool" where
  "is_deadline_timer t =
     (case timer_name t of None \<Rightarrow> False | Some name \<Rightarrow> prefix DEADLINE_TIMER_PREFIX name)"

definition deadline_run_id :: "parse_uuid \<Rightarrow> timer_id \<Rightarrow> run_id option" where
  "deadline_run_id parse_uuid t =
     Option.bind (timer_name t) (\<lambda>name.
     Option.bind (strip_prefix DEADLINE_TIMER_PREFIX name) (\<lambda>suffix.
       map_option RunId (parse_uuid suffix)))"

text \<open>What a timer event does to a timer: \<open>Some (t, True)\<close> starts it, \<open>Some (t, False)\<close> retires it.\<close>

fun timer_effect :: "event \<Rightarrow> (timer_id \<times> bool) option" where
  "timer_effect (TimerStarted _ t _) = Some (t, True)"
| "timer_effect (TimerFired _ t) = Some (t, False)"
| "timer_effect (TimerCancelled _ t _) = Some (t, False)"
| "timer_effect _ = None"

definition deadline_step :: "parse_uuid \<Rightarrow> run_id \<Rightarrow> timer_id option \<Rightarrow> event \<Rightarrow> timer_id option" where
  "deadline_step parse_uuid run live e =
     (case timer_effect e of
        None \<Rightarrow> live
      | Some (t, started) \<Rightarrow>
          if \<not> is_deadline_timer t \<or> deadline_run_id parse_uuid t \<noteq> Some run then live
          else if started then Some t else None)"

definition outstanding_deadline_timer :: "parse_uuid \<Rightarrow> history \<Rightarrow> run_id \<Rightarrow> timer_id option" where
  "outstanding_deadline_timer parse_uuid h run = foldl (deadline_step parse_uuid run) None h"

definition retire_run_deadline ::
  "parse_uuid \<Rightarrow> 's event_store \<Rightarrow> timestamp \<Rightarrow> history \<Rightarrow> run_id \<Rightarrow> recorder \<Rightarrow> 's \<Rightarrow> (unit, 's) recorded" where
  "retire_run_deadline parse_uuid ops now h run r s =
     (case outstanding_deadline_timer parse_uuid h run of
        None \<Rightarrow> (Inr (), r, s)
      | Some t \<Rightarrow> record_timer_cancelled ops now t WorkflowIntent r s)"

section \<open>Live timers\<close>

definition active_segment :: "history \<Rightarrow> history" where
  "active_segment h = drop (case rposition is_WorkflowStarted h of None \<Rightarrow> 0 | Some i \<Rightarrow> i) h"

fun live_step :: "timer_id list \<Rightarrow> event \<Rightarrow> timer_id list" where
  "live_step live (TimerStarted _ t _) = (if t \<in> set live then live else live @ [t])"
| "live_step live (TimerFired _ t) = filter (\<lambda>u. u \<noteq> t) live"
| "live_step live (TimerCancelled _ t _) = filter (\<lambda>u. u \<noteq> t) live"
| "live_step live _ = live"

definition live_timers_in_active_segment :: "history \<Rightarrow> timer_id list" where
  "live_timers_in_active_segment h = foldl live_step [] (active_segment h)"

section \<open>The engine seam of the timer bridge\<close>

datatype workflow_residency = SeamResident u64 | SeamNonResident | SeamTerminal | SeamUnknown

datatype seam_error =
  UnknownWorkflow workflow_id
| UnknownProcess u64
| CannotRecord string
| SeamRecorder durability_error
| SeamDelivery string

datatype record_outcome = Recorded | RefusedTerminal

definition find_handle :: "workflow_id \<Rightarrow> registry \<Rightarrow> workflow_handle option" where
  "find_handle w rg = find (\<lambda>hnd. wh_workflow_id hnd = w) (registry_list rg)"

definition resolve_workflow :: "workflow_id \<Rightarrow> 's engine \<Rightarrow> workflow_residency" where
  "resolve_workflow w en =
     (case find_handle w (en_registry en) of
        Some hnd \<Rightarrow> if wh_residency hnd = Resident then SeamResident (wh_pid hnd) else SeamNonResident
      | None \<Rightarrow> SeamUnknown)"

definition workflow_id_for_process :: "u64 \<Rightarrow> 's engine \<Rightarrow> (seam_error, workflow_id) result" where
  "workflow_id_for_process pid en =
     ok_or (map_option wh_workflow_id (find (\<lambda>hnd. wh_pid hnd = pid) (registry_list (en_registry en)))) (UnknownProcess pid)"

definition arm_timer :: "u64 \<Rightarrow> timer_id \<Rightarrow> timestamp \<Rightarrow> 's engine \<Rightarrow> (seam_error, unit) result \<times> 's engine" where
  "arm_timer pid t fire_at en =
     (case workflow_id_for_process pid en of
        Inl e \<Rightarrow> (Inl e, en)
      | Inr _ \<Rightarrow> (Inr (), en\<lparr>en_wheel := AList.update (pid, t) fire_at (en_wheel en)\<rparr>))"

definition disarm_timer :: "u64 \<Rightarrow> timer_id \<Rightarrow> 's engine \<Rightarrow> (seam_error, unit) result \<times> 's engine" where
  "disarm_timer pid t en = (Inr (), en\<lparr>en_wheel := AList.delete (pid, t) (en_wheel en)\<rparr>)"

definition shutdown_timer_wheel :: "'s engine \<Rightarrow> 's engine" where
  "shutdown_timer_wheel en = en\<lparr>en_wheel := []\<rparr>"

text \<open>Delivering a timer fire is a wake of the process; whether the runtime accepts it is \<open>wake\<close>.\<close>

definition deliver_timer_fired ::
  "(u64 \<Rightarrow> (string, unit) result) \<Rightarrow> u64 \<Rightarrow> 's engine \<Rightarrow> (seam_error, unit) result \<times> 's engine" where
  "deliver_timer_fired wake pid en =
     (case wake pid of
        Inl reason \<Rightarrow> (Inl (SeamDelivery reason), en)
      | Inr _ \<Rightarrow> (Inr (), en\<lparr>en_woken := en_woken en @ [pid]\<rparr>))"

text \<open>The recording of a timer event through the recorder of the workflow's handle, under its lock: the
  envelope of the event only supplies the time.\<close>

fun timer_recording :: "'s event_store \<Rightarrow> timestamp \<Rightarrow> event \<Rightarrow> (recorder \<Rightarrow> 's \<Rightarrow> (unit, 's) recorded) option" where
  "timer_recording ops at (TimerFired _ t) = Some (record_timer_fired ops at t)"
| "timer_recording ops at (TimerCancelled _ t cause) = Some (record_timer_cancelled ops at t cause)"
| "timer_recording ops at _ = None"

fun bridge_event_kind :: "event \<Rightarrow> string" where
  "bridge_event_kind (TimerFired _ _) = ''TimerFired''"
| "bridge_event_kind (TimerCancelled _ _ _) = ''TimerCancelled''"
| "bridge_event_kind (WithTimeoutCompleted _ _ _ _) = ''WithTimeoutCompleted''"
| "bridge_event_kind _ = ''non-timer''"

definition record_workflow_event ::
  "'s event_store \<Rightarrow> workflow_id \<Rightarrow> event \<Rightarrow> 's engine \<Rightarrow> (seam_error, record_outcome) result \<times> 's engine" where
  "record_workflow_event ops w event en =
     (case timer_recording ops (recorded_at event) event of
        None \<Rightarrow> (Inl (CannotRecord (bridge_event_kind event)), en)
      | Some recording \<Rightarrow>
          (case find_handle w (en_registry en) of
             None \<Rightarrow> (Inl (UnknownWorkflow w), en)
           | Some hnd \<Rightarrow>
               (case es_read_history ops w (en_store en) of
                  Inl e \<Rightarrow> (Inl (SeamRecorder (StoreErr e)), en)
                | Inr h \<Rightarrow>
                    if active_run_has_terminal h then (Inr RefusedTerminal, en)
                    else
                      (case recording (en_recorders en (wh_recorder hnd)) (en_store en) of
                         (res, r, s) \<Rightarrow>
                           (map_err SeamRecorder (bind_res res (\<lambda>_. Inr Recorded)),
                            en\<lparr>en_store := s, en_recorders := (en_recorders en)(wh_recorder hnd := r)\<rparr>)))))"

section \<open>The timer service\<close>

datatype timer_service_error =
  TimerStore store_error
| TimerEngine seam_error
| NoDeadlineHandler timer_id workflow_id
| MalformedDeadline timer_id workflow_id
| DeadlineHandlerFailed engine_error

text \<open>The timer operations of \<^verbatim>\<open>ReadableEventStore\<close>.\<close>

record 's timer_store =
  ts_schedule_timer :: "workflow_id \<Rightarrow> timer_id \<Rightarrow> timestamp \<Rightarrow> 's \<Rightarrow> (store_error, unit) result \<times> 's"
  ts_expired_timers :: "timestamp \<Rightarrow> 's \<Rightarrow> (store_error, timer_entry list) result"
  ts_list_active :: "'s \<Rightarrow> (store_error, workflow_id list) result"

type_synonym 's deadline_handler =
  "workflow_id \<Rightarrow> run_id \<Rightarrow> 's engine \<Rightarrow> (engine_error, unit) result \<times> 's engine"

type_synonym 's interference = "nat \<Rightarrow> 's engine \<Rightarrow> 's engine"

definition schedule ::
  "'s timer_store \<Rightarrow> workflow_id \<Rightarrow> timer_id \<Rightarrow> timestamp \<Rightarrow> 's engine \<Rightarrow> (timer_service_error, unit) result \<times> 's engine" where
  "schedule tops w t fire_at en =
     (case ts_schedule_timer tops w t fire_at (en_store en) of
        (Inl e, s) \<Rightarrow> (Inl (TimerStore e), en\<lparr>en_store := s\<rparr>)
      | (Inr _, s) \<Rightarrow>
          (let en1 = en\<lparr>en_store := s\<rparr>
           in case resolve_workflow w en1 of
                SeamResident pid \<Rightarrow> (let (res, en2) = arm_timer pid t fire_at en1 in (map_err TimerEngine res, en2))
              | _ \<Rightarrow> (Inr (), en1)))"

definition timer_is_live :: "'s event_store \<Rightarrow> workflow_id \<Rightarrow> timer_id \<Rightarrow> 's \<Rightarrow> (store_error, bool) result" where
  "timer_is_live ops w t s =
     bind_res (es_read_history ops w s) (\<lambda>h. Inr (t \<in> set (live_timers_in_active_segment h)))"

definition service_next_envelope ::
  "'s event_store \<Rightarrow> timestamp \<Rightarrow> workflow_id \<Rightarrow> 's \<Rightarrow> (store_error, event_envelope) result" where
  "service_next_envelope ops now w s =
     bind_res (es_read_history ops w s) (\<lambda>h.
       Inr \<lparr>env_seq = foldl max 0 (map seq h) + 1, env_recorded_at = now, env_workflow_id = w\<rparr>)"

text \<open>The append both paths end with: read the envelope, then record through the seam.\<close>

definition record_timer_event ::
  "'s event_store \<Rightarrow> 's interference \<Rightarrow> timestamp \<Rightarrow> workflow_id \<Rightarrow> (event_envelope \<Rightarrow> event) \<Rightarrow> 's engine
    \<Rightarrow> (timer_service_error, record_outcome) result \<times> 's engine" where
  "record_timer_event ops interfere now w build en =
     (case service_next_envelope ops now w (en_store en) of
        Inl e \<Rightarrow> (Inl (TimerStore e), en)
      | Inr env \<Rightarrow>
          (let (res, en') = record_workflow_event ops w (build env) (interfere 1 en) in (map_err TimerEngine res, en')))"

definition cancel_guarded ::
  "'s event_store \<Rightarrow> 's interference \<Rightarrow> timestamp \<Rightarrow> workflow_id \<Rightarrow> timer_id \<Rightarrow> timer_cancel_cause \<Rightarrow> 's engine
    \<Rightarrow> (timer_service_error, unit) result \<times> 's engine" where
  "cancel_guarded ops interfere now w t cause en =
     (case timer_is_live ops w t (en_store en) of
        Inl e \<Rightarrow> (Inl (TimerStore e), en)
      | Inr False \<Rightarrow> (Inr (), en)
      | Inr True \<Rightarrow>
          (let en1 = interfere 0 en;
               en2 = (case resolve_workflow w en1 of SeamResident pid \<Rightarrow> snd (disarm_timer pid t en1) | _ \<Rightarrow> en1);
               (res, en3) = record_timer_event ops interfere now w (\<lambda>env. TimerCancelled env t cause) en2
           in (bind_res res (\<lambda>_. Inr ()), en3)))"

definition fire_deadline ::
  "parse_uuid \<Rightarrow> 's deadline_handler option \<Rightarrow> workflow_id \<Rightarrow> timer_id \<Rightarrow> 's engine
    \<Rightarrow> (timer_service_error, unit) result \<times> 's engine" where
  "fire_deadline parse_uuid handler w t en =
     (case handler of
        None \<Rightarrow> (Inl (NoDeadlineHandler t w), en)
      | Some on_deadline_elapsed \<Rightarrow>
          (case deadline_run_id parse_uuid t of
             None \<Rightarrow> (Inl (MalformedDeadline t w), en)
           | Some run \<Rightarrow>
               (let (res, en') = on_deadline_elapsed w run en in (map_err DeadlineHandlerFailed res, en'))))"

definition fire_timer_guarded ::
  "parse_uuid \<Rightarrow> (u64 \<Rightarrow> (string, unit) result) \<Rightarrow> 's event_store \<Rightarrow> 's deadline_handler option \<Rightarrow> 's interference
    \<Rightarrow> timestamp \<Rightarrow> workflow_id \<Rightarrow> timer_id \<Rightarrow> 's engine \<Rightarrow> (timer_service_error, unit) result \<times> 's engine" where
  "fire_timer_guarded parse_uuid wake ops handler interfere now w t en =
     (case timer_is_live ops w t (en_store en) of
        Inl e \<Rightarrow> (Inl (TimerStore e), en)
      | Inr False \<Rightarrow> (Inr (), en)
      | Inr True \<Rightarrow>
          (let en1 = interfere 0 en
           in if is_deadline_timer t then fire_deadline parse_uuid handler w t en1
              else
                (case record_timer_event ops interfere now w (\<lambda>env. TimerFired env t) en1 of
                   (Inl e, en2) \<Rightarrow> (Inl e, en2)
                 | (Inr RefusedTerminal, en2) \<Rightarrow> (Inr (), en2)
                 | (Inr Recorded, en2) \<Rightarrow>
                     (let en3 = interfere 2 en2
                      in case resolve_workflow w en3 of
                           SeamResident pid \<Rightarrow>
                             (let (res, en4) = deliver_timer_fired wake pid en3 in (map_err TimerEngine res, en4))
                         | _ \<Rightarrow> (Inr (), en3)))))"

section \<open>The live wheel\<close>

definition MAX_ATTEMPTS :: nat where
  "MAX_ATTEMPTS = 6"

definition deadline_remains_live :: "parse_uuid \<Rightarrow> 's event_store \<Rightarrow> workflow_id \<Rightarrow> timer_id \<Rightarrow> 's \<Rightarrow> (store_error, bool) result" where
  "deadline_remains_live parse_uuid ops w t s =
     (case deadline_run_id parse_uuid t of
        None \<Rightarrow> Inr False
      | Some run \<Rightarrow>
          bind_res (es_read_history ops w s) (\<lambda>h. Inr (outstanding_deadline_timer parse_uuid h run \<noteq> None)))"

text \<open>\<open>fire\<close> is the \<^verbatim>\<open>fire_timer\<close> call; \<open>backoff n\<close> is what happens during the sleep before another attempt.  The
  result counts the calls.\<close>

fun fire_wheel_attempts ::
  "parse_uuid \<Rightarrow> 's event_store \<Rightarrow> ('s engine \<Rightarrow> (timer_service_error, unit) result \<times> 's engine) \<Rightarrow> 's interference
    \<Rightarrow> workflow_id \<Rightarrow> timer_id \<Rightarrow> nat \<Rightarrow> 's engine \<Rightarrow> nat \<times> 's engine" where
  "fire_wheel_attempts parse_uuid ops fire backoff w t 0 en = (0, en)"
| "fire_wheel_attempts parse_uuid ops fire backoff w t (Suc left) en =
     (case fire en of
        (Inr _, en1) \<Rightarrow> (1, en1)
      | (Inl _, en1) \<Rightarrow>
          if \<not> is_deadline_timer t then (1, en1)
          else if deadline_remains_live parse_uuid ops w t (en_store en1) = Inr False then (1, en1)
          else if left = 0 then (1, en1)
          else
            (let (n, en2) = fire_wheel_attempts parse_uuid ops fire backoff w t left (backoff left en1) in (n + 1, en2)))"

definition fire_wheel_timer where
  "fire_wheel_timer parse_uuid ops fire backoff w t en =
     fire_wheel_attempts parse_uuid ops fire backoff w t MAX_ATTEMPTS en"

section \<open>Named timers and sleeps\<close>

record sleep_timer =
  st_timer_id :: timer_id
  st_fire_at :: timestamp

datatype sleep_timer_error = DurationOutOfRange | FireAtOutOfRange | SleepTimer timer_service_error

definition start_timer where
  "start_timer tops w t fire_at en = schedule tops w t fire_at en"

definition cancel_timer where
  "cancel_timer ops interfere now w t en = cancel_guarded ops interfere now w t WorkflowIntent en"

definition sleep ::
  "'c calendar \<Rightarrow> 's timer_store \<Rightarrow> workflow_id \<Rightarrow> duration \<Rightarrow> timestamp \<Rightarrow> u64 \<Rightarrow> 's engine
    \<Rightarrow> (sleep_timer_error, sleep_timer) result \<times> 's engine" where
  "sleep cal tops w dur recorded_now sequence_pos en =
     (case cal_from_std cal dur of
        None \<Rightarrow> (Inl DurationOutOfRange, en)
      | Some d \<Rightarrow>
          (case cal_checked_add cal recorded_now d of
             None \<Rightarrow> (Inl FireAtOutOfRange, en)
           | Some fire_at \<Rightarrow>
               (case schedule tops w (timer_anonymous sequence_pos) fire_at en of
                  (Inl e, en') \<Rightarrow> (Inl (SleepTimer e), en')
                | (Inr _, en') \<Rightarrow> (Inr \<lparr>st_timer_id = timer_anonymous sequence_pos, st_fire_at = fire_at\<rparr>, en'))))"

section \<open>Lemmas: live timers\<close>

lemma rposition_snoc: "rposition p (xs @ [x]) = (if p x then Some (length xs) else rposition p xs)"
  by (cases "position p (rev xs)") (auto simp: rposition_def dest!: position_SomeD)

lemma active_segment_snoc:
  "active_segment (h @ [e]) = (if is_WorkflowStarted e then [e] else active_segment h @ [e])"
proof (cases "rposition is_WorkflowStarted h")
  case (Some i)
  then have "i < length h" using position_SomeD(1) [of is_WorkflowStarted "rev h"] by (auto simp: rposition_def)
  with Some show ?thesis by (simp add: active_segment_def rposition_snoc)
qed (simp add: active_segment_def rposition_snoc)

lemma live_timers_snoc:
  "live_timers_in_active_segment (h @ [e]) =
     (if is_WorkflowStarted e then [] else live_step (live_timers_in_active_segment h) e)"
  by (cases e) (simp_all add: live_timers_in_active_segment_def active_segment_snoc)

text \<open>The last thing that happened to a timer in a list of events.\<close>

definition last_effect :: "timer_id \<Rightarrow> history \<Rightarrow> bool option" where
  "last_effect t es = find_map (\<lambda>e. case timer_effect e of Some (u, b) \<Rightarrow> if u = t then Some b else None | None \<Rightarrow> None) (rev es)"

lemma last_effect_snoc:
  "last_effect t (es @ [e]) =
     (case timer_effect e of Some (u, b) \<Rightarrow> if u = t then Some b else last_effect t es | None \<Rightarrow> last_effect t es)"
  by (auto simp: last_effect_def split: option.splits)

lemma live_step_set:
  "set (live_step live e) =
     (case timer_effect e of None \<Rightarrow> set live | Some (t, True) \<Rightarrow> insert t (set live) | Some (t, False) \<Rightarrow> set live - {t})"
  by (cases e) auto

lemma live_step_distinct: "distinct live \<Longrightarrow> distinct (live_step live e)"
  by (cases e) auto

lemma foldl_live_step:
  "distinct (foldl live_step [] es) \<and> (t \<in> set (foldl live_step [] es) \<longleftrightarrow> last_effect t es = Some True)"
proof (induction es rule: rev_induct)
  case Nil
  show ?case by (simp add: last_effect_def)
next
  case (snoc e es)
  then show ?case
    by (auto simp: live_step_set last_effect_snoc live_step_distinct split: option.splits bool.splits)
qed

section \<open>Lemmas: the recorded terminal\<close>

text \<open>Run ids are fresh, so the run started last is the one whose segment is open.\<close>

definition distinct_runs :: "history \<Rightarrow> bool" where
  "distinct_runs h \<longleftrightarrow> distinct (List.map_filter started_run h)"

lemma started_run_iff: "started_run e = Some run \<longleftrightarrow> starts_run run e"
  by (cases e) auto

lemma started_run_None: "started_run e = None \<longleftrightarrow> \<not> is_WorkflowStarted e"
  by (cases e) auto

lemma map_filter_snoc: "List.map_filter f (xs @ [x]) = List.map_filter f xs @ (case f x of None \<Rightarrow> [] | Some y \<Rightarrow> [y])"
  by (simp add: List.map_filter_def split: option.split)

lemma in_map_filter_started: "run \<in> set (List.map_filter started_run h) \<longleftrightarrow> (\<exists>e \<in> set h. starts_run run e)"
  by (simp add: in_map_filter started_run_iff)

lemma active_run_latest: "distinct_runs h \<Longrightarrow> find_map started_run (rev h) = Some run \<Longrightarrow> latest_run h run"
proof (induction h rule: rev_induct)
  case (snoc e h)
  show ?case
  proof (cases "started_run e")
    case None
    with snoc have "latest_run h run" by (simp add: distinct_runs_def map_filter_snoc)
    with None run_segment_extend(2) [of h run "[e]"] show ?thesis by (simp add: started_run_None)
  next
    case (Some run')
    with snoc.prems have "run' = run" and fresh: "\<forall>x \<in> set h. \<not> starts_run run x"
      by (auto simp: distinct_runs_def map_filter_snoc in_map_filter_started)
    moreover have "position (starts_run run) h = None" using fresh by (simp add: position_None_iff)
    ultimately show ?thesis using Some by (simp add: latest_run_def position_append started_run_iff)
  qed
qed simp

definition opens_lease :: "event \<Rightarrow> bool" where
  "opens_lease e \<longleftrightarrow> lease_scan e = Some None"

text \<open>A continue-as-new terminal names the run it ends.\<close>

fun ends_run :: "run_id option \<Rightarrow> event \<Rightarrow> bool" where
  "ends_run run (WorkflowContinuedAsNew _ _ _ parent) = (run = Some parent)"
| "ends_run run e = (\<exists>t. lease_scan e = Some (Some t))"

definition foreign_continuation :: "history \<Rightarrow> event \<Rightarrow> bool" where
  "foreign_continuation h e \<longleftrightarrow> is_WorkflowContinuedAsNew e \<and> \<not> ends_run (find_map started_run (rev h)) e"

lemma terminal_outcome_snoc:
  assumes "latest_run h run" and "\<not> is_WorkflowStarted e"
  shows "terminal_outcome_from_history (h @ [e]) run \<noteq> None \<longleftrightarrow>
    (case lease_scan e of
       None \<Rightarrow> terminal_outcome_from_history h run \<noteq> None
     | Some None \<Rightarrow> False
     | Some (Some _) \<Rightarrow> ends_run (Some run) e)"
  using run_segment_extend(1) [OF assms(1), of "[e]"] assms(2)
  by (cases e) (auto simp: terminal_outcome_from_history_def current_lease_terminal_snoc)

lemma active_run_has_terminal_snoc:
  assumes "distinct_runs h" and "\<not> opens_lease e" and "\<not> foreign_continuation h e" and "active_run_has_terminal h"
  shows "active_run_has_terminal (h @ [e])"
proof -
  from assms(4) obtain run where run: "find_map started_run (rev h) = Some run"
    and t: "terminal_outcome_from_history h run \<noteq> None"
    by (auto simp: active_run_has_terminal_def split: option.splits)
  have e: "\<not> is_WorkflowStarted e" using assms(2) by (cases e) (auto simp: opens_lease_def)
  then have run': "find_map started_run (rev (h @ [e])) = Some run" using run by (simp add: started_run_None [THEN iffD2])
  have "terminal_outcome_from_history (h @ [e]) run \<noteq> None"
    unfolding terminal_outcome_snoc [OF active_run_latest [OF assms(1) run] e]
    using t assms(2,3) run by (cases e) (auto simp: opens_lease_def foreign_continuation_def)
  with run' show ?thesis by (simp add: active_run_has_terminal_def)
qed

section \<open>Lemmas: recording through the seam\<close>

text \<open>Every handle's recorder writes the handle's workflow.\<close>

definition handles_ok :: "'s engine \<Rightarrow> bool" where
  "handles_ok en \<longleftrightarrow>
     (\<forall>hnd \<in> set (registry_list (en_registry en)). rc_workflow_id (en_recorders en (wh_recorder hnd)) = wh_workflow_id hnd)"

definition settling :: "timer_id \<Rightarrow> (event_envelope \<Rightarrow> event) \<Rightarrow> bool" where
  "settling t build \<longleftrightarrow> build = (\<lambda>env. TimerFired env t) \<or> (\<exists>cause. build = (\<lambda>env. TimerCancelled env t cause))"

lemma settling_effect: "settling t build \<Longrightarrow> timer_effect (build env) = Some (t, False) \<and> lease_scan (build env) = None"
  by (auto simp: settling_def)

lemma settling_intros: "settling t (\<lambda>env. TimerFired env t)" "settling t (\<lambda>env. TimerCancelled env t cause)"
  by (auto simp: settling_def)

lemma find_handle_SomeD: "find_handle w rg = Some hnd \<Longrightarrow> hnd \<in> set (registry_list rg) \<and> wh_workflow_id hnd = w"
  by (auto simp: find_handle_def find_Some_iff)

context event_store_laws
begin

lemma settling_recording:
  assumes "settling t build"
  shows "\<exists>f. timer_recording ops (recorded_at (build env)) (build env) = Some f
    \<and> recording_op ops (recorded_at (build env)) f (\<lambda>w env. build env)"
  using assms
  by (auto simp: settling_def intro: recording_op.intros)

lemma record_workflow_event_cases:
  assumes "settling t build" and "store_inv (en_store en)" and "handles_ok en"
    and "record_workflow_event ops w (build env) en = (res, en')"
  shows "store_inv (en_store en') \<and> handles_ok en' \<and> en_registry en' = en_registry en \<and> en_woken en' = en_woken en \<and>
    (case res of
       Inr Recorded \<Rightarrow> \<not> active_run_has_terminal (hist (en_store en) w)
         \<and> (\<exists>env'. hist (en_store en') = (hist (en_store en))(w := hist (en_store en) w @ [build env']))
     | Inr RefusedTerminal \<Rightarrow> active_run_has_terminal (hist (en_store en) w) \<and> en' = en
     | Inl _ \<Rightarrow> hist (en_store en') = hist (en_store en))"
proof -
  from settling_recording [OF assms(1), of env] obtain f where
    f: "timer_recording ops (recorded_at (build env)) (build env) = Some f"
    and op: "recording_op ops (recorded_at (build env)) f (\<lambda>w env. build env)" by blast
  show ?thesis
  proof (cases "find_handle w (en_registry en)")
    case None
    with assms f show ?thesis by (auto simp: record_workflow_event_def)
  next
    case (Some hnd)
    let ?r = "en_recorders en (wh_recorder hnd)"
    have w: "rc_workflow_id ?r = w" using find_handle_SomeD [OF Some] assms(3) by (auto simp: handles_ok_def)
    show ?thesis
    proof (cases "active_run_has_terminal (hist (en_store en) w)")
      case True
      with assms f Some show ?thesis by (auto simp: record_workflow_event_def read_back [OF assms(2)])
    next
      case False
      obtain res0 r s where rec: "f ?r (en_store en) = (res0, r, s)" by (metis prod_cases3)
      note post = recording_op_cases [OF op assms(2) rec]
      have "rc_workflow_id r = w" using post w by (cases res0) auto
      then have "handles_ok (en\<lparr>en_store := s, en_recorders := (en_recorders en)(wh_recorder hnd := r)\<rparr>)"
        using assms(3) w by (auto simp: handles_ok_def)
      moreover have "res = map_err SeamRecorder (bind_res res0 (\<lambda>_. Inr Recorded))"
        and "en' = en\<lparr>en_store := s, en_recorders := (en_recorders en)(wh_recorder hnd := r)\<rparr>"
        using assms(4) f Some False rec by (auto simp: record_workflow_event_def read_back [OF assms(2)])
      ultimately show ?thesis using post False w by (cases res0) auto
    qed
  qed
qed

end

section \<open>Racing fires and cancels\<close>

text \<open>One task of the timer service: it waits for the slot of its timer, holds it, has seen the timer live,
  or is done.\<close>

datatype task_phase = Waiting | Holding | SeenLive | Finished

record timer_task =
  tk_workflow :: workflow_id
  tk_timer :: timer_id
  tk_build :: "event_envelope \<Rightarrow> event"
  tk_phase :: task_phase

type_synonym 's race = "'s engine \<times> (workflow_id \<times> timer_id) set \<times> timer_task list"

abbreviation task_key :: "timer_task \<Rightarrow> workflow_id \<times> timer_id" where
  "task_key tk \<equiv> (tk_workflow tk, tk_timer tk)"

inductive service_step :: "libsql_state race \<Rightarrow> libsql_state race \<Rightarrow> bool" where
  spawn: "settling t build \<Longrightarrow> service_step (en, slots, tks)
    (en, slots, tks @ [\<lparr>tk_workflow = w, tk_timer = t, tk_build = build, tk_phase = Waiting\<rparr>])"
| acquire: "i < length tks \<Longrightarrow> tk_phase (tks ! i) = Waiting \<Longrightarrow> task_key (tks ! i) \<notin> slots \<Longrightarrow>
    service_step (en, slots, tks) (en, insert (task_key (tks ! i)) slots, tks[i := (tks ! i)\<lparr>tk_phase := Holding\<rparr>])"
| see_live: "i < length tks \<Longrightarrow> tk_phase (tks ! i) = Holding \<Longrightarrow>
    timer_is_live libsql_store (tk_workflow (tks ! i)) (tk_timer (tks ! i)) (en_store en) = Inr True \<Longrightarrow>
    service_step (en, slots, tks) (en, slots, tks[i := (tks ! i)\<lparr>tk_phase := SeenLive\<rparr>])"
| see_settled: "i < length tks \<Longrightarrow> tk_phase (tks ! i) = Holding \<Longrightarrow>
    timer_is_live libsql_store (tk_workflow (tks ! i)) (tk_timer (tks ! i)) (en_store en) \<noteq> Inr True \<Longrightarrow>
    service_step (en, slots, tks) (en, slots - {task_key (tks ! i)}, tks[i := (tks ! i)\<lparr>tk_phase := Finished\<rparr>])"
| settle: "i < length tks \<Longrightarrow> tk_phase (tks ! i) = SeenLive \<Longrightarrow>
    record_workflow_event libsql_store (tk_workflow (tks ! i)) (tk_build (tks ! i) env) en = (res, en') \<Longrightarrow>
    service_step (en, slots, tks) (en', slots - {task_key (tks ! i)}, tks[i := (tks ! i)\<lparr>tk_phase := Finished\<rparr>])"

text \<open>The rest of the engine: any task may append any batch of events to any history, or change anything else.\<close>

inductive engine_step :: "libsql_state race \<Rightarrow> libsql_state race \<Rightarrow> bool" where
  "ls_inv (en_store en') \<Longrightarrow> handles_ok en' \<Longrightarrow>
    ls_hist (en_store en') = (ls_hist (en_store en))(w := ls_hist (en_store en) w @ batch) \<Longrightarrow>
    engine_step (en, slots, tks) (en', slots, tks)"

text \<open>The condition under which the service's checks suffice.  Of the events the rest of the engine appends:
  no start or reopen of a run falls between a service task's liveness check and its append; a start carries
  a fresh run id; a continue-as-new names the run it ends; and a timer is retired outside the service only
  after the terminal of its run, and only when it is live.  The last three are what the recorders of
  \<^verbatim>\<open>lifecycle\<close> do; the first is not enforced by the code, since the service holds no lock between its check
  and its append.\<close>

definition may_append :: "timer_task list \<Rightarrow> workflow_id \<Rightarrow> history \<Rightarrow> event \<Rightarrow> bool" where
  "may_append tks w h e \<longleftrightarrow>
     (opens_lease e \<longrightarrow> (\<forall>tk \<in> set tks. tk_workflow tk = w \<longrightarrow> tk_phase tk \<noteq> SeenLive))
   \<and> distinct_runs (h @ [e]) \<and> \<not> foreign_continuation h e
   \<and> (\<forall>t. timer_effect e = Some (t, False) \<longrightarrow> active_run_has_terminal h \<and> t \<in> set (live_timers_in_active_segment h))"

fun orderly_batch :: "timer_task list \<Rightarrow> workflow_id \<Rightarrow> history \<Rightarrow> history \<Rightarrow> bool" where
  "orderly_batch tks w h [] = True"
| "orderly_batch tks w h (e # es) \<longleftrightarrow> may_append tks w h e \<and> orderly_batch tks w (h @ [e]) es"

definition orderly :: "libsql_state race \<Rightarrow> libsql_state race \<Rightarrow> bool" where
  "orderly = (\<lambda>(en, _, tks) (en', _, _). \<forall>w batch.
     ls_hist (en_store en') w = ls_hist (en_store en) w @ batch \<longrightarrow> orderly_batch tks w (ls_hist (en_store en) w) batch)"

text \<open>Every settlement of a timer finds it live.\<close>

definition settles_live :: "history \<Rightarrow> bool" where
  "settles_live h \<longleftrightarrow> (\<forall>i < length h. \<forall>t. timer_effect (h ! i) = Some (t, False) \<longrightarrow>
     t \<in> set (live_timers_in_active_segment (take i h)))"

lemma settles_live_snoc:
  "settles_live (h @ [e]) \<longleftrightarrow> settles_live h
    \<and> (\<forall>t. timer_effect e = Some (t, False) \<longrightarrow> t \<in> set (live_timers_in_active_segment h))"
  by (auto simp: settles_live_def nth_append less_Suc_eq)

definition race_inv :: "libsql_state race \<Rightarrow> bool" where
  "race_inv = (\<lambda>(en, slots, tks).
     ls_inv (en_store en) \<and> handles_ok en
   \<and> (\<forall>w. settles_live (ls_hist (en_store en) w) \<and> distinct_runs (ls_hist (en_store en) w))
   \<and> (\<forall>tk \<in> set tks. settling (tk_timer tk) (tk_build tk)
        \<and> (tk_phase tk \<in> {Holding, SeenLive} \<longrightarrow> task_key tk \<in> slots)
        \<and> (tk_phase tk = SeenLive \<longrightarrow> active_run_has_terminal (ls_hist (en_store en) (tk_workflow tk))
             \<or> tk_timer tk \<in> set (live_timers_in_active_segment (ls_hist (en_store en) (tk_workflow tk)))))
   \<and> (\<forall>i < length tks. \<forall>j < length tks. i \<noteq> j \<longrightarrow> {tk_phase (tks ! i), tk_phase (tks ! j)} \<subseteq> {Holding, SeenLive} \<longrightarrow>
        task_key (tks ! i) \<noteq> task_key (tks ! j)))"

lemma seen_live_snoc:
  assumes "distinct_runs h" and "\<not> opens_lease e" and "\<not> foreign_continuation h e"
    and "active_run_has_terminal h \<or> t \<in> set (live_timers_in_active_segment h)"
    and "timer_effect e = Some (t, False) \<Longrightarrow> active_run_has_terminal h"
  shows "active_run_has_terminal (h @ [e]) \<or> t \<in> set (live_timers_in_active_segment (h @ [e]))"
proof (cases "active_run_has_terminal h")
  case True
  with active_run_has_terminal_snoc [OF assms(1-3)] show ?thesis by blast
next
  case False
  have "\<not> is_WorkflowStarted e" using assms(2) by (cases e) (auto simp: opens_lease_def)
  moreover have "t \<in> set (live_step (live_timers_in_active_segment h) e)"
    using False assms(4,5) by (auto simp: live_step_set split: option.splits bool.splits)
  ultimately show ?thesis by (simp add: live_timers_snoc)
qed

lemma orderly_batch_keeps:
  assumes "orderly_batch tks w h batch" and "settles_live h" and "distinct_runs h"
  shows "settles_live (h @ batch)" and "distinct_runs (h @ batch)"
    and "tk \<in> set tks \<Longrightarrow> tk_workflow tk = w \<Longrightarrow> tk_phase tk = SeenLive \<Longrightarrow>
      active_run_has_terminal h \<or> t \<in> set (live_timers_in_active_segment h) \<Longrightarrow>
      active_run_has_terminal (h @ batch) \<or> t \<in> set (live_timers_in_active_segment (h @ batch))"
  using assms
proof (induction batch arbitrary: h)
  case (Cons e es)
  {
    case 1
    with Cons.IH(1) [of "h @ [e]"] show ?case by (auto simp: may_append_def settles_live_snoc)
  next
    case 2
    with Cons.IH(2) [of "h @ [e]"] show ?case by (auto simp: may_append_def settles_live_snoc)
  next
    case 3
    then have "active_run_has_terminal (h @ [e]) \<or> t \<in> set (live_timers_in_active_segment (h @ [e]))"
      by (intro seen_live_snoc) (auto simp: may_append_def)
    with 3 Cons.IH(3) [of "h @ [e]"] show ?case by (auto simp: may_append_def settles_live_snoc)
  }
qed simp_all

lemma settling_keeps:
  assumes "settling t build"
  shows "\<not> opens_lease (build env)" "\<not> foreign_continuation h (build env)" "distinct_runs (h @ [build env]) = distinct_runs h"
proof -
  have scan: "lease_scan (build env) = None" using settling_effect [OF assms] by blast
  then show "\<not> opens_lease (build env)" by (simp add: opens_lease_def)
  from scan show "\<not> foreign_continuation h (build env)" by (cases "build env") (simp_all add: foreign_continuation_def)
  from scan have "started_run (build env) = None" by (cases "build env") simp_all
  then show "distinct_runs (h @ [build env]) = distinct_runs h" by (simp add: distinct_runs_def map_filter_snoc)
qed

lemma race_inv_taskD:
  assumes "race_inv (en, slots, tks)" and "tk \<in> set tks"
  shows "settling (tk_timer tk) (tk_build tk)"
    and "tk_phase tk \<in> {Holding, SeenLive} \<Longrightarrow> task_key tk \<in> slots"
    and "tk_phase tk = SeenLive \<Longrightarrow> active_run_has_terminal (ls_hist (en_store en) (tk_workflow tk))
             \<or> tk_timer tk \<in> set (live_timers_in_active_segment (ls_hist (en_store en) (tk_workflow tk)))"
  using assms unfolding race_inv_def prod.case by blast+

lemma race_inv_keyD:
  assumes "race_inv (en, slots, tks)" and "i < length tks" and "j < length tks" and "i \<noteq> j"
    and "tk_phase (tks ! i) \<in> {Holding, SeenLive}" and "tk_phase (tks ! j) \<in> {Holding, SeenLive}"
  shows "task_key (tks ! i) \<noteq> task_key (tks ! j)"
  using assms unfolding race_inv_def prod.case by blast

text \<open>Rescheduling one task: what the invariant asks of its new phase.\<close>

lemma race_inv_phase:
  assumes "race_inv (en, slots, tks)" and "i < length tks" and "tk = (tks ! i)\<lparr>tk_phase := p\<rparr>"
    and "p \<in> {Holding, SeenLive} \<Longrightarrow> task_key tk \<in> slots'"
    and "p = SeenLive \<Longrightarrow> active_run_has_terminal (ls_hist (en_store en) (tk_workflow tk))
             \<or> tk_timer tk \<in> set (live_timers_in_active_segment (ls_hist (en_store en) (tk_workflow tk)))"
    and "\<And>j. j < length tks \<Longrightarrow> j \<noteq> i \<Longrightarrow> tk_phase (tks ! j) \<in> {Holding, SeenLive} \<Longrightarrow>
           task_key (tks ! j) \<in> slots' \<and> (p \<in> {Holding, SeenLive} \<longrightarrow> task_key (tks ! j) \<noteq> task_key tk)"
  shows "race_inv (en, slots', tks[i := tk])"
proof -
  have tasks: "settling (tk_timer x) (tk_build x) \<and> (tk_phase x \<in> {Holding, SeenLive} \<longrightarrow> task_key x \<in> slots')
      \<and> (tk_phase x = SeenLive \<longrightarrow> active_run_has_terminal (ls_hist (en_store en) (tk_workflow x))
             \<or> tk_timer x \<in> set (live_timers_in_active_segment (ls_hist (en_store en) (tk_workflow x))))"
    if "x \<in> set (tks[i := tk])" for x
  proof -
    from that obtain j where j: "j < length tks" "x = (if j = i then tk else tks ! j)"
      by (auto simp: in_set_conv_nth nth_list_update)
    show ?thesis
    proof (cases "j = i")
      case True
      then have "x = tk" using j by simp
      moreover have "settling (tk_timer tk) (tk_build tk)"
        using race_inv_taskD(1) [OF assms(1), of "tks ! i"] assms(2,3) by simp
      moreover have "tk_phase tk = p" by (simp add: assms(3))
      ultimately show ?thesis using assms(4,5) by simp
    next
      case False
      then have x: "x = tks ! j" "x \<in> set tks" using j by simp_all
      with race_inv_taskD [OF assms(1) x(2)] assms(6) [OF j(1) False] show ?thesis by simp
    qed
  qed
  have pairs: "task_key (tks[i := tk] ! a) \<noteq> task_key (tks[i := tk] ! b)"
    if "a < length tks" "b < length tks" "a \<noteq> b"
      "{tk_phase (tks[i := tk] ! a), tk_phase (tks[i := tk] ! b)} \<subseteq> {Holding, SeenLive}" for a b
  proof -
    have p: "tk_phase tk = p" by (simp add: assms(3))
    consider "a = i" | "b = i" | "a \<noteq> i" "b \<noteq> i" by blast
    then show ?thesis
    proof cases
      case 1
      with that p assms(6) [of b] show ?thesis by (auto simp: nth_list_update split: if_splits)
    next
      case 2
      with that p assms(6) [of a] show ?thesis by (auto simp: nth_list_update split: if_splits)
    next
      case 3
      with that race_inv_keyD [OF assms(1), of a b] show ?thesis by simp
    qed
  qed
  from assms(1) tasks pairs show ?thesis unfolding race_inv_def by simp
qed

lemma race_inv_append:
  assumes "race_inv (en, slots, tks)" and "ls_inv (en_store en')" and "handles_ok en'"
    and "ls_hist (en_store en') = (ls_hist (en_store en))(w := ls_hist (en_store en) w @ batch)"
    and "settles_live (ls_hist (en_store en) w @ batch)" and "distinct_runs (ls_hist (en_store en) w @ batch)"
    and "\<And>tk. tk \<in> set tks \<Longrightarrow> tk_workflow tk = w \<Longrightarrow> tk_phase tk = SeenLive \<Longrightarrow>
      active_run_has_terminal (ls_hist (en_store en) w @ batch)
      \<or> tk_timer tk \<in> set (live_timers_in_active_segment (ls_hist (en_store en) w @ batch))"
  shows "race_inv (en', slots, tks)"
proof -
  let ?h = "ls_hist (en_store en)" and ?h' = "ls_hist (en_store en')"
  from assms(1) have old: "\<forall>k. settles_live (?h k) \<and> distinct_runs (?h k)" unfolding race_inv_def prod.case by blast
  have at: "?h' k = (if k = w then ?h w @ batch else ?h k)" for k using fun_cong [OF assms(4), of k] by simp
  have "settles_live (?h' k) \<and> distinct_runs (?h' k)" for k using old assms(5,6) at by simp
  moreover have "active_run_has_terminal (?h' (tk_workflow tk)) \<or> tk_timer tk \<in> set (live_timers_in_active_segment (?h' (tk_workflow tk)))"
    if tk: "tk \<in> set tks" "tk_phase tk = SeenLive" for tk
    using race_inv_taskD(3) [OF assms(1) tk] assms(7) [OF tk(1) _ tk(2)] at [of "tk_workflow tk"]
    by (cases "tk_workflow tk = w") simp_all
  ultimately show ?thesis
    using assms(1-3) unfolding race_inv_def prod.case by blast
qed

lemma race_inv_quiet:
  assumes "race_inv (en, slots, tks)" and "ls_inv (en_store en')" and "handles_ok en'"
    and "ls_hist (en_store en') = ls_hist (en_store en)"
  shows "race_inv (en', slots, tks)"
  using assms(1-3) fun_cong [OF assms(4)] unfolding race_inv_def prod.case by metis

lemma race_inv_release:
  assumes "race_inv (en, slots, tks)" and "i < length tks" and "tk_phase (tks ! i) \<in> {Holding, SeenLive}"
  shows "race_inv (en, slots - {task_key (tks ! i)}, tks[i := (tks ! i)\<lparr>tk_phase := Finished\<rparr>])"
proof (rule race_inv_phase [OF assms(1,2) refl])
  fix j
  assume j: "j < length tks" "j \<noteq> i" "tk_phase (tks ! j) \<in> {Holding, SeenLive}"
  from race_inv_keyD [OF assms(1) j(1) assms(2) j(2,3) assms(3)] race_inv_taskD(2) [OF assms(1) nth_mem [OF j(1)] j(3)]
  show "task_key (tks ! j) \<in> slots - {task_key (tks ! i)}
    \<and> (Finished \<in> {Holding, SeenLive} \<longrightarrow> task_key (tks ! j) \<noteq> task_key ((tks ! i)\<lparr>tk_phase := Finished\<rparr>))" by auto
qed simp_all

lemma race_inv_settle:
  assumes inv: "race_inv (en, slots, tks)" and i: "i < length tks" "tk_phase (tks ! i) = SeenLive"
    and rec: "record_workflow_event libsql_store (tk_workflow (tks ! i)) (tk_build (tks ! i) env) en = (res, en')"
  shows "race_inv (en', slots - {task_key (tks ! i)}, tks[i := (tks ! i)\<lparr>tk_phase := Finished\<rparr>])"
proof -
  let ?tk = "tks ! i" and ?h = "ls_hist (en_store en) (tk_workflow (tks ! i))"
  let ?tks = "tks[i := ?tk\<lparr>tk_phase := Finished\<rparr>]"
  have mem: "?tk \<in> set tks" using i by simp
  have set: "settling (tk_timer ?tk) (tk_build ?tk)" by (rule race_inv_taskD(1) [OF inv mem])
  have base: "ls_inv (en_store en)" "handles_ok en" "settles_live ?h" "distinct_runs ?h"
    using inv unfolding race_inv_def prod.case by blast+
  note post = libsql.record_workflow_event_cases [OF set base(1,2) rec]
  have released: "race_inv (en, slots - {task_key ?tk}, ?tks)" using race_inv_release [OF inv i(1)] i(2) by simp
  show ?thesis
  proof (cases "res = Inr Recorded")
    case False
    then have "ls_hist (en_store en') = ls_hist (en_store en)"
      using post by (auto split: sum.splits record_outcome.splits)
    with race_inv_quiet [OF released] post show ?thesis by blast
  next
    case True
    with post obtain env' where live: "\<not> active_run_has_terminal ?h"
      and h': "ls_hist (en_store en') = (ls_hist (en_store en))(tk_workflow ?tk := ?h @ [tk_build ?tk env'])" by auto
    note eff = settling_effect [OF set, of env'] and keep = settling_keeps [OF set]
    show ?thesis
    proof (rule race_inv_append [OF released _ _ h'])
      show "settles_live (?h @ [tk_build ?tk env'])"
        using base(3) eff race_inv_taskD(3) [OF inv mem i(2)] live by (simp add: settles_live_snoc)
      show "distinct_runs (?h @ [tk_build ?tk env'])" using base(4) keep(3) by simp
      fix x
      assume x: "x \<in> set ?tks" "tk_workflow x = tk_workflow ?tk" "tk_phase x = SeenLive"
      then obtain j where "j < length tks" and nth: "x = ?tks ! j" by (metis in_set_conv_nth length_list_update)
      moreover from this x(3) have "j \<noteq> i" using i(1) by auto
      ultimately have j: "j < length tks" "j \<noteq> i" "x = tks ! j" by simp_all
      have "tk_timer x \<noteq> tk_timer ?tk"
        using race_inv_keyD [OF inv j(1) i(1) j(2)] x j(3) i(2) by auto
      moreover have "active_run_has_terminal ?h \<or> tk_timer x \<in> set (live_timers_in_active_segment ?h)"
        using race_inv_taskD(3) [OF inv nth_mem [OF j(1)]] x j(3) by simp
      ultimately show "active_run_has_terminal (?h @ [tk_build ?tk env'])
          \<or> tk_timer x \<in> set (live_timers_in_active_segment (?h @ [tk_build ?tk env']))"
        using eff keep(1,2) base(4) by (intro seen_live_snoc) auto
    qed (use post in blast)+
  qed
qed

lemma service_step_inv:
  assumes "service_step c c'" and "race_inv c"
  shows "race_inv c'"
  using assms
proof (induction rule: service_step.induct)
  case (spawn t build en slots tks w)
  then show ?case unfolding race_inv_def by (auto simp: nth_append less_Suc_eq)
next
  case (acquire i tks slots en)
  then show ?case
    by (intro race_inv_phase) (auto dest: race_inv_taskD(2) [OF _ nth_mem])
next
  case (see_live i tks en slots)
  have "ls_inv (en_store en)" using see_live.prems unfolding race_inv_def prod.case by blast
  with see_live.hyps(3)
  have live: "tk_timer (tks ! i) \<in> set (live_timers_in_active_segment (ls_hist (en_store en) (tk_workflow (tks ! i))))"
    by (simp add: timer_is_live_def libsql.read_back)
  show ?case
  proof (rule race_inv_phase [OF see_live.prems see_live.hyps(1) refl])
    fix j
    assume "j < length tks" "j \<noteq> i" "tk_phase (tks ! j) \<in> {Holding, SeenLive}"
    with race_inv_keyD [OF see_live.prems, of j i] race_inv_taskD(2) [OF see_live.prems nth_mem, of j] see_live.hyps
    show "task_key (tks ! j) \<in> slots \<and> (SeenLive \<in> {Holding, SeenLive} \<longrightarrow>
        task_key (tks ! j) \<noteq> task_key ((tks ! i)\<lparr>tk_phase := SeenLive\<rparr>))" by simp
  qed (use live see_live.hyps race_inv_taskD(2) [OF see_live.prems nth_mem, of i] in simp_all)
next
  case (see_settled i tks en slots)
  then show ?case by (intro race_inv_release) simp_all
next
  case (settle i tks env en res en' slots)
  then show ?case by (intro race_inv_settle)
qed

lemma engine_step_inv:
  assumes "engine_step c c'" and "orderly c c'" and "race_inv c"
  shows "race_inv c'"
  using assms
proof (induction rule: engine_step.induct)
  case (1 en' en w batch slots tks)
  let ?h = "ls_hist (en_store en) w"
  have h': "ls_hist (en_store en') w = ?h @ batch" using fun_cong [OF 1(3), of w] by simp
  with 1(4) have batch: "orderly_batch tks w ?h batch" by (simp add: orderly_def)
  have "settles_live ?h" "distinct_runs ?h" using 1(5) unfolding race_inv_def prod.case by blast+
  note keeps = orderly_batch_keeps [OF batch this]
  show ?case
  proof (rule race_inv_append [OF 1(5,1,2,3) keeps(1,2)])
    fix tk
    assume tk: "tk \<in> set tks" "tk_workflow tk = w" "tk_phase tk = SeenLive"
    from keeps(3) [OF this] race_inv_taskD(3) [OF 1(5) tk(1,3)] tk(2)
    show "active_run_has_terminal (?h @ batch) \<or> tk_timer tk \<in> set (live_timers_in_active_segment (?h @ batch))" by simp
  qed
qed

section \<open>Properties\<close>

text \<open>The timer projection is exact: a timer is live in the active run exactly when the last thing
  recorded for it there is a start, so a timer that fired or was cancelled and then started again is live
  again; it is listed once; each further event moves exactly the timer it names, and a start of another run
  leaves nothing live.\<close>

theorem live_timers_exact:
  "distinct (live_timers_in_active_segment h)
   \<and> (t \<in> set (live_timers_in_active_segment h) \<longleftrightarrow> last_effect t (active_segment h) = Some True)
   \<and> live_timers_in_active_segment (h @ [e]) =
        (if is_WorkflowStarted e then [] else live_step (live_timers_in_active_segment h) e)"
  using foldl_live_step [of "active_segment h" t] live_timers_snoc [of h e] by (simp add: live_timers_in_active_segment_def)

text \<open>C19: however the fires and cancels of the timer service interleave with each other and with the rest of
  the engine, every settlement recorded for a timer finds it live, so that no start of a timer is both
  fired and cancelled, or settled twice, by any number of racing tasks, provided the rest of the engine is
  orderly: it starts or reopens no run of a workflow between a service task's liveness check and that
  task's append, gives starts fresh run ids, lets a continue-as-new name the run it ends, and itself
  retires timers only after their run's terminal and only live ones.  The first condition is not enforced
  by the code; C34 shows a fire that reaches another run where it fails.\<close>

theorem timer_settled_at_most_once:
  assumes "(\<lambda>c c'. service_step c c' \<or> engine_step c c' \<and> orderly c c')\<^sup>*\<^sup>* (en, {}, []) (en', slots, tks)"
    and "ls_inv (en_store en)" and "handles_ok en"
    and "\<And>w. settles_live (ls_hist (en_store en) w)" and "\<And>w. distinct_runs (ls_hist (en_store en) w)"
  shows "settles_live (ls_hist (en_store en') w)"
proof -
  have "race_inv (en, {}, [])" using assms(2-5) by (simp add: race_inv_def)
  with assms(1) have "race_inv (en', slots, tks)"
    by (induction rule: rtranclp_induct) (auto intro: service_step_inv engine_step_inv)
  then show ?thesis unfolding race_inv_def prod.case by blast
qed

lemma libsql_live: "ls_inv s \<Longrightarrow> timer_is_live libsql_store w t s = Inr (t \<in> set (live_timers_in_active_segment (ls_hist s w)))"
  by (simp add: timer_is_live_def libsql.read_back)

lemma record_timer_event_libsql:
  "ls_inv (en_store en) \<Longrightarrow> \<exists>env. record_timer_event libsql_store interfere now w build en =
     apfst (map_err TimerEngine) (record_workflow_event libsql_store w (build env) (interfere 1 en))"
  by (simp add: record_timer_event_def service_next_envelope_def libsql.read_back case_prod_unfold apfst_def map_prod_def Let_def)
     blast


lemma deadline_step_settles:
  "settling t build \<Longrightarrow> deadline_step parse_uuid run live (build env) =
     (if is_deadline_timer t \<and> deadline_run_id parse_uuid t = Some run then None else live)"
  using settling_effect [of t build env] by (simp add: deadline_step_def)

lemma outstanding_deadlineD:
  "outstanding_deadline_timer parse_uuid h run = Some t \<Longrightarrow> is_deadline_timer t \<and> deadline_run_id parse_uuid t = Some run"
proof (induction h rule: rev_induct)
  case (snoc e h)
  then show ?case by (auto simp: outstanding_deadline_timer_def deadline_step_def split: option.splits prod.splits if_splits)
qed (simp add: outstanding_deadline_timer_def)

text \<open>C22: the reserved timer of a run's deadline names that run, and no other run, through the text of its id, so
  a fire can be routed to the run; and retiring the deadline of a run, when it succeeds, leaves none
  outstanding for it, changes nothing if none was, appends at most one event, and leaves the deadlines of
  every other run as they were.\<close>

theorem deadline_names_its_run:
  assumes "\<And>u. parse_uuid (show_uuid u) = Some u" and "ls_inv s"
    and "retire_run_deadline parse_uuid libsql_store now (ls_hist s w) run r s = (Inr (), r', s')" and "rc_workflow_id r = w"
  shows "(\<exists>t. deadline_timer_id show_uuid run = Inr t \<and> is_deadline_timer t \<and> deadline_run_id parse_uuid t = Some run
           \<and> (\<forall>other. deadline_timer_id show_uuid other = Inr t \<longleftrightarrow> other = run))
    \<and> outstanding_deadline_timer parse_uuid (ls_hist s' w) run = None
    \<and> (if outstanding_deadline_timer parse_uuid (ls_hist s w) run = None then s' = s
        else length (ls_hist s' w) = Suc (length (ls_hist s w)))
    \<and> (\<forall>other. other \<noteq> run \<longrightarrow>
         outstanding_deadline_timer parse_uuid (ls_hist s' w) other = outstanding_deadline_timer parse_uuid (ls_hist s w) other)"
proof (intro conjI)
  have "inj show_uuid" using assms(1) by (metis injI option.inject)
  then have inj: "show_uuid (run_uuid other) = show_uuid (run_uuid run) \<longleftrightarrow> other = run" for other
    by (cases other; cases run) (simp add: inj_eq)
  show "\<exists>t. deadline_timer_id show_uuid run = Inr t \<and> is_deadline_timer t \<and> deadline_run_id parse_uuid t = Some run
      \<and> (\<forall>other. deadline_timer_id show_uuid other = Inr t \<longleftrightarrow> other = run)"
    using assms(1) inj by (cases run) (simp add: deadline_timer_id_def timer_named_def DEADLINE_TIMER_PREFIX_def is_deadline_timer_def
        deadline_run_id_def timer_name_def strip_prefix_def)
next
  let ?out = "\<lambda>s. outstanding_deadline_timer parse_uuid (ls_hist s w)"
  have "?out s' run = None \<and> (if ?out s run = None then s' = s else length (ls_hist s' w) = Suc (length (ls_hist s w)))
      \<and> (\<forall>other. other \<noteq> run \<longrightarrow> ?out s' other = ?out s other)"
  proof (cases "?out s run")
    case None
    with assms(3) show ?thesis by (simp add: retire_run_deadline_def)
  next
    case (Some t)
    have op: "recording_op libsql_store now (record_timer_cancelled libsql_store now t WorkflowIntent) (\<lambda>w env. TimerCancelled env t WorkflowIntent)"
      by (rule recording_op.intros)
    from Some assms(3) have "record_timer_cancelled libsql_store now t WorkflowIntent r s = (Inr (), r', s')"
      by (simp add: retire_run_deadline_def)
    from libsql.recording_op_cases [OF op assms(2) this] assms(4) obtain env where
      "ls_hist s' w = ls_hist s w @ [TimerCancelled env t WorkflowIntent]" by (auto dest: fun_cong [where x = w])
    then show ?thesis
      using Some outstanding_deadlineD [OF Some] deadline_step_settles [OF settling_intros(2) [of t WorkflowIntent], of parse_uuid _ _ env]
      by (simp add: outstanding_deadline_timer_def)
  qed
  then show "?out s' run = None" "if ?out s run = None then s' = s else length (ls_hist s' w) = Suc (length (ls_hist s w))"
    "\<forall>other. other \<noteq> run \<longrightarrow> ?out s' other = ?out s other" by blast+
qed

lemma record_workflow_event_libsql:
  assumes "ls_inv (en_store en)" and "find_handle w (en_registry en) = Some hnd"
    and "\<not> active_run_has_terminal (ls_hist (en_store en) w)"
  shows "record_workflow_event libsql_store w (TimerFired env t) en =
    (case record_timer_fired libsql_store (env_recorded_at env) t (en_recorders en (wh_recorder hnd)) (en_store en) of
       (res, r, s) \<Rightarrow> (map_err SeamRecorder (bind_res res (\<lambda>_. Inr Recorded)),
          en\<lparr>en_store := s, en_recorders := (en_recorders en)(wh_recorder hnd := r)\<rparr>))"
  using assms by (simp add: record_workflow_event_def libsql.read_back recorded_at_def)

lemma fire_records:
  fixes interfere :: "libsql_state interference" and en :: "libsql_state engine"
  defines "a \<equiv> interfere 1 (interfere 0 en)"
  assumes inv: "ls_inv (en_store en)" "ls_inv (en_store (interfere 0 en))" "ls_inv (en_store a)"
    and live: "t \<in> set (live_timers_in_active_segment (ls_hist (en_store en) w))" "\<not> is_deadline_timer t"
    and hnd: "find_handle w (en_registry a) = Some hnd" "rc_workflow_id (en_recorders a (wh_recorder hnd)) = w"
    and step: "in_step ls_hist (en_recorders a (wh_recorder hnd)) (en_store a)" "current_head (en_recorders a (wh_recorder hnd)) \<noteq> - 1"
    and open_run: "\<not> active_run_has_terminal (ls_hist (en_store a) w)"
  shows "\<exists>b env. ls_hist (en_store b) w = ls_hist (en_store a) w @ [TimerFired env t] \<and> en_registry b = en_registry a \<and> en_woken b = en_woken a
    \<and> fire_timer_guarded parse_uuid wake libsql_store handler interfere now w t en =
        (case resolve_workflow w (interfere 2 b) of
           SeamResident pid \<Rightarrow> apfst (map_err TimerEngine) (deliver_timer_fired wake pid (interfere 2 b))
         | _ \<Rightarrow> (Inr (), interfere 2 b))"
proof -
  from record_timer_event_libsql [OF inv(2), of interfere now w "\<lambda>env. TimerFired env t"] obtain env where
    rte: "record_timer_event libsql_store interfere now w (\<lambda>env. TimerFired env t) (interfere 0 en) =
      apfst (map_err TimerEngine) (record_workflow_event libsql_store w (TimerFired env t) a)" by (auto simp: a_def)
  have "recording_op libsql_store (env_recorded_at env) (record_timer_fired libsql_store (env_recorded_at env) t) (\<lambda>w env. TimerFired env t)"
    by (rule recording_op.intros)
  from libsql.op_appends [OF this inv(3) step] hnd(2) obtain r s where
    rec: "record_timer_fired libsql_store (env_recorded_at env) t (en_recorders a (wh_recorder hnd)) (en_store a) = (Inr (), r, s)"
    and app: "\<exists>env. ls_hist s w = ls_hist (en_store a) w @ [TimerFired env t]" by (fastforce simp: fun_eq_iff)
  let ?b = "a\<lparr>en_store := s, en_recorders := (en_recorders a)(wh_recorder hnd := r)\<rparr>"
  have "record_workflow_event libsql_store w (TimerFired env t) a = (Inr Recorded, ?b)"
    using rec by (simp add: record_workflow_event_libsql [OF inv(3) hnd(1) open_run])
  then have "fire_timer_guarded parse_uuid wake libsql_store handler interfere now w t en =
        (case resolve_workflow w (interfere 2 ?b) of
           SeamResident pid \<Rightarrow> apfst (map_err TimerEngine) (deliver_timer_fired wake pid (interfere 2 ?b))
         | _ \<Rightarrow> (Inr (), interfere 2 ?b))"
    using inv(1) live rte
    by (simp add: fire_timer_guarded_def libsql_live Let_def apfst_def map_prod_def case_prod_unfold split: workflow_residency.split)
  with app show ?thesis by (intro exI [of _ ?b]) auto
qed

section \<open>Witnesses\<close>

abbreviation s_next_run :: "u64 \<Rightarrow> event" where
  "s_next_run n \<equiv> WorkflowStarted (s_env n) ''order'' s_payload (RunId 2) (Some s_run) (PackageVersion ''v1'')"

text \<open>The engine after a continue-as-new: the handle is the second run's.\<close>

definition s_replaced :: "history \<Rightarrow> libsql_state engine" where
  "s_replaced h = (s_engine h)\<lparr>en_registry :=
     \<lparr>rg_handles = [((s_workflow, RunId 2), s_handle_for (RunId 2) 41 0)], rg_index = [(s_workflow, RunId 2, 41)]\<rparr>\<rparr>"

text \<open>The history of a run that armed a timer, then continued as new into a run that armed one of the same name.\<close>

abbreviation s_renewed :: history where
  "s_renewed \<equiv> [s_started 1, s_timer 2, WorkflowContinuedAsNew (s_env 3) s_payload None s_run, s_next_run 4,
     TimerStarted (s_env 5) (Named ''t'') 900]"

lemma s_named: "\<not> is_deadline_timer (Named ''t'')"
  by (simp add: is_deadline_timer_def DEADLINE_TIMER_PREFIX_def timer_name_def)

lemma s_head: "length h < 2 ^ 64 - 1 \<Longrightarrow> in_step ls_hist (s_recorder h) (s_database h) \<and> current_head (s_recorder h) \<noteq> - 1"
proof -
  assume l: "length h < 2 ^ 64 - 1"
  then have "unat (of_nat (length h) :: u64) = length h" by (simp add: of_nat_inverse)
  with l show ?thesis
    by (auto simp: in_step_def s_database_rows s_recorder_simps from_head_def
        unsigned_minus_1_eq_mask mask_eq_exp_minus_1 dest: arg_cong [where f = unat])
qed

text \<open>C34: the liveness check and the append of a fire are not one step.  The wheel task of a timer that the first
  run armed for 500 sees it live; before its append the run continues as new and its replacement arms a
  timer of the same name for 900; the stale fire is then recorded, at 500, as a fire of the replacement's
  timer, which from then on is no longer live.\<close>

theorem stale_fire_reaches_replacement:
  "\<exists>en' env. fire_timer_guarded parse_uuid (\<lambda>_. Inr ()) libsql_store handler (\<lambda>n en. if n = 1 then s_replaced s_renewed else en) 500
       s_workflow (Named ''t'') (s_engine [s_started 1, s_timer 2]) = (Inr (), en')
     \<and> Named ''t'' \<in> set (live_timers_in_active_segment s_renewed)
     \<and> ls_hist (en_store en') s_workflow = s_renewed @ [TimerFired env (Named ''t'')]
     \<and> live_timers_in_active_segment (ls_hist (en_store en') s_workflow) = []
     \<and> en_woken en' = [41]"
proof -
  let ?e = "s_engine [s_started 1, s_timer 2]" and ?i = "\<lambda>n en. if n = (1 :: nat) then s_replaced s_renewed else en"
  have inv: "ls_inv (s_database [s_started 1, s_timer 2])" "ls_inv (s_database s_renewed)"
    by (simp_all add: s_database_inv seq_def)
  have sel: "en_store (s_replaced h) = s_database h" "en_recorders (s_replaced h) c = s_recorder h"
    "find_handle s_workflow (en_registry (s_replaced h)) = Some (s_handle_for (RunId 2) 41 0)" "en_woken (s_replaced h) = []" for h c
    by (simp_all add: s_replaced_def find_handle_def registry_list_def s_handle_for_def) (simp_all add: s_engine_def)
  have live: "live_timers_in_active_segment [s_started 1, s_timer 2] = [Named ''t'']"
    "live_timers_in_active_segment s_renewed = [Named ''t'']"
    by (simp_all add: live_timers_in_active_segment_def active_segment_def rposition_def)
  have "\<not> active_run_has_terminal s_renewed"
    by (simp add: active_run_has_terminal_def terminal_outcome_from_history_def run_segment_def current_lease_terminal_def)
  then have "\<exists>b env. ls_hist (en_store b) s_workflow = s_renewed @ [TimerFired env (Named ''t'')]
      \<and> en_registry b = en_registry (s_replaced s_renewed) \<and> en_woken b = []
      \<and> fire_timer_guarded parse_uuid (\<lambda>_. Inr ()) libsql_store handler ?i 500 s_workflow (Named ''t'') ?e =
        (case resolve_workflow s_workflow b of
           SeamResident pid \<Rightarrow> apfst (map_err TimerEngine) (deliver_timer_fired (\<lambda>_. Inr ()) pid b)
         | _ \<Rightarrow> (Inr (), b))"
    using fire_records [of ?e ?i "Named ''t''" s_workflow "s_handle_for (RunId 2) 41 0" parse_uuid "\<lambda>_. Inr ()" handler 500]
      inv live s_named s_head [of s_renewed] by (simp add: sel s_database_rows cong: workflow_residency.case_cong)
  then obtain b env where b: "ls_hist (en_store b) s_workflow = s_renewed @ [TimerFired env (Named ''t'')]"
      "en_registry b = en_registry (s_replaced s_renewed)" "en_woken b = []"
      and fire: "fire_timer_guarded parse_uuid (\<lambda>_. Inr ()) libsql_store handler ?i 500 s_workflow (Named ''t'') ?e =
        (case resolve_workflow s_workflow b of
           SeamResident pid \<Rightarrow> apfst (map_err TimerEngine) (deliver_timer_fired (\<lambda>_. Inr ()) pid b)
         | _ \<Rightarrow> (Inr (), b))" by blast
  have "resolve_workflow s_workflow b = SeamResident 41"
    by (simp add: resolve_workflow_def b(2) sel) (simp add: s_handle_for_def)
  with fire b live show ?thesis
    by (auto simp: deliver_timer_fired_def live_timers_snoc [of s_renewed, simplified])
qed

lemma s_engine_ok: "contiguous h \<Longrightarrow> ls_inv (en_store (s_engine h)) \<and> handles_ok (s_engine h)
    \<and> find_handle s_workflow (en_registry (s_engine h)) = Some s_handle"
  by (simp add: s_database_inv handles_ok_def find_handle_def registry_list_def)
     (simp add: s_engine_def s_handle_def s_handle_for_def s_recorder_def recorder_resume_at_def)

lemma s_armed: "contiguous [s_started 1, s_timer 2]" "live_timers_in_active_segment [s_started 1, s_timer 2] = [Named ''t'']"
  "\<not> active_run_has_terminal [s_started 1, s_timer 2]"
  by (simp_all add: seq_def live_timers_in_active_segment_def active_segment_def rposition_def active_run_has_terminal_def
      terminal_outcome_from_history_def run_segment_def current_lease_terminal_def)


text \<open>A fire of the timer, through all its steps.\<close>

theorem timer_settled_at_most_once_witness:
  "\<exists>en' slots tks. (\<lambda>c c'. service_step c c' \<or> engine_step c c' \<and> orderly c c')\<^sup>*\<^sup>* (s_engine [s_started 1], {}, []) (en', slots, tks)
     \<and> map tk_phase tks = [Finished] \<and> settles_live (ls_hist (en_store en') s_workflow)"
proof -
  let ?step = "\<lambda>c c'. service_step c c' \<or> engine_step c c' \<and> orderly c c'" and ?before = "s_engine [s_started 1]"
  let ?e = "s_engine [s_started 1, s_timer 2]" and ?b = "\<lambda>env. TimerFired env (Named ''t'')"
  let ?t = "\<lambda>p. \<lparr>tk_workflow = s_workflow, tk_timer = Named ''t'', tk_build = ?b, tk_phase = p\<rparr>"
  let ?k = "(s_workflow, Named ''t'')"
  note ok = s_engine_ok [OF s_armed(1)]
  obtain res en' where rec: "record_workflow_event libsql_store s_workflow (?b (s_env 3)) ?e = (res, en')" by fastforce
  have s1: "service_step (?e, {}, []) (?e, {}, [?t Waiting])"
    using service_step.spawn [OF settling_intros(1), of ?e "{}" "[]" s_workflow "Named ''t''"] by simp
  have s2: "service_step (?e, {}, [?t Waiting]) (?e, {?k}, [?t Holding])"
    using service_step.acquire [of 0 "[?t Waiting]" "{}" ?e] by simp
  have s3: "service_step (?e, {?k}, [?t Holding]) (?e, {?k}, [?t SeenLive])"
    using service_step.see_live [of 0 "[?t Holding]" ?e "{?k}"] ok s_armed(2) by (simp add: libsql_live s_database_rows)
  have s4: "service_step (?e, {?k}, [?t SeenLive]) (en', {}, [?t Finished])"
    using service_step.settle [of 0 "[?t SeenLive]" "s_env 3" ?e res en' "{?k}"] rec by simp
  have c0: "contiguous [s_started 1]" by (simp add: seq_def)
  have "ls_hist (en_store ?e) = (ls_hist (en_store ?before))(s_workflow := ls_hist (en_store ?before) s_workflow @ [s_timer 2])"
    by (simp add: fun_eq_iff s_database_rows)
  then have "engine_step (?before, {}, []) (?e, {}, [])" using ok by (intro engine_step.intros) simp_all
  moreover have "orderly (?before, {}, []) (?e, {}, [])"
    by (auto simp: orderly_def s_database_rows may_append_def opens_lease_def foreign_continuation_def distinct_runs_def map_filter_simps)
  ultimately have s0: "?step (?before, {}, []) (?e, {}, [])" by blast
  note steps = converse_rtranclp_into_rtranclp [where r = ?step]
  have r: "?step\<^sup>*\<^sup>* (?before, {}, []) (en', {}, [?t Finished])"
    using s1 s2 s3 s4 by (intro steps [OF s0] steps [OF disjI1 [OF s1]] steps [OF disjI1 [OF s2]] steps [OF disjI1 [OF s3]]
        steps [OF disjI1 [OF s4]] rtranclp.rtrancl_refl)
  have "settles_live (ls_hist (en_store ?before) w) \<and> distinct_runs (ls_hist (en_store ?before) w)" for w
    by (simp add: s_database_rows settles_live_def distinct_runs_def map_filter_simps)
  with timer_settled_at_most_once [OF r] s_engine_ok [OF c0] have "settles_live (ls_hist (en_store en') s_workflow)" by blast
  with r show ?thesis by (intro exI conjI) (assumption, simp_all)
qed

text \<open>A run with its deadline armed, retired by its own recorder.\<close>

definition decimal_parse :: parse_uuid where
  "decimal_parse s = map_option of_nat (read_digits 0 s)"

lemma decimal_parse_show: "decimal_parse (decimal_uuid u) = Some u"
  by (simp add: decimal_parse_def decimal_uuid_def read_digits_show_nat)

theorem deadline_names_its_run_witness:
  "let h = [s_started 1, TimerStarted (s_env 2) (Named ''deadline:1'') 500]
   in outstanding_deadline_timer decimal_parse h s_run = Some (Named ''deadline:1'')
    \<and> (\<exists>r' s'. retire_run_deadline decimal_parse libsql_store 9 h s_run (s_recorder h) (s_database h) = (Inr (), r', s')
         \<and> outstanding_deadline_timer decimal_parse (ls_hist s' s_workflow) s_run = None)"
proof -
  let ?h = "[s_started 1, TimerStarted (s_env 2) (Named ''deadline:1'') 500]"
  have inv: "ls_inv (s_database ?h)" by (simp add: s_database_inv seq_def)
  have one: "show_nat (Suc 0) = ''1''" by (subst show_nat.simps) (simp add: digit_char_def char_of_def bit_Suc_0_iff)
  have "decimal_parse ''1'' = Some 1" using decimal_parse_show [of 1] by (simp add: decimal_uuid_def one)
  then have out: "outstanding_deadline_timer decimal_parse ?h s_run = Some (Named ''deadline:1'')"
    by (simp add: outstanding_deadline_timer_def deadline_step_def is_deadline_timer_def DEADLINE_TIMER_PREFIX_def
        timer_name_def deadline_run_id_def strip_prefix_def)
  have "recording_op libsql_store 9 (record_timer_cancelled libsql_store 9 (Named ''deadline:1'') WorkflowIntent)
      (\<lambda>w env. TimerCancelled env (Named ''deadline:1'') WorkflowIntent)" by (rule recording_op.intros)
  from libsql.op_appends [OF this inv] s_head [of ?h] obtain r' s' where
    "record_timer_cancelled libsql_store 9 (Named ''deadline:1'') WorkflowIntent (s_recorder ?h) (s_database ?h) = (Inr (), r', s')"
    by fastforce
  then have ret: "retire_run_deadline decimal_parse libsql_store 9 (ls_hist (s_database ?h) s_workflow) s_run (s_recorder ?h) (s_database ?h) = (Inr (), r', s')"
    using out by (simp add: retire_run_deadline_def s_database_rows)
  from deadline_names_its_run [of decimal_parse decimal_uuid, OF decimal_parse_show inv ret] ret out show ?thesis
    by (auto simp: Let_def s_database_rows)
qed

end
