(* ===== verification/Timer_Recovery.thy ===== *)
theory Timer_Recovery
  imports Timers
begin

text \<open>
  Restart of the timers: \<^verbatim>\<open>crates/aion/src/time/recovery.rs\<close> over the timer operations of the two stores
  (\<^verbatim>\<open>aion-store/src/memory.rs\<close> and \<^verbatim>\<open>aion-store-libsql/src/timer.rs\<close>), and \<^verbatim>\<open>rebuild_paused_runs\<close> of
  \<^verbatim>\<open>engine/api.rs\<close>, which runs in the same startup.  The periodic driver of the recovery is not modelled: a tick
  of it is one \<open>recover_due\<close>.

  The lemmas show that the re-arming pass leaves, for every workflow the store lists as active, exactly its
  outstanding future timers in the store and, where the workflow is resident, in the wheel, and nothing else
  changed.
\<close>

section \<open>The stores' timer operations\<close>

definition libsql_timers :: "show_uuid \<Rightarrow> (timer_id \<Rightarrow> string) \<Rightarrow> libsql_state timer_store" where
  "libsql_timers show_uuid show_timer =
     \<lparr>ts_schedule_timer = ls_schedule_timer, ts_expired_timers = ls_expired_timers show_uuid show_timer,
      ts_list_active = ls_list_active show_uuid\<rparr>"

definition memory_timers :: "show_uuid \<Rightarrow> in_memory_state timer_store" where
  "memory_timers show_uuid =
     \<lparr>ts_schedule_timer = ms_schedule_timer, ts_expired_timers = ms_expired_timers show_uuid,
      ts_list_active = ms_list_active show_uuid\<rparr>"

section \<open>Recovery\<close>

datatype timer_recovery_error = RecoveryStore store_error | RecoveryTimer timer_service_error

fun future_step :: "(timer_id \<times> timestamp) list \<Rightarrow> event \<Rightarrow> (timer_id \<times> timestamp) list" where
  "future_step m (TimerStarted _ t fire_at) = AList.update t fire_at m"
| "future_step m (TimerFired _ t) = AList.delete t m"
| "future_step m (TimerCancelled _ t _) = AList.delete t m"
| "future_step m _ = m"

definition outstanding_future_timers :: "history \<Rightarrow> timestamp \<Rightarrow> (timer_id \<times> timestamp) list" where
  "outstanding_future_timers h now = filter (\<lambda>(t, fire_at). fire_at > now) (foldl future_step [] h)"

fun recover_entries ::
  "(timer_entry \<Rightarrow> 's engine \<Rightarrow> (timer_service_error, unit) result \<times> 's engine) \<Rightarrow> timer_entry list \<Rightarrow> nat \<Rightarrow> 's engine
    \<Rightarrow> (timer_recovery_error, nat) result \<times> 's engine" where
  "recover_entries fire [] fired en = (Inr fired, en)"
| "recover_entries fire (entry # entries) fired en =
     (case fire entry en of
        (Inr _, en') \<Rightarrow> recover_entries fire entries (fired + 1) en'
      | (Inl (TimerEngine (UnknownWorkflow _)), en') \<Rightarrow> recover_entries fire entries fired en'
      | (Inl e, en') \<Rightarrow> (Inl (RecoveryTimer e), en'))"

definition recover_due ::
  "'s timer_store \<Rightarrow> (timer_entry \<Rightarrow> 's engine \<Rightarrow> (timer_service_error, unit) result \<times> 's engine) \<Rightarrow> timestamp \<Rightarrow> 's engine
    \<Rightarrow> (timer_recovery_error, nat) result \<times> 's engine" where
  "recover_due tops fire now en =
     (case ts_expired_timers tops now (en_store en) of
        Inl e \<Rightarrow> (Inl (RecoveryStore e), en)
      | Inr due \<Rightarrow> recover_entries fire due 0 en)"

fun rearm_timers ::
  "'s timer_store \<Rightarrow> workflow_id \<Rightarrow> (timer_id \<times> timestamp) list \<Rightarrow> nat \<Rightarrow> 's engine
    \<Rightarrow> (timer_recovery_error, nat) result \<times> 's engine" where
  "rearm_timers tops w [] n en = (Inr n, en)"
| "rearm_timers tops w ((t, fire_at) # ts) n en =
     (case schedule tops w t fire_at en of
        (Inl e, en') \<Rightarrow> (Inl (RecoveryTimer e), en')
      | (Inr _, en') \<Rightarrow> rearm_timers tops w ts (n + 1) en')"

fun rearm_workflows ::
  "'s event_store \<Rightarrow> 's timer_store \<Rightarrow> timestamp \<Rightarrow> workflow_id list \<Rightarrow> nat \<Rightarrow> 's engine
    \<Rightarrow> (timer_recovery_error, nat) result \<times> 's engine" where
  "rearm_workflows ops tops now [] n en = (Inr n, en)"
| "rearm_workflows ops tops now (w # ws) n en =
     (case es_read_history ops w (en_store en) of
        Inl e \<Rightarrow> (Inl (RecoveryStore e), en)
      | Inr h \<Rightarrow>
          (case rearm_timers tops w (outstanding_future_timers h now) n en of
             (Inl e, en') \<Rightarrow> (Inl e, en')
           | (Inr n', en') \<Rightarrow> rearm_workflows ops tops now ws n' en'))"

definition rearm_future_from_active_histories ::
  "'s event_store \<Rightarrow> 's timer_store \<Rightarrow> timestamp \<Rightarrow> 's engine \<Rightarrow> (timer_recovery_error, nat) result \<times> 's engine" where
  "rearm_future_from_active_histories ops tops now en =
     (case ts_list_active tops (en_store en) of
        Inl e \<Rightarrow> (Inl (RecoveryStore e), en)
      | Inr ws \<Rightarrow> rearm_workflows ops tops now ws 0 en)"

definition recover_timers_on_startup ::
  "'s event_store \<Rightarrow> 's timer_store \<Rightarrow> (timer_entry \<Rightarrow> 's engine \<Rightarrow> (timer_service_error, unit) result \<times> 's engine)
    \<Rightarrow> timestamp \<Rightarrow> 's engine \<Rightarrow> (timer_recovery_error, nat) result \<times> 's engine" where
  "recover_timers_on_startup ops tops fire now en =
     (case recover_due tops fire now en of
        (Inl e, en1) \<Rightarrow> (Inl e, en1)
      | (Inr fired, en1) \<Rightarrow>
          (case rearm_future_from_active_histories ops tops now en1 of
             (Inl e, en2) \<Rightarrow> (Inl e, en2)
           | (Inr _, en2) \<Rightarrow> (Inr fired, en2)))"

section \<open>The dispatch hold\<close>

definition rebuild_paused_runs ::
  "('s \<Rightarrow> (store_error, workflow_id list) result) \<Rightarrow> 's engine \<Rightarrow> (engine_error, unit) result \<times> 's engine" where
  "rebuild_paused_runs list_paused en =
     (case list_paused (en_store en) of
        Inl e \<Rightarrow> (Inl (EngineStore e), en)
      | Inr paused \<Rightarrow> (Inr (), paused_replace_all paused en))"

section \<open>Lemmas: outstanding timers\<close>

text \<open>When the last thing recorded for a timer is a start, the time that start asked for.\<close>

fun timer_arms :: "timer_id \<Rightarrow> event \<Rightarrow> timestamp option option" where
  "timer_arms t (TimerStarted _ u fire_at) = (if u = t then Some (Some fire_at) else None)"
| "timer_arms t (TimerFired _ u) = (if u = t then Some None else None)"
| "timer_arms t (TimerCancelled _ u _) = (if u = t then Some None else None)"
| "timer_arms t _ = None"

definition outstanding_at :: "history \<Rightarrow> timer_id \<Rightarrow> timestamp option" where
  "outstanding_at h t = Option.bind (find_map (timer_arms t) (rev h)) id"

lemma future_fold:
  "distinct (map fst (foldl future_step [] h)) \<and> map_of (foldl future_step [] h) = outstanding_at h"
proof (induction h rule: rev_induct)
  case Nil
  show ?case by (simp add: outstanding_at_def fun_eq_iff)
next
  case (snoc e h)
  then show ?case
    by (cases e) (auto simp: outstanding_at_def fun_eq_iff update_conv' delete_conv' distinct_update distinct_delete)
qed

lemma outstanding_future_exact:
  "map_of (rev (outstanding_future_timers h now)) t = (case outstanding_at h t of
     Some at \<Rightarrow> if now < at then Some at else None | None \<Rightarrow> None)"
proof -
  let ?m = "foldl future_step [] h"
  have d: "distinct (map fst ?m)" and m: "map_of ?m = outstanding_at h" using future_fold [of h] by simp_all
  have "distinct (map fst (outstanding_future_timers h now))"
    using d by (simp add: outstanding_future_timers_def distinct_map_filter)
  then have r: "map_of (rev (outstanding_future_timers h now)) = map_of (outstanding_future_timers h now)"
    by (intro map_of_inject_set [THEN iffD2]) (simp_all add: rev_map [symmetric])
  have e: "map_of (outstanding_future_timers h now) t = Some at \<longleftrightarrow> outstanding_at h t = Some at \<and> now < at" for at
    unfolding map_of_eq_Some_iff [OF \<open>distinct (map fst (outstanding_future_timers h now))\<close>]
      m [symmetric] map_of_eq_Some_iff [OF d] by (auto simp: outstanding_future_timers_def)
  show ?thesis
  proof (cases "map_of (outstanding_future_timers h now) t")
    case None
    then have "outstanding_at h t = Some at \<Longrightarrow> \<not> now < at" for at using e [of at] by simp
    with None r show ?thesis by (simp split: option.split)
  next
    case (Some at)
    with e [of at] r show ?thesis by simp
  qed
qed

section \<open>Lemmas: re-arming\<close>

text \<open>The contract of a timer store: it is an event store whose upsert of a timer sets exactly the one row,
  keeps the invariant and touches no history.\<close>

locale timer_store_laws = event_store_laws ops store_inv hist
  for ops :: "'s event_store" and store_inv hist +
  fixes tops :: "'s timer_store" and timer_row :: "'s \<Rightarrow> workflow_id \<Rightarrow> timer_id \<Rightarrow> timestamp option"
  assumes schedule_ok: "store_inv s \<Longrightarrow>
    \<exists>s'. ts_schedule_timer tops w t at s = (Inr (), s') \<and> store_inv s' \<and> hist s' = hist s
      \<and> timer_row s' = (timer_row s)(w := (timer_row s w)(t \<mapsto> at))"
begin

lemma schedule_cases:
  assumes "store_inv (en_store en)"
  shows "\<exists>en'. schedule tops w t at en = (Inr (), en') \<and> store_inv (en_store en') \<and> en_registry en' = en_registry en
     \<and> hist (en_store en') = hist (en_store en)
     \<and> timer_row (en_store en') = (timer_row (en_store en))(w := (timer_row (en_store en) w)(t \<mapsto> at))
     \<and> map_of (en_wheel en') = (case resolve_workflow w en of
          SeamResident pid \<Rightarrow> (map_of (en_wheel en))((pid, t) \<mapsto> at) | _ \<Rightarrow> map_of (en_wheel en))"
proof -
  from schedule_ok [OF assms, of w t at] obtain s' where
    s': "ts_schedule_timer tops w t at (en_store en) = (Inr (), s')" "store_inv s'" "hist s' = hist (en_store en)"
    "timer_row s' = (timer_row (en_store en))(w := (timer_row (en_store en) w)(t \<mapsto> at))" by blast
  let ?en = "en\<lparr>en_store := s'\<rparr>"
  have same: "resolve_workflow w ?en = resolve_workflow w en" by (simp add: resolve_workflow_def)
  show ?thesis
  proof (cases "resolve_workflow w en")
    case (SeamResident pid)
    then obtain hnd where "find_handle w (en_registry en) = Some hnd" "wh_pid hnd = pid"
      by (auto simp: resolve_workflow_def split: option.splits if_splits)
    then have "hnd \<in> set (registry_list (en_registry en))" "wh_pid hnd = pid" using find_handle_SomeD by auto
    then have "find (\<lambda>hnd. wh_pid hnd = pid) (registry_list (en_registry en)) \<noteq> None" by (auto simp: find_None_iff)
    then obtain w' where "workflow_id_for_process pid ?en = Inr w'" by (auto simp: workflow_id_for_process_def)
    with s' same SeamResident show ?thesis by (simp add: schedule_def arm_timer_def Let_def update_conv')
  qed (use s' same in \<open>simp_all add: schedule_def Let_def\<close>)
qed

lemma rearm_timers_rows:
  assumes "store_inv (en_store en)"
  shows "\<exists>en'. rearm_timers tops w ts n en = (Inr (n + length ts), en') \<and> store_inv (en_store en')
     \<and> en_registry en' = en_registry en \<and> hist (en_store en') = hist (en_store en)
     \<and> timer_row (en_store en') = (timer_row (en_store en))(w := timer_row (en_store en) w ++ map_of (rev ts))
     \<and> map_of (en_wheel en') = (case resolve_workflow w en of
          SeamResident pid \<Rightarrow> map_of (en_wheel en) ++ map_of (rev (map (\<lambda>(t, at). ((pid, t), at)) ts))
        | _ \<Rightarrow> map_of (en_wheel en))"
  using assms
proof (induction ts arbitrary: n en)
  case Nil
  then show ?case by (simp split: workflow_residency.split)
next
  case (Cons x ts)
  obtain t at where x: "x = (t, at)" by fastforce
  from schedule_cases [OF Cons.prems, of w t at] obtain en1 where
    1: "schedule tops w t at en = (Inr (), en1)" "store_inv (en_store en1)" "en_registry en1 = en_registry en"
    "hist (en_store en1) = hist (en_store en)"
    "timer_row (en_store en1) = (timer_row (en_store en))(w := (timer_row (en_store en) w)(t \<mapsto> at))"
    "map_of (en_wheel en1) = (case resolve_workflow w en of
        SeamResident pid \<Rightarrow> (map_of (en_wheel en))((pid, t) \<mapsto> at) | _ \<Rightarrow> map_of (en_wheel en))" by blast
  have same: "resolve_workflow w en1 = resolve_workflow w en" using 1(3) by (simp add: resolve_workflow_def)
  from Cons.IH [OF 1(2), of "n + 1"] obtain en' where
    2: "rearm_timers tops w ts (n + 1) en1 = (Inr (n + 1 + length ts), en')" "store_inv (en_store en')"
    "en_registry en' = en_registry en1" "hist (en_store en') = hist (en_store en1)"
    "timer_row (en_store en') = (timer_row (en_store en1))(w := timer_row (en_store en1) w ++ map_of (rev ts))"
    "map_of (en_wheel en') = (case resolve_workflow w en1 of
        SeamResident pid \<Rightarrow> map_of (en_wheel en1) ++ map_of (rev (map (\<lambda>(t, at). ((pid, t), at)) ts))
      | _ \<Rightarrow> map_of (en_wheel en1))" by blast
  have "rearm_timers tops w (x # ts) n en = (Inr (n + length (x # ts)), en')" using 1(1) 2(1) x by simp
  moreover have "timer_row (en_store en') = (timer_row (en_store en))(w := timer_row (en_store en) w ++ map_of (rev (x # ts)))"
    using 1(5) 2(5) x by simp
  moreover have "map_of (en_wheel en') = (case resolve_workflow w en of
        SeamResident pid \<Rightarrow> map_of (en_wheel en) ++ map_of (rev (map (\<lambda>(t, at). ((pid, t), at)) (x # ts)))
      | _ \<Rightarrow> map_of (en_wheel en))"
    using 1(6) 2(6) same x by (cases "resolve_workflow w en") simp_all
  moreover have "en_registry en' = en_registry en" "hist (en_store en') = hist (en_store en)"
    using 1(3,4) 2(3,4) by simp_all
  ultimately show ?case using 2(2) by blast
qed

text \<open>Timers of other processes are not touched, and those of the process itself are overridden.\<close>

lemma map_of_pid:
  "map_of (rev (map (\<lambda>(t, at). ((q, t), at)) ts)) (pid, t) = (if q = pid then map_of (rev ts) t else None)"
  by (induction ts) (auto simp: map_add_def split: option.split)

text \<open>Over a list of workflows, each with its own process and its own outstanding timers.\<close>

lemma rearm_workflows_rows:
  assumes "store_inv (en_store en)" and "distinct ws"
    and "\<forall>v u pid. resolve_workflow v en = SeamResident pid \<longrightarrow> resolve_workflow u en = SeamResident pid \<longrightarrow> v = u"
  shows "\<exists>m en'. rearm_workflows ops tops now ws n en = (Inr m, en') \<and> store_inv (en_store en')
     \<and> en_registry en' = en_registry en \<and> hist (en_store en') = hist (en_store en)
     \<and> (\<forall>w. timer_row (en_store en') w = (if w \<in> set ws
          then timer_row (en_store en) w ++ map_of (rev (outstanding_future_timers (hist (en_store en) w) now))
          else timer_row (en_store en) w))
     \<and> (\<forall>w pid. resolve_workflow w en = SeamResident pid \<longrightarrow>
          (\<lambda>t. map_of (en_wheel en') (pid, t)) = (if w \<in> set ws
          then (\<lambda>t. map_of (en_wheel en) (pid, t)) ++ map_of (rev (outstanding_future_timers (hist (en_store en) w) now))
          else (\<lambda>t. map_of (en_wheel en) (pid, t))))"
  using assms
proof (induction ws arbitrary: n en)
  case Nil
  then show ?case by simp
next
  case (Cons v ws)
  let ?out = "\<lambda>w. outstanding_future_timers (hist (en_store en) w) now"
  from rearm_timers_rows [OF Cons.prems(1), of v "?out v" n] obtain en1 where
    1: "rearm_timers tops v (?out v) n en = (Inr (n + length (?out v)), en1)" "store_inv (en_store en1)"
    "en_registry en1 = en_registry en" "hist (en_store en1) = hist (en_store en)"
    "timer_row (en_store en1) = (timer_row (en_store en))(v := timer_row (en_store en) v ++ map_of (rev (?out v)))"
    and wheel1: "map_of (en_wheel en1) = (case resolve_workflow v en of
        SeamResident pid \<Rightarrow> map_of (en_wheel en) ++ map_of (rev (map (\<lambda>(t, at). ((pid, t), at)) (?out v)))
      | _ \<Rightarrow> map_of (en_wheel en))" by blast
  have same: "resolve_workflow u en1 = resolve_workflow u en" for u using 1(3) by (simp add: resolve_workflow_def)
  have fresh: "v \<notin> set ws" "distinct ws" using Cons.prems by simp_all
  have inj: "\<forall>v u pid. resolve_workflow v en1 = SeamResident pid \<longrightarrow> resolve_workflow u en1 = SeamResident pid \<longrightarrow> v = u"
    using Cons.prems(3) same by simp
  from Cons.IH [OF 1(2) fresh(2) inj, of "n + length (?out v)"] obtain m en' where
    2: "rearm_workflows ops tops now ws (n + length (?out v)) en1 = (Inr m, en')" "store_inv (en_store en')"
    "en_registry en' = en_registry en1" "hist (en_store en') = hist (en_store en1)"
    and rows: "\<forall>w. timer_row (en_store en') w = (if w \<in> set ws
          then timer_row (en_store en1) w ++ map_of (rev (outstanding_future_timers (hist (en_store en1) w) now))
          else timer_row (en_store en1) w)"
    and wheel: "\<forall>w pid. resolve_workflow w en1 = SeamResident pid \<longrightarrow>
          (\<lambda>t. map_of (en_wheel en') (pid, t)) = (if w \<in> set ws
          then (\<lambda>t. map_of (en_wheel en1) (pid, t)) ++ map_of (rev (outstanding_future_timers (hist (en_store en1) w) now))
          else (\<lambda>t. map_of (en_wheel en1) (pid, t)))" by (elim exE conjE) (rule that)
  have "rearm_workflows ops tops now (v # ws) n en = (Inr m, en')"
    using read_back [OF Cons.prems(1), of v] 1(1) 2(1) by simp
  moreover have "timer_row (en_store en') w = (if w \<in> set (v # ws)
          then timer_row (en_store en) w ++ map_of (rev (?out w)) else timer_row (en_store en) w)" for w
    using rows 1(4,5) fresh by auto
  moreover have "(\<lambda>t. map_of (en_wheel en') (pid, t)) = (if w \<in> set (v # ws)
          then (\<lambda>t. map_of (en_wheel en) (pid, t)) ++ map_of (rev (?out w))
          else (\<lambda>t. map_of (en_wheel en) (pid, t)))" if w: "resolve_workflow w en = SeamResident pid" for w pid
  proof -
    have "(\<lambda>t. map_of (en_wheel en1) (pid, t)) = (if w = v
        then (\<lambda>t. map_of (en_wheel en) (pid, t)) ++ map_of (rev (?out w)) else (\<lambda>t. map_of (en_wheel en) (pid, t)))"
    proof (cases "resolve_workflow v en")
      case (SeamResident q)
      with w Cons.prems(3) have "q = pid \<longleftrightarrow> w = v" by auto
      with wheel1 SeamResident show ?thesis by (auto simp: fun_eq_iff map_add_def map_of_pid)
    qed (use w wheel1 in auto)
    with wheel w same 1(4) fresh(1) show ?thesis by simp
  qed
  ultimately show ?case using 1(3,4) 2(2-4) by auto
qed

end

interpretation libsql_timer: timer_store_laws libsql_store ls_inv ls_hist "libsql_timers show_uuid show_timer"
  "\<lambda>s w t. map_of (ls_timers s) (w, t)" for show_uuid show_timer
  by unfold_locales
    (auto simp: libsql_timers_def ls_schedule_timer_def ls_inv_def ls_rows_def update_conv' fun_eq_iff)

interpretation memory_timer: timer_store_laws memory_store ms_inv ms_hist "memory_timers show_uuid"
  "\<lambda>s w t. map_option te_fire_at (map_of (ims_timers s) (w, t))" for show_uuid
  by unfold_locales
    (auto simp: memory_timers_def ms_schedule_timer_def ms_inv_def ms_hist_def update_conv' fun_eq_iff)

lemma summaries_distinct:
  assumes "ls_inv s" and "ls_stamped s"
  shows "distinct (map ws_workflow_id (load_summaries show_uuid default_filter False s))"
proof -
  let ?m = "load_candidate_histories show_uuid default_filter s"
  have d: "distinct (map fst ?m)" by (simp add: load_candidate_histories_def group_distinct)
  have id: "ws_workflow_id sm = v" if "(v, h) \<in> set ?m" "summary_of [] h = Some sm" for v h sm
  proof -
    from that(1) have "h = filter queryable_flag (ls_rows v s)"
      unfolding map_of_eq_Some_iff [OF d, symmetric] candidate_histories [OF assms] by (auto split: list.splits)
    then have "\<forall>e \<in> set (filter is_queryable_event h). workflow_id_of e = v"
      using assms(2) by (auto simp: ls_stamped_def ls_rows_def)
    with that(2) from_history_id show ?thesis by (auto simp: summary_of_def Let_def)
  qed
  have "distinct (map ws_workflow_id (List.map_filter (\<lambda>(w, h). summary_of [] h) m))"
    if "distinct (map fst m)" and "\<And>v h sm. (v, h) \<in> set m \<Longrightarrow> summary_of [] h = Some sm \<Longrightarrow> ws_workflow_id sm = v" for m
    using that
  proof (induction m)
    case (Cons x m)
    obtain v h where x: "x = (v, h)" by fastforce
    have tail: "distinct (map ws_workflow_id (List.map_filter (\<lambda>(w, h). summary_of [] h) m))"
      using Cons.prems by (intro Cons.IH) auto
    have "v \<notin> ws_workflow_id ` set (List.map_filter (\<lambda>(w, h). summary_of [] h) m)"
    proof
      assume "v \<in> ws_workflow_id ` set (List.map_filter (\<lambda>(w, h). summary_of [] h) m)"
      then obtain u k sm where "(u, k) \<in> set m" "summary_of [] k = Some sm" "v = ws_workflow_id sm"
        by (auto simp: in_map_filter)
      with Cons.prems(2) [of u k sm] have "v \<in> set (map fst m)" by force
      with Cons.prems(1) x show False by simp
    qed
    with tail x Cons.prems(2) [of v h] show ?case by (simp add: map_filter_simps split: option.split)
  qed (simp add: map_filter_simps)
  from this [OF d id] show ?thesis by (simp add: load_summaries_def)
qed

section \<open>Properties\<close>

text \<open>C21: the re-arming pass of a restart over the libSQL store succeeds, and afterwards every timer of an active
  workflow whose last recorded event is a start at a future time has that time as its durable row and, where
  the workflow is resident, as its wheel entry; a timer that was settled or is already due keeps the row it
  had, no row of another workflow changes, and no history does.\<close>

theorem restart_rearms_outstanding:
  assumes "ls_inv (en_store en)" and "ls_stamped (en_store en)" and "ls_list_active show_uuid (en_store en) = Inr active"
    and "\<forall>v u pid. resolve_workflow v en = SeamResident pid \<longrightarrow> resolve_workflow u en = SeamResident pid \<longrightarrow> v = u"
  shows "\<exists>n en'. rearm_future_from_active_histories libsql_store (libsql_timers show_uuid show_timer) now en = (Inr n, en')
    \<and> (\<forall>w. ls_hist (en_store en') w = ls_hist (en_store en) w)
    \<and> (\<forall>w t. map_of (ls_timers (en_store en')) (w, t) =
         (if w \<in> set active \<and> (\<exists>at > now. outstanding_at (ls_hist (en_store en) w) t = Some at)
          then outstanding_at (ls_hist (en_store en) w) t else map_of (ls_timers (en_store en)) (w, t)))
    \<and> (\<forall>w \<in> set active. \<forall>pid t at. resolve_workflow w en = SeamResident pid \<longrightarrow> now < at \<longrightarrow>
         outstanding_at (ls_hist (en_store en) w) t = Some at \<longrightarrow> map_of (en_wheel en') (pid, t) = Some at)"
proof -
  have "distinct active"
    using assms(3) summaries_distinct [OF assms(1,2)]
    by (auto simp: ls_list_active_def list_by_status_def distinct_map_filter)
  from libsql_timer.rearm_workflows_rows [OF assms(1) this assms(4), of show_uuid show_timer now 0] obtain m en' where
    1: "rearm_workflows libsql_store (libsql_timers show_uuid show_timer) now active 0 en = (Inr m, en')"
    "(\<lambda>w. ls_hist (en_store en') w) = (\<lambda>w. ls_hist (en_store en) w)"
    and rows: "\<forall>w. (\<lambda>t. map_of (ls_timers (en_store en')) (w, t)) = (if w \<in> set active
          then (\<lambda>t. map_of (ls_timers (en_store en)) (w, t)) ++ map_of (rev (outstanding_future_timers (ls_hist (en_store en) w) now))
          else (\<lambda>t. map_of (ls_timers (en_store en)) (w, t)))"
    and wheel: "\<forall>w pid. resolve_workflow w en = SeamResident pid \<longrightarrow>
          (\<lambda>t. map_of (en_wheel en') (pid, t)) = (if w \<in> set active
          then (\<lambda>t. map_of (en_wheel en) (pid, t)) ++ map_of (rev (outstanding_future_timers (ls_hist (en_store en) w) now))
          else (\<lambda>t. map_of (en_wheel en) (pid, t)))" by (elim exE conjE) (rule that)
  have "rearm_future_from_active_histories libsql_store (libsql_timers show_uuid show_timer) now en = (Inr m, en')"
    using 1(1) assms(3) by (simp add: rearm_future_from_active_histories_def libsql_timers_def)
  moreover have "map_of (ls_timers (en_store en')) (w, t) =
         (if w \<in> set active \<and> (\<exists>at > now. outstanding_at (ls_hist (en_store en) w) t = Some at)
          then outstanding_at (ls_hist (en_store en) w) t else map_of (ls_timers (en_store en)) (w, t))" for w t
    using rows [rule_format, of w, THEN fun_cong, of t] by (auto simp: map_add_def outstanding_future_exact split: option.split)
  moreover have "map_of (en_wheel en') (pid, t) = Some at"
    if "w \<in> set active" "resolve_workflow w en = SeamResident pid" "now < at"
      "outstanding_at (ls_hist (en_store en) w) t = Some at" for w pid t at
    using wheel [rule_format, OF that(2), THEN fun_cong, of t] that by (simp add: map_add_def outstanding_future_exact)
  ultimately show ?thesis using 1(2) [THEN fun_cong] by blast
qed

text \<open>C33: at a restart the hold on dispatch is rebuilt from the store's paused listing.  Over the in-memory store
  that restores exactly the workflows whose history projects to Paused; over the libSQL store it always
  restores the empty hold, so the dispatcher's next claim is the claim that knows of no pause.\<close>

theorem restart_rebuilds_hold:
  assumes "ms_inv (en_store em)" and "ls_inv (en_store el)" and "ls_stamped (en_store el)"
  shows "(\<exists>em'. rebuild_paused_runs (ms_list_paused show_uuid) em = (Inr (), em')
            \<and> (\<forall>w. w \<in> en_paused_runs em' \<longleftrightarrow>
                 w \<in> fst ` set (ims_histories (en_store em)) \<and> status_from_events (ms_hist (en_store em) w) = Paused))
    \<and> (\<exists>el'. rebuild_paused_runs (ls_list_paused show_uuid) el = (Inr (), el') \<and> en_paused_runs el' = {}
            \<and> claim_outbox_rows_excluding now limit (en_paused_runs el') (en_store el') = claim_outbox_rows now limit (en_store el))"
proof
  show "\<exists>em'. rebuild_paused_runs (ms_list_paused show_uuid) em = (Inr (), em')
      \<and> (\<forall>w. w \<in> en_paused_runs em' \<longleftrightarrow>
           w \<in> fst ` set (ims_histories (en_store em)) \<and> status_from_events (ms_hist (en_store em) w) = Paused)"
    using ms_listed [OF assms(1), of _ Paused]
    by (simp add: rebuild_paused_runs_def paused_replace_all_def ms_list_paused_def del: set_map)
  have "filter (\<lambda>sm. ws_status sm = Paused) (load_summaries show_uuid default_filter False (en_store el)) = []"
    using load_summaries_status by (auto simp: filter_empty_conv)
  then show "\<exists>el'. rebuild_paused_runs (ls_list_paused show_uuid) el = (Inr (), el') \<and> en_paused_runs el' = {}
      \<and> claim_outbox_rows_excluding now limit (en_paused_runs el') (en_store el') = claim_outbox_rows now limit (en_store el)"
    by (simp add: rebuild_paused_runs_def paused_replace_all_def ls_list_paused_def list_by_status_def claim_excluding_eq claim_outbox_rows_eq)
qed

section \<open>Witnesses\<close>

theorem restart_rearms_outstanding_witness:
  "\<exists>n en'. rearm_future_from_active_histories libsql_store (libsql_timers decimal_uuid (\<lambda>_. [])) 200 (s_engine [s_started 1, s_timer 2]) = (Inr n, en')
    \<and> map_of (ls_timers (en_store en')) (s_workflow, Named ''t'') = Some 500
    \<and> map_of (en_wheel en') (40, Named ''t'') = Some 500"
proof -
  let ?e = "s_engine [s_started 1, s_timer 2]"
  have ok: "ls_inv (en_store ?e)" "find_handle s_workflow (en_registry ?e) = Some s_handle" using s_engine_ok [OF s_armed(1)] by blast+
  have st: "ls_stamped (en_store ?e)" by (simp add: ls_stamped_def s_database_def libsql_empty_def workflow_id_of_def)
  have r: "resolve_workflow w ?e = (if w = s_workflow then SeamResident 40 else SeamUnknown)" for w
    using ok(2) by (auto simp: resolve_workflow_def find_handle_def registry_list_def s_engine_def s_handle_def s_handle_for_def)
  have "\<exists>active. ls_list_active decimal_uuid (en_store ?e) = Inr active \<and> s_workflow \<in> set active"
    using summaries_default [OF ok(1) st, of decimal_uuid s_workflow Running]
    by (force simp: ls_list_active_def list_by_status_def s_database_rows status_from_events_def)
  then obtain active where a: "ls_list_active decimal_uuid (en_store ?e) = Inr active" "s_workflow \<in> set active" by blast
  have o: "outstanding_at (ls_hist (en_store ?e) s_workflow) (Named ''t'') = Some 500"
    by (simp add: s_database_rows outstanding_at_def)
  have "\<forall>v u pid. resolve_workflow v ?e = SeamResident pid \<longrightarrow> resolve_workflow u ?e = SeamResident pid \<longrightarrow> v = u"
    by (simp add: r)
  from restart_rearms_outstanding [OF ok(1) st a(1) this, of "\<lambda>_. []" 200] obtain n en' where
    1: "rearm_future_from_active_histories libsql_store (libsql_timers decimal_uuid (\<lambda>_. [])) 200 ?e = (Inr n, en')"
    and rows: "\<forall>w t. map_of (ls_timers (en_store en')) (w, t) =
         (if w \<in> set active \<and> (\<exists>at > 200. outstanding_at (ls_hist (en_store ?e) w) t = Some at)
          then outstanding_at (ls_hist (en_store ?e) w) t else map_of (ls_timers (en_store ?e)) (w, t))"
    and wheel: "\<forall>w \<in> set active. \<forall>pid t at. resolve_workflow w ?e = SeamResident pid \<longrightarrow> 200 < at \<longrightarrow>
         outstanding_at (ls_hist (en_store ?e) w) t = Some at \<longrightarrow> map_of (en_wheel en') (pid, t) = Some at"
    by (elim exE conjE) (rule that)
  have "map_of (ls_timers (en_store en')) (s_workflow, Named ''t'') = Some 500"
    using rows [rule_format, of s_workflow "Named ''t''"] o a(2) by (simp del: s_engine_sel)
  moreover have "map_of (en_wheel en') (40, Named ''t'') = Some 500"
    using wheel [rule_format, OF a(2), of 40 500 "Named ''t''"] o r by (simp del: s_engine_sel)
  ultimately show ?thesis using 1 by blast
qed

theorem restart_rebuilds_hold_witness:
  "let s = s_database [s_started 1, s_paused 2]
   in status_from_events (ls_hist s s_workflow) = Paused
    \<and> (\<exists>en'. rebuild_paused_runs (ls_list_paused decimal_uuid) (s_engine [s_started 1, s_paused 2]) = (Inr (), en')
         \<and> en_paused_runs en' = {})"
proof -
  let ?e = "s_engine [s_started 1, s_paused 2]"
  let ?m = "\<lparr>en_store = in_memory_default, en_registry = registry_default, en_recorders = (\<lambda>_. s_recorder []),
     en_completions = (\<lambda>_. None), en_paused_runs = {}, en_wheel = [], en_woken = [], en_cancelled = []\<rparr>"
  have "ls_inv (en_store ?e)" by (simp add: s_database_inv seq_def)
  moreover have "ls_stamped (en_store ?e)" by (simp add: ls_stamped_def s_database_def libsql_empty_def workflow_id_of_def)
  moreover have "ms_inv (en_store ?m)" using in_memory_default_inv by simp
  ultimately show ?thesis
    using restart_rebuilds_hold [of ?m ?e decimal_uuid 0 1] by (auto simp: Let_def s_database_rows status_from_events_def)
qed

end
