(* ===== verification/Start.thy ===== *)
theory Start
  imports Timer_Recovery
begin

text \<open>
  \<^verbatim>\<open>crates/aion/src/lifecycle/start.rs\<close> and the projection update of \<^verbatim>\<open>lifecycle/visibility.rs\<close>: recording the start of a
  run and its deadline, launching the process, publishing the handle and arming the deadline.

  The package catalog, the supervision tree and the process runtime are the record of functions
  \<open>start_seams\<close>; installing a completion monitor and flushing deferred signals are requests to the runtime
  that change nothing modelled here beyond their result.  \<open>interfere n\<close> is what other tasks do at the \<open>n\<close>-th
  await; fresh identifiers, the clock reading and the cell of the new recorder are arguments.

  The lemmas show what a start that runs alone leaves in the history, the registry and the wheel, on
  success and on every failure.
\<close>

section \<open>What a start calls\<close>

record loaded_workflow =
  lw_workflow_type :: string
  lw_version :: package_version
  lw_declared_timeout :: "duration option"

datatype abort_error =
  AbortTimedOut u64 nat
| ExecutorUnavailable u64
| ExecutorExhausted u64
| ExecutorPoisoned u64
| MonitorInstalled u64
| OwnershipPoisoned u64
| StatePoisoned u64
| CleanupFailed u64 string

fun show_abort_error :: "abort_error \<Rightarrow> string" where
  "show_abort_error (AbortTimedOut pid ms) =
     ''process '' @ show_u64 pid @ '' did not complete unmonitored abort within '' @ show_nat ms @ ''ms''"
| "show_abort_error (ExecutorUnavailable pid) = ''process cleanup executor is unavailable for process '' @ show_u64 pid"
| "show_abort_error (ExecutorExhausted pid) = ''process cleanup executor is exhausted for process '' @ show_u64 pid"
| "show_abort_error (ExecutorPoisoned pid) = ''process cleanup executor state is poisoned for process '' @ show_u64 pid"
| "show_abort_error (MonitorInstalled pid) = ''process '' @ show_u64 pid @ '' already has a completion monitor owner''"
| "show_abort_error (OwnershipPoisoned pid) = ''process exit ownership gate for process '' @ show_u64 pid @ '' was poisoned''"
| "show_abort_error (StatePoisoned pid) = ''unmonitored abort state for process '' @ show_u64 pid @ '' was poisoned''"
| "show_abort_error (CleanupFailed pid reason) = ''process '' @ show_u64 pid @ '' cleanup failed: '' @ reason"

definition into_engine_error :: "abort_error \<Rightarrow> engine_error" where
  "into_engine_error e = EngineRuntime (show_abort_error e)"

record start_seams =
  ss_resolve_exact :: "string \<Rightarrow> package_version \<Rightarrow> (engine_error, loaded_workflow option) result"
  ss_resolve_routed :: "string \<Rightarrow> (engine_error, loaded_workflow option) result"
  ss_ensure_type_supervisor :: "string \<Rightarrow> (engine_error, unit) result"
  ss_runtime_input :: "payload \<Rightarrow> (engine_error, unit) result"
  ss_spawn_workflow :: "loaded_workflow \<Rightarrow> payload \<Rightarrow> (engine_error, u64) result"
  ss_place_workflow :: "string \<Rightarrow> u64 \<Rightarrow> (engine_error, unit) result"
  ss_abort_unmonitored :: "u64 \<Rightarrow> (abort_error, unit) result"
  ss_attach_finalizer :: "u64 \<Rightarrow> (abort_error, bool) result"
  ss_monitor_process :: "u64 \<Rightarrow> (engine_error, unit) result"
  ss_timer_service :: "(string, unit) result"

record start_options =
  so_workflow_id :: "workflow_id option"
  so_parent_run_id :: "run_id option"
  so_loaded_version :: "package_version option"
  so_search_attributes :: attributes
  so_namespace :: "string option"

section \<open>Visibility\<close>

definition lifecycle_visibility_record :: "history \<Rightarrow> run_id \<Rightarrow> (engine_error, visibility_record) result" where
  "lifecycle_visibility_record h run = map_err (\<lambda>_. LoadWithoutStart) (visibility_record_from_history h run)"

definition upsert_workflow_visibility ::
  "'s event_store \<Rightarrow> workflow_id \<Rightarrow> run_id \<Rightarrow> 's engine \<Rightarrow> (engine_error, unit) result \<times> 's engine" where
  "upsert_workflow_visibility ops w run en =
     (case bind_res (map_err EngineStore (es_read_history ops w (en_store en))) (\<lambda>h. lifecycle_visibility_record h run) of
        Inl e \<Rightarrow> (Inl e, en)
      | Inr v \<Rightarrow> (let (res, s) = es_record_visibility ops v (en_store en) in (map_err EngineStore res, en\<lparr>en_store := s\<rparr>)))"

section \<open>The deadline\<close>

definition deadline_fire_at :: "'c calendar \<Rightarrow> timestamp \<Rightarrow> duration \<Rightarrow> (engine_error, timestamp) result" where
  "deadline_fire_at cal started_at timeout =
     bind_res (ok_or (cal_from_std cal timeout) (EngineRuntime ''declared workflow timeout is out of range'')) (\<lambda>delta.
       ok_or (cal_checked_add cal started_at delta)
         (EngineRuntime ''declared workflow timeout overflowed the deadline fire time''))"

definition record_declared_deadline ::
  "show_uuid \<Rightarrow> 'c calendar \<Rightarrow> 's event_store \<Rightarrow> run_id \<Rightarrow> duration option \<Rightarrow> timestamp \<Rightarrow> recorder \<Rightarrow> 's
    \<Rightarrow> (engine_error, (timer_id \<times> timestamp) option) result \<times> recorder \<times> 's" where
  "record_declared_deadline show_uuid cal ops run declared_timeout started_at r s =
     (case declared_timeout of
        None \<Rightarrow> (Inr None, r, s)
      | Some timeout \<Rightarrow>
          (case bind_res (deadline_fire_at cal started_at timeout) (\<lambda>fire_at.
                  bind_res (map_err (\<lambda>_. EngineRuntime ''failed to mint deadline timer id'') (deadline_timer_id show_uuid run)) (\<lambda>t.
                    Inr (t, fire_at))) of
             Inl e \<Rightarrow> (Inl e, r, s)
           | Inr (t, fire_at) \<Rightarrow>
               (case record_timer_started ops started_at t fire_at r s of
                  (Inl e, r', s') \<Rightarrow> (Inl (EngineDurability e), r', s')
                | (Inr _, r', s') \<Rightarrow> (Inr (Some (t, fire_at)), r', s'))))"

definition arm_declared_deadline ::
  "start_seams \<Rightarrow> 's timer_store \<Rightarrow> workflow_id \<Rightarrow> timer_id \<Rightarrow> timestamp \<Rightarrow> 's engine \<Rightarrow> (engine_error, unit) result \<times> 's engine" where
  "arm_declared_deadline seams tops w t fire_at en =
     (case ss_timer_service seams of
        Inl _ \<Rightarrow> (Inl (EngineRuntime ''timer service unavailable while arming workflow deadline''), en)
      | Inr _ \<Rightarrow>
          (let (res, en') = schedule tops w t fire_at en
           in (map_err (\<lambda>_. EngineRuntime ''failed to arm workflow deadline'') res, en')))"

section \<open>Undoing a start\<close>

definition abort_unmonitored_start :: "start_seams \<Rightarrow> u64 \<Rightarrow> engine_error \<Rightarrow> engine_error" where
  "abort_unmonitored_start seams pid cause =
     (case ss_abort_unmonitored seams pid of Inr _ \<Rightarrow> cause | Inl e \<Rightarrow> into_engine_error e)"

definition retract_registry_publication :: "workflow_handle \<Rightarrow> 's engine \<Rightarrow> 's engine" where
  "retract_registry_publication hnd en =
     en\<lparr>en_registry := snd (registry_remove (wh_workflow_id hnd) (wh_run_id hnd) (en_registry en))\<rparr>"

text \<open>The finalizer an in-flight abort job runs later is another removal; here it is only attached.\<close>

definition defer_retraction_to_abort_job :: "start_seams \<Rightarrow> workflow_handle \<Rightarrow> 's engine \<Rightarrow> 's engine" where
  "defer_retraction_to_abort_job seams hnd en =
     (case ss_attach_finalizer seams (wh_pid hnd) of
        Inr True \<Rightarrow> en
      | Inr False \<Rightarrow> retract_registry_publication hnd en
      | Inl _ \<Rightarrow> en)"

definition fail_started_run :: "start_seams \<Rightarrow> workflow_handle \<Rightarrow> 's engine \<Rightarrow> 's engine" where
  "fail_started_run seams hnd en =
     (case ss_abort_unmonitored seams (wh_pid hnd) of
        Inr _ \<Rightarrow> retract_registry_publication hnd en
      | Inl (CleanupFailed _ _) \<Rightarrow> retract_registry_publication hnd en
      | Inl (AbortTimedOut _ _) \<Rightarrow> defer_retraction_to_abort_job seams hnd en
      | Inl _ \<Rightarrow> en)"

section \<open>Starting a run\<close>

definition launch :: "start_seams \<Rightarrow> loaded_workflow \<Rightarrow> payload \<Rightarrow> (engine_error, u64) result" where
  "launch seams loaded input =
     bind_res (ss_ensure_type_supervisor seams (lw_workflow_type loaded)) (\<lambda>_.
     bind_res (ss_runtime_input seams input) (\<lambda>_.
     bind_res (ss_spawn_workflow seams loaded input) (\<lambda>pid.
       case ss_place_workflow seams (lw_workflow_type loaded) pid of
         Inr _ \<Rightarrow> Inr pid
       | Inl e \<Rightarrow> Inl (abort_unmonitored_start seams pid e))))"

text \<open>The durable part: the start itself, with its search attributes, then the deadline.\<close>

definition record_start ::
  "show_uuid \<Rightarrow> 'c calendar \<Rightarrow> 's event_store \<Rightarrow> schema \<Rightarrow> 's interference \<Rightarrow> timestamp \<Rightarrow> workflow_id \<Rightarrow> u64
    \<Rightarrow> workflow_start_record \<Rightarrow> attributes \<Rightarrow> duration option \<Rightarrow> 's engine
    \<Rightarrow> (engine_error, (timer_id \<times> timestamp) option \<times> recorder) result \<times> 's engine" where
  "record_start show_uuid cal ops sch interfere started_at w head start attrs timeout en =
     (let en1 = interfere 0 en;
          r0 = recorder_with_visibility (recorder_resume_at w head) (wsr_run_id start)
      in case record_workflow_started_with_attributes ops started_at start attrs sch r0 (en_store en1) of
           (Inl e, _, s) \<Rightarrow> (Inl (EngineDurability e), en1\<lparr>en_store := s\<rparr>)
         | (Inr _, r, s) \<Rightarrow>
             (let en2 = interfere 1 (en1\<lparr>en_store := s\<rparr>)
              in case record_declared_deadline show_uuid cal ops (wsr_run_id start) timeout started_at r (en_store en2) of
                   (Inl e, _, s') \<Rightarrow> (Inl e, en2\<lparr>en_store := s'\<rparr>)
                 | (Inr armed, r', s') \<Rightarrow> (Inr (armed, r'), en2\<lparr>en_store := s'\<rparr>)))"

text \<open>The rest of a start, once the handle is made: publish it, arm its deadline, have its exit monitored.\<close>

definition publish_and_arm ::
  "start_seams \<Rightarrow> 's timer_store \<Rightarrow> 's interference \<Rightarrow> (timer_id \<times> timestamp) option \<Rightarrow> recorder \<Rightarrow> workflow_handle
    \<Rightarrow> 's engine \<Rightarrow> (engine_error, workflow_handle) result \<times> 's engine" where
  "publish_and_arm seams tops interfere armed r hnd en =
     (let w = wh_workflow_id hnd;
          en1 = en\<lparr>en_registry := snd (registry_insert (w, wh_run_id hnd) hnd (en_registry en)),
                   en_recorders := (en_recorders en)(wh_recorder hnd := r),
                   en_completions := (en_completions en)(wh_completion hnd := None)\<rparr>;
          (res, en2) = (case armed of
              None \<Rightarrow> (Inr (), en1)
            | Some (t, fire_at) \<Rightarrow> arm_declared_deadline seams tops w t fire_at (interfere 3 en1))
      in case bind_res res (\<lambda>_. ss_monitor_process seams (wh_pid hnd)) of
           Inl cause \<Rightarrow> (Inl cause, fail_started_run seams hnd en2)
         | Inr _ \<Rightarrow> (Inr hnd, en2))"

text \<open>From the durable start to the published handle.\<close>

definition launch_recorded ::
  "start_seams \<Rightarrow> 's event_store \<Rightarrow> 's timer_store \<Rightarrow> 's interference \<Rightarrow> nat \<Rightarrow> loaded_workflow \<Rightarrow> payload \<Rightarrow> string option
    \<Rightarrow> workflow_id \<Rightarrow> run_id \<Rightarrow> (timer_id \<times> timestamp) option \<Rightarrow> recorder \<Rightarrow> 's engine
    \<Rightarrow> (engine_error, workflow_handle) result \<times> 's engine" where
  "launch_recorded seams ops tops interfere cell loaded input namespace w run armed r en =
     (case upsert_workflow_visibility ops w run (interfere 2 en) of
        (Inl e, en1) \<Rightarrow> (Inl e, en1)
      | (Inr _, en1) \<Rightarrow>
          (case launch seams loaded input of
             Inl e \<Rightarrow> (Inl e, en1)
           | Inr pid \<Rightarrow>
               publish_and_arm seams tops interfere armed r
                 \<lparr>wh_workflow_id = w, wh_run_id = run, wh_pid = pid, wh_workflow_type = lw_workflow_type loaded,
                  wh_namespace = (case namespace of Some n \<Rightarrow> n | None \<Rightarrow> ''default''),
                  wh_cached_status = Running, wh_residency = Resident,
                  wh_recorder = cell, wh_completion = cell\<rparr> en1))"

definition start_workflow_with_options ::
  "start_seams \<Rightarrow> show_uuid \<Rightarrow> 'c calendar \<Rightarrow> 's event_store \<Rightarrow> 's timer_store \<Rightarrow> schema \<Rightarrow> 's interference \<Rightarrow> timestamp
    \<Rightarrow> workflow_id \<Rightarrow> run_id \<Rightarrow> nat \<Rightarrow> string \<Rightarrow> payload \<Rightarrow> start_options \<Rightarrow> 's engine
    \<Rightarrow> (engine_error, workflow_handle) result \<times> 's engine" where
  "start_workflow_with_options seams show_uuid cal ops tops sch interfere started_at new_workflow run cell ty input opts en =
     (case bind_res (case so_loaded_version opts of
              Some version \<Rightarrow> ss_resolve_exact seams ty version
            | None \<Rightarrow> ss_resolve_routed seams ty) (\<lambda>pinned. ok_or pinned (WorkflowTypeNotFound ty)) of
        Inl e \<Rightarrow> (Inl e, en)
      | Inr loaded \<Rightarrow>
          (let w = (case so_workflow_id opts of Some w \<Rightarrow> w | None \<Rightarrow> new_workflow)
           in case (if so_workflow_id opts \<noteq> None
                    then bind_res (map_err EngineStore (es_read_history ops w (en_store en))) (\<lambda>h. Inr (foldl max 0 (map seq h)))
                    else Inr 0) of
                Inl e \<Rightarrow> (Inl e, en)
              | Inr head \<Rightarrow>
                  (case record_start show_uuid cal ops sch interfere started_at w head
                          \<lparr>wsr_workflow_type = ty, wsr_input = input, wsr_run_id = run,
                           wsr_parent_run_id = so_parent_run_id opts, wsr_package_version = lw_version loaded\<rparr>
                          (so_search_attributes opts) (lw_declared_timeout loaded) en of
                     (Inl e, en1) \<Rightarrow> (Inl e, en1)
                   | (Inr (armed, r), en1) \<Rightarrow>
                       launch_recorded seams ops tops interfere cell loaded input (so_namespace opts) w run armed r en1)))"

section \<open>Lemmas\<close>

text \<open>The events of a start: the start itself, its attributes if there are any, and the deadline.\<close>

definition start_events :: "workflow_id \<Rightarrow> workflow_start_record \<Rightarrow> attributes \<Rightarrow> event list \<Rightarrow> bool" where
  "start_events w start attrs es \<longleftrightarrow>
     (\<exists>env env'. es = WorkflowStarted env (wsr_workflow_type start) (wsr_input start) (wsr_run_id start)
          (wsr_parent_run_id start) (wsr_package_version start)
        # (if attrs = [] then [] else [SearchAttributesUpdated env' w attrs]))"

fun deadline_events :: "(timer_id \<times> timestamp) option \<Rightarrow> event list \<Rightarrow> bool" where
  "deadline_events None es = (es = [])"
| "deadline_events (Some (t, at)) es = (\<exists>env. es = [TimerStarted env t at])"

lemma commit_keeps_workflow: "commit f n r s = (res, r', s') \<Longrightarrow> rc_workflow_id r' = rc_workflow_id r"
  by (auto simp: commit_def split: prod.splits sum.splits)

lemma start_keeps_workflow:
  "record_workflow_started_with_attributes ops at start attrs sch r s = (res, r', s') \<Longrightarrow> rc_workflow_id r' = rc_workflow_id r"
  by (auto simp: record_workflow_started_with_attributes_def record_workflow_started_def append_with_def append_one_def Let_def
      split: if_splits sum.splits prod.splits elim!: and_then.elims dest: commit_keeps_workflow)

context event_store_laws
begin

lemma started_with_attributes:
  assumes "store_inv s" and "record_workflow_started_with_attributes ops at start attrs sch r s = (res, r', s')"
    and "rc_workflow_id r = w"
  shows "store_inv s' \<and>
    (case res of
       Inl e \<Rightarrow> hist s' = hist s
     | Inr _ \<Rightarrow> \<exists>es. start_events w start attrs es \<and> hist s' = (hist s)(w := hist s w @ es))"
proof (cases "attrs = []")
  case True
  have op: "recording_op ops at (record_workflow_started ops at start)
     (\<lambda>w env. WorkflowStarted env (wsr_workflow_type start) (wsr_input start) (wsr_run_id start)
        (wsr_parent_run_id start) (wsr_package_version start))" by (rule recording_op.intros)
  have "record_workflow_started ops at start r s = (res, r', s')"
    using assms(2) True by (simp add: record_workflow_started_with_attributes_def)
  from recording_op_cases [OF op assms(1) this] assms(3) True show ?thesis
    by (auto simp: start_events_def split: sum.splits)
next
  case False
  with start_with_attributes_cases [OF assms(1) False assms(2)] assms(3) show ?thesis
    by (auto simp: start_events_def split: sum.splits)
qed

end

context timer_store_laws
begin

lemma declared_deadline:
  assumes "store_inv s" and "record_declared_deadline show_uuid cal ops run timeout at r s = (res, r', s')" and "rc_workflow_id r = w"
  shows "store_inv s' \<and>
    (case res of
       Inl e \<Rightarrow> hist s' = hist s
     | Inr armed \<Rightarrow> (\<exists>es. deadline_events armed es \<and> hist s' = (hist s)(w := hist s w @ es))
         \<and> (case timeout of None \<Rightarrow> armed = None
            | Some d \<Rightarrow> \<exists>t fire_at. armed = Some (t, fire_at) \<and> deadline_timer_id show_uuid run = Inr t
                \<and> deadline_fire_at cal at d = Inr fire_at))"
proof (cases timeout)
  case None
  with assms show ?thesis by (auto simp: record_declared_deadline_def)
next
  case (Some d)
  show ?thesis
  proof (cases "\<exists>t fire_at. deadline_timer_id show_uuid run = Inr t \<and> deadline_fire_at cal at d = Inr fire_at")
    case True
    then obtain t fire_at where t: "deadline_timer_id show_uuid run = Inr t" "deadline_fire_at cal at d = Inr fire_at" by blast
    have op: "recording_op ops at (record_timer_started ops at t fire_at) (\<lambda>w env. TimerStarted env t fire_at)"
      by (rule recording_op.intros)
    obtain res0 where rec: "record_timer_started ops at t fire_at r s = (res0, r', s')"
      and res: "res = (case res0 of Inl e \<Rightarrow> Inl (EngineDurability e) | Inr _ \<Rightarrow> Inr (Some (t, fire_at)))"
      using assms(2) Some t by (auto simp: record_declared_deadline_def split: prod.splits sum.splits)
    from recording_op_cases [OF op assms(1) rec] assms(3) res Some t show ?thesis by (cases res0) auto
  next
    case False
    with assms(1,2) Some show ?thesis
      by (cases "deadline_fire_at cal at d"; cases "deadline_timer_id show_uuid run") (auto simp: record_declared_deadline_def)
  qed
qed

lemma upsert_visibility_frame:
  assumes "store_inv (en_store en)" and "upsert_workflow_visibility ops w run en = (res, en')"
  shows "store_inv (en_store en') \<and> hist (en_store en') = hist (en_store en) \<and> en_registry en' = en_registry en
    \<and> en_wheel en' = en_wheel en \<and> en_recorders en' = en_recorders en"
proof -
  obtain res0 s' v where "en' = en \<or> es_record_visibility ops v (en_store en) = (res0, s') \<and> en' = en\<lparr>en_store := s'\<rparr>"
    using assms(2) by (auto simp: upsert_workflow_visibility_def Let_def case_prod_unfold split: sum.splits)
       (metis prod.collapse)
  with visibility_frame [OF assms(1)] assms(1) show ?thesis by fastforce
qed

lemma record_start_alone:
  assumes "store_inv (en_store en)"
    and "record_start show_uuid cal ops sch (\<lambda>_ x. x) at w head start attrs timeout en = (res, en')"
  shows "store_inv (en_store en') \<and> en_registry en' = en_registry en \<and> en_wheel en' = en_wheel en
    \<and> (case res of
         Inl e \<Rightarrow> hist (en_store en') = hist (en_store en)
           \<or> (\<exists>es. start_events w start attrs es \<and> hist (en_store en') = (hist (en_store en))(w := hist (en_store en) w @ es))
       | Inr (armed, r) \<Rightarrow> (\<exists>es ds. start_events w start attrs es \<and> deadline_events armed ds
             \<and> hist (en_store en') = (hist (en_store en))(w := hist (en_store en) w @ es @ ds))
           \<and> (case timeout of None \<Rightarrow> armed = None
              | Some d \<Rightarrow> \<exists>t fire_at. armed = Some (t, fire_at) \<and> deadline_timer_id show_uuid (wsr_run_id start) = Inr t
                  \<and> deadline_fire_at cal at d = Inr fire_at))"
proof -
  let ?r0 = "recorder_with_visibility (recorder_resume_at w head) (wsr_run_id start)"
  have w: "rc_workflow_id ?r0 = w" by (simp add: recorder_with_visibility_def recorder_resume_at_def)
  obtain res1 r1 s1 where 1: "record_workflow_started_with_attributes ops at start attrs sch ?r0 (en_store en) = (res1, r1, s1)"
    by (metis prod_cases3)
  note post1 = started_with_attributes [OF assms(1) 1 w]
  show ?thesis
  proof (cases res1)
    case (Inl e)
    with assms(2) 1 post1 show ?thesis by (auto simp: record_start_def)
  next
    case (Inr u)
    then obtain es where es: "store_inv s1" "start_events w start attrs es" "hist s1 = (hist (en_store en))(w := hist (en_store en) w @ es)"
      using post1 by auto
    have w1: "rc_workflow_id r1 = w" using start_keeps_workflow [OF 1] w by simp
    obtain res2 r2 s2 where 2: "record_declared_deadline show_uuid cal ops (wsr_run_id start) timeout at r1 s1 = (res2, r2, s2)"
      by (metis prod_cases3)
    note post2 = declared_deadline [OF es(1) 2 w1]
    have en': "en' = en\<lparr>en_store := s2\<rparr>" "res = (case res2 of Inl e \<Rightarrow> Inl e | Inr armed \<Rightarrow> Inr (armed, r2))"
      using assms(2) 1 2 Inr by (auto simp: record_start_def Let_def split: sum.splits)
    show ?thesis
      unfolding en' using post2 es(2,3) by (cases res2) (fastforce simp: append_assoc)+
  qed
qed

lemma retract_cases:
  "fail_started_run seams hnd en = en \<or> fail_started_run seams hnd en = retract_registry_publication hnd en"
  by (auto simp: fail_started_run_def defer_retraction_to_abort_job_def split: sum.splits abort_error.splits bool.splits)

text \<open>What publishing and arming does, on a workflow none of whose runs is registered.\<close>

lemma publish_alone:
  assumes "store_inv (en_store en)" and "publish_and_arm seams tops (\<lambda>_ x. x) armed r hnd en = (res, en')"
  shows "store_inv (en_store en') \<and> hist (en_store en') = hist (en_store en) \<and>
    (case res of
       Inl e \<Rightarrow> True
     | Inr h \<Rightarrow> h = hnd \<and> registry_get (wh_workflow_id hnd) (wh_run_id hnd) (en_registry en') = Some hnd
         \<and> live_run_pid (wh_workflow_id hnd) (en_registry en') = Some (wh_run_id hnd, wh_pid hnd)
         \<and> (\<forall>t at. armed = Some (t, at) \<longrightarrow> timer_row (en_store en') (wh_workflow_id hnd) t = Some at
             \<and> (wh_residency hnd = Resident \<and> (\<forall>g \<in> set (registry_list (en_registry en)). wh_workflow_id g \<noteq> wh_workflow_id hnd) \<longrightarrow>
                  map_of (en_wheel en') (wh_pid hnd, t) = Some at)))"
proof -
  let ?w = "wh_workflow_id hnd"
  let ?rg = "snd (registry_insert (?w, wh_run_id hnd) hnd (en_registry en))"
  let ?en1 = "en\<lparr>en_registry := ?rg, en_recorders := (en_recorders en)(wh_recorder hnd := r),
      en_completions := (en_completions en)(wh_completion hnd := None)\<rparr>"
  have get: "registry_get ?w (wh_run_id hnd) ?rg = Some hnd" "live_run_pid ?w ?rg = Some (wh_run_id hnd, wh_pid hnd)"
    by (simp_all add: registry_insert_def registry_get_def live_run_pid_def update_conv')
  show ?thesis
  proof (cases armed)
    case None
    with assms get retract_cases [of seams hnd ?en1] show ?thesis
      by (auto simp: publish_and_arm_def Let_def retract_registry_publication_def split: sum.splits)
  next
    case (Some a)
    obtain t at where a: "a = (t, at)" by fastforce
    have inv1: "store_inv (en_store ?en1)" using assms(1) by simp
    from schedule_cases [OF inv1, of ?w t at] obtain en2 where
      raw: "schedule tops ?w t at ?en1 = (Inr (), en2)" "store_inv (en_store en2)" "en_registry en2 = en_registry ?en1"
      "hist (en_store en2) = hist (en_store ?en1)"
      "timer_row (en_store en2) = (timer_row (en_store ?en1))(?w := (timer_row (en_store ?en1) ?w)(t \<mapsto> at))"
      and wheel: "map_of (en_wheel en2) = (case resolve_workflow ?w ?en1 of
          SeamResident pid \<Rightarrow> (map_of (en_wheel ?en1))((pid, t) \<mapsto> at) | _ \<Rightarrow> map_of (en_wheel ?en1))" by blast
    have 2: "schedule tops ?w t at ?en1 = (Inr (), en2)" "store_inv (en_store en2)" "en_registry en2 = ?rg"
      "hist (en_store en2) = hist (en_store en)" "timer_row (en_store en2) ?w t = Some at"
      using raw by simp_all
    have alone: "map_of (en_wheel en2) (wh_pid hnd, t) = Some at"
      if "wh_residency hnd = Resident" "\<forall>g \<in> set (registry_list (en_registry en)). wh_workflow_id g \<noteq> ?w"
    proof -
      have "find (\<lambda>g. wh_workflow_id g = ?w) (map snd (AList.update (?w, wh_run_id hnd) hnd al)) = Some hnd"
        if "\<forall>g \<in> set (map snd al). wh_workflow_id g \<noteq> ?w" for al
        using that by (induction al) auto
      from this [of "rg_handles (en_registry en)"] that have "resolve_workflow ?w ?en1 = SeamResident (wh_pid hnd)"
        by (simp add: resolve_workflow_def find_handle_def registry_list_def registry_insert_def)
      with wheel show ?thesis by simp
    qed
    have "en' = en2 \<and> res = Inr hnd \<or> (\<exists>e. res = Inl e \<and> (en' = fail_started_run seams hnd en2 \<or> en' = fail_started_run seams hnd ?en1))"
      using assms(2) Some a 2(1) by (auto simp: publish_and_arm_def arm_declared_deadline_def Let_def split: sum.splits)
    then show ?thesis
      using 2 get alone Some a retract_cases [of seams hnd en2] retract_cases [of seams hnd ?en1] assms(1)
      by (auto simp: retract_registry_publication_def)
  qed
qed

lemma launch_recorded_alone:
  assumes "store_inv (en_store en)"
    and "launch_recorded seams ops tops (\<lambda>_ x. x) cell loaded input namespace w run armed r en = (res, en')"
  shows "store_inv (en_store en') \<and> hist (en_store en') = hist (en_store en) \<and>
    (case res of
       Inl e \<Rightarrow> True
     | Inr hnd \<Rightarrow> wh_workflow_id hnd = w \<and> wh_run_id hnd = run \<and> wh_residency hnd = Resident
         \<and> registry_get w run (en_registry en') = Some hnd \<and> live_run_pid w (en_registry en') = Some (run, wh_pid hnd)
         \<and> (\<forall>t at. armed = Some (t, at) \<longrightarrow> timer_row (en_store en') w t = Some at
             \<and> ((\<forall>g \<in> set (registry_list (en_registry en)). wh_workflow_id g \<noteq> w) \<longrightarrow>
                  map_of (en_wheel en') (wh_pid hnd, t) = Some at)))"
proof -
  let ?hnd = "\<lambda>pid. \<lparr>wh_workflow_id = w, wh_run_id = run, wh_pid = pid, wh_workflow_type = lw_workflow_type loaded,
       wh_namespace = (case namespace of Some n \<Rightarrow> n | None \<Rightarrow> ''default''),
       wh_cached_status = Running, wh_residency = Resident, wh_recorder = cell, wh_completion = cell\<rparr>"
  obtain res1 en1 where 1: "upsert_workflow_visibility ops w run en = (res1, en1)" by fastforce
  note post1 = upsert_visibility_frame [OF assms(1) 1]
  show ?thesis
  proof (cases "\<exists>pid. res1 = Inr () \<and> launch seams loaded input = Inr pid")
    case False
    then have "(\<exists>e. res = Inl e) \<and> en' = en1"
      using assms(2) 1 by (cases res1; cases "launch seams loaded input") (auto simp: launch_recorded_def)
    with post1 show ?thesis by auto
  next
    case True
    then obtain pid where "res1 = Inr ()" "launch seams loaded input = Inr pid" by blast
    with assms(2) 1 have pub: "publish_and_arm seams tops (\<lambda>_ x. x) armed r (?hnd pid) en1 = (res, en')"
      by (simp add: launch_recorded_def)
    have inv1: "store_inv (en_store en1)" using post1 by blast
    from publish_alone [OF inv1 pub] post1 show ?thesis by (cases res) auto
  qed
qed

text \<open>A start that runs alone: everything it may leave behind.\<close>

lemma start_alone:
  assumes "store_inv (en_store en)"
    and "start_workflow_with_options seams show_uuid cal ops tops sch (\<lambda>_ x. x) at new_workflow run cell ty input opts en = (res, en')"
  defines "w \<equiv> (case so_workflow_id opts of Some w \<Rightarrow> w | None \<Rightarrow> new_workflow)"
    and "start \<equiv> \<lambda>v. \<lparr>wsr_workflow_type = ty, wsr_input = input, wsr_run_id = run,
           wsr_parent_run_id = so_parent_run_id opts, wsr_package_version = v\<rparr>"
  shows "store_inv (en_store en') \<and> (case res of
      Inl e \<Rightarrow> \<exists>es. hist (en_store en') = (hist (en_store en))(w := hist (en_store en) w @ es)
        \<and> (es = [] \<and> en_registry en' = en_registry en \<and> en_wheel en' = en_wheel en
          \<or> (\<exists>v armed ss ds. es = ss @ ds \<and> start_events w (start v) (so_search_attributes opts) ss \<and> deadline_events armed ds))
    | Inr hnd \<Rightarrow> \<exists>loaded armed ss ds.
        (case so_loaded_version opts of Some v \<Rightarrow> ss_resolve_exact seams ty v | None \<Rightarrow> ss_resolve_routed seams ty) = Inr (Some loaded)
      \<and> hist (en_store en') = (hist (en_store en))(w := hist (en_store en) w @ ss @ ds)
      \<and> start_events w (start (lw_version loaded)) (so_search_attributes opts) ss \<and> deadline_events armed ds
      \<and> (case lw_declared_timeout loaded of None \<Rightarrow> armed = None
         | Some d \<Rightarrow> \<exists>t fire_at. armed = Some (t, fire_at) \<and> deadline_timer_id show_uuid run = Inr t
             \<and> deadline_fire_at cal at d = Inr fire_at \<and> timer_row (en_store en') w t = Some fire_at
             \<and> ((\<forall>g \<in> set (registry_list (en_registry en)). wh_workflow_id g \<noteq> w) \<longrightarrow>
                  map_of (en_wheel en') (wh_pid hnd, t) = Some fire_at))
      \<and> wh_workflow_id hnd = w \<and> wh_run_id hnd = run \<and> wh_residency hnd = Resident
      \<and> registry_get w run (en_registry en') = Some hnd \<and> live_run_pid w (en_registry en') = Some (run, wh_pid hnd))"
proof -
  let ?resolved = "case so_loaded_version opts of Some v \<Rightarrow> ss_resolve_exact seams ty v | None \<Rightarrow> ss_resolve_routed seams ty"
  let ?head = "if so_workflow_id opts \<noteq> None then foldl max 0 (map seq (hist (en_store en) w)) else 0"
  have run_id: "wsr_run_id (start v) = run" for v by (simp add: start_def)
  have head: "(if so_workflow_id opts \<noteq> None
       then bind_res (map_err EngineStore (es_read_history ops w (en_store en))) (\<lambda>h. Inr (foldl max 0 (map seq h)))
       else Inr 0) = Inr ?head"
    by (simp add: read_back [OF assms(1)])
  show ?thesis
  proof (cases "\<exists>loaded. ?resolved = Inr (Some loaded)")
    case False
    then have "\<exists>e. (res, en') = (Inl e, en)"
      using assms(2) by (cases ?resolved) (auto simp: start_workflow_with_options_def split: option.splits)
    with assms(1) show ?thesis by (auto intro!: exI [of _ "[] :: event list"])
  next
    case True
    then obtain loaded where loaded: "?resolved = Inr (Some loaded)" by blast
    let ?start = "start (lw_version loaded)" and ?attrs = "so_search_attributes opts"
    obtain res1 en1 where
      1: "record_start show_uuid cal ops sch (\<lambda>_ x. x) at w ?head ?start ?attrs (lw_declared_timeout loaded) en = (res1, en1)"
      by fastforce
    note post1 = record_start_alone [OF assms(1) 1]
    have run: "(res, en') = (case res1 of Inl e \<Rightarrow> (Inl e, en1)
      | Inr (armed, r) \<Rightarrow> launch_recorded seams ops tops (\<lambda>_ x. x) cell loaded input (so_namespace opts) w run armed r en1)"
      using assms(2) unfolding start_workflow_with_options_def w_def [symmetric] loaded bind_res.simps ok_or.simps
        Let_def sum.case head 1 [unfolded start_def] by (cases res1) (auto simp: case_prod_unfold)
    show ?thesis
    proof (cases res1)
      case (Inl e)
      then have eq: "res = Inl e" "en' = en1" using run by simp_all
      from post1 Inl consider (same) "hist (en_store en1) = hist (en_store en)"
        | (started) es where "start_events w ?start ?attrs es" "hist (en_store en1) = (hist (en_store en))(w := hist (en_store en) w @ es)"
        by auto
      then show ?thesis
      proof cases
        case same
        with eq post1 show ?thesis by (auto intro!: exI [of _ "[] :: event list"])
      next
        case started
        then have "\<exists>v armed ss ds. es = ss @ ds \<and> start_events w (start v) ?attrs ss \<and> deadline_events armed ds"
          by (intro exI [of _ "lw_version loaded"] exI [of _ None] exI [of _ es] exI [of _ "[]"]) simp
        with started(2) eq post1 show ?thesis by auto
      qed
    next
      case (Inr x)
      obtain armed r where x: "x = (armed, r)" by fastforce
      from post1 Inr x obtain ss ds where evs: "start_events w ?start ?attrs ss" "deadline_events armed ds"
        "hist (en_store en1) = (hist (en_store en))(w := hist (en_store en) w @ ss @ ds)"
        and inv1: "store_inv (en_store en1)" "en_registry en1 = en_registry en" "en_wheel en1 = en_wheel en"
        and armed: "case lw_declared_timeout loaded of None \<Rightarrow> armed = None
              | Some d \<Rightarrow> \<exists>t fire_at. armed = Some (t, fire_at) \<and> deadline_timer_id show_uuid run = Inr t
                  \<and> deadline_fire_at cal at d = Inr fire_at" using run_id [of "lw_version loaded"] by (simp only: sum.case prod.case) blast
      have launched: "launch_recorded seams ops tops (\<lambda>_ x. x) cell loaded input (so_namespace opts) w run armed r en1 = (res, en')"
        using run Inr x by simp
      note post2 = launch_recorded_alone [OF inv1(1) launched]
      show ?thesis
      proof (cases res)
        case (Inl e)
        with post2 evs show ?thesis by auto
      next
        case (Inr h)
        then show ?thesis
          using post2 evs loaded armed inv1(2)
          by (intro conjI; simp) (intro exI [of _ loaded] exI [of _ armed] exI [of _ ss] exI [of _ ds], auto split: option.splits)
      qed
    qed
  qed
qed

end

section \<open>A start that cannot fail in the store\<close>

lemma max_seq_contiguous: "contiguous h \<Longrightarrow> foldl max 0 (map seq h) = of_nat (length h)"
proof (induction h rule: rev_induct)
  case (snoc e h)
  then have e: "unat (seq e) = Suc (length h)" and h: "foldl max 0 (map seq h) = of_nat (length h)" by simp_all
  have "seq e = of_nat (Suc (length h))" using e by (metis of_nat_unat ucast_id)
  moreover have "(of_nat (length h) :: u64) \<le> seq e"
    using e unsigned_less [of "seq e"] by (simp add: word_le_nat_alt unat_of_nat)
  ultimately show ?case using h by (simp add: max_absorb2)
qed simp

lemma start_recorder_in_step:
  assumes "contiguous (ls_hist s w)" and "length (ls_hist s w) + n < 2 ^ 64" and "0 < n"
  shows "in_step ls_hist (recorder_with_visibility (recorder_resume_at w (foldl max 0 (map seq (ls_hist s w)))) run) s
    \<and> current_head (recorder_with_visibility (recorder_resume_at w (foldl max 0 (map seq (ls_hist s w)))) run) \<noteq> - 1"
proof -
  have u: "unat (of_nat (length (ls_hist s w)) :: u64) = length (ls_hist s w)" using assms(2) by (simp add: of_nat_inverse)
  moreover have "(of_nat (length (ls_hist s w)) :: u64) \<noteq> - 1"
    using u assms(2,3) by (auto simp: unsigned_minus_1_eq_mask mask_eq_exp_minus_1 dest: arg_cong [where f = unat])
  ultimately show ?thesis
    by (simp add: max_seq_contiguous [OF assms(1)] in_step_def recorder_with_visibility_def recorder_resume_at_def
        current_head_def from_head_def)
qed

lemma record_start_succeeds:
  assumes "ls_inv (en_store en)" and "length (ls_hist (en_store en) w) + 2 < 2 ^ 64"
    and "case timeout of None \<Rightarrow> armed = None | Some d \<Rightarrow> \<exists>t fire_at. armed = Some (t, fire_at)
      \<and> deadline_timer_id show_uuid (wsr_run_id start) = Inr t \<and> deadline_fire_at cal at d = Inr fire_at"
  shows "\<exists>r en'. record_start show_uuid cal libsql_store sch (\<lambda>_ x. x) at w
    (foldl max 0 (map seq (ls_hist (en_store en) w))) start [] timeout en = (Inr (armed, r), en')"
proof -
  let ?r0 = "recorder_with_visibility (recorder_resume_at w (foldl max 0 (map seq (ls_hist (en_store en) w)))) (wsr_run_id start)"
  have "contiguous (ls_hist (en_store en) w)" using assms(1) by (simp add: ls_inv_def)
  note step = start_recorder_in_step [OF this assms(2), of "wsr_run_id start"]
  have w: "rc_workflow_id ?r0 = w" by (simp add: recorder_with_visibility_def recorder_resume_at_def)
  have op: "recording_op libsql_store at (record_workflow_started libsql_store at start)
     (\<lambda>w env. WorkflowStarted env (wsr_workflow_type start) (wsr_input start) (wsr_run_id start)
        (wsr_parent_run_id start) (wsr_package_version start))" by (rule recording_op.intros)
  from libsql.op_appends [OF op assms(1)] step obtain r1 s1 where
    1: "record_workflow_started libsql_store at start ?r0 (en_store en) = (Inr (), r1, s1)" "ls_inv s1" "in_step ls_hist r1 s1"
    "current_head r1 = current_head ?r0 + 1" by (fastforce simp: assms(2))
  show ?thesis
  proof (cases timeout)
    case None
    with 1(1) assms(3) show ?thesis
      by (simp add: record_start_def record_workflow_started_with_attributes_def record_declared_deadline_def)
  next
    case (Some d)
    then obtain t fire_at where t: "armed = Some (t, fire_at)" "deadline_timer_id show_uuid (wsr_run_id start) = Inr t"
      "deadline_fire_at cal at d = Inr fire_at" using assms(3) by auto
    have op2: "recording_op libsql_store at (record_timer_started libsql_store at t fire_at) (\<lambda>w env. TimerStarted env t fire_at)"
      by (rule recording_op.intros)
    have "unat (current_head ?r0) = length (ls_hist (en_store en) w)" using step w by (simp add: in_step_def)
    then have "unat (current_head r1) = Suc (length (ls_hist (en_store en) w))"
      using 1(4) step unat_head_Suc [of "current_head ?r0"] by simp
    then have "current_head r1 \<noteq> - 1"
      using assms(2) by (auto simp: unsigned_minus_1_eq_mask mask_eq_exp_minus_1)
    from libsql.op_appends [OF op2 1(2,3) this] obtain r2 s2 where
      "record_timer_started libsql_store at t fire_at r1 s1 = (Inr (), r2, s2)" by blast
    with 1(1) Some t show ?thesis
      by (simp add: record_start_def record_workflow_started_with_attributes_def record_declared_deadline_def)
  qed
qed

lemma es_record_visibility_libsql:
  "es_record_visibility libsql_store v s = (Inr (), s\<lparr>ls_visibility := AList.update (vr_workflow_id v) v (ls_visibility s)\<rparr>)"
  by (simp add: libsql_store_def ls_record_visibility_def)

text \<open>A successful start is a successful recording followed by a successful launch.\<close>

lemma start_success:
  assumes "start_workflow_with_options seams show_uuid cal ops tops sch interfere at new_workflow run cell ty input opts en = (Inr hnd, en')"
  shows "\<exists>loaded head armed r en1 start timeout.
      record_start show_uuid cal ops sch interfere at (case so_workflow_id opts of Some w \<Rightarrow> w | None \<Rightarrow> new_workflow) head
        start (so_search_attributes opts) timeout en = (Inr (armed, r), en1)
    \<and> launch_recorded seams ops tops interfere cell loaded input (so_namespace opts)
        (case so_workflow_id opts of Some w \<Rightarrow> w | None \<Rightarrow> new_workflow) run armed r en1 = (Inr hnd, en')"
  using assms unfolding start_workflow_with_options_def Let_def by (auto split: sum.splits prod.splits) blast

lemma schedule_inert:
  assumes "find_handle w (en_registry en) = Some old" and "wh_residency old = Suspended" and "schedule tops w t at en = (res, en')"
  shows "en_wheel en' = en_wheel en \<and> en_registry en' = en_registry en"
  using assms by (auto simp: schedule_def resolve_workflow_def Let_def split: prod.splits sum.splits)

lemma find_handle_insert:
  assumes "find_handle w rg = Some old" and "map_of (rg_handles rg) (w, run) = None"
  shows "find_handle w (snd (registry_insert (w, run) hnd rg)) = Some old"
proof -
  have "find p (map snd (AList.update k v al)) = Some old" if "find p (map snd al) = Some old" "map_of al k = None"
    for p :: "workflow_handle \<Rightarrow> bool" and k :: "workflow_id \<times> run_id" and v al
    using that by (induction al) (auto split: if_splits)
  with assms show ?thesis by (simp add: find_handle_def registry_list_def registry_insert_def)
qed

lemma launch_inert:
  assumes "find_handle w (en_registry en) = Some old" and "wh_residency old = Suspended"
    and "map_of (rg_handles (en_registry en)) (w, run) = None"
    and "launch_recorded seams ops tops (\<lambda>_ x. x) cell loaded input namespace w run armed r en = (Inr hnd, en')"
  shows "en_wheel en' = en_wheel en"
proof -
  obtain en1 pid where 1: "upsert_workflow_visibility ops w run en = (Inr (), en1)"
    and pub: "publish_and_arm seams tops (\<lambda>_ x. x) armed r \<lparr>wh_workflow_id = w, wh_run_id = run, wh_pid = pid,
        wh_workflow_type = lw_workflow_type loaded, wh_namespace = (case namespace of Some n \<Rightarrow> n | None \<Rightarrow> ''default''),
        wh_cached_status = Running, wh_residency = Resident, wh_recorder = cell, wh_completion = cell\<rparr> en1 = (Inr hnd, en')"
    using assms(4) by (auto simp: launch_recorded_def split: prod.splits sum.splits)
  have en1: "en_registry en1 = en_registry en" "en_wheel en1 = en_wheel en"
    using 1 by (auto simp: upsert_workflow_visibility_def Let_def split: prod.splits sum.splits)
  show ?thesis
  proof (cases armed)
    case None
    with pub en1 show ?thesis by (auto simp: publish_and_arm_def Let_def split: sum.splits)
  next
    case (Some a)
    obtain t at where a: "a = (t, at)" by fastforce
    let ?en = "en1\<lparr>en_registry := snd (registry_insert (w, run) \<lparr>wh_workflow_id = w, wh_run_id = run, wh_pid = pid,
        wh_workflow_type = lw_workflow_type loaded, wh_namespace = (case namespace of Some n \<Rightarrow> n | None \<Rightarrow> ''default''),
        wh_cached_status = Running, wh_residency = Resident, wh_recorder = cell, wh_completion = cell\<rparr> (en_registry en1)),
        en_recorders := (en_recorders en1)(cell := r), en_completions := (en_completions en1)(cell := None)\<rparr>"
    have f: "find_handle w (en_registry ?en) = Some old"
      using find_handle_insert [OF assms(1,3)] en1(1) by simp
    obtain res2 en2 where 2: "schedule tops w t at ?en = (res2, en2)" by fastforce
    have "en' = en2" using pub Some a 2
      by (auto simp: publish_and_arm_def arm_declared_deadline_def Let_def split: sum.splits)
    with schedule_inert [OF f assms(2) 2] en1(2) show ?thesis by simp
  qed
qed

lemma launch_recorded_succeeds:
  assumes "ls_inv (en_store en)" and "\<exists>e \<in> set (ls_hist (en_store en) w). is_WorkflowStarted e"
    and "launch seams loaded input = Inr pid" and "ss_monitor_process seams pid = Inr ()" and "ss_timer_service seams = Inr ()"
  shows "\<exists>hnd en'. launch_recorded seams libsql_store (libsql_timers show_uuid show_timer) (\<lambda>_ x. x) cell loaded input namespace w run armed r en
    = (Inr hnd, en') \<and> wh_pid hnd = pid"
proof -
  have "find_map start_projection (ls_hist (en_store en) w) \<noteq> None"
    using assms(2) by (auto simp: find_map_None_iff elim!: bexI [rotated]) (case_tac e; simp)
  then have "\<exists>en1. upsert_workflow_visibility libsql_store w run en = (Inr (), en1)"
    by (auto simp: upsert_workflow_visibility_def libsql.read_back [OF assms(1)] lifecycle_visibility_record_def
        visibility_record_from_history_def es_record_visibility_libsql Let_def case_prod_unfold)
  then obtain en1 where 1: "upsert_workflow_visibility libsql_store w run en = (Inr (), en1)" by blast
  have inv1: "ls_inv (en_store en1)" using libsql_timer.upsert_visibility_frame [OF assms(1) 1] by simp
  have sched: "\<exists>en2. schedule (libsql_timers show_uuid show_timer) v t at en0 = (Inr (), en2)"
    if "ls_inv (en_store en0)" for v t at and en0 :: "libsql_state engine"
    using libsql_timer.schedule_cases [OF that, of show_uuid show_timer v t at] by blast
  show ?thesis
  proof (cases armed)
    case None
    with 1 assms(3-5) show ?thesis by (simp add: launch_recorded_def publish_and_arm_def Let_def)
  next
    case (Some a)
    obtain t at where a: "a = (t, at)" by fastforce
    let ?en = "en1\<lparr>en_registry := snd (registry_insert (w, run) \<lparr>wh_workflow_id = w, wh_run_id = run, wh_pid = pid,
        wh_workflow_type = lw_workflow_type loaded, wh_namespace = (case namespace of Some n \<Rightarrow> n | None \<Rightarrow> ''default''),
        wh_cached_status = Running, wh_residency = Resident, wh_recorder = cell, wh_completion = cell\<rparr> (en_registry en1)),
        en_recorders := (en_recorders en1)(cell := r), en_completions := (en_completions en1)(cell := None)\<rparr>"
    from sched [of ?en w t at] inv1 obtain en2 where
      "schedule (libsql_timers show_uuid show_timer) w t at ?en = (Inr (), en2)" by auto
    with 1 assms(3-5) Some a show ?thesis
      by (simp add: launch_recorded_def publish_and_arm_def arm_declared_deadline_def Let_def)
  qed
qed

section \<open>Properties\<close>


text \<open>C38: the deadline of a replacement run is not armed while the handle of its predecessor is still registered
  and suspended, as the exit handler leaves it, when the registry lists that handle first: the start
  succeeds, the deadline is recorded and durable, and the wheel is as it was.\<close>

theorem replacement_deadline_inert:
  assumes "ls_inv (en_store en)" and "find_handle w (en_registry en) = Some old" and "wh_residency old = Suspended"
    and "map_of (rg_handles (en_registry en)) (w, run) = None" and "so_workflow_id opts = Some w"
    and "start_workflow_with_options seams show_uuid cal libsql_store (libsql_timers su st) sch (\<lambda>_ x. x) at new_workflow run cell ty
           input opts en = (Inr hnd, en')"
  shows "en_wheel en' = en_wheel en \<and> registry_get w run (en_registry en') = Some hnd"
proof -
  from start_success [OF assms(6)] assms(5) obtain loaded head armed r en1 start timeout where
    1: "record_start show_uuid cal libsql_store sch (\<lambda>_ x. x) at w head start (so_search_attributes opts) timeout en = (Inr (armed, r), en1)"
    and 2: "launch_recorded seams libsql_store (libsql_timers su st) (\<lambda>_ x. x) cell loaded input (so_namespace opts) w run armed r en1 = (Inr hnd, en')"
    by auto
  have en1: "ls_inv (en_store en1)" "en_registry en1 = en_registry en" "en_wheel en1 = en_wheel en"
    using libsql_timer.record_start_alone [OF assms(1) 1] by simp_all
  have "en_wheel en' = en_wheel en1" by (rule launch_inert [OF _ assms(3) _ 2]) (simp_all add: en1 assms(2,4))
  moreover have "registry_get w run (en_registry en') = Some hnd"
    using libsql_timer.launch_recorded_alone [OF en1(1) 2] by simp
  ultimately show ?thesis using en1(3) by simp
qed

section \<open>Witnesses\<close>

abbreviation s_loaded :: loaded_workflow where
  "s_loaded \<equiv> \<lparr>lw_workflow_type = ''order'', lw_version = PackageVersion ''v1'', lw_declared_timeout = Some 50\<rparr>"

definition s_start_seams :: start_seams where
  "s_start_seams = \<lparr>ss_resolve_exact = (\<lambda>_ _. Inr None), ss_resolve_routed = (\<lambda>_. Inr (Some s_loaded)),
     ss_ensure_type_supervisor = (\<lambda>_. Inr ()), ss_runtime_input = (\<lambda>_. Inr ()), ss_spawn_workflow = (\<lambda>_ _. Inr 90),
     ss_place_workflow = (\<lambda>_ _. Inr ()), ss_abort_unmonitored = (\<lambda>_. Inr ()), ss_attach_finalizer = (\<lambda>_. Inr False),
     ss_monitor_process = (\<lambda>_. Inr ()), ss_timer_service = Inr ()\<rparr>"

abbreviation s_options :: start_options where
  "s_options \<equiv> \<lparr>so_workflow_id = Some s_workflow, so_parent_run_id = Some s_run, so_loaded_version = None,
     so_search_attributes = [], so_namespace = None\<rparr>"

lemma s_start_ok:
  assumes "ls_inv (en_store en)" and "length (ls_hist (en_store en) s_workflow) + 2 < 2 ^ 64"
  shows "\<exists>hnd en'. start_workflow_with_options s_start_seams decimal_uuid s_calendar libsql_store (libsql_timers decimal_uuid st) []
      (\<lambda>_ x. x) 100 new_workflow run cell ''order'' s_payload (s_options\<lparr>so_namespace := ns\<rparr>) en = (Inr hnd, en') \<and> wh_pid hnd = 90"
proof -
  let ?start = "\<lparr>wsr_workflow_type = ''order'', wsr_input = s_payload, wsr_run_id = run,
      wsr_parent_run_id = Some s_run, wsr_package_version = PackageVersion ''v1''\<rparr>"
  let ?armed = "Some (Named (''deadline:'' @ decimal_uuid (run_uuid run)), 150)"
  have dl: "case Some 50 of None \<Rightarrow> ?armed = None | Some d \<Rightarrow> \<exists>t fire_at. ?armed = Some (t, fire_at)
      \<and> deadline_timer_id decimal_uuid (wsr_run_id ?start) = Inr t \<and> deadline_fire_at s_calendar 100 d = Inr fire_at"
    by (simp add: deadline_timer_id_def timer_named_def DEADLINE_TIMER_PREFIX_def deadline_fire_at_def s_calendar_def)
  from record_start_succeeds [where start = ?start and timeout = "Some 50" and armed = ?armed, OF assms dl, of "[]"] obtain r en1 where
    1: "record_start decimal_uuid s_calendar libsql_store [] (\<lambda>_ x. x) 100 s_workflow
      (foldl max 0 (map seq (ls_hist (en_store en) s_workflow))) ?start [] (Some 50) en = (Inr (?armed, r), en1)" by blast
  from libsql_timer.record_start_alone [OF assms(1) 1] have inv1: "ls_inv (en_store en1)"
    and "\<exists>e \<in> set (ls_hist (en_store en1) s_workflow). is_WorkflowStarted e"
    by (auto simp: start_events_def dest!: fun_cong [where x = s_workflow])
  moreover have "launch s_start_seams s_loaded s_payload = Inr 90" by (simp add: launch_def s_start_seams_def)
  ultimately obtain hnd en' where
    "launch_recorded s_start_seams libsql_store (libsql_timers decimal_uuid st) (\<lambda>_ x. x) cell s_loaded s_payload ns s_workflow run ?armed r en1
      = (Inr hnd, en')" "wh_pid hnd = 90"
    using launch_recorded_succeeds [OF inv1, of s_workflow s_start_seams s_loaded s_payload 90 decimal_uuid st cell ns run ?armed r]
    by (auto simp: s_start_seams_def)
  moreover have "ss_resolve_routed s_start_seams ''order'' = Inr (Some s_loaded)" by (simp add: s_start_seams_def)
  ultimately show ?thesis
    using 1 by (simp add: start_workflow_with_options_def Let_def libsql.read_back [OF assms(1)])
qed


theorem replacement_deadline_inert_witness:
  "let old = s_handle\<lparr>wh_residency := Suspended\<rparr>;
       en = (s_engine [s_started 1, WorkflowContinuedAsNew (s_env 2) s_payload None s_run])
              \<lparr>en_registry := \<lparr>rg_handles = [((s_workflow, s_run), old)], rg_index = [(s_workflow, s_run, 40)]\<rparr>\<rparr>
   in \<exists>hnd en'. start_workflow_with_options s_start_seams decimal_uuid s_calendar libsql_store (libsql_timers decimal_uuid (\<lambda>_. [])) []
      (\<lambda>_ x. x) 100 s_workflow (RunId 2) 1 ''order'' s_payload s_options en = (Inr hnd, en') \<and> en_wheel en' = []"
proof -
  let ?old = "s_handle\<lparr>wh_residency := Suspended\<rparr>"
  let ?h = "[s_started 1, WorkflowContinuedAsNew (s_env 2) s_payload None s_run]"
  let ?e = "(s_engine ?h)\<lparr>en_registry := \<lparr>rg_handles = [((s_workflow, s_run), ?old)], rg_index = [(s_workflow, s_run, 40)]\<rparr>\<rparr>"
  have inv: "ls_inv (en_store ?e)" by (simp add: s_database_inv seq_def)
  from s_start_ok [OF inv, of "\<lambda>_. []" s_workflow "RunId 2" 1 None] obtain hnd en' where
    1: "start_workflow_with_options s_start_seams decimal_uuid s_calendar libsql_store (libsql_timers decimal_uuid (\<lambda>_. [])) []
      (\<lambda>_ x. x) 100 s_workflow (RunId 2) 1 ''order'' s_payload s_options ?e = (Inr hnd, en')"
    by (auto simp: s_database_rows)
  have "find_handle s_workflow (en_registry ?e) = Some ?old"
    by (simp add: find_handle_def registry_list_def s_handle_def s_handle_for_def)
  from replacement_deadline_inert [OF inv this _ _ _ 1] have "en_wheel en' = en_wheel ?e" by simp
  with 1 show ?thesis by (auto simp: Let_def s_engine_def)
qed

end
