(* ===== verification/Terminal.thy ===== *)
theory Terminal
  imports Start
begin

text \<open>
  The end of a run: \<^verbatim>\<open>crates/aion/src/lifecycle/terminate.rs\<close> (complete, fail, cancel), \<^verbatim>\<open>completion.rs\<close> (the exit of
  a process), \<^verbatim>\<open>continue_as_new.rs\<close> with \<^verbatim>\<open>runtime/nif_continue_as_new.rs\<close>, and \<^verbatim>\<open>deadline.rs\<close> (a run whose deadline has
  elapsed).

  Every terminal is recorded by a section that holds the lock of the run's recorder: it reads the history,
  checks it, appends, and retires the run's deadline.  A section is one step; \<open>interfere n\<close> is what other
  tasks do before the \<open>n\<close>-th section or await of an operation.  Whether the runtime cancels a process is
  the argument \<open>cancel_pid\<close>; the messages of engine errors are rendered by \<open>show_error\<close>.

  In the step relation another recorder appends one event at a time, a recorder taken up anew belongs to the
  run started last, and the failure that recovery records for a run it cannot replay (\<^verbatim>\<open>durability/recovery.rs\<close>) is
  left out.

  The lemmas show that however these sections and every other append interleave, a lease of a run gets at
  most one terminal, and that an interrupted teardown of a timed-out run can be resumed.
\<close>

section \<open>The locked section of a terminal transition\<close>

definition put_recorder :: "nat \<Rightarrow> recorder \<Rightarrow> 's \<Rightarrow> 's engine \<Rightarrow> 's engine" where
  "put_recorder cell r s en = en\<lparr>en_store := s, en_recorders := (en_recorders en)(cell := r)\<rparr>"

definition terminal_section ::
  "parse_uuid \<Rightarrow> 's event_store \<Rightarrow> timestamp \<Rightarrow> (history \<Rightarrow> (engine_error, unit) result)
    \<Rightarrow> (recorder \<Rightarrow> 's \<Rightarrow> (unit, 's) recorded) \<Rightarrow> workflow_id \<Rightarrow> run_id \<Rightarrow> nat \<Rightarrow> 's engine
    \<Rightarrow> (engine_error, unit) result \<times> 's engine" where
  "terminal_section parse_uuid ops now check record_terminal w run cell en =
     (case es_read_history ops w (en_store en) of
        Inl e \<Rightarrow> (Inl (EngineStore e), en)
      | Inr h \<Rightarrow>
          (case check h of
             Inl e \<Rightarrow> (Inl e, en)
           | Inr _ \<Rightarrow>
               (let (res, r, s) = and_then (record_terminal (en_recorders en cell) (en_store en))
                                    (\<lambda>_. retire_run_deadline parse_uuid ops now h run)
                in (map_err EngineDurability res, put_recorder cell r s en))))"

definition reject_if_recorded_terminal :: "workflow_id \<Rightarrow> run_id \<Rightarrow> history \<Rightarrow> (engine_error, unit) result" where
  "reject_if_recorded_terminal w run h =
     (if terminal_outcome_from_history h run \<noteq> None then Inl (TerminalAlreadyRecorded w run) else Inr ())"

definition registered_handle :: "workflow_id \<Rightarrow> run_id \<Rightarrow> 's engine \<Rightarrow> (engine_error, workflow_handle) result" where
  "registered_handle w run en = ok_or (registry_get w run (en_registry en)) (WorkflowNotFound w run)"

definition notify :: "nat \<Rightarrow> terminal_outcome \<Rightarrow> 's engine \<Rightarrow> 's engine" where
  "notify cell outcome en = en\<lparr>en_completions := (en_completions en)(cell := Some outcome)\<rparr>"

definition kill :: "(u64 \<Rightarrow> (string, unit) result) \<Rightarrow> u64 \<Rightarrow> 's engine \<Rightarrow> 's engine" where
  "kill cancel_pid pid en =
     (case cancel_pid pid of Inr _ \<Rightarrow> en\<lparr>en_cancelled := en_cancelled en @ [pid]\<rparr> | Inl _ \<Rightarrow> en)"

definition deregister :: "workflow_id \<Rightarrow> run_id \<Rightarrow> 's engine \<Rightarrow> 's engine" where
  "deregister w run en = en\<lparr>en_registry := snd (registry_remove w run (en_registry en))\<rparr>"

section \<open>Complete, fail, cancel\<close>

text \<open>The end all three share: refresh the projection, ring the doorbell, deregister.\<close>

definition finish_terminal ::
  "'s event_store \<Rightarrow> workflow_id \<Rightarrow> run_id \<Rightarrow> workflow_handle \<Rightarrow> terminal_outcome \<Rightarrow> 's engine
    \<Rightarrow> (engine_error, unit) result \<times> 's engine" where
  "finish_terminal ops w run hnd outcome en =
     (case upsert_workflow_visibility ops w run en of
        (Inl e, en1) \<Rightarrow> (Inl e, en1)
      | (Inr _, en1) \<Rightarrow> (Inr (), deregister w run (notify (wh_completion hnd) outcome en1)))"

definition complete ::
  "parse_uuid \<Rightarrow> 's event_store \<Rightarrow> 's interference \<Rightarrow> timestamp \<Rightarrow> workflow_id \<Rightarrow> run_id \<Rightarrow> payload \<Rightarrow> 's engine
    \<Rightarrow> (engine_error, unit) result \<times> 's engine" where
  "complete parse_uuid ops interfere now w run result en =
     (case registered_handle w run en of
        Inl e \<Rightarrow> (Inl e, en)
      | Inr hnd \<Rightarrow>
          (case terminal_section parse_uuid ops now (reject_if_recorded_terminal w run)
                  (record_workflow_completed ops now result) w run (wh_recorder hnd) (interfere 0 en) of
             (Inl e, en1) \<Rightarrow> (Inl e, en1)
           | (Inr _, en1) \<Rightarrow> finish_terminal ops w run hnd (OutcomeCompleted result) (interfere 1 en1)))"

definition fail ::
  "parse_uuid \<Rightarrow> 's event_store \<Rightarrow> 's interference \<Rightarrow> timestamp \<Rightarrow> workflow_id \<Rightarrow> run_id \<Rightarrow> workflow_error \<Rightarrow> 's engine
    \<Rightarrow> (engine_error, unit) result \<times> 's engine" where
  "fail parse_uuid ops interfere now w run err en =
     (case registered_handle w run en of
        Inl e \<Rightarrow> (Inl e, en)
      | Inr hnd \<Rightarrow>
          (case terminal_section parse_uuid ops now (reject_if_recorded_terminal w run)
                  (record_workflow_failed ops now err) w run (wh_recorder hnd) (interfere 0 en) of
             (Inl e, en1) \<Rightarrow> (Inl e, en1)
           | (Inr _, en1) \<Rightarrow> finish_terminal ops w run hnd (OutcomeFailed err) (interfere 1 en1)))"

definition cancel ::
  "parse_uuid \<Rightarrow> (u64 \<Rightarrow> (string, unit) result) \<Rightarrow> 's event_store \<Rightarrow> 's interference \<Rightarrow> timestamp \<Rightarrow> workflow_id \<Rightarrow> run_id
    \<Rightarrow> string \<Rightarrow> 's engine \<Rightarrow> (engine_error, unit) result \<times> 's engine" where
  "cancel parse_uuid cancel_pid ops interfere now w run reason en =
     (case registered_handle w run en of
        Inl e \<Rightarrow> (Inl e, en)
      | Inr hnd \<Rightarrow>
          (case terminal_section parse_uuid ops now (reject_if_recorded_terminal w run)
                  (record_workflow_cancelled ops now reason) w run (wh_recorder hnd) (interfere 0 en) of
             (Inl e, en1) \<Rightarrow> (Inl e, en1)
           | (Inr _, en1) \<Rightarrow>
               finish_terminal ops w run hnd (OutcomeCancelled reason) (interfere 1 (kill cancel_pid (wh_pid hnd) en1))))"

section \<open>Continue as new\<close>

fun pending_step :: "activity_id list \<times> workflow_id list \<Rightarrow> event \<Rightarrow> activity_id list \<times> workflow_id list" where
  "pending_step (acts, children) (ActivityScheduled _ a _ _ _ _) = (List.insert a acts, children)"
| "pending_step (acts, children) (ActivityStarted _ a _) = (List.insert a acts, children)"
| "pending_step (acts, children) (ActivityCompleted _ a _ _) = (removeAll a acts, children)"
| "pending_step (acts, children) (ActivityFailed _ a _ _) = (removeAll a acts, children)"
| "pending_step (acts, children) (ActivityCancelled _ a _) = (removeAll a acts, children)"
| "pending_step (acts, children) (ChildWorkflowStarted _ c _ _ _) = (acts, List.insert c children)"
| "pending_step (acts, children) (ChildWorkflowCompleted _ c _) = (acts, removeAll c children)"
| "pending_step (acts, children) (ChildWorkflowFailed _ c _) = (acts, removeAll c children)"
| "pending_step (acts, children) (ChildWorkflowCancelled _ c) = (acts, removeAll c children)"
| "pending_step pending _ = pending"

definition guard_no_pending_work :: "history \<Rightarrow> (engine_error, unit) result" where
  "guard_no_pending_work h =
     (let (acts, children) = foldl pending_step ([], []) h
      in if acts = [] \<and> children = [] then Inr () else Inl (PendingWork acts children))"

text \<open>Starting the replacement is \<open>start\<close>, a call of \<^verbatim>\<open>start_workflow_with_options\<close>.\<close>

type_synonym 's starter =
  "string \<Rightarrow> payload \<Rightarrow> start_options \<Rightarrow> 's engine \<Rightarrow> (engine_error, workflow_handle) result \<times> 's engine"

definition replacement_options :: "workflow_handle \<Rightarrow> workflow_id \<Rightarrow> run_id \<Rightarrow> start_options" where
  "replacement_options hnd w parent =
     \<lparr>so_workflow_id = Some w, so_parent_run_id = Some parent, so_loaded_version = None,
      so_search_attributes = [], so_namespace = Some (wh_namespace hnd)\<rparr>"

definition continue_as_new ::
  "parse_uuid \<Rightarrow> 's event_store \<Rightarrow> (string \<Rightarrow> (engine_error, bool) result) \<Rightarrow> 's starter \<Rightarrow> 's interference \<Rightarrow> timestamp
    \<Rightarrow> workflow_id \<Rightarrow> run_id \<Rightarrow> payload \<Rightarrow> string option \<Rightarrow> 's engine
    \<Rightarrow> (engine_error, workflow_handle) result \<times> 's engine" where
  "continue_as_new parse_uuid ops routed start interfere now w run input requested en =
     (case registered_handle w run en of
        Inl e \<Rightarrow> (Inl e, en)
      | Inr hnd \<Rightarrow>
          (let ty = (case requested of Some ty \<Rightarrow> ty | None \<Rightarrow> wh_workflow_type hnd)
           in if ty \<noteq> wh_workflow_type hnd then (Inl (ContinueAsNewTypeMismatch (wh_workflow_type hnd) ty), en)
              else
                (case bind_res (routed ty) (\<lambda>found. if found then Inr () else Inl (WorkflowTypeNotFound ty)) of
                   Inl e \<Rightarrow> (Inl e, en)
                 | Inr _ \<Rightarrow>
                     (case terminal_section parse_uuid ops now
                             (\<lambda>h. bind_res (reject_if_recorded_terminal w run h) (\<lambda>_. guard_no_pending_work h))
                             (record_workflow_continued_as_new ops now input requested run) w run
                             (wh_recorder hnd) (interfere 0 en) of
                        (Inl e, en1) \<Rightarrow> (Inl e, en1)
                      | (Inr _, en1) \<Rightarrow>
                          (case start ty input (replacement_options hnd w run) (interfere 1 en1) of
                             (Inl e, en2) \<Rightarrow> (Inl e, en2)
                           | (Inr new_handle, en2) \<Rightarrow>
                               (Inr new_handle,
                                deregister w run (notify (wh_completion hnd) (OutcomeContinuedAsNew input requested run) en2)))))))"

text \<open>The request from inside the workflow: no pending-work guard, and the process is cancelled.\<close>

definition nif_continue_as_new ::
  "parse_uuid \<Rightarrow> (u64 \<Rightarrow> (string, unit) result) \<Rightarrow> 's event_store \<Rightarrow> 's interference \<Rightarrow> timestamp \<Rightarrow> workflow_handle \<Rightarrow> payload
    \<Rightarrow> 's engine \<Rightarrow> (engine_error, unit) result \<times> 's engine" where
  "nif_continue_as_new parse_uuid cancel_pid ops interfere now hnd input en =
     (let w = wh_workflow_id hnd; run = wh_run_id hnd
      in case terminal_section parse_uuid ops now (reject_if_recorded_terminal w run)
                (record_workflow_continued_as_new ops now input None run) w run (wh_recorder hnd) (interfere 0 en) of
           (Inl e, en1) \<Rightarrow> (Inl e, en1)
         | (Inr _, en1) \<Rightarrow>
             (case cancel_pid (wh_pid hnd) of
                Inl reason \<Rightarrow> (Inl (EngineRuntime reason), en1)
              | Inr _ \<Rightarrow> (Inr (), kill cancel_pid (wh_pid hnd) en1)))"

section \<open>The exit of a process\<close>

datatype process_outcome = ProcessCompleted payload | ProcessFailed workflow_error

definition record_exit ::
  "(engine_error \<Rightarrow> string) \<Rightarrow> 's event_store \<Rightarrow> timestamp \<Rightarrow> (engine_error, process_outcome) result
    \<Rightarrow> terminal_outcome \<times> (recorder \<Rightarrow> 's \<Rightarrow> (unit, 's) recorded)" where
  "record_exit show_error ops now outcome =
     (case outcome of
        Inr (ProcessCompleted result) \<Rightarrow> (OutcomeCompleted result, record_workflow_completed ops now result)
      | Inr (ProcessFailed err) \<Rightarrow> (OutcomeFailed err, record_workflow_failed ops now err)
      | Inl e \<Rightarrow>
          (let err = \<lparr>we_message = ''workflow process monitor failed: '' @ show_error e, we_details = None\<rparr>
           in (OutcomeFailed err, record_workflow_failed ops now err)))"

fun is_timed_out :: "terminal_outcome \<Rightarrow> bool" where
  "is_timed_out (OutcomeTimedOut _) = True"
| "is_timed_out _ = False"

text \<open>\<open>Inl\<close> a terminal that was there already, \<open>Inr\<close> the one this section recorded.\<close>

definition exit_section ::
  "parse_uuid \<Rightarrow> (engine_error \<Rightarrow> string) \<Rightarrow> 's event_store \<Rightarrow> timestamp \<Rightarrow> workflow_handle
    \<Rightarrow> (engine_error, process_outcome) result \<Rightarrow> 's engine
    \<Rightarrow> (engine_error, terminal_outcome + terminal_outcome) result \<times> 's engine" where
  "exit_section parse_uuid show_error ops now hnd outcome en =
     (let w = wh_workflow_id hnd; run = wh_run_id hnd; cell = wh_recorder hnd
      in case es_read_history ops w (en_store en) of
           Inl e \<Rightarrow> (Inl (EngineStore e), en)
         | Inr h \<Rightarrow>
             (case terminal_outcome_from_history h run of
                Some existing \<Rightarrow>
                  (if is_timed_out existing then (Inr (Inl existing), en)
                   else
                     (let (res, r, s) = retire_run_deadline parse_uuid ops now h run (en_recorders en cell) (en_store en)
                      in (bind_res (map_err EngineDurability res) (\<lambda>_. Inr (Inl existing)), put_recorder cell r s en)))
              | None \<Rightarrow>
                  (let (terminal, record_terminal) = record_exit show_error ops now outcome;
                       (res, r, s) = and_then (record_terminal (en_recorders en cell) (en_store en))
                                       (\<lambda>_. retire_run_deadline parse_uuid ops now h run)
                   in (bind_res (map_err EngineDurability res) (\<lambda>_. Inr (Inr terminal)), put_recorder cell r s en))))"

definition reconcile_terminal_registry ::
  "'s event_store \<Rightarrow> workflow_id \<Rightarrow> run_id \<Rightarrow> 's engine \<Rightarrow> (engine_error, unit) result \<times> 's engine" where
  "reconcile_terminal_registry ops w run en =
     (case es_read_history ops w (en_store en) of
        Inl e \<Rightarrow> (Inl (EngineStore e), en)
      | Inr h \<Rightarrow>
          (Inr (), en\<lparr>en_registry :=
             snd (registry_replace_residency w run Suspended (snd (registry_reconcile w run h (en_registry en))))\<rparr>))"

fun starts_child_of :: "run_id \<Rightarrow> event \<Rightarrow> bool" where
  "starts_child_of parent (WorkflowStarted _ _ _ _ (Some p) _) = (p = parent)"
| "starts_child_of parent _ = False"

definition start_continuation_replacement ::
  "'s event_store \<Rightarrow> 's starter \<Rightarrow> 's interference \<Rightarrow> workflow_handle \<Rightarrow> payload \<Rightarrow> string option \<Rightarrow> run_id \<Rightarrow> 's engine
    \<Rightarrow> (engine_error, unit) result \<times> 's engine" where
  "start_continuation_replacement ops start interfere hnd input ty parent en =
     (let w = wh_workflow_id hnd;
          replacement_type = (case ty of Some ty \<Rightarrow> ty | None \<Rightarrow> wh_workflow_type hnd)
      in case es_read_history ops w (en_store en) of
           Inl e \<Rightarrow> (Inl (EngineStore e), en)
         | Inr h \<Rightarrow>
             if \<exists>e \<in> set h. starts_child_of parent e then (Inr (), en)
             else
               (let (res, en1) = start replacement_type input (replacement_options hnd w parent) (interfere 3 en)
                in (bind_res res (\<lambda>_. Inr ()), en1)))"

definition handle_process_exit ::
  "parse_uuid \<Rightarrow> (engine_error \<Rightarrow> string) \<Rightarrow> 's event_store \<Rightarrow> 's starter \<Rightarrow> 's interference \<Rightarrow> timestamp \<Rightarrow> workflow_handle
    \<Rightarrow> (engine_error, process_outcome) result \<Rightarrow> 's engine \<Rightarrow> (engine_error, unit) result \<times> 's engine" where
  "handle_process_exit parse_uuid show_error ops start interfere now hnd outcome en =
     (let w = wh_workflow_id hnd; run = wh_run_id hnd
      in case exit_section parse_uuid show_error ops now hnd outcome (interfere 0 en) of
           (Inl e, en1) \<Rightarrow> (Inl e, en1)
         | (Inr (Inl existing), en1) \<Rightarrow>
             (case reconcile_terminal_registry ops w run (interfere 1 (notify (wh_completion hnd) existing en1)) of
                (Inl e, en2) \<Rightarrow> (Inl e, en2)
              | (Inr _, en2) \<Rightarrow>
                  (case existing of
                     OutcomeContinuedAsNew input ty parent \<Rightarrow>
                       start_continuation_replacement ops start interfere hnd input ty parent (interfere 2 en2)
                   | _ \<Rightarrow> (Inr (), en2)))
         | (Inr (Inr terminal), en1) \<Rightarrow>
             (case upsert_workflow_visibility ops w run (interfere 1 (notify (wh_completion hnd) terminal en1)) of
                (Inl e, en2) \<Rightarrow> (Inl e, en2)
              | (Inr _, en2) \<Rightarrow> reconcile_terminal_registry ops w run (interfere 2 en2)))"

section \<open>An elapsed deadline\<close>

datatype deadline_disposition = Appended | ResumeTeardown | LoseCleanly

definition decide_disposition ::
  "parse_uuid \<Rightarrow> 's event_store \<Rightarrow> timestamp \<Rightarrow> workflow_id \<Rightarrow> run_id \<Rightarrow> nat \<Rightarrow> 's engine
    \<Rightarrow> (engine_error, deadline_disposition) result \<times> 's engine" where
  "decide_disposition parse_uuid ops now w run cell en =
     (case es_read_history ops w (en_store en) of
        Inl e \<Rightarrow> (Inl (EngineStore e), en)
      | Inr h \<Rightarrow>
          (case terminal_outcome_from_history h run of
             Some (OutcomeTimedOut _) \<Rightarrow> (Inr ResumeTeardown, en)
           | Some _ \<Rightarrow>
               (let (res, r, s) = retire_run_deadline parse_uuid ops now h run (en_recorders en cell) (en_store en)
                in (bind_res (map_err EngineDurability res) (\<lambda>_. Inr LoseCleanly), put_recorder cell r s en))
           | None \<Rightarrow>
               if outstanding_deadline_timer parse_uuid h run = None then (Inr LoseCleanly, en)
               else
                 (let (res, r, s) = record_workflow_timed_out ops now WORKFLOW_TIMEOUT_DESCRIPTOR (en_recorders en cell) (en_store en)
                  in (bind_res (map_err EngineDurability res) (\<lambda>_. Inr Appended), put_recorder cell r s en))))"

fun retire_timers :: "'s event_store \<Rightarrow> timestamp \<Rightarrow> timer_id list \<Rightarrow> recorder \<Rightarrow> 's \<Rightarrow> (unit, 's) recorded" where
  "retire_timers ops now [] r s = (Inr (), r, s)"
| "retire_timers ops now (t # ts) r s =
     and_then (record_timer_cancelled ops now t WorkflowIntent r s) (\<lambda>_. retire_timers ops now ts)"

definition record_ordinary_timer_retirements ::
  "parse_uuid \<Rightarrow> 's event_store \<Rightarrow> timestamp \<Rightarrow> history \<Rightarrow> run_id \<Rightarrow> recorder \<Rightarrow> 's \<Rightarrow> (unit, 's) recorded" where
  "record_ordinary_timer_retirements parse_uuid ops now h run r s =
     retire_timers ops now
       (filter (\<lambda>t. outstanding_deadline_timer parse_uuid h run \<noteq> Some t) (live_timers_in_active_segment h)) r s"

text \<open>A section that only retires timers.\<close>

definition retiring_section ::
  "'s event_store \<Rightarrow> (history \<Rightarrow> recorder \<Rightarrow> 's \<Rightarrow> (unit, 's) recorded) \<Rightarrow> workflow_id \<Rightarrow> nat \<Rightarrow> 's engine
    \<Rightarrow> (engine_error, unit) result \<times> 's engine" where
  "retiring_section ops retire w cell en =
     (case es_read_history ops w (en_store en) of
        Inl e \<Rightarrow> (Inl (EngineStore e), en)
      | Inr h \<Rightarrow>
          (let (res, r, s) = retire h (en_recorders en cell) (en_store en)
           in (map_err EngineDurability res, put_recorder cell r s en)))"

definition tear_down ::
  "parse_uuid \<Rightarrow> (u64 \<Rightarrow> (string, unit) result) option \<Rightarrow> 's event_store \<Rightarrow> 's interference \<Rightarrow> timestamp \<Rightarrow> workflow_handle
    \<Rightarrow> workflow_id \<Rightarrow> run_id \<Rightarrow> 's engine \<Rightarrow> (engine_error, unit) result \<times> 's engine" where
  "tear_down parse_uuid runtime ops interfere now hnd w run en =
     (case retiring_section ops (\<lambda>h. record_ordinary_timer_retirements parse_uuid ops now h run) w (wh_recorder hnd) (interfere 1 en) of
        (Inl e, en1) \<Rightarrow> (Inl e, en1)
      | (Inr _, en1) \<Rightarrow>
          (case runtime of
             None \<Rightarrow> (Inl (RuntimeDropped w run), en1)
           | Some cancel_pid \<Rightarrow>
               (case upsert_workflow_visibility ops w run (interfere 2 (kill cancel_pid (wh_pid hnd) en1)) of
                  (Inl e, en2) \<Rightarrow> (Inl e, en2)
                | (Inr _, en2) \<Rightarrow>
                    (case retiring_section ops (\<lambda>h. retire_run_deadline parse_uuid ops now h run) w (wh_recorder hnd)
                            (interfere 3 (notify (wh_completion hnd) (OutcomeTimedOut WORKFLOW_TIMEOUT_DESCRIPTOR) en2)) of
                       (Inl e, en3) \<Rightarrow> (Inl e, en3)
                     | (Inr _, en3) \<Rightarrow> (Inr (), deregister w run en3)))))"

definition finalize_timed_out_without_handle ::
  "parse_uuid \<Rightarrow> 's event_store \<Rightarrow> 's interference \<Rightarrow> timestamp \<Rightarrow> workflow_id \<Rightarrow> run_id \<Rightarrow> 's engine
    \<Rightarrow> (engine_error, unit) result \<times> 's engine" where
  "finalize_timed_out_without_handle parse_uuid ops interfere now w run en =
     (case es_read_history ops w (en_store en) of
        Inl e \<Rightarrow> (Inl (EngineStore e), en)
      | Inr h \<Rightarrow>
          (case terminal_outcome_from_history h run of
             Some (OutcomeTimedOut _) \<Rightarrow>
               (let en1 = interfere 1 en;
                    (res, r, s) = record_ordinary_timer_retirements parse_uuid ops now h run
                                    (recorder_resume_at w (foldl max 0 (map seq h))) (en_store en1);
                    en2 = en1\<lparr>en_store := s\<rparr>
                in case res of
                     Inl e \<Rightarrow> (Inl (EngineDurability e), en2)
                   | Inr _ \<Rightarrow>
                       (case upsert_workflow_visibility ops w run (interfere 2 en2) of
                          (Inl e, en3) \<Rightarrow> (Inl e, en3)
                        | (Inr _, en3) \<Rightarrow>
                            (let en4 = interfere 3 en3;
                                 (res, r', s') = retire_run_deadline parse_uuid ops now h run r (en_store en4)
                             in (map_err EngineDurability res, en4\<lparr>en_store := s'\<rparr>))))
           | _ \<Rightarrow> (Inr (), en)))"

definition drive_timed_out ::
  "parse_uuid \<Rightarrow> (u64 \<Rightarrow> (string, unit) result) option \<Rightarrow> 's event_store \<Rightarrow> 's interference \<Rightarrow> timestamp \<Rightarrow> workflow_id \<Rightarrow> run_id
    \<Rightarrow> 's engine \<Rightarrow> (engine_error, unit) result \<times> 's engine" where
  "drive_timed_out parse_uuid runtime ops interfere now w run en =
     (case registry_get w run (en_registry en) of
        None \<Rightarrow> finalize_timed_out_without_handle parse_uuid ops interfere now w run en
      | Some hnd \<Rightarrow>
          (case decide_disposition parse_uuid ops now w run (wh_recorder hnd) (interfere 0 en) of
             (Inl e, en1) \<Rightarrow> (Inl e, en1)
           | (Inr LoseCleanly, en1) \<Rightarrow> (Inr (), en1)
           | (Inr _, en1) \<Rightarrow> tear_down parse_uuid runtime ops interfere now hnd w run en1))"

section \<open>Terminals of a history\<close>

definition is_end :: "event \<Rightarrow> bool" where
  "is_end e \<longleftrightarrow> (\<exists>t. lease_scan e = Some (Some t))"

abbreviation active_run :: "history \<Rightarrow> run_id option" where
  "active_run h \<equiv> find_map started_run (rev h)"

text \<open>Every terminal was appended for the run started last, while that run had none.\<close>

definition proper_terminals :: "history \<Rightarrow> bool" where
  "proper_terminals h \<longleftrightarrow> (\<forall>i < length h. is_end (h ! i) \<longrightarrow>
     (\<exists>run. active_run (take i h) = Some run \<and> terminal_outcome_from_history (take i h) run = None \<and> ends_run (Some run) (h ! i)))"

lemma proper_terminals_snoc:
  "proper_terminals (h @ [e]) \<longleftrightarrow> proper_terminals h
    \<and> (is_end e \<longrightarrow> (\<exists>run. active_run h = Some run \<and> terminal_outcome_from_history h run = None \<and> ends_run (Some run) e))"
  by (auto simp: proper_terminals_def nth_append less_Suc_eq)

lemma is_end_not_open: "is_end e \<Longrightarrow> \<not> opens_lease e" "is_end e \<Longrightarrow> \<not> is_WorkflowStarted e" "is_WorkflowStarted e \<Longrightarrow> opens_lease e"
  by (cases e; auto simp: is_end_def opens_lease_def)+

lemma active_run_snoc: "active_run (h @ [e]) = (case started_run e of None \<Rightarrow> active_run h | Some run \<Rightarrow> Some run)"
  by simp

lemma terminal_recorded:
  assumes "distinct_runs h" and "active_run h = Some run" and "is_end e" and "ends_run (Some run) e"
  shows "active_run_has_terminal (h @ [e])"
proof -
  have "\<not> is_WorkflowStarted e" using assms(3) by (rule is_end_not_open)
  moreover have "terminal_outcome_from_history (h @ [e]) run \<noteq> None"
    unfolding terminal_outcome_snoc [OF active_run_latest [OF assms(1,2)] \<open>\<not> is_WorkflowStarted e\<close>]
    using assms(3,4) by (auto simp: is_end_def split: option.split)
  ultimately show ?thesis using assms(2) by (simp add: active_run_has_terminal_def started_run_None [THEN iffD2])
qed

lemma distinct_runs_append: "distinct_runs (h @ h') \<Longrightarrow> distinct_runs h"
  by (simp add: distinct_runs_def List.map_filter_def)

lemma distinct_runs_take: "distinct_runs h \<Longrightarrow> distinct_runs (take i h)"
  using distinct_runs_append [of "take i h" "drop i h"] by simp

text \<open>A recorded terminal stays until something opens another lease.\<close>

lemma terminal_stays:
  assumes "proper_terminals h" and "distinct_runs h" and "i < j" and "j \<le> length h" and "is_end (h ! i)"
    and "\<And>k. i < k \<Longrightarrow> k < j \<Longrightarrow> \<not> opens_lease (h ! k)"
  shows "active_run_has_terminal (take j h)"
  using assms(3,4,6)
proof (induction j)
  case (Suc j)
  have tk: "take (Suc j) h = take j h @ [h ! j]" using Suc.prems(2) by (simp add: take_Suc_conv_app_nth)
  have d: "distinct_runs (take j h)" using assms(2) by (rule distinct_runs_take)
  show ?case
  proof (cases "i = j")
    case True
    with assms(1,5) Suc_le_lessD [OF Suc.prems(2)] obtain run where
      "active_run (take j h) = Some run" "ends_run (Some run) (h ! j)" unfolding proper_terminals_def by blast
    with terminal_recorded [OF d] assms(5) True tk show ?thesis by simp
  next
    case False
    then have ij: "i < j" using Suc.prems(1) by simp
    then have "active_run_has_terminal (take j h)" using Suc by simp
    moreover have "\<not> opens_lease (h ! j)" using Suc.prems(3) ij by simp
    moreover have "\<not> foreign_continuation (take j h) (h ! j)"
    proof (cases "is_end (h ! j)")
      case True
      with assms(1) Suc_le_lessD [OF Suc.prems(2)] show ?thesis
        unfolding proper_terminals_def foreign_continuation_def by metis
    next
      case False
      then show ?thesis by (cases "h ! j") (auto simp: foreign_continuation_def is_end_def)
    qed
    ultimately show ?thesis using active_run_has_terminal_snoc [OF d] tk by simp
  qed
qed simp

lemma two_terminals:
  assumes "proper_terminals h" and "distinct_runs h" and "i < j" and "j < length h" and "is_end (h ! i)" and "is_end (h ! j)"
  shows "\<exists>k. i < k \<and> k < j \<and> opens_lease (h ! k)"
proof (rule ccontr)
  assume "\<nexists>k. i < k \<and> k < j \<and> opens_lease (h ! k)"
  then have "active_run_has_terminal (take j h)"
    using terminal_stays [OF assms(1-3) _ assms(5)] assms(4) by auto
  moreover from assms(1,4,6) obtain run where
    "active_run (take j h) = Some run" "terminal_outcome_from_history (take j h) run = None" by (auto simp: proper_terminals_def)
  ultimately show False by (simp add: active_run_has_terminal_def)
qed

section \<open>Interleaved sections\<close>

text \<open>A handle and its clones own the cell of its recorder.\<close>

definition owns :: "'s engine \<Rightarrow> workflow_handle \<Rightarrow> bool" where
  "owns en hnd \<longleftrightarrow> rc_workflow_id (en_recorders en (wh_recorder hnd)) = wh_workflow_id hnd
     \<and> rc_run_id (en_recorders en (wh_recorder hnd)) = Some (wh_run_id hnd)"

text \<open>The recorders of the terminal events that complete, fail, cancel and continue a run.\<close>

inductive ending_op :: "'s event_store \<Rightarrow> timestamp \<Rightarrow> run_id \<Rightarrow> (recorder \<Rightarrow> 's \<Rightarrow> (unit, 's) recorded) \<Rightarrow> bool"
  for ops now run where
  "ending_op ops now run (record_workflow_completed ops now result)"
| "ending_op ops now run (record_workflow_failed ops now err)"
| "ending_op ops now run (record_workflow_cancelled ops now reason)"
| "ending_op ops now run (record_workflow_continued_as_new ops now input ty run)"

text \<open>One step of the engine: a locked section of one of the terminal writers; any other recording through a
  cell that belongs to a run; the durable start of a fresh run in a free cell; a recorder taken up anew for
  the run started last, as reopen, resume and recovery do; or a step that appends nothing.\<close>

inductive life_step :: "parse_uuid \<Rightarrow> 's event_store \<Rightarrow> ('s \<Rightarrow> bool) \<Rightarrow> ('s \<Rightarrow> workflow_id \<Rightarrow> history) \<Rightarrow> 's engine \<Rightarrow> 's engine \<Rightarrow> bool"
  for parse_uuid ops store_ok hist where
  ended: "owns en hnd \<Longrightarrow> ending_op ops now (wh_run_id hnd) f \<Longrightarrow>
    check = reject_if_recorded_terminal (wh_workflow_id hnd) (wh_run_id hnd)
    \<or> check = (\<lambda>h. bind_res (reject_if_recorded_terminal (wh_workflow_id hnd) (wh_run_id hnd) h) (\<lambda>_. guard_no_pending_work h)) \<Longrightarrow>
    terminal_section parse_uuid ops now check f (wh_workflow_id hnd) (wh_run_id hnd) (wh_recorder hnd) en = (res, en') \<Longrightarrow>
    life_step parse_uuid ops store_ok hist en en'"
| exited: "owns en hnd \<Longrightarrow> exit_section parse_uuid show_error ops now hnd outcome en = (out, en') \<Longrightarrow>
    life_step parse_uuid ops store_ok hist en en'"
| elapsed: "owns en hnd \<Longrightarrow>
    decide_disposition parse_uuid ops now (wh_workflow_id hnd) (wh_run_id hnd) (wh_recorder hnd) en = (dec, en') \<Longrightarrow>
    life_step parse_uuid ops store_ok hist en en'"
| recorded: "recording_op ops now f build \<Longrightarrow> rc_run_id (en_recorders en cell) \<noteq> None \<Longrightarrow>
    \<forall>w env. \<not> is_end (build w env) \<and> \<not> is_WorkflowStarted (build w env) \<Longrightarrow>
    f (en_recorders en cell) (en_store en) = (rec_res, r, s) \<Longrightarrow>
    life_step parse_uuid ops store_ok hist en (put_recorder cell r s en)"
| started: "rc_run_id (en_recorders en cell) = None \<Longrightarrow> wsr_run_id start = run \<Longrightarrow>
    (\<forall>e \<in> set (hist (en_store en) w). \<not> starts_run run e) \<Longrightarrow>
    record_workflow_started_with_attributes ops now start attrs sch
      (recorder_with_visibility (recorder_resume_at w head) run) (en_store en) = (Inr (), r, s) \<Longrightarrow>
    life_step parse_uuid ops store_ok hist en (put_recorder cell r s en)"
| adopted: "rc_run_id (en_recorders en cell) = None \<Longrightarrow> active_run (hist (en_store en) w) = Some run \<Longrightarrow>
    unat head = length (hist (en_store en) w) \<Longrightarrow>
    life_step parse_uuid ops store_ok hist en
      (put_recorder cell (recorder_with_visibility (recorder_resume_at w head) run) (en_store en) en)"
| other: "en_recorders en' = en_recorders en \<Longrightarrow> store_ok (en_store en') \<Longrightarrow> hist (en_store en') = hist (en_store en) \<Longrightarrow>
    life_step parse_uuid ops store_ok hist en en'"

definition life_inv :: "('s \<Rightarrow> bool) \<Rightarrow> ('s \<Rightarrow> workflow_id \<Rightarrow> history) \<Rightarrow> 's engine \<Rightarrow> bool" where
  "life_inv store_ok hist en \<longleftrightarrow> store_ok (en_store en)
   \<and> (\<forall>w. proper_terminals (hist (en_store en) w) \<and> distinct_runs (hist (en_store en) w))
   \<and> (\<forall>cell run. rc_run_id (en_recorders en cell) = Some run \<longrightarrow>
        unat (current_head (en_recorders en cell)) \<le> length (hist (en_store en) (rc_workflow_id (en_recorders en cell)))
      \<and> (in_step hist (en_recorders en cell) (en_store en) \<longrightarrow>
           active_run (hist (en_store en) (rc_workflow_id (en_recorders en cell))) = Some run))"

lemma commit_keeps_run: "commit f n r s = (res, r', s') \<Longrightarrow> rc_run_id r' = rc_run_id r"
  by (auto simp: commit_def split: prod.splits sum.splits)

lemma append_with_keeps_run: "append_with ops at build r s = (res, r', s') \<Longrightarrow> rc_run_id r' = rc_run_id r"
  by (auto simp: append_with_def append_one_def split: sum.splits dest: commit_keeps_run)

lemma and_then_keeps_run:
  assumes "and_then m (\<lambda>_. post) = (res, r', s')" and "\<And>res r' s'. m = (res, r', s') \<Longrightarrow> rc_run_id r' = run"
    and "\<And>r s res r' s'. post r s = (res, r', s') \<Longrightarrow> rc_run_id r' = rc_run_id r"
  shows "rc_run_id r' = run"
proof -
  obtain res0 r0 s0 where m: "m = (res0, r0, s0)" by (metis prod_cases3)
  with assms(1) have "r' = r0 \<or> post r0 s0 = (res, r', s')" by (cases res0) auto
  with assms(2) [OF m] assms(3) show ?thesis by metis
qed

lemma quiet_posts:
  "settle_terminal_outbox_rows_nonfatal ops r s = (res, r', s') \<Longrightarrow> rc_run_id r' = rc_run_id r"
  "upsert_visibility_projection_nonfatal ops r s = (res, r', s') \<Longrightarrow> rc_run_id r' = rc_run_id r"
  by (simp_all add: settle_terminal_outbox_rows_nonfatal_def upsert_visibility_projection_nonfatal_def)

lemma recording_op_keeps_run:
  assumes "recording_op ops at f build" and "\<forall>w env. \<not> is_WorkflowStarted (build w env)" and "f r s = (res, r', s')"
  shows "rc_run_id r' = rc_run_id r"
  using assms
  by (induction rule: recording_op.induct)
     (auto simp: recording_defs elim: append_with_keeps_run quiet_posts elim!: and_then_keeps_run split: sum.splits)

lemma map_filter_append: "List.map_filter f (xs @ ys) = List.map_filter f xs @ List.map_filter f ys"
  by (simp add: List.map_filter_def)

lemma put_recorder_sel [simp]:
  "en_store (put_recorder cell r s en) = s" "en_recorders (put_recorder cell r s en) = (en_recorders en)(cell := r)"
  "put_recorder cell r' s' (put_recorder cell r s en) = put_recorder cell r' s' en"
  "put_recorder cell (en_recorders en cell) (en_store en) en = en"
  by (simp_all add: put_recorder_def)

context event_store_laws
begin

text \<open>Appending to the history of a recorder in step leaves every other recorder of the workflow behind.\<close>

lemma life_grow:
  assumes "life_inv store_inv hist en" and "store_inv s" and "in_step hist r s"
    and "hist s = (hist (en_store en))(w := hist (en_store en) w @ es)" and "es \<noteq> []" and "rc_workflow_id r = w"
    and "rc_run_id r = active_run (hist s w)"
    and "proper_terminals (hist s w)" and "distinct_runs (hist s w)"
  shows "life_inv store_inv hist (put_recorder cell r s en)"
proof -
  have "unat (current_head (en_recorders en c)) \<le> length (hist s (rc_workflow_id (en_recorders en c)))
      \<and> (in_step hist (en_recorders en c) s \<longrightarrow> active_run (hist s (rc_workflow_id (en_recorders en c))) = Some run)"
    if "rc_run_id (en_recorders en c) = Some run" for c run
  proof -
    have le: "unat (current_head (en_recorders en c)) \<le> length (hist (en_store en) (rc_workflow_id (en_recorders en c)))"
      and act: "in_step hist (en_recorders en c) (en_store en) \<longrightarrow>
        active_run (hist (en_store en) (rc_workflow_id (en_recorders en c))) = Some run"
      using assms(1) that unfolding life_inv_def by blast+
    show ?thesis
    proof (cases "rc_workflow_id (en_recorders en c) = w")
      case True
      have "unat (current_head (en_recorders en c)) < length (hist s w)"
        using le True assms(4,5) by (cases es) simp_all
      with True show ?thesis by (simp add: in_step_def)
    next
      case False
      with le act assms(4) show ?thesis by (simp add: in_step_def)
    qed
  qed
  moreover have "unat (current_head r) \<le> length (hist s (rc_workflow_id r))" using assms(3) by (simp add: in_step_def)
  ultimately show ?thesis
    using assms(1,2,4,6-9) by (auto simp: life_inv_def)
qed

lemma life_append:
  assumes inv: "life_inv store_inv hist en" and run: "rc_run_id (en_recorders en cell) = Some run"
    and op: "recording_op ops now f build" "\<forall>w env. \<not> is_WorkflowStarted (build w env)"
    and rec: "f (en_recorders en cell) (en_store en) = (res, r, s)"
    and ends: "\<forall>w env. is_end (build w env) \<longrightarrow> ends_run (Some run) (build w env)
      \<and> terminal_outcome_from_history (hist (en_store en) (rc_workflow_id (en_recorders en cell))) run = None"
  shows "life_inv store_inv hist (put_recorder cell r s en) \<and> rc_run_id r = Some run
    \<and> rc_workflow_id r = rc_workflow_id (en_recorders en cell)"
proof -
  let ?r0 = "en_recorders en cell" and ?w = "rc_workflow_id (en_recorders en cell)"
  have sinv: "store_inv (en_store en)" using inv by (simp add: life_inv_def)
  note post = recording_op_cases [OF op(1) sinv rec]
  have r: "rc_run_id r = Some run" using recording_op_keeps_run [OF op rec] run by simp
  show ?thesis
  proof (cases res)
    case (Inl e)
    with post have "r = ?r0" "s = en_store en" by simp_all
    then show ?thesis using inv run by simp
  next
    case (Inr u)
    let ?e = "build ?w (next_env ?r0 now)"
    from Inr post have step: "in_step hist ?r0 (en_store en)" "in_step hist r s" "rc_workflow_id r = ?w" "store_inv s"
      "hist s = (hist (en_store en))(?w := hist (en_store en) ?w @ [?e])" by simp_all
    have act: "active_run (hist (en_store en) ?w) = Some run" and ok: "proper_terminals (hist (en_store en) ?w)"
      "distinct_runs (hist (en_store en) ?w)" using inv run step(1) by (auto simp: life_inv_def)
    have none: "started_run ?e = None" using op(2) by (simp add: started_run_None)
    have "life_inv store_inv hist (put_recorder cell r s en)"
      by (rule life_grow [OF inv step(4,2,5) _ step(3)])
         (use step(5) r act none ok ends in \<open>simp_all add: proper_terminals_snoc distinct_runs_def map_filter_snoc\<close>)
    with r step(3) show ?thesis by simp
  qed
qed

lemma life_retire:
  assumes "life_inv store_inv hist en" and "rc_run_id (en_recorders en cell) = Some run"
    and "retire_run_deadline parse_uuid ops now h run' (en_recorders en cell) (en_store en) = (res, r, s)"
  shows "life_inv store_inv hist (put_recorder cell r s en)"
proof (cases "outstanding_deadline_timer parse_uuid h run'")
  case None
  with assms show ?thesis by (auto simp: retire_run_deadline_def)
next
  case (Some t)
  have op: "recording_op ops now (record_timer_cancelled ops now t WorkflowIntent) (\<lambda>w env. TimerCancelled env t WorkflowIntent)"
    by (rule recording_op.intros)
  from Some assms(3) have "record_timer_cancelled ops now t WorkflowIntent (en_recorders en cell) (en_store en) = (res, r, s)"
    by (simp add: retire_run_deadline_def)
  from life_append [OF assms(1,2) op _ this] show ?thesis by (simp add: is_end_def)
qed

text \<open>A terminal followed by the retirement of the deadline.\<close>

lemma life_end:
  assumes inv: "life_inv store_inv hist en" and run: "rc_run_id (en_recorders en cell) = Some run"
    and op: "recording_op ops now f build" "\<forall>w env. \<not> is_WorkflowStarted (build w env) \<and> ends_run (Some run) (build w env)"
    and none: "terminal_outcome_from_history (hist (en_store en) (rc_workflow_id (en_recorders en cell))) run = None"
    and rec: "and_then (f (en_recorders en cell) (en_store en)) (\<lambda>_. retire_run_deadline parse_uuid ops now h run') = (res, r, s)"
  shows "life_inv store_inv hist (put_recorder cell r s en)"
proof -
  obtain res1 r1 s1 where 1: "f (en_recorders en cell) (en_store en) = (res1, r1, s1)" by (metis prod_cases3)
  have "life_inv store_inv hist (put_recorder cell r1 s1 en) \<and> rc_run_id r1 = Some run"
    using life_append [OF inv run op(1) _ 1] op(2) none by simp
  then have 2: "life_inv store_inv hist (put_recorder cell r1 s1 en)" "rc_run_id (en_recorders (put_recorder cell r1 s1 en) cell) = Some run"
    by simp_all
  show ?thesis
  proof (cases res1)
    case (Inl e)
    with rec 1 2(1) show ?thesis by simp
  next
    case (Inr u)
    with rec 1 have "retire_run_deadline parse_uuid ops now h run' (en_recorders (put_recorder cell r1 s1 en) cell)
        (en_store (put_recorder cell r1 s1 en)) = (res, r, s)" by simp
    from life_retire [OF 2 this] show ?thesis by simp
  qed
qed

lemma ending_op_recording:
  assumes "ending_op ops now run f"
  shows "\<exists>build. recording_op ops now f build \<and> (\<forall>w env. \<not> is_WorkflowStarted (build w env) \<and> ends_run (Some run) (build w env))"
  using assms
proof cases
  case (1 result)
  then show ?thesis by (intro exI [of _ "\<lambda>w env. WorkflowCompleted env result"]) (auto intro: recording_op.intros)
next
  case (2 err)
  then show ?thesis by (intro exI [of _ "\<lambda>w env. WorkflowFailed env err"]) (auto intro: recording_op.intros)
next
  case (3 reason)
  then show ?thesis by (intro exI [of _ "\<lambda>w env. WorkflowCancelled env reason"]) (auto intro: recording_op.intros)
next
  case (4 input ty)
  then show ?thesis by (intro exI [of _ "\<lambda>w env. WorkflowContinuedAsNew env input ty run"]) (auto intro: recording_op.intros)
qed

lemma life_section:
  assumes "life_inv store_inv hist en" and "owns en hnd" and "ending_op ops now (wh_run_id hnd) f"
    and "\<And>h. check h = Inr () \<Longrightarrow> terminal_outcome_from_history h (wh_run_id hnd) = None"
    and "terminal_section parse_uuid ops now check f (wh_workflow_id hnd) (wh_run_id hnd) (wh_recorder hnd) en = (res, en')"
  shows "life_inv store_inv hist en'"
proof -
  let ?h = "hist (en_store en) (wh_workflow_id hnd)" and ?cell = "wh_recorder hnd"
  have sinv: "store_inv (en_store en)" using assms(1) by (simp add: life_inv_def)
  have own: "rc_run_id (en_recorders en ?cell) = Some (wh_run_id hnd)" "rc_workflow_id (en_recorders en ?cell) = wh_workflow_id hnd"
    using assms(2) by (simp_all add: owns_def)
  from ending_op_recording [OF assms(3)] obtain build where op: "recording_op ops now f build"
    "\<forall>w env. \<not> is_WorkflowStarted (build w env) \<and> ends_run (Some (wh_run_id hnd)) (build w env)" by blast
  show ?thesis
  proof (cases "check ?h")
    case (Inl e)
    with assms(1,5) show ?thesis by (simp add: terminal_section_def read_back [OF sinv])
  next
    case (Inr u)
    obtain res1 r s where rec: "and_then (f (en_recorders en ?cell) (en_store en))
        (\<lambda>_. retire_run_deadline parse_uuid ops now ?h (wh_run_id hnd)) = (res1, r, s)" by (metis prod_cases3)
    have none: "terminal_outcome_from_history (hist (en_store en) (rc_workflow_id (en_recorders en ?cell))) (wh_run_id hnd) = None"
      using assms(4) Inr own(2) by simp
    have "en' = put_recorder ?cell r s en" using assms(5) Inr rec by (simp add: terminal_section_def read_back [OF sinv])
    with life_end [OF assms(1) own(1) op none rec] show ?thesis by simp
  qed
qed

lemma life_exit:
  assumes "life_inv store_inv hist en" and "owns en hnd" and "exit_section parse_uuid show_error ops now hnd outcome en = (out, en')"
  shows "life_inv store_inv hist en'"
proof -
  let ?h = "hist (en_store en) (wh_workflow_id hnd)" and ?cell = "wh_recorder hnd" and ?run = "wh_run_id hnd"
  have sinv: "store_inv (en_store en)" using assms(1) by (simp add: life_inv_def)
  have own: "rc_run_id (en_recorders en ?cell) = Some ?run" "rc_workflow_id (en_recorders en ?cell) = wh_workflow_id hnd"
    using assms(2) by (simp_all add: owns_def)
  show ?thesis
  proof (cases "terminal_outcome_from_history ?h ?run")
    case (Some existing)
    obtain res r s where rec: "retire_run_deadline parse_uuid ops now ?h ?run (en_recorders en ?cell) (en_store en) = (res, r, s)"
      by (metis prod_cases3)
    have "en' = en \<or> en' = put_recorder ?cell r s en"
      using assms(3) Some rec by (auto simp: exit_section_def Let_def read_back [OF sinv] split: if_splits)
    with life_retire [OF assms(1) own(1) rec] assms(1) show ?thesis by auto
  next
    case None
    have "\<exists>f. snd (record_exit show_error ops now outcome) = f \<and> ending_op ops now ?run f"
      by (auto simp: record_exit_def Let_def split: sum.split process_outcome.split intro: ending_op.intros)
    then obtain f where f: "snd (record_exit show_error ops now outcome) = f" "ending_op ops now ?run f" by blast
    from ending_op_recording [OF f(2)] obtain build where op: "recording_op ops now f build"
      "\<forall>w env. \<not> is_WorkflowStarted (build w env) \<and> ends_run (Some ?run) (build w env)" by blast
    obtain res r s where rec: "and_then (f (en_recorders en ?cell) (en_store en))
        (\<lambda>_. retire_run_deadline parse_uuid ops now ?h ?run) = (res, r, s)" by (metis prod_cases3)
    have "en' = put_recorder ?cell r s en"
      using assms(3) None rec f(1) by (auto simp: exit_section_def Let_def read_back [OF sinv] case_prod_unfold)
    with life_end [OF assms(1) own(1) op _ rec] None own(2) show ?thesis by simp
  qed
qed

lemma life_deadline:
  assumes "life_inv store_inv hist en" and "owns en hnd"
    and "decide_disposition parse_uuid ops now (wh_workflow_id hnd) (wh_run_id hnd) (wh_recorder hnd) en = (dec, en')"
  shows "life_inv store_inv hist en'"
proof -
  let ?h = "hist (en_store en) (wh_workflow_id hnd)" and ?cell = "wh_recorder hnd" and ?run = "wh_run_id hnd"
  have sinv: "store_inv (en_store en)" using assms(1) by (simp add: life_inv_def)
  have own: "rc_run_id (en_recorders en ?cell) = Some ?run" "rc_workflow_id (en_recorders en ?cell) = wh_workflow_id hnd"
    using assms(2) by (simp_all add: owns_def)
  show ?thesis
  proof (cases "terminal_outcome_from_history ?h ?run")
    case (Some existing)
    obtain res r s where rec: "retire_run_deadline parse_uuid ops now ?h ?run (en_recorders en ?cell) (en_store en) = (res, r, s)"
      by (metis prod_cases3)
    have "en' = en \<or> en' = put_recorder ?cell r s en"
      using assms(3) Some rec by (auto simp: decide_disposition_def Let_def read_back [OF sinv] split: terminal_outcome.splits)
    with life_retire [OF assms(1) own(1) rec] assms(1) show ?thesis by auto
  next
    case None
    have op: "recording_op ops now (record_workflow_timed_out ops now d) (\<lambda>w env. WorkflowTimedOut env d)" for d
      by (rule recording_op.intros)
    obtain res r s where rec: "record_workflow_timed_out ops now WORKFLOW_TIMEOUT_DESCRIPTOR (en_recorders en ?cell) (en_store en) = (res, r, s)"
      by (metis prod_cases3)
    have "en' = en \<or> en' = put_recorder ?cell r s en"
      using assms(3) None rec by (auto simp: decide_disposition_def Let_def read_back [OF sinv] split: if_splits)
    with life_append [OF assms(1) own(1) op _ rec] None own(2) assms(1) show ?thesis by auto
  qed
qed

lemma start_in_step:
  assumes "store_inv s" and "record_workflow_started_with_attributes ops now start attrs sch r s = (Inr (), r', s')"
  shows "in_step hist r' s' \<and> rc_run_id r' = Some (wsr_run_id start)"
proof (cases "attrs = []")
  case False
  with start_with_attributes_cases [OF assms(1) False assms(2)] show ?thesis by simp
next
  case True
  have op: "recording_op ops now (record_workflow_started ops now start)
     (\<lambda>w env. WorkflowStarted env (wsr_workflow_type start) (wsr_input start) (wsr_run_id start)
        (wsr_parent_run_id start) (wsr_package_version start))" by (rule recording_op.intros)
  have rec: "record_workflow_started ops now start r s = (Inr (), r', s')"
    using assms(2) True by (simp add: record_workflow_started_with_attributes_def)
  then have "rc_run_id r' = Some (wsr_run_id start)"
    by (auto simp: record_workflow_started_def elim!: and_then.elims)
  with recording_op_cases [OF op assms(1) rec] show ?thesis by simp
qed

lemma life_start:
  assumes inv: "life_inv store_inv hist en" and fresh: "\<forall>e \<in> set (hist (en_store en) w). \<not> starts_run (wsr_run_id start) e"
    and rec: "record_workflow_started_with_attributes ops now start attrs sch r0 (en_store en) = (Inr (), r, s)" and w: "rc_workflow_id r0 = w"
  shows "life_inv store_inv hist (put_recorder cell r s en)"
proof -
  have sinv: "store_inv (en_store en)" using inv by (simp add: life_inv_def)
  note post = start_in_step [OF sinv rec]
  from started_with_attributes [OF sinv rec w] obtain es where
    es: "store_inv s" "start_events w start attrs es" "hist s = (hist (en_store en))(w := hist (en_store en) w @ es)" by auto
  have shape: "es \<noteq> []" "List.map_filter started_run es = [wsr_run_id start]" "\<forall>e \<in> set es. \<not> is_end e"
    "active_run es = Some (wsr_run_id start)"
    using es(2) by (auto simp: start_events_def map_filter_simps is_end_def split: if_splits)
  have ok: "proper_terminals (hist (en_store en) w)" "distinct_runs (hist (en_store en) w)" using inv by (auto simp: life_inv_def)
  have proper: "proper_terminals (h @ es')" if "proper_terminals h" "\<forall>e \<in> set es'. \<not> is_end e" for h es'
    using that(2) by (induction es' rule: rev_induct) (simp_all add: that(1) proper_terminals_snoc flip: append_assoc)
  have wr: "rc_workflow_id r = w" using start_keeps_workflow [OF rec] w by simp
  have "distinct_runs (hist s w)"
    using ok(2) fresh es(3) shape(2) in_map_filter_started [of "wsr_run_id start" "hist (en_store en) w"]
    by (auto simp: distinct_runs_def map_filter_append)
  moreover have "active_run (hist s w) = Some (wsr_run_id start)"
    using es(3) shape(4) by (simp add: find_map_append)
  moreover have "proper_terminals (hist s w)" using proper [OF ok(1) shape(3)] es(3) by simp
  ultimately show ?thesis
    using life_grow [OF inv es(1) _ es(3) shape(1) wr] post by simp
qed

lemma life_step_inv:
  assumes "life_step parse_uuid ops store_inv hist en en'" and "life_inv store_inv hist en"
  shows "life_inv store_inv hist en'"
  using assms
proof cases
  case (ended hnd now f check res)
  have "terminal_outcome_from_history h (wh_run_id hnd) = None" if "check h = Inr ()" for h
    using ended(3) that by (auto simp: reject_if_recorded_terminal_def split: if_splits)
  from life_section [OF assms(2) ended(1,2) this ended(4)] show ?thesis .
next
  case (exited hnd show_error now outcome out)
  from life_exit [OF assms(2) exited] show ?thesis .
next
  case (elapsed hnd now dec)
  from life_deadline [OF assms(2) elapsed] show ?thesis .
next
  case (recorded now f build cell rec_res r s)
  then obtain run where "rc_run_id (en_recorders en cell) = Some run" by blast
  from life_append [OF assms(2) this recorded(2) _ recorded(5)] recorded(1,4) show ?thesis by simp
next
  case (started cell start run w now attrs sch head r s)
  have "rc_workflow_id (recorder_with_visibility (recorder_resume_at w head) run) = w"
    by (simp add: recorder_with_visibility_def recorder_resume_at_def)
  from life_start [OF assms(2) _ started(5) this, of cell] started(1,3,4) show ?thesis by simp
next
  case (adopted cell w run head)
  then show ?thesis
    using assms(2) by (auto simp: life_inv_def in_step_def recorder_with_visibility_def recorder_resume_at_def current_head_def from_head_def)
next
  case other
  with assms(2) show ?thesis by (simp add: life_inv_def in_step_def)
qed

end

section \<open>The teardown of a timed-out run\<close>

definition cancels :: "timer_id set \<Rightarrow> event list \<Rightarrow> bool" where
  "cancels T es \<longleftrightarrow> (\<forall>e \<in> set es. \<exists>env t. t \<in> T \<and> e = TimerCancelled env t WorkflowIntent)"

lemma cancels_simps [simp]: "cancels T []" "cancels T (es @ es') \<longleftrightarrow> cancels T es \<and> cancels T es'"
  by (auto simp: cancels_def)

lemma cancels_mono: "cancels T es \<Longrightarrow> T \<subseteq> T' \<Longrightarrow> cancels T' es"
  by (fastforce simp: cancels_def)

text \<open>Cancelling other timers, or recording a terminal, leaves the deadline outstanding.\<close>

lemma outstanding_deadline_append:
  assumes "\<forall>e \<in> set es. \<forall>u. timer_effect e = Some (u, b) \<longrightarrow> deadline_run_id parse_uuid u \<noteq> Some run"
    and "\<forall>e \<in> set es. \<forall>u. timer_effect e \<noteq> Some (u, \<not> b)"
  shows "outstanding_deadline_timer parse_uuid (h @ es) run = outstanding_deadline_timer parse_uuid h run"
  using assms
proof (induction es rule: rev_induct)
  case (snoc e es)
  have "deadline_step parse_uuid run x e = x" for x
  proof (cases "timer_effect e")
    case (Some p)
    obtain u c where p: "p = (u, c)" by fastforce
    with Some snoc.prems show ?thesis by (cases "c = b") (auto simp: deadline_step_def)
  qed (simp add: deadline_step_def)
  with snoc show ?case by (simp add: outstanding_deadline_timer_def flip: append_assoc)
qed simp

lemma outstanding_cancels:
  "cancels T es \<Longrightarrow> \<forall>u \<in> T. deadline_run_id parse_uuid u \<noteq> Some run \<Longrightarrow>
   outstanding_deadline_timer parse_uuid (h @ es) run = outstanding_deadline_timer parse_uuid h run"
  by (rule outstanding_deadline_append [where b = False]) (auto simp: cancels_def)

lemma outstanding_timed_out:
  "outstanding_deadline_timer parse_uuid (h @ [WorkflowTimedOut env d]) run = outstanding_deadline_timer parse_uuid h run"
  by (simp add: outstanding_deadline_timer_def deadline_step_def)

lemma registry_remove_get: "registry_get w run (snd (registry_remove w run rg)) = None"
  by (simp add: registry_get_def registry_remove_def delete_conv)

text \<open>What one pass of the teardown leaves.  A pass that stops early has cancelled ordinary timers only: the
  deadline is still outstanding and the handle still registered.  A pass that ends has retired the deadline, rung
  the doorbell and deregistered the run.\<close>

definition torn_down ::
  "parse_uuid \<Rightarrow> ('s \<Rightarrow> workflow_id \<Rightarrow> history) \<Rightarrow> workflow_id \<Rightarrow> run_id \<Rightarrow> timer_id \<Rightarrow> workflow_handle \<Rightarrow> 's engine
    \<Rightarrow> (engine_error, unit) result \<Rightarrow> 's engine \<Rightarrow> bool" where
  "torn_down parse_uuid hist w run t hnd en res en' \<longleftrightarrow>
     (\<exists>es. cancels UNIV es \<and> hist (en_store en') = (hist (en_store en))(w := hist (en_store en) w @ es))
     \<and> (case res of
          Inl _ \<Rightarrow> outstanding_deadline_timer parse_uuid (hist (en_store en') w) run = Some t
            \<and> en_registry en' = en_registry en
        | Inr _ \<Rightarrow> outstanding_deadline_timer parse_uuid (hist (en_store en') w) run = None
            \<and> registry_get w run (en_registry en') = None
            \<and> en_completions en' (wh_completion hnd) = Some (OutcomeTimedOut WORKFLOW_TIMEOUT_DESCRIPTOR))"

lemma live_timers_timed_out:
  "live_timers_in_active_segment (h @ [WorkflowTimedOut env d]) = live_timers_in_active_segment h"
  by (simp add: live_timers_snoc)

context event_store_laws
begin

lemma retire_timers_cases:
  assumes "store_inv s" and "retire_timers ops now ts r s = (res, r', s')" and "rc_workflow_id r = w"
  shows "store_inv s' \<and> rc_workflow_id r' = w
    \<and> (\<exists>es. cancels (set ts) es \<and> hist s' = (hist s)(w := hist s w @ es))"
  using assms
proof (induction ts arbitrary: r s)
  case Nil
  then show ?case by (auto intro!: exI [of _ "[] :: event list"])
next
  case (Cons t ts)
  have op: "recording_op ops now (record_timer_cancelled ops now t WorkflowIntent) (\<lambda>w env. TimerCancelled env t WorkflowIntent)"
    by (rule recording_op.intros)
  obtain res1 r1 s1 where 1: "record_timer_cancelled ops now t WorkflowIntent r s = (res1, r1, s1)" by (metis prod_cases3)
  note post = recording_op_cases [OF op Cons.prems(1) 1]
  show ?case
  proof (cases res1)
    case (Inl e)
    with 1 post Cons.prems show ?thesis by (auto intro!: exI [of _ "[] :: event list"])
  next
    case (Inr u)
    with post Cons.prems(3) have 2: "store_inv s1" "rc_workflow_id r1 = w"
      "hist s1 = (hist s)(w := hist s w @ [TimerCancelled (next_env r now) t WorkflowIntent])" by auto
    have "retire_timers ops now ts r1 s1 = (res, r', s')" using Cons.prems(2) 1 Inr by simp
    from Cons.IH [OF 2(1) this 2(2)] obtain es where
      "store_inv s'" "rc_workflow_id r' = w" "cancels (set ts) es" "hist s' = (hist s1)(w := hist s1 w @ es)" by blast
    moreover from this have "cancels (set (t # ts)) (TimerCancelled (next_env r now) t WorkflowIntent # es)"
      by (fastforce simp: cancels_def)
    ultimately show ?thesis using 2(3)
      by (intro conjI exI [of _ "TimerCancelled (next_env r now) t WorkflowIntent # es"]) simp_all
  qed
qed

text \<open>The section that retires the ordinary timers keeps the deadline, whatever its result.\<close>

lemma ordinary_section:
  assumes "store_inv (en_store en)" and "rc_workflow_id (en_recorders en cell) = w"
    and "outstanding_deadline_timer parse_uuid (hist (en_store en) w) run = Some t"
    and "\<forall>u \<in> set (live_timers_in_active_segment (hist (en_store en) w)). deadline_run_id parse_uuid u = Some run \<longrightarrow> u = t"
    and "retiring_section ops (\<lambda>h. record_ordinary_timer_retirements parse_uuid ops now h run) w cell en = (res, en')"
  shows "store_inv (en_store en') \<and> en_registry en' = en_registry en \<and> rc_workflow_id (en_recorders en' cell) = w
    \<and> outstanding_deadline_timer parse_uuid (hist (en_store en') w) run = Some t
    \<and> (\<exists>es. cancels UNIV es \<and> hist (en_store en') = (hist (en_store en))(w := hist (en_store en) w @ es))"
proof -
  let ?h = "hist (en_store en) w"
  let ?ts = "filter (\<lambda>u. outstanding_deadline_timer parse_uuid ?h run \<noteq> Some u) (live_timers_in_active_segment ?h)"
  obtain res0 r s where rec: "retire_timers ops now ?ts (en_recorders en cell) (en_store en) = (res0, r, s)" by (metis prod_cases3)
  have en': "en' = put_recorder cell r s en"
    using assms(5) rec by (simp add: retiring_section_def record_ordinary_timer_retirements_def read_back [OF assms(1)])
  from retire_timers_cases [OF assms(1) rec assms(2)] obtain es where
    es: "store_inv s" "rc_workflow_id r = w" "cancels (set ?ts) es" "hist s = (hist (en_store en))(w := ?h @ es)" by blast
  have "\<forall>u \<in> set ?ts. deadline_run_id parse_uuid u \<noteq> Some run" using assms(3,4) by auto
  from outstanding_cancels [OF es(3) this] es assms(3) cancels_mono [OF es(3)] show ?thesis
    unfolding en' by (auto simp: put_recorder_def)
qed

lemma deadline_section:
  assumes "store_inv (en_store en)" and "rc_workflow_id (en_recorders en cell) = w"
    and "outstanding_deadline_timer parse_uuid (hist (en_store en) w) run = Some t"
    and "retiring_section ops (\<lambda>h. retire_run_deadline parse_uuid ops now h run) w cell en = (res, en')"
  shows "store_inv (en_store en') \<and> en_registry en' = en_registry en \<and> en_completions en' = en_completions en
    \<and> (case res of
         Inl e \<Rightarrow> hist (en_store en') = hist (en_store en)
       | Inr _ \<Rightarrow> outstanding_deadline_timer parse_uuid (hist (en_store en') w) run = None
           \<and> (\<exists>es. cancels UNIV es \<and> hist (en_store en') = (hist (en_store en))(w := hist (en_store en) w @ es)))"
proof -
  let ?h = "hist (en_store en) w"
  have op: "recording_op ops now (record_timer_cancelled ops now t WorkflowIntent) (\<lambda>w env. TimerCancelled env t WorkflowIntent)"
    by (rule recording_op.intros)
  obtain res0 r s where rec: "record_timer_cancelled ops now t WorkflowIntent (en_recorders en cell) (en_store en) = (res0, r, s)"
    by (metis prod_cases3)
  have en': "en' = put_recorder cell r s en" "res = map_err EngineDurability res0"
    using assms(3,4) rec by (simp_all add: retiring_section_def retire_run_deadline_def read_back [OF assms(1)])
  note post = recording_op_cases [OF op assms(1) rec]
  show ?thesis
  proof (cases res0)
    case (Inl e)
    with post en' assms(1) show ?thesis by (auto simp: put_recorder_def)
  next
    case (Inr u)
    have "deadline_step parse_uuid run x (TimerCancelled env t WorkflowIntent) = None" for x env
      using outstanding_deadlineD [OF assms(3)] by (simp add: deadline_step_def)
    with Inr post en' assms(2) show ?thesis
      by (auto simp: put_recorder_def outstanding_deadline_timer_def cancels_def
          intro!: exI [of _ "[TimerCancelled (next_env (en_recorders en cell) now) t WorkflowIntent]"])
  qed
qed

end

context timer_store_laws
begin

lemma tear_down_alone:
  assumes "store_inv (en_store en)" and "rc_workflow_id (en_recorders en (wh_recorder hnd)) = w"
    and "outstanding_deadline_timer parse_uuid (hist (en_store en) w) run = Some t"
    and "\<forall>u \<in> set (live_timers_in_active_segment (hist (en_store en) w)). deadline_run_id parse_uuid u = Some run \<longrightarrow> u = t"
    and "tear_down parse_uuid runtime ops (\<lambda>_ x. x) now hnd w run en = (res, en')"
  shows "torn_down parse_uuid hist w run t hnd en res en'"
proof -
  obtain res1 en1 where 1: "retiring_section ops (\<lambda>h. record_ordinary_timer_retirements parse_uuid ops now h run) w
      (wh_recorder hnd) en = (res1, en1)" by fastforce
  note ord = ordinary_section [OF assms(1-4) 1]
  show ?thesis
  proof (cases "res1 = Inr () \<and> runtime \<noteq> None")
    case False
    with assms(5) 1 ord show ?thesis
      by (cases res1; cases runtime) (auto simp: tear_down_def torn_down_def)
  next
    case True
    then obtain cancel_pid where r1: "res1 = Inr ()" "runtime = Some cancel_pid" by blast
    let ?en = "kill cancel_pid (wh_pid hnd) en1"
    have k: "en_store ?en = en_store en1" "en_registry ?en = en_registry en1" "en_recorders ?en = en_recorders en1"
      by (simp_all add: kill_def split: sum.splits)
    obtain res2 en2 where 2: "upsert_workflow_visibility ops w run ?en = (res2, en2)" by fastforce
    have vis: "store_inv (en_store en2)" "hist (en_store en2) = hist (en_store en1)" "en_registry en2 = en_registry en1"
      "en_recorders en2 = en_recorders en1"
      using upsert_visibility_frame [OF _ 2] k ord by auto
    let ?en' = "notify (wh_completion hnd) (OutcomeTimedOut WORKFLOW_TIMEOUT_DESCRIPTOR) en2"
    obtain res3 en3 where 3: "retiring_section ops (\<lambda>h. retire_run_deadline parse_uuid ops now h run) w (wh_recorder hnd) ?en'
        = (res3, en3)" by fastforce
    have n: "store_inv (en_store ?en')" "rc_workflow_id (en_recorders ?en' (wh_recorder hnd)) = w"
      "outstanding_deadline_timer parse_uuid (hist (en_store ?en') w) run = Some t"
      using ord vis by (simp_all add: notify_def)
    note ret = deadline_section [OF n 3]
    obtain es where es: "cancels UNIV es" "hist (en_store en1) = (hist (en_store en))(w := hist (en_store en) w @ es)" using ord by blast
    show ?thesis
    proof (cases "\<exists>u. res2 = Inr u")
      case False
      then obtain e where "res2 = Inl e" by (cases res2) auto
      with assms(5) 1 2 r1 have "res = Inl e" "en' = en2" by (simp_all add: tear_down_def)
      with ord vis show ?thesis by (simp add: torn_down_def)
    next
      case True
      then have r2: "res2 = Inr ()" by auto
      show ?thesis
      proof (cases res3)
        case (Inl e)
        with assms(5) 1 2 3 r1 r2 have "res = Inl e" "en' = en3" by (simp_all add: tear_down_def)
        with ret vis ord Inl show ?thesis by (simp add: torn_down_def notify_def)
      next
        case (Inr u)
        with assms(5) 1 2 3 r1 r2 have eq: "res = Inr ()" "en' = deregister w run en3" by (simp_all add: tear_down_def)
        from ret Inr obtain es' where "cancels UNIV es'" "hist (en_store en3) = (hist (en_store en2))(w := hist (en_store en2) w @ es')"
          by (auto simp: notify_def)
        with es vis have h: "cancels UNIV (es @ es')" "hist (en_store en3) = (hist (en_store en))(w := hist (en_store en) w @ es @ es')"
          by auto
        from ret Inr have "outstanding_deadline_timer parse_uuid (hist (en_store en3) w) run = None"
          "en_completions en3 (wh_completion hnd) = Some (OutcomeTimedOut WORKFLOW_TIMEOUT_DESCRIPTOR)" by (simp_all add: notify_def)
        with h show ?thesis unfolding eq torn_down_def
          by (intro conjI exI [of _ "es @ es'"]) (simp_all add: deregister_def registry_remove_get)
      qed
    qed
  qed
qed

end

section \<open>Properties\<close>

text \<open>C16: on an engine whose recorders are all fresh, over a libSQL store whose histories are proper, however the
  locked sections of complete, fail, cancel, continue-as-new, process exit and deadline interleave with each
  other, with starts, with recorders taken up anew and with every other recording: a history never holds
  two terminals of one lease.  Between any two of them a run is started or reopened.\<close>

theorem one_terminal_per_lease:
  assumes "(life_step parse_uuid libsql_store ls_inv ls_hist)\<^sup>*\<^sup>* en en'" and "ls_inv (en_store en)"
    and "\<forall>cell. rc_run_id (en_recorders en cell) = None"
    and "\<forall>w. proper_terminals (ls_hist (en_store en) w) \<and> distinct_runs (ls_hist (en_store en) w)"
    and "i < j" and "j < length (ls_hist (en_store en') w)"
    and "is_end (ls_hist (en_store en') w ! i)" and "is_end (ls_hist (en_store en') w ! j)"
  shows "\<exists>k. i < k \<and> k < j \<and> opens_lease (ls_hist (en_store en') w ! k)"
proof -
  have "life_inv ls_inv ls_hist en" using assms(2-4) by (simp add: life_inv_def)
  with assms(1) have "life_inv ls_inv ls_hist en'"
    by (induction rule: rtranclp_induct) (auto intro: libsql.life_step_inv)
  then show ?thesis using two_terminals [OF _ _ assms(5-8)] by (simp add: life_inv_def)
qed

text \<open>C17: an elapsed deadline of a registered run that has no terminal, or whose own timeout is recorded
  already, handled without interference over a libSQL store.  Whatever step fails, the deadline stays outstanding and the
  handle registered, so that a later fire comes back here; the timeout is recorded at most once, and after it only
  cancellations are.  When the handler returns successfully the deadline is retired, the awaiters have been told and
  the run is deregistered.  The one assumption on the history: no second live timer names the run's deadline.\<close>

theorem deadline_teardown:
  assumes "ls_inv (en_store en)" and "registry_get w run (en_registry en) = Some hnd"
    and "rc_workflow_id (en_recorders en (wh_recorder hnd)) = w"
    and "terminal_outcome_from_history (ls_hist (en_store en) w) run = None
      \<or> (\<exists>d. terminal_outcome_from_history (ls_hist (en_store en) w) run = Some (OutcomeTimedOut d))"
    and "outstanding_deadline_timer parse_uuid (ls_hist (en_store en) w) run = Some t"
    and "\<forall>u \<in> set (live_timers_in_active_segment (ls_hist (en_store en) w)). deadline_run_id parse_uuid u = Some run \<longrightarrow> u = t"
    and "drive_timed_out parse_uuid runtime libsql_store (\<lambda>_ x. x) now w run en = (res, en')"
  shows "(\<exists>ts es. ls_hist (en_store en') w = ls_hist (en_store en) w @ ts @ es \<and> cancels UNIV es
        \<and> (ts = [] \<or> terminal_outcome_from_history (ls_hist (en_store en) w) run = None
             \<and> (\<exists>env. ts = [WorkflowTimedOut env WORKFLOW_TIMEOUT_DESCRIPTOR])))
    \<and> (case res of
         Inl _ \<Rightarrow> outstanding_deadline_timer parse_uuid (ls_hist (en_store en') w) run = Some t
           \<and> registry_get w run (en_registry en') = Some hnd
       | Inr _ \<Rightarrow> outstanding_deadline_timer parse_uuid (ls_hist (en_store en') w) run = None
           \<and> registry_get w run (en_registry en') = None
           \<and> en_completions en' (wh_completion hnd) = Some (OutcomeTimedOut WORKFLOW_TIMEOUT_DESCRIPTOR))"
proof (cases "terminal_outcome_from_history (ls_hist (en_store en) w) run")
  case (Some x)
  with assms(4) obtain d where "x = OutcomeTimedOut d" by auto
  with Some assms(2,7) have down: "tear_down parse_uuid runtime libsql_store (\<lambda>_ x. x) now hnd w run en = (res, en')"
    by (simp add: drive_timed_out_def decide_disposition_def libsql.read_back [OF assms(1)])
  from libsql_timer.tear_down_alone [OF assms(1,3,5,6) down] obtain es where
    "cancels UNIV es" "ls_hist (en_store en') w = ls_hist (en_store en) w @ es"
    by (auto simp: torn_down_def dest: fun_cong [where x = w])
  then have "\<exists>ts es. ls_hist (en_store en') w = ls_hist (en_store en) w @ ts @ es \<and> cancels UNIV es \<and> ts = []" by auto
  with libsql_timer.tear_down_alone [OF assms(1,3,5,6) down] assms(2) Some show ?thesis
    by (simp add: torn_down_def split: sum.splits)
next
  case None
  let ?h = "ls_hist (en_store en) w"
  have op: "recording_op libsql_store now (record_workflow_timed_out libsql_store now d) (\<lambda>w env. WorkflowTimedOut env d)" for d
    by (rule recording_op.intros)
  obtain res1 r s where rec: "record_workflow_timed_out libsql_store now WORKFLOW_TIMEOUT_DESCRIPTOR
      (en_recorders en (wh_recorder hnd)) (en_store en) = (res1, r, s)" by (metis prod_cases3)
  let ?en = "put_recorder (wh_recorder hnd) r s en"
  note post = libsql.recording_op_cases [OF op assms(1) rec]
  show ?thesis
  proof (cases res1)
    case (Inl e)
    with None assms(2,5,7) rec post show ?thesis
      by (auto simp: drive_timed_out_def decide_disposition_def libsql.read_back [OF assms(1)] put_recorder_def
          intro!: exI [of _ "[] :: event list"] dest: fun_cong [where x = w])
  next
    case (Inr u)
    with None assms(2,5,7) rec have down: "tear_down parse_uuid runtime libsql_store (\<lambda>_ x. x) now hnd w run ?en = (res, en')"
      by (simp add: drive_timed_out_def decide_disposition_def libsql.read_back [OF assms(1)])
    obtain env where s: "ls_inv s" "rc_workflow_id r = w" "ls_hist s w = ?h @ [WorkflowTimedOut env WORKFLOW_TIMEOUT_DESCRIPTOR]"
      using post Inr assms(3) by (auto dest: fun_cong [where x = w])
    have en: "ls_inv (en_store ?en)" "rc_workflow_id (en_recorders ?en (wh_recorder hnd)) = w"
      "outstanding_deadline_timer parse_uuid (ls_hist (en_store ?en) w) run = Some t"
      "\<forall>u \<in> set (live_timers_in_active_segment (ls_hist (en_store ?en) w)). deadline_run_id parse_uuid u = Some run \<longrightarrow> u = t"
      using s assms(5,6) by (simp_all add: outstanding_timed_out live_timers_timed_out)
    note torn = libsql_timer.tear_down_alone [OF en down]
    then obtain es where "cancels UNIV es" "ls_hist (en_store en') w = ?h @ [WorkflowTimedOut env WORKFLOW_TIMEOUT_DESCRIPTOR] @ es"
      using s by (auto simp: torn_down_def dest: fun_cong [where x = w])
    then have "\<exists>ts es. ls_hist (en_store en') w = ?h @ ts @ es \<and> cancels UNIV es
        \<and> (ts = [] \<or> (\<exists>env. ts = [WorkflowTimedOut env WORKFLOW_TIMEOUT_DESCRIPTOR]))" by blast
    with torn assms(2) None show ?thesis
      by (simp add: torn_down_def put_recorder_def split: sum.splits)
  qed
qed

section \<open>Witnesses\<close>

lemma s_cancelled_reopened:
  "contiguous [s_started 1, WorkflowCancelled (s_env 2) ''stop'', WorkflowReopened (s_env 3) s_run []]"
  "active_run [s_started 1, WorkflowCancelled (s_env 2) ''stop'', WorkflowReopened (s_env 3) s_run []] = Some s_run"
  by (simp_all add: seq_def)

lemma s_proper:
  "proper_terminals [s_started 1, WorkflowCancelled (s_env 2) ''stop'', WorkflowReopened (s_env 3) s_run []]"
proof -
  have "proper_terminals (([] @ [s_started 1]) @ [WorkflowCancelled (s_env 2) ''stop''] @ [WorkflowReopened (s_env 3) s_run []])"
    unfolding append_assoc [symmetric] proper_terminals_snoc
    by (simp add: is_end_def terminal_outcome_from_history_def run_segment_def current_lease_terminal_def)
       (simp add: proper_terminals_def)
  then show ?thesis by simp
qed

lemma s_read: "contiguous h \<Longrightarrow> es_read_history libsql_store s_workflow (s_database h) = Inr h"
  using libsql.read_back [OF s_database_inv, of h s_workflow] by (simp add: s_database_rows)

lemma s_deadline:
  "outstanding_deadline_timer decimal_parse [s_started 1, TimerStarted (s_env 2) (Named ''deadline:1'') 500] s_run = Some (Named ''deadline:1'')"
proof -
  have "show_nat (Suc 0) = ''1''" by (subst show_nat.simps) (simp add: digit_char_def char_of_def bit_Suc_0_iff)
  then have "decimal_parse ''1'' = Some 1" using decimal_parse_show [of 1] by (simp add: decimal_uuid_def)
  then show ?thesis
    by (simp add: outstanding_deadline_timer_def deadline_step_def is_deadline_timer_def DEADLINE_TIMER_PREFIX_def
        timer_name_def deadline_run_id_def strip_prefix_def)
qed

text \<open>A run that was cancelled and reopened fails: two terminals, with the reopening between them.\<close>

theorem one_terminal_per_lease_witness:
  "let h = [s_started 1, WorkflowCancelled (s_env 2) ''stop'', WorkflowReopened (s_env 3) s_run []];
       en = (s_engine h)\<lparr>en_recorders := (\<lambda>_. recorder_new s_workflow)\<rparr>
   in \<exists>en' k. (life_step decimal_parse libsql_store ls_inv ls_hist)\<^sup>*\<^sup>* en en'
     \<and> length (ls_hist (en_store en') s_workflow) = 4
     \<and> 1 < k \<and> k < (3 :: nat) \<and> opens_lease (ls_hist (en_store en') s_workflow ! k)"
proof -
  let ?h = "[s_started 1, WorkflowCancelled (s_env 2) ''stop'', WorkflowReopened (s_env 3) s_run []]"
  let ?en = "(s_engine ?h)\<lparr>en_recorders := (\<lambda>_. recorder_new s_workflow)\<rparr>"
  have inv: "ls_inv (en_store ?en)" using s_database_inv [OF s_cancelled_reopened(1)] by simp
  let ?r = "recorder_with_visibility (recorder_resume_at s_workflow 3) s_run"
  let ?en1 = "put_recorder 0 ?r (en_store ?en) ?en"
  have 1: "life_step decimal_parse libsql_store ls_inv ls_hist ?en ?en1"
    by (rule life_step.adopted) (simp_all add: s_database_rows s_cancelled_reopened(2) recorder_new_def recorder_resume_at_def from_head_def)
  let ?err = "\<lparr>we_message = ''boom'', we_details = None\<rparr>"
  have rec: "recording_op libsql_store 9 (record_workflow_failed libsql_store 9 ?err) (\<lambda>w env. WorkflowFailed env ?err)"
    by (rule recording_op.intros)
  have "in_step ls_hist ?r (en_store ?en)" "current_head ?r \<noteq> - 1"
    by (simp_all add: s_database_rows in_step_def recorder_with_visibility_def recorder_resume_at_def current_head_def from_head_def)
  from libsql.op_appends [OF rec inv this] obtain r s where
    2: "record_workflow_failed libsql_store 9 ?err ?r (en_store ?en) = (Inr (), r, s)"
       "ls_hist s s_workflow = ?h @ [WorkflowFailed (next_env ?r 9) ?err]"
    by (elim exE conjE) (rule that, assumption, drule fun_cong [where x = s_workflow], simp add: s_database_rows recorder_with_visibility_def recorder_resume_at_def)
  have lease: "terminal_outcome_from_history ?h s_run = None"
    by (simp add: terminal_outcome_from_history_def run_segment_def current_lease_terminal_def)
  let ?en2 = "put_recorder 0 r s ?en1"
  have sec: "terminal_section decimal_parse libsql_store 9 (reject_if_recorded_terminal s_workflow s_run)
      (record_workflow_failed libsql_store 9 ?err) s_workflow s_run 0 ?en1 = (Inr (), ?en2)"
    using 2(1) lease s_read [OF s_cancelled_reopened(1)] by (simp add: terminal_section_def reject_if_recorded_terminal_def
        retire_run_deadline_def outstanding_deadline_timer_def deadline_step_def)
  have 3: "life_step decimal_parse libsql_store ls_inv ls_hist ?en1 ?en2"
    by (rule life_step.ended [of _ s_handle, OF _ ending_op.intros(2) [where err = ?err] disjI1 [OF refl]])
       (use sec in \<open>simp_all add: owns_def s_handle_def s_handle_for_def recorder_with_visibility_def recorder_resume_at_def\<close>)
  have steps: "(life_step decimal_parse libsql_store ls_inv ls_hist)\<^sup>*\<^sup>* ?en ?en2" using 1 3 by auto
  have h2: "ls_hist (en_store ?en2) s_workflow = ?h @ [WorkflowFailed (next_env ?r 9) ?err]" using 2(2) by simp
  have "\<exists>k. 1 < k \<and> k < 3 \<and> opens_lease (ls_hist (en_store ?en2) s_workflow ! k)"
  proof (rule one_terminal_per_lease [OF steps inv])
    show "\<forall>w. proper_terminals (ls_hist (en_store ?en) w) \<and> distinct_runs (ls_hist (en_store ?en) w)"
    proof
      fix w
      have "proper_terminals []" "distinct_runs []" "distinct_runs ?h" by (simp_all add: proper_terminals_def distinct_runs_def List.map_filter_def)
      with s_proper show "proper_terminals (ls_hist (en_store ?en) w) \<and> distinct_runs (ls_hist (en_store ?en) w)"
        by (simp add: s_database_rows)
    qed
  qed (unfold h2, simp_all add: is_end_def recorder_new_def recorder_resume_at_def)
  moreover have "length (ls_hist (en_store ?en2) s_workflow) = 4" unfolding h2 by simp
  ultimately show ?thesis using steps unfolding Let_def by blast
qed

theorem deadline_teardown_witness:
  "let h = [s_started 1, TimerStarted (s_env 2) (Named ''deadline:1'') 500]
   in \<exists>en' env. drive_timed_out decimal_parse None libsql_store (\<lambda>_ x. x) 600 s_workflow s_run (s_engine h)
        = (Inl (RuntimeDropped s_workflow s_run), en')
      \<and> ls_hist (en_store en') s_workflow = h @ [WorkflowTimedOut env WORKFLOW_TIMEOUT_DESCRIPTOR]
      \<and> registry_get s_workflow s_run (en_registry en') = Some s_handle"
proof -
  let ?h = "[s_started 1, TimerStarted (s_env 2) (Named ''deadline:1'') 500]" and ?t = "Named ''deadline:1''"
  let ?e = "s_engine ?h"
  have inv: "ls_inv (en_store ?e)" by (simp add: s_database_inv seq_def)
  have h: "ls_hist (en_store ?e) s_workflow = ?h" by (simp add: s_database_rows)
  have out: "outstanding_deadline_timer decimal_parse ?h s_run = Some ?t" by (rule s_deadline)
  have live: "live_timers_in_active_segment ?h = [?t]"
    by (simp add: live_timers_in_active_segment_def active_segment_def rposition_def)
  have lease: "terminal_outcome_from_history ?h s_run = None"
    by (simp add: terminal_outcome_from_history_def run_segment_def current_lease_terminal_def)
  have reg: "registry_get s_workflow s_run (en_registry ?e) = Some s_handle"
    by (simp add: registry_get_def s_engine_def)
  have own: "rc_workflow_id (en_recorders ?e (wh_recorder s_handle)) = s_workflow"
    by (simp add: s_engine_def s_recorder_def recorder_resume_at_def)
  have op: "recording_op libsql_store 600 (record_workflow_timed_out libsql_store 600 d) (\<lambda>w env. WorkflowTimedOut env d)" for d
    by (rule recording_op.intros)
  have "in_step ls_hist (s_recorder ?h) (en_store ?e)" "current_head (s_recorder ?h) \<noteq> - 1" using s_head [of ?h] by simp_all
  from libsql.op_appends [OF op inv this, of WORKFLOW_TIMEOUT_DESCRIPTOR] obtain r s where
    1: "record_workflow_timed_out libsql_store 600 WORKFLOW_TIMEOUT_DESCRIPTOR (s_recorder ?h) (en_store ?e) = (Inr (), r, s)"
       "ls_inv s" "ls_hist s s_workflow = ?h @ [WorkflowTimedOut (next_env (s_recorder ?h) 600) WORKFLOW_TIMEOUT_DESCRIPTOR]"
    by (elim exE conjE) (rule that, assumption, assumption, drule fun_cong [where x = s_workflow], simp add: s_database_rows s_recorder_simps)
  let ?en = "put_recorder 0 r s ?e"
  have quiet: "outstanding_deadline_timer decimal_parse (ls_hist s s_workflow) s_run = Some ?t"
    "live_timers_in_active_segment (ls_hist s s_workflow) = [?t]"
    unfolding 1(3) outstanding_timed_out live_timers_timed_out using out live by simp_all
  have put_same: "put_recorder (wh_recorder s_handle) (en_recorders ?en (wh_recorder s_handle)) s ?en = ?en"
    by (simp add: put_recorder_def s_handle_def s_handle_for_def)
  have read: "es_read_history libsql_store s_workflow (s_database ?h) = Inr ?h" by (rule s_read) (simp add: seq_def)
  have dec: "decide_disposition decimal_parse libsql_store 600 s_workflow s_run 0 ?e = (Inr Appended, ?en)"
    using 1(1) out lease read by (simp add: decide_disposition_def)
  have "tear_down decimal_parse None libsql_store (\<lambda>_ x. x) 600 s_handle s_workflow s_run ?en
      = (Inl (RuntimeDropped s_workflow s_run), ?en)"
    by (simp add: tear_down_def retiring_section_def record_ordinary_timer_retirements_def libsql.read_back [OF 1(2)] quiet put_same)
  then have 2: "drive_timed_out decimal_parse None libsql_store (\<lambda>_ x. x) 600 s_workflow s_run ?e
      = (Inl (RuntimeDropped s_workflow s_run), ?en)"
    using dec reg by (simp add: drive_timed_out_def s_handle_def s_handle_for_def)
  from deadline_teardown [OF inv reg own _ _ _ 2] have "registry_get s_workflow s_run (en_registry ?en) = Some s_handle"
    unfolding h lease out live by simp
  with 1(3) 2 show ?thesis unfolding Let_def by (intro exI conjI) simp_all
qed

section \<open>A continuation started twice\<close>

abbreviation s_start :: "run_id \<Rightarrow> nat \<Rightarrow> libsql_state starter" where
  "s_start run cell \<equiv> start_workflow_with_options s_start_seams decimal_uuid s_calendar libsql_store
     (libsql_timers decimal_uuid (\<lambda>_. [])) [] (\<lambda>_ x. x) 100 s_workflow run cell"

abbreviation s_process_exit :: "libsql_state engine \<Rightarrow> libsql_state engine" where
  "s_process_exit en \<equiv> snd (handle_process_exit decimal_parse (\<lambda>_. []) libsql_store (s_start (RunId 2) 1) (\<lambda>_ x. x) 9
     s_handle (Inr (ProcessCompleted s_payload)) en)"

lemma s_handle_sel: "wh_recorder s_handle = 0" "wh_workflow_id s_handle = s_workflow" "wh_run_id s_handle = s_run"
  "wh_workflow_type s_handle = ''order''"
  by (simp_all add: s_handle_def s_handle_for_def)

lemma s_replacement:
  assumes "ls_inv (en_store en)" and "length (ls_hist (en_store en) s_workflow) + 2 < 2 ^ 64"
  shows "\<exists>hnd en'. s_start run cell ''order'' s_payload (replacement_options s_handle s_workflow s_run) en = (Inr hnd, en')
    \<and> ls_inv (en_store en')
    \<and> (\<exists>es. ls_hist (en_store en') s_workflow = ls_hist (en_store en) s_workflow @ es \<and> length es \<le> 2
         \<and> length (filter (starts_child_of s_run) es) = 1)"
proof -
  have opts: "replacement_options s_handle s_workflow s_run = s_options\<lparr>so_namespace := Some ''default''\<rparr>"
    by (simp add: replacement_options_def s_handle_def s_handle_for_def)
  from s_start_ok [OF assms, of "\<lambda>_. []" s_workflow run cell "Some ''default''"] obtain hnd en' where
    1: "s_start run cell ''order'' s_payload (replacement_options s_handle s_workflow s_run) en = (Inr hnd, en')"
    unfolding opts by blast
  note post = libsql_timer.start_alone [OF assms(1) 1]
  from post obtain ss ds armed v where "ls_inv (en_store en')"
    "ls_hist (en_store en') s_workflow = ls_hist (en_store en) s_workflow @ ss @ ds"
    "start_events s_workflow \<lparr>wsr_workflow_type = ''order'', wsr_input = s_payload, wsr_run_id = run,
           wsr_parent_run_id = Some s_run, wsr_package_version = v\<rparr> [] ss" "deadline_events armed ds"
    by (auto simp: opts dest!: fun_cong [where x = s_workflow])
  moreover from this have "length (ss @ ds) \<le> 2 \<and> length (filter (starts_child_of s_run) (ss @ ds)) = 1"
    by (cases "(armed, ds)" rule: deadline_events.cases) (auto simp: start_events_def)
  ultimately show ?thesis using 1 by blast
qed

lemma s_exit_replaces:
  assumes "ls_inv (en_store en)" and "ls_hist (en_store en) s_workflow = [s_started 1, WorkflowContinuedAsNew env s_payload None s_run]"
  shows "ls_inv (en_store (s_process_exit en))
    \<and> (\<exists>es. ls_hist (en_store (s_process_exit en)) s_workflow = ls_hist (en_store en) s_workflow @ es \<and> length es \<le> 2
         \<and> length (filter (starts_child_of s_run) es) = 1)"
proof -
  let ?h = "[s_started 1, WorkflowContinuedAsNew env s_payload None s_run]" and ?out = "OutcomeContinuedAsNew s_payload None s_run"
  have h: "terminal_outcome_from_history ?h s_run = Some ?out" "outstanding_deadline_timer decimal_parse ?h s_run = None"
    by (simp_all add: terminal_outcome_from_history_def run_segment_def current_lease_terminal_def
        outstanding_deadline_timer_def deadline_step_def)
  have same: "put_recorder c (en_recorders en c) (en_store en) en = en" for c by (simp add: put_recorder_def)
  have 1: "exit_section decimal_parse (\<lambda>_. []) libsql_store 9 s_handle (Inr (ProcessCompleted s_payload)) en = (Inr (Inl ?out), en)"
    by (simp add: exit_section_def s_handle_sel libsql.read_back [OF assms(1)] assms(2) h retire_run_deadline_def same)
  let ?en = "notify (wh_completion s_handle) ?out en"
  have read: "es_read_history libsql_store s_workflow (en_store en) = Inr ?h" using libsql.read_back [OF assms(1)] assms(2) by simp
  then obtain en2 where 2: "reconcile_terminal_registry libsql_store s_workflow s_run ?en = (Inr (), en2)" "en_store en2 = en_store en"
    by (simp add: reconcile_terminal_registry_def notify_def)
  from s_replacement [of en2 "RunId 2" 1] assms 2(2) obtain hnd en3 es where
    3: "s_start (RunId 2) 1 ''order'' s_payload (replacement_options s_handle s_workflow s_run) en2 = (Inr hnd, en3)" "ls_inv (en_store en3)"
      "ls_hist (en_store en3) s_workflow = ls_hist (en_store en2) s_workflow @ es" "length es \<le> 2"
      "length (filter (starts_child_of s_run) es) = 1"
    by auto
  have "s_process_exit en = en3"
    using 1 2 3(1) read by (simp add: handle_process_exit_def s_handle_sel start_continuation_replacement_def)
  with 3(2-5) 2(2) show ?thesis by auto
qed

text \<open>C35: the check of the exit handler that a continued run has been replaced already is not atomic with the
  start.  If a process exits by itself between the terminal that \<^verbatim>\<open>continue_as_new\<close> records and the start that
  follows, the exit handler sees the terminal and no replacement, and starts one; continue-as-new starts its own
  after it and succeeds.  The history then holds two starts that continue the same run.\<close>

theorem continuation_started_twice:
  "\<exists>hnd en'. continue_as_new decimal_parse libsql_store (\<lambda>_. Inr True) (s_start (RunId 3) 2)
       (\<lambda>n. if n = 1 then s_process_exit else id) 9 s_workflow s_run s_payload None (s_engine [s_started 1]) = (Inr hnd, en')
     \<and> length (filter (starts_child_of s_run) (ls_hist (en_store en') s_workflow)) = 2"
proof -
  let ?h = "[s_started 1]" and ?can = "\<lambda>env. WorkflowContinuedAsNew env s_payload None s_run"
  let ?e = "s_engine ?h"
  have inv: "ls_inv (en_store ?e)" by (simp add: s_database_inv seq_def)
  have op: "recording_op libsql_store 9 (record_workflow_continued_as_new libsql_store 9 s_payload None s_run) (\<lambda>w. ?can)"
    by (rule recording_op.intros)
  have "in_step ls_hist (s_recorder ?h) (en_store ?e)" "current_head (s_recorder ?h) \<noteq> - 1" using s_head [of ?h] by simp_all
  from libsql.op_appends [OF op inv this] obtain r s env where
    1: "record_workflow_continued_as_new libsql_store 9 s_payload None s_run (s_recorder ?h) (en_store ?e) = (Inr (), r, s)"
       "ls_inv s" "ls_hist s s_workflow = ?h @ [?can env]"
    by (elim exE conjE) (rule that, assumption, assumption, drule fun_cong [where x = s_workflow],
        simp add: s_database_rows s_recorder_simps)
  let ?en = "put_recorder 0 r s ?e"
  have h1: "terminal_outcome_from_history ?h s_run = None" "outstanding_deadline_timer decimal_parse ?h s_run = None"
    "guard_no_pending_work ?h = Inr ()"
    by (simp_all add: terminal_outcome_from_history_def run_segment_def current_lease_terminal_def
        outstanding_deadline_timer_def deadline_step_def guard_no_pending_work_def)
  have sec: "terminal_section decimal_parse libsql_store 9
      (\<lambda>h. bind_res (reject_if_recorded_terminal s_workflow s_run h) (\<lambda>_. guard_no_pending_work h))
      (record_workflow_continued_as_new libsql_store 9 s_payload None s_run) s_workflow s_run 0 ?e = (Inr (), ?en)"
    using 1(1) h1 s_read [of ?h] by (simp add: terminal_section_def reject_if_recorded_terminal_def retire_run_deadline_def seq_def)
  from s_exit_replaces [of ?en env] 1(2,3) obtain es where
    2: "ls_inv (en_store (s_process_exit ?en))"
       "ls_hist (en_store (s_process_exit ?en)) s_workflow = ?h @ [?can env] @ es" "length es \<le> 2"
       "length (filter (starts_child_of s_run) es) = 1" by auto
  from s_replacement [OF 2(1), of "RunId 3" 2] 2(2,3) obtain hnd en' es' where
    3: "s_start (RunId 3) 2 ''order'' s_payload (replacement_options s_handle s_workflow s_run) (s_process_exit ?en) = (Inr hnd, en')"
       "ls_hist (en_store en') s_workflow = ls_hist (en_store (s_process_exit ?en)) s_workflow @ es'"
       "length (filter (starts_child_of s_run) es') = 1"
    by auto
  have "registry_get s_workflow s_run (en_registry ?e) = Some s_handle" by (simp add: registry_get_def s_engine_def)
  then have "continue_as_new decimal_parse libsql_store (\<lambda>_. Inr True) (s_start (RunId 3) 2)
       (\<lambda>n. if n = 1 then s_process_exit else id) 9 s_workflow s_run s_payload None ?e
     = (Inr hnd, deregister s_workflow s_run (notify (wh_completion s_handle) (OutcomeContinuedAsNew s_payload None s_run) en'))"
    using sec 3(1) by (simp add: continue_as_new_def registered_handle_def s_handle_sel)
  then show ?thesis using 3(2,3) 2(2,4) by (simp add: deregister_def notify_def)
qed

end
