(* ===== verification/Worker_Registry.thy ===== *)
theory Worker_Registry
  imports Namespace_Registry Reopen
begin

text \<open>
  \<^verbatim>\<open>crates/aion-server/src/worker/registry.rs\<close>: the workers connected to a server, indexed by the pool they serve
  (namespace and task queue) and the activity type within it, with one round-robin cursor per index entry; and the
  two gates a registration passes (\<^verbatim>\<open>namespace/minter.rs\<close> and the placement admission).  An operation holds the one
  mutex for its whole body, except the drain broadcast, which lists the workers and then removes the unreachable ones one
  by one: here it is one step, and each removal is also a step of its own.  A registration may be overtaken before each of
  its gates; within a gate its namespaces are handled without interference.  A \<^verbatim>\<open>BTreeSet\<close> is a sorted list without duplicates, a \<^verbatim>\<open>BTreeMap\<close> or \<^verbatim>\<open>HashMap\<close> an
  association list; where the code depends on the order of the former, the values are sorted.  The cursor is a \<^verbatim>\<open>usize\<close>
  of 64 bits and wraps.  The channel behind a worker is its number; whether it still accepts a message is an argument.
  Metrics and the events published to the console are not modelled, nor is the authorization that
  yields the namespaces of a registration.

  The lemmas show that the index always agrees with the connected workers, that a lookup returns exactly the workers
  that serve the pool, and that lookups of a pool take turns.
\<close>

section \<open>Workers\<close>

datatype worker_id = WorkerId (worker_value: u64)

instantiation worker_id :: linorder
begin

definition less_eq_worker_id :: "worker_id \<Rightarrow> worker_id \<Rightarrow> bool" where
  "less_eq_worker_id a b \<longleftrightarrow> worker_value a \<le> worker_value b"

definition less_worker_id :: "worker_id \<Rightarrow> worker_id \<Rightarrow> bool" where
  "less_worker_id a b \<longleftrightarrow> worker_value a < worker_value b"

instance
  by standard (auto simp: less_eq_worker_id_def less_worker_id_def intro: worker_id.expand)

end

datatype intervention_primitive = InjectMessage | CancelPrimitive | PauseResume | UpdateBudget | RespondToApproval

datatype worker_delivery = Grpc nat | Liminal nat

record pool_address =
  pa_namespace :: string
  pa_task_queue :: string

record activity_key =
  ak_pool :: pool_address
  ak_activity_type :: string

record worker_handle =
  wk_id :: worker_id
  wk_namespaces :: "string list"
  wk_task_queue :: string
  wk_node :: "string option"
  wk_activity_types :: "string list"
  wk_delivery :: worker_delivery
  wk_capabilities :: "intervention_primitive list"

record registry_state =
  rs_next_worker_id :: u64
  rs_workers :: "(worker_id \<times> worker_handle) list"
  rs_by_activity :: "(activity_key \<times> (worker_id \<times> worker_handle) list) list"
  rs_rotation :: "(activity_key \<times> u64) list"

definition registry_state_default :: registry_state where
  "registry_state_default = \<lparr>rs_next_worker_id = 1, rs_workers = [], rs_by_activity = [], rs_rotation = []\<rparr>"

definition pool_new :: "string \<Rightarrow> string \<Rightarrow> pool_address" where
  "pool_new namespace task_queue =
     \<lparr>pa_namespace = namespace, pa_task_queue = (if task_queue = [] then DEFAULT_TASK_QUEUE else task_queue)\<rparr>"

definition key_new :: "string \<Rightarrow> string \<Rightarrow> string \<Rightarrow> activity_key" where
  "key_new namespace task_queue activity_type =
     \<lparr>ak_pool = pool_new namespace task_queue, ak_activity_type = activity_type\<rparr>"

definition btree_set :: "string list \<Rightarrow> string list" where
  "btree_set xs = sort (remdups xs)"

fun sender :: "worker_handle \<Rightarrow> nat option" where
  "sender h = (case wk_delivery h of Grpc channel \<Rightarrow> Some channel | Liminal _ \<Rightarrow> None)"

definition optional_node :: "string \<Rightarrow> string option" where
  "optional_node node = (if node = [] then None else Some node)"

fun worker_matches_node :: "string option \<Rightarrow> worker_handle \<Rightarrow> bool" where
  "worker_matches_node None h = True"
| "worker_matches_node (Some node) h = (wk_node h = Some node)"

section \<open>Registration\<close>

text \<open>\<^verbatim>\<open>by_activity.entry(key).or_default().insert(worker_id, handle)\<close>.\<close>

definition index_insert ::
  "worker_id \<Rightarrow> worker_handle \<Rightarrow> activity_key \<Rightarrow> (activity_key \<times> (worker_id \<times> worker_handle) list) list
    \<Rightarrow> (activity_key \<times> (worker_id \<times> worker_handle) list) list" where
  "index_insert wid h key index =
     AList.update key (AList.update wid h (case map_of index key of None \<Rightarrow> [] | Some m \<Rightarrow> m)) index"

text \<open>The keys a worker is filed under, in the order of the nested loops.\<close>

definition worker_keys :: "worker_handle \<Rightarrow> activity_key list" where
  "worker_keys h =
     concat (map (\<lambda>ns. map (key_new ns (wk_task_queue h)) (wk_activity_types h)) (wk_namespaces h))"

definition register_delivery_with_capabilities ::
  "string list \<Rightarrow> string \<Rightarrow> string option \<Rightarrow> string list \<Rightarrow> worker_delivery \<Rightarrow> intervention_primitive list \<Rightarrow> registry_state
    \<Rightarrow> worker_id \<times> registry_state" where
  "register_delivery_with_capabilities namespaces task_queue node activity_types delivery capabilities st =
     (let wid = WorkerId (rs_next_worker_id st);
          h = \<lparr>wk_id = wid, wk_namespaces = btree_set namespaces, wk_task_queue = task_queue, wk_node = node,
               wk_activity_types = btree_set activity_types, wk_delivery = delivery, wk_capabilities = capabilities\<rparr>
      in (wid,
          st\<lparr>rs_next_worker_id := saturating_add (rs_next_worker_id st) 1,
             rs_by_activity := fold (index_insert wid h) (worker_keys h) (rs_by_activity st),
             rs_workers := AList.update wid h (rs_workers st)\<rparr>))"

definition register_delivery ::
  "string list \<Rightarrow> string \<Rightarrow> string option \<Rightarrow> string list \<Rightarrow> worker_delivery \<Rightarrow> registry_state \<Rightarrow> worker_id \<times> registry_state" where
  "register_delivery namespaces task_queue node activity_types delivery =
     register_delivery_with_capabilities namespaces task_queue node activity_types delivery []"

definition register_namespaces ::
  "string list \<Rightarrow> string \<Rightarrow> string option \<Rightarrow> string list \<Rightarrow> nat \<Rightarrow> registry_state \<Rightarrow> worker_id \<times> registry_state" where
  "register_namespaces namespaces task_queue node activity_types channel =
     register_delivery namespaces task_queue node activity_types (Grpc channel)"

section \<open>Lookup\<close>

definition workers_for ::
  "string \<Rightarrow> string \<Rightarrow> string \<Rightarrow> string option \<Rightarrow> registry_state \<Rightarrow> worker_handle list \<times> registry_state" where
  "workers_for namespace task_queue activity_type node st =
     (let key = key_new namespace task_queue activity_type;
          workers = (case map_of (rs_by_activity st) key of
                       None \<Rightarrow> []
                     | Some m \<Rightarrow> filter (worker_matches_node node) (map snd m))
      in if workers = [] then ([], st)
         else
           (let sorted = sort_key wk_id workers;
                idx = (case map_of (rs_rotation st) key of None \<Rightarrow> 0 | Some i \<Rightarrow> i);
                start = unat idx mod length sorted
            in (drop start sorted @ take start sorted, st\<lparr>rs_rotation := AList.update key (idx + 1) (rs_rotation st)\<rparr>)))"

definition select_worker ::
  "string \<Rightarrow> string \<Rightarrow> string \<Rightarrow> string option \<Rightarrow> registry_state \<Rightarrow> worker_handle option" where
  "select_worker namespace task_queue activity_type node st =
     (case map_of (rs_by_activity st) (key_new namespace task_queue activity_type) of
        None \<Rightarrow> None
      | Some m \<Rightarrow> (case sort_key wk_id (filter (worker_matches_node node) (map snd m)) of [] \<Rightarrow> None | h # _ \<Rightarrow> Some h))"

definition all_workers :: "registry_state \<Rightarrow> worker_handle list" where
  "all_workers st = map snd (sort_key fst (rs_workers st))"

definition worker_by_id :: "worker_id \<Rightarrow> registry_state \<Rightarrow> worker_handle option" where
  "worker_by_id wid st = map_of (rs_workers st) wid"

definition is_registered :: "worker_id \<Rightarrow> registry_state \<Rightarrow> bool" where
  "is_registered wid st \<longleftrightarrow> wid \<in> fst ` set (rs_workers st)"

section \<open>Removal and update\<close>

definition index_remove :: "worker_id \<Rightarrow> activity_key \<Rightarrow> registry_state \<Rightarrow> registry_state" where
  "index_remove wid key st =
     (case map_of (rs_by_activity st) key of
        None \<Rightarrow> st
      | Some m \<Rightarrow>
          (let m' = AList.delete wid m
           in if m' = []
              then st\<lparr>rs_by_activity := AList.delete key (rs_by_activity st), rs_rotation := AList.delete key (rs_rotation st)\<rparr>
              else st\<lparr>rs_by_activity := AList.update key m' (rs_by_activity st)\<rparr>))"

definition remove_worker :: "worker_id \<Rightarrow> registry_state \<Rightarrow> string list option \<times> registry_state" where
  "remove_worker wid st =
     (case map_of (rs_workers st) wid of
        None \<Rightarrow> (None, st)
      | Some h \<Rightarrow>
          (Some (wk_namespaces h), fold (index_remove wid) (worker_keys h) (st\<lparr>rs_workers := AList.delete wid (rs_workers st)\<rparr>)))"

definition deregister_worker :: "worker_id \<Rightarrow> registry_state \<Rightarrow> registry_state" where
  "deregister_worker wid st = snd (remove_worker wid st)"

definition set_intervention_capabilities ::
  "worker_id \<Rightarrow> intervention_primitive list \<Rightarrow> registry_state \<Rightarrow> bool \<times> registry_state" where
  "set_intervention_capabilities wid capabilities st =
     (if \<not> is_registered wid st then (False, st)
      else
        (let up = map (\<lambda>(i, h). (i, if i = wid then h\<lparr>wk_capabilities := capabilities\<rparr> else h))
         in (True, st\<lparr>rs_workers := up (rs_workers st), rs_by_activity := map (\<lambda>(k, m). (k, up m)) (rs_by_activity st)\<rparr>)))"

text \<open>\<open>accepts\<close> is whether \<^verbatim>\<open>try_send\<close> on a channel succeeds.\<close>

fun drain_workers :: "(nat \<Rightarrow> bool) \<Rightarrow> worker_handle list \<Rightarrow> nat \<Rightarrow> registry_state \<Rightarrow> nat \<times> registry_state" where
  "drain_workers accepts [] delivered st = (delivered, st)"
| "drain_workers accepts (h # hs) delivered st =
     (case sender h of
        None \<Rightarrow> drain_workers accepts hs delivered st
      | Some channel \<Rightarrow>
          if accepts channel then drain_workers accepts hs (delivered + 1) st
          else drain_workers accepts hs delivered (deregister_worker (wk_id h) st))"

definition broadcast_drain :: "(nat \<Rightarrow> bool) \<Rightarrow> registry_state \<Rightarrow> nat \<times> registry_state" where
  "broadcast_drain accepts st = drain_workers accepts (all_workers st) 0 st"

section \<open>The gates of a registration\<close>

text \<open>A denial on the namespace code carries what its message is formatted from.\<close>

datatype namespace_denial =
  PlacementAdmissionDenied string "string option" "string set"
| NamespaceMissing string
| NamespaceDenied string

datatype stream_failure = Lagged | StreamClosed | UpstreamClosed

datatype server_error =
  Config string
| UnsafeDataRootAncestor string string string
| TransportBind string string string
| Transport string string
| SignalListener string string
| NamespaceError namespace_denial
| EngineCall engine_error
| StoreBackend store_error
| StreamError stream_failure
| WorkerDispatch string string string
| WorkerConnectionLost string string
| LockPoisoned string
| Wire string string "string option"

datatype auto_create = Open | Closed

fun mint_or_gate ::
  "auto_create \<Rightarrow> timestamp \<Rightarrow> string list \<Rightarrow> namespace_origin \<Rightarrow> namespaces \<Rightarrow> (server_error, unit) result \<times> namespaces" where
  "mint_or_gate policy now [] origin ns = (Inr (), ns)"
| "mint_or_gate Open now (name # names) origin ns =
     (case register_namespace now name origin ns of
        (Inl e, ns') \<Rightarrow> (Inl (StoreBackend e), ns')
      | (Inr _, ns') \<Rightarrow> mint_or_gate Open now names origin ns')"
| "mint_or_gate Closed now (name # names) origin ns =
     (case get_namespace name ns of
        Inl e \<Rightarrow> (Inl (StoreBackend e), ns)
      | Inr None \<Rightarrow> (Inl (NamespaceError (NamespaceMissing name)), ns)
      | Inr (Some _) \<Rightarrow> mint_or_gate Closed now names origin ns)"

definition placement_of :: "string \<Rightarrow> namespaces \<Rightarrow> (server_error, namespace_placement) result" where
  "placement_of name ns =
     bind_res (map_err StoreBackend (get_namespace name ns))
       (\<lambda>r. Inr (case r of None \<Rightarrow> Unplaced | Some r \<Rightarrow> nr_placement r))"

fun enforce_pinned_placement :: "string option \<Rightarrow> string list \<Rightarrow> namespaces \<Rightarrow> (server_error, unit) result" where
  "enforce_pinned_placement node [] ns = Inr ()"
| "enforce_pinned_placement node (name # names) ns =
     bind_res (placement_of name ns) (\<lambda>placement.
       case placement of
         Pinned labels \<Rightarrow>
           (case node of
              Some n \<Rightarrow> if n \<in> labels then enforce_pinned_placement node names ns
                        else Inl (NamespaceError (PlacementAdmissionDenied name node labels))
            | None \<Rightarrow> Inl (NamespaceError (PlacementAdmissionDenied name node labels)))
       | _ \<Rightarrow> enforce_pinned_placement node names ns)"

text \<open>\<open>authorized\<close> is what the namespace guard answers for the caller; \<open>minter\<close> the policy of the minter, when one is
  installed; \<open>interfere\<close> what other tasks do at the two awaits on the namespace store and before the worker is inserted.\<close>

definition accept_registration ::
  "auto_create option \<Rightarrow> (nat \<Rightarrow> namespaces \<times> registry_state \<Rightarrow> namespaces \<times> registry_state) \<Rightarrow> timestamp
    \<Rightarrow> (server_error, string list) result \<Rightarrow> string \<Rightarrow> string \<Rightarrow> string list \<Rightarrow> nat
    \<Rightarrow> namespaces \<times> registry_state \<Rightarrow> (server_error, worker_id) result \<times> namespaces \<times> registry_state" where
  "accept_registration minter interfere now authorized node task_queue activity_types channel w =
     (case authorized of
        Inl e \<Rightarrow> (Inl e, w)
      | Inr names \<Rightarrow>
          (let (ns, st) = interfere 0 w;
               (minted, ns1) = (case minter of None \<Rightarrow> (Inr (), ns) | Some policy \<Rightarrow> mint_or_gate policy now names WorkerMint ns)
           in case minted of
                Inl e \<Rightarrow> (Inl e, ns1, st)
              | Inr _ \<Rightarrow>
                  (let (ns2, st2) = interfere 1 (ns1, st)
                   in case (case minter of None \<Rightarrow> Inr () | Some _ \<Rightarrow> enforce_pinned_placement (optional_node node) names ns2) of
                        Inl e \<Rightarrow> (Inl e, ns2, st2)
                      | Inr _ \<Rightarrow>
                          (let (ns3, st3) = interfere 2 (ns2, st2);
                               (wid, st4) = register_namespaces names task_queue (optional_node node) activity_types channel st3
                           in (Inr wid, ns3, st4)))))"

section \<open>The index agrees with the connected workers\<close>

definition lookup :: "(activity_key \<times> (worker_id \<times> worker_handle) list) list \<Rightarrow> activity_key \<Rightarrow> worker_id \<Rightarrow> worker_handle option" where
  "lookup index key wid = (case map_of index key of None \<Rightarrow> None | Some m \<Rightarrow> map_of m wid)"

definition index_wf :: "(activity_key \<times> (worker_id \<times> worker_handle) list) list \<Rightarrow> bool" where
  "index_wf index \<longleftrightarrow> distinct (map fst index) \<and> (\<forall>key m. map_of index key = Some m \<longrightarrow> m \<noteq> [] \<and> distinct (map fst m))"

definition filed_worker :: "(worker_id \<times> worker_handle) list \<Rightarrow> activity_key \<Rightarrow> worker_id \<Rightarrow> worker_handle option" where
  "filed_worker workers key wid =
     (case map_of workers wid of None \<Rightarrow> None | Some h \<Rightarrow> if key \<in> set (worker_keys h) then Some h else None)"

definition registry_ok :: "registry_state \<Rightarrow> bool" where
  "registry_ok st \<longleftrightarrow>
     distinct (map fst (rs_workers st)) \<and> index_wf (rs_by_activity st) \<and> distinct (map fst (rs_rotation st))
   \<and> (\<forall>wid h. map_of (rs_workers st) wid = Some h \<longrightarrow> wk_id h = wid \<and> worker_value wid < rs_next_worker_id st)
   \<and> lookup (rs_by_activity st) = filed_worker (rs_workers st)
   \<and> fst ` set (rs_rotation st) \<subseteq> fst ` set (rs_by_activity st)"

lemma registry_ids: "registry_ok st \<Longrightarrow> map_of (rs_workers st) i = Some h \<Longrightarrow> wk_id h = i \<and> worker_value i < rs_next_worker_id st"
  by (simp add: registry_ok_def)

lemma worker_keys_iff:
  "key_new ns tq ty \<in> set (worker_keys h) \<longleftrightarrow>
     ns \<in> set (wk_namespaces h) \<and> pool_new ns tq = pool_new ns (wk_task_queue h) \<and> ty \<in> set (wk_activity_types h)"
  by (auto simp: worker_keys_def key_new_def pool_new_def)

lemma worker_keys_sel [simp]: "worker_keys (h\<lparr>wk_capabilities := c\<rparr>) = worker_keys h"
  by (simp add: worker_keys_def)

lemma index_insert_wf: "index_wf index \<Longrightarrow> index_wf (index_insert wid h key index)"
  by (auto simp: index_wf_def index_insert_def distinct_update update_conv' split: option.splits if_splits)

lemma index_insert_lookup:
  "lookup (index_insert wid h key index) key' wid' =
     (if wid' = wid \<and> key' = key then Some h else lookup index key' wid')"
  by (auto simp: lookup_def index_insert_def update_conv' split: option.splits)

lemma index_insert_fold:
  "index_wf index \<Longrightarrow> index_wf (fold (index_insert wid h) keys index)
   \<and> (\<forall>key' wid'. lookup (fold (index_insert wid h) keys index) key' wid' =
        (if wid' = wid \<and> key' \<in> set keys then Some h else lookup index key' wid'))
   \<and> fst ` set index \<subseteq> fst ` set (fold (index_insert wid h) keys index)"
proof (induction keys arbitrary: index)
  case (Cons k keys)
  have "fst ` set index \<subseteq> fst ` set (index_insert wid h k index)"
    by (auto simp: index_insert_def update_conv' simp flip: dom_map_of_conv_image_fst)
  note keys = this
  from Cons.IH [OF index_insert_wf [OF Cons.prems, of wid h k]] subset_trans [OF keys] show ?case
    by (simp add: index_insert_lookup)
qed simp

lemma register_ok:
  assumes "registry_ok st" and "rs_next_worker_id st \<noteq> - 1"
    and "register_delivery_with_capabilities namespaces tq node types delivery caps st = (wid, st')"
  shows "registry_ok st' \<and> map_of (rs_workers st) wid = None"
proof -
  let ?wid = "WorkerId (rs_next_worker_id st)"
  define h where "h = \<lparr>wk_id = ?wid, wk_namespaces = btree_set namespaces, wk_task_queue = tq, wk_node = node,
               wk_activity_types = btree_set types, wk_delivery = delivery, wk_capabilities = caps\<rparr>"
  have st': "wid = ?wid" "st' = st\<lparr>rs_next_worker_id := saturating_add (rs_next_worker_id st) 1,
             rs_by_activity := fold (index_insert ?wid h) (worker_keys h) (rs_by_activity st),
             rs_workers := AList.update ?wid h (rs_workers st)\<rparr>"
    using assms(3) unfolding register_delivery_with_capabilities_def Let_def h_def [symmetric] by auto
  have less: "rs_next_worker_id st < saturating_add (rs_next_worker_id st) 1"
    using assms(2) checked_add_one_None_iff [of "rs_next_worker_id st"]
    by (cases "checked_add (rs_next_worker_id st) 1") (auto simp: saturating_add_def word_less_nat_alt dest!: checked_add_SomeD)
  have fresh: "map_of (rs_workers st) ?wid = None"
    using assms(1) unfolding registry_ok_def by (metis less_irrefl option.exhaust worker_id.sel)
  note idx = index_insert_fold [of "rs_by_activity st" ?wid h "worker_keys h"]
  have "lookup (rs_by_activity st') = filed_worker (rs_workers st')"
    using idx assms(1) fresh unfolding st' registry_ok_def
    by (auto simp: fun_eq_iff filed_worker_def update_conv')
  moreover have "\<forall>wid h. map_of (rs_workers st') wid = Some h \<longrightarrow> wk_id h = wid \<and> worker_value wid < rs_next_worker_id st'"
  proof (intro allI impI)
    fix i g
    assume "map_of (rs_workers st') i = Some g"
    then have "((map_of (rs_workers st))(?wid \<mapsto> h)) i = Some g" unfolding st'(2) by (simp add: update_conv')
    then consider "i = ?wid" "g = h" | "map_of (rs_workers st) i = Some g" by (metis fun_upd_apply option.inject)
    then show "wk_id g = i \<and> worker_value i < rs_next_worker_id st'"
    proof cases
      case 1
      then show ?thesis using less by (simp add: st' h_def)
    next
      case 2
      from registry_ids [OF assms(1) this] less show ?thesis using order.strict_trans by (simp add: st') blast
    qed
  qed
  moreover have "fst ` set (rs_rotation st') \<subseteq> fst ` set (rs_by_activity st')"
    using idx assms(1) unfolding st' registry_ok_def by (simp, blast)
  ultimately show ?thesis
    using idx assms(1) fresh unfolding st' registry_ok_def by (simp add: distinct_update)
qed

lemma rotation_ok:
  "registry_ok st \<Longrightarrow> fst ` set rot \<subseteq> fst ` set (rs_by_activity st) \<Longrightarrow> distinct (map fst rot) \<Longrightarrow>
   registry_ok (st\<lparr>rs_rotation := rot\<rparr>)"
  by (simp add: registry_ok_def)

lemma workers_for_ok:
  assumes "registry_ok st"
  shows "registry_ok (snd (workers_for ns tq ty node st))"
proof (cases "map_of (rs_by_activity st) (key_new ns tq ty)")
  case None
  with assms show ?thesis by (simp add: workers_for_def)
next
  case (Some m)
  then have "key_new ns tq ty \<in> fst ` set (rs_by_activity st)" by (metis domI dom_map_of_conv_image_fst)
  then have "registry_ok (st\<lparr>rs_rotation := AList.update (key_new ns tq ty) i (rs_rotation st)\<rparr>)" for i
    using assms by (intro rotation_ok) (auto simp: registry_ok_def distinct_update dom_update [unfolded dom_map_of_conv_image_fst])
  with assms show ?thesis by (simp add: workers_for_def Let_def)
qed

lemma delete_wf: "index_wf index \<Longrightarrow> index_wf (AList.delete key index)"
  by (auto simp: index_wf_def distinct_delete delete_conv' split: if_splits)

lemma delete_lookup: "lookup (AList.delete key index) key' wid = (if key' = key then None else lookup index key' wid)"
  by (simp add: lookup_def delete_conv')

lemma index_remove_step:
  assumes "index_wf (rs_by_activity st)" and "fst ` set (rs_rotation st) \<subseteq> fst ` set (rs_by_activity st)"
    and "distinct (map fst (rs_rotation st))" and "st' = index_remove wid key st"
  shows "index_wf (rs_by_activity st') \<and> fst ` set (rs_rotation st') \<subseteq> fst ` set (rs_by_activity st')
    \<and> distinct (map fst (rs_rotation st')) \<and> rs_workers st' = rs_workers st \<and> rs_next_worker_id st' = rs_next_worker_id st
    \<and> (\<forall>key' wid'. lookup (rs_by_activity st') key' wid' =
         (if wid' = wid \<and> key' = key then None else lookup (rs_by_activity st) key' wid'))"
proof (cases "map_of (rs_by_activity st) key")
  case None
  with assms show ?thesis by (auto simp: index_remove_def lookup_def)
next
  case (Some m)
  then have m: "m \<noteq> []" "distinct (map fst m)" using assms(1) by (simp_all add: index_wf_def)
  show ?thesis
  proof (cases "AList.delete wid m = []")
    case True
    then have "map_of m wid' = None" if "wid' \<noteq> wid" for wid'
      using that delete_conv' [of wid m] by (metis fun_upd_apply map_of.simps(1))
    with True Some assms show ?thesis
      by (auto simp: index_remove_def delete_wf delete_lookup distinct_delete lookup_def delete_conv'
          simp flip: dom_map_of_conv_image_fst)
  next
    case False
    with Some m assms show ?thesis
      by (auto simp: index_remove_def index_wf_def distinct_update distinct_delete lookup_def update_conv' delete_conv'
          split: if_splits option.splits simp flip: dom_map_of_conv_image_fst)
  qed
qed

lemma index_remove_fold:
  assumes "index_wf (rs_by_activity st)" and "fst ` set (rs_rotation st) \<subseteq> fst ` set (rs_by_activity st)"
    and "distinct (map fst (rs_rotation st))"
  shows "let st' = fold (index_remove wid) keys st
    in index_wf (rs_by_activity st') \<and> fst ` set (rs_rotation st') \<subseteq> fst ` set (rs_by_activity st')
    \<and> distinct (map fst (rs_rotation st')) \<and> rs_workers st' = rs_workers st \<and> rs_next_worker_id st' = rs_next_worker_id st
    \<and> (\<forall>key' wid'. lookup (rs_by_activity st') key' wid' =
         (if wid' = wid \<and> key' \<in> set keys then None else lookup (rs_by_activity st) key' wid'))"
  using assms
proof (induction keys arbitrary: st)
  case (Cons key keys)
  note step = index_remove_step [OF Cons.prems refl, of wid key]
  with Cons.IH [of "index_remove wid key st"] show ?case by (auto simp: Let_def)
qed (simp add: Let_def)

lemma remove_ok:
  assumes "registry_ok st"
  shows "registry_ok (snd (remove_worker wid st)) \<and> map_of (rs_workers (snd (remove_worker wid st))) wid = None"
proof (cases "map_of (rs_workers st) wid")
  case None
  with assms show ?thesis by (simp add: remove_worker_def)
next
  case (Some h)
  let ?st = "st\<lparr>rs_workers := AList.delete wid (rs_workers st)\<rparr>"
  let ?st' = "fold (index_remove wid) (worker_keys h) ?st"
  have "index_wf (rs_by_activity ?st)" "fst ` set (rs_rotation ?st) \<subseteq> fst ` set (rs_by_activity ?st)"
    "distinct (map fst (rs_rotation ?st))" using assms by (simp_all add: registry_ok_def)
  from index_remove_fold [OF this, of wid "worker_keys h"] have post:
    "index_wf (rs_by_activity ?st')" "fst ` set (rs_rotation ?st') \<subseteq> fst ` set (rs_by_activity ?st')"
    "distinct (map fst (rs_rotation ?st'))" "rs_workers ?st' = AList.delete wid (rs_workers st)"
    "rs_next_worker_id ?st' = rs_next_worker_id st"
    "\<And>key' wid'. lookup (rs_by_activity ?st') key' wid' =
         (if wid' = wid \<and> key' \<in> set (worker_keys h) then None else lookup (rs_by_activity st) key' wid')"
    by (simp_all add: Let_def)
  have "lookup (rs_by_activity ?st') = filed_worker (rs_workers ?st')"
    using assms Some by (auto simp: fun_eq_iff post filed_worker_def delete_conv' registry_ok_def)
  with post assms Some show ?thesis
    by (auto simp: registry_ok_def remove_worker_def distinct_delete delete_conv')
qed

lemma map_of_map_keyed: "map_of (map (\<lambda>(i, h). (i, f i h)) al) i = map_option (f i) (map_of al i)"
  by (induction al) auto

lemma capabilities_ok:
  assumes "registry_ok st"
  shows "registry_ok (snd (set_intervention_capabilities wid caps st))"
proof -
  let ?g = "\<lambda>i h. if i = wid then h\<lparr>wk_capabilities := caps\<rparr> else h :: worker_handle"
  let ?up = "map (\<lambda>(i, h). (i, ?g i h))"
  have fsts: "map fst (?up m) = map fst m" for m by (induction m) auto
  have idx: "map_of (map (\<lambda>(k, m). (k, ?up m)) index) key = map_option ?up (map_of index key)" for index :: "(activity_key \<times> (worker_id \<times> worker_handle) list) list" and key
    by (induction index) auto
  have keys: "map fst (map (\<lambda>(k, m). (k, ?up m)) index) = map fst index" for index :: "(activity_key \<times> (worker_id \<times> worker_handle) list) list"
    by (induction index) auto
  have "index_wf (map (\<lambda>(k, m). (k, ?up m)) (rs_by_activity st))"
    using assms by (fastforce simp: registry_ok_def index_wf_def keys idx fsts simp del: map_map)
  moreover have "lookup (map (\<lambda>(k, m). (k, ?up m)) (rs_by_activity st)) = filed_worker (?up (rs_workers st))"
  proof -
    have "lookup (map (\<lambda>(k, m). (k, ?up m)) (rs_by_activity st)) key i = map_option (?g i) (lookup (rs_by_activity st) key i)" for key i
      by (simp add: lookup_def idx map_of_map_keyed split: option.split)
    moreover have "filed_worker (?up (rs_workers st)) key i = map_option (?g i) (filed_worker (rs_workers st) key i)" for key i
      by (simp add: filed_worker_def map_of_map_keyed split: option.split)
    ultimately show ?thesis using assms by (simp add: fun_eq_iff registry_ok_def)
  qed
  moreover have "\<forall>i h. map_of (?up (rs_workers st)) i = Some h \<longrightarrow> wk_id h = i \<and> worker_value i < rs_next_worker_id st"
    by (auto simp only: map_of_map_keyed map_option_eq_Some dest!: registry_ids [OF assms]) simp_all
  moreover have "fst ` set (map (\<lambda>(k, m). (k, ?up m)) (rs_by_activity st)) = fst ` set (rs_by_activity st)"
    using keys [of "rs_by_activity st"] by (metis list.set_map)
  ultimately show ?thesis
    using assms by (simp add: set_intervention_capabilities_def Let_def registry_ok_def fsts del: set_map map_map)
qed

lemma drain_ok: "registry_ok st \<Longrightarrow> registry_ok (snd (drain_workers accepts hs n st))"
  by (induction accepts hs n st rule: drain_workers.induct)
     (auto simp: deregister_worker_def remove_ok split: option.split)

text \<open>One step of the registry: a registration, a lookup, a departure, an announcement of capabilities, or a drain.\<close>

inductive registry_step :: "registry_state \<Rightarrow> registry_state \<Rightarrow> bool" where
  registered: "rs_next_worker_id st \<noteq> - 1 \<Longrightarrow>
    register_delivery_with_capabilities namespaces tq node types delivery caps st = (wid, st') \<Longrightarrow> registry_step st st'"
| looked_up: "registry_step st (snd (workers_for ns tq ty node st))"
| departed: "registry_step st (deregister_worker wid st)"
| announced: "registry_step st (snd (set_intervention_capabilities wid caps st))"
| drained: "registry_step st (snd (broadcast_drain accepts st))"

lemma registry_step_ok: "registry_step st st' \<Longrightarrow> registry_ok st \<Longrightarrow> registry_ok st'"
  by (cases rule: registry_step.cases)
     (auto simp: register_ok workers_for_ok deregister_worker_def remove_ok capabilities_ok broadcast_drain_def drain_ok)

lemma registry_default_ok: "registry_ok registry_state_default"
  by (simp add: registry_ok_def registry_state_default_def index_wf_def lookup_def filed_worker_def fun_eq_iff)

lemma registry_reachable_ok: "registry_step\<^sup>*\<^sup>* registry_state_default st \<Longrightarrow> registry_ok st"
  by (induction rule: rtranclp_induct) (auto simp: registry_default_ok intro: registry_step_ok)

text \<open>The workers a lookup chooses from.\<close>

definition pool_workers :: "string \<Rightarrow> string \<Rightarrow> string \<Rightarrow> string option \<Rightarrow> registry_state \<Rightarrow> worker_handle list" where
  "pool_workers ns tq ty node st =
     sort_key wk_id (case map_of (rs_by_activity st) (key_new ns tq ty) of
        None \<Rightarrow> [] | Some m \<Rightarrow> filter (worker_matches_node node) (map snd m))"

lemma pool_workers_exact:
  assumes "registry_ok st"
  shows "set (pool_workers ns tq ty node st) =
      {h. map_of (rs_workers st) (wk_id h) = Some h \<and> ns \<in> set (wk_namespaces h) \<and> pool_new ns tq = pool_new ns (wk_task_queue h)
          \<and> ty \<in> set (wk_activity_types h) \<and> worker_matches_node node h}"
    and "distinct (map wk_id (pool_workers ns tq ty node st))"
proof -
  let ?key = "key_new ns tq ty"
  have mem: "h \<in> set (pool_workers ns tq ty node st) \<longleftrightarrow> worker_matches_node node h \<and> (\<exists>i. lookup (rs_by_activity st) ?key i = Some h)" for h
  proof (cases "map_of (rs_by_activity st) ?key")
    case (Some m)
    then have "distinct (map fst m)" using assms by (auto simp: registry_ok_def index_wf_def)
    then have "h \<in> snd ` set m \<longleftrightarrow> (\<exists>i. map_of m i = Some h)" by force
    with Some show ?thesis by (auto simp: pool_workers_def lookup_def)
  qed (simp add: pool_workers_def lookup_def)
  have "lookup (rs_by_activity st) = filed_worker (rs_workers st)" using assms by (simp add: registry_ok_def)
  then have look: "lookup (rs_by_activity st) ?key i = Some h \<longleftrightarrow> map_of (rs_workers st) i = Some h \<and> ?key \<in> set (worker_keys h)" for i h
    by (auto simp: filed_worker_def split: option.splits)
  show "set (pool_workers ns tq ty node st) =
      {h. map_of (rs_workers st) (wk_id h) = Some h \<and> ns \<in> set (wk_namespaces h) \<and> pool_new ns tq = pool_new ns (wk_task_queue h)
          \<and> ty \<in> set (wk_activity_types h) \<and> worker_matches_node node h}"
    unfolding set_eq_iff mem look mem_Collect_eq worker_keys_iff using registry_ids [OF assms] by blast
  show "distinct (map wk_id (pool_workers ns tq ty node st))"
  proof (cases "map_of (rs_by_activity st) ?key")
    case (Some m)
    then have d: "distinct (map fst m)" using assms by (auto simp: registry_ok_def index_wf_def)
    then have "wk_id h = i" if "(i, h) \<in> set m" for i h
      using that Some look [of i h] registry_ids [OF assms] by (auto simp: lookup_def)
    then have "map wk_id (map snd m) = map fst m" by auto
    with d have "distinct (map wk_id (map snd m))" by (simp only:)
    then have "distinct (map wk_id (filter (worker_matches_node node) (map snd m)))" by (rule distinct_map_filter)
    with Some show ?thesis unfolding pool_workers_def by (simp add: distinct_map)
  qed (simp add: pool_workers_def)
qed

definition cursor :: "activity_key \<Rightarrow> registry_state \<Rightarrow> u64" where
  "cursor key st = (case map_of (rs_rotation st) key of None \<Rightarrow> 0 | Some i \<Rightarrow> i)"

lemma workers_for_eq:
  "workers_for ns tq ty node st =
     (let pool = pool_workers ns tq ty node st; key = key_new ns tq ty
      in if pool = [] then ([], st)
         else (rotate (unat (cursor key st)) pool, st\<lparr>rs_rotation := AList.update key (cursor key st + 1) (rs_rotation st)\<rparr>))"
proof -
  have "sort_key f xs = [] \<longleftrightarrow> xs = []" for f :: "worker_handle \<Rightarrow> worker_id" and xs by (metis length_0_conv length_sort)
  then show ?thesis
    unfolding workers_for_def pool_workers_def cursor_def Let_def rotate_drop_take by (simp split: option.split)
qed

lemma lookup_iterates:
  assumes "pool_workers ns tq ty node st \<noteq> []"
  defines "look \<equiv> \<lambda>s. snd (workers_for ns tq ty node s)"
  shows "pool_workers ns tq ty node ((look ^^ k) st) = pool_workers ns tq ty node st
    \<and> cursor (key_new ns tq ty) ((look ^^ k) st) = cursor (key_new ns tq ty) st + of_nat k"
proof (induction k)
  case (Suc k)
  let ?s = "(look ^^ k) st"
  have "look ?s = ?s\<lparr>rs_rotation := AList.update (key_new ns tq ty) (cursor (key_new ns tq ty) ?s + 1) (rs_rotation ?s)\<rparr>"
    using assms Suc by (simp add: workers_for_eq Let_def)
  moreover have "pool_workers ns tq ty node (s\<lparr>rs_rotation := r\<rparr>) = pool_workers ns tq ty node s" for s r
    by (simp add: pool_workers_def)
  ultimately show ?case using Suc by (simp add: cursor_def update_conv')
qed simp

lemma u64_add: "unat (c :: u64) + k < 2 ^ 64 \<Longrightarrow> unat (c + of_nat k) = unat c + k"
  by (simp add: unat_word_ariths unat_of_nat)

section \<open>What the gates decide\<close>

definition admitted :: "string option \<Rightarrow> string list \<Rightarrow> namespaces \<Rightarrow> bool" where
  "admitted node names ns \<longleftrightarrow>
     (\<forall>name \<in> set names. \<forall>labels. placement_of name ns = Inr (Pinned labels) \<longrightarrow> (\<exists>n \<in> labels. node = Some n))"

lemma placement_of_eq: "placement_of name ns = Inr (case map_of ns name of None \<Rightarrow> Unplaced | Some r \<Rightarrow> nr_placement r)"
  by (simp add: placement_of_def get_namespace_def)

lemma enforce_iff: "enforce_pinned_placement node names ns = Inr () \<longleftrightarrow> admitted node names ns"
proof (induction node names ns rule: enforce_pinned_placement.induct)
  case (2 node name names ns)
  then show ?case by (auto simp: placement_of_eq admitted_def split: option.split namespace_placement.split)
qed (simp add: admitted_def)

lemma register_placement:
  "\<exists>out ns'. register_namespace now name origin ns = (Inr out, ns') \<and> dom (map_of ns') = insert name (dom (map_of ns))
    \<and> (\<forall>m. placement_of m ns' = placement_of m ns)"
  by (cases "map_of ns name")
     (auto simp: register_namespace_def update_conv' placement_of_eq new_minted_def bump_last_seen_def)

lemma mint_placement:
  assumes "mint_or_gate policy now names origin ns = (res, ns')"
  shows "(res = Inr () \<longleftrightarrow> policy = Open \<or> set names \<subseteq> dom (map_of ns)) \<and> (policy = Closed \<longrightarrow> ns' = ns)
    \<and> (res = Inr () \<longrightarrow> set names \<subseteq> dom (map_of ns')) \<and> dom (map_of ns) \<subseteq> dom (map_of ns')
    \<and> (\<forall>m. placement_of m ns' = placement_of m ns)"
  using assms
proof (induction names arbitrary: ns)
  case (Cons name names)
  show ?case
  proof (cases policy)
    case Open
    obtain out ns1 where reg: "register_namespace now name origin ns = (Inr out, ns1)"
      "dom (map_of ns1) = insert name (dom (map_of ns))" "\<forall>m. placement_of m ns1 = placement_of m ns"
      using register_placement [of now name origin ns] by (elim exE conjE) (rule that)
    with Cons.prems Open have "mint_or_gate policy now names origin ns1 = (res, ns')" by simp
    from Cons.IH [OF this] reg(2,3) Open show ?thesis by simp
  next
    case Closed
    show ?thesis
    proof (cases "map_of ns name")
      case None
      with Cons.prems Closed show ?thesis by (auto simp: get_namespace_def)
    next
      case (Some r)
      with Cons.prems Closed have "mint_or_gate policy now names origin ns = (res, ns')" by (simp add: get_namespace_def)
      from Cons.IH [OF this] Closed Some show ?thesis by (auto simp: domI)
    qed
  qed
qed auto

section \<open>Properties\<close>

text \<open>C26: however registrations, lookups, departures, drains and announcements interleave, short of exhausting
  the identifiers, a lookup returns, each once, exactly the connected workers that serve the namespace and the task queue
  (an empty queue is the default one) for the activity type, on the node asked for when one is.  In particular no
  worker of another namespace is ever returned, and a pool with no worker keeps no cursor.\<close>

theorem lookup_exact:
  assumes "registry_step\<^sup>*\<^sup>* registry_state_default st"
  shows "set (fst (workers_for ns tq ty node st)) =
      {h. worker_by_id (wk_id h) st = Some h \<and> ns \<in> set (wk_namespaces h) \<and> pool_new ns tq = pool_new ns (wk_task_queue h)
          \<and> ty \<in> set (wk_activity_types h) \<and> worker_matches_node node h}
    \<and> distinct (map wk_id (fst (workers_for ns tq ty node st)))
    \<and> (\<forall>ns tq ty. (\<forall>h \<in> set (all_workers st). \<not> (ns \<in> set (wk_namespaces h) \<and> pool_new ns tq = pool_new ns (wk_task_queue h)
          \<and> ty \<in> set (wk_activity_types h))) \<longrightarrow> key_new ns tq ty \<notin> fst ` set (rs_rotation st))"
proof -
  note ok = registry_reachable_ok [OF assms]
  note pool = pool_workers_exact [OF ok, of ns tq ty node]
  have fst: "fst (workers_for ns tq ty node st) = rotate (unat (cursor (key_new ns tq ty) st)) (pool_workers ns tq ty node st)"
    by (simp add: workers_for_eq Let_def)
  have "key_new ns tq ty \<notin> fst ` set (rs_rotation st)"
    if "\<forall>h \<in> set (all_workers st). \<not> (ns \<in> set (wk_namespaces h) \<and> pool_new ns tq = pool_new ns (wk_task_queue h)
          \<and> ty \<in> set (wk_activity_types h))" for ns tq ty
  proof
    assume "key_new ns tq ty \<in> fst ` set (rs_rotation st)"
    then have "key_new ns tq ty \<in> fst ` set (rs_by_activity st)" using ok by (auto simp: registry_ok_def)
    then obtain m where m: "map_of (rs_by_activity st) (key_new ns tq ty) = Some m"
      by (metis domD dom_map_of_conv_image_fst)
    then have "m \<noteq> []" using ok by (auto simp: registry_ok_def index_wf_def)
    then have "pool_workers ns tq ty None st \<noteq> []" using m by (simp add: pool_workers_def flip: set_empty)
    then obtain h where "h \<in> set (pool_workers ns tq ty None st)" by (metis list.set_sel(1))
    then have "map_of (rs_workers st) (wk_id h) = Some h" "ns \<in> set (wk_namespaces h)"
      "pool_new ns tq = pool_new ns (wk_task_queue h)" "ty \<in> set (wk_activity_types h)"
      unfolding pool_workers_exact(1) [OF ok] by simp_all
    with that show False by (force simp: all_workers_def dest: map_of_SomeD)
  qed
  with pool show ?thesis by (simp add: fst worker_by_id_def distinct_map rotate_map [symmetric] del: rotate_map)
qed

text \<open>Lookups of one pool take turns.  Over as many consecutive lookups as the pool has workers, with no other step
  in between and the cursor not at the end of its range, every worker of the pool is the first choice exactly once.\<close>

theorem lookups_take_turns:
  assumes "registry_step\<^sup>*\<^sup>* registry_state_default st" and "ws = fst (workers_for ns tq ty node st)"
    and "unat (cursor (key_new ns tq ty) st) + length ws \<le> 2 ^ 64"
  shows "let look = \<lambda>s. snd (workers_for ns tq ty node s);
             firsts = map (\<lambda>k. hd (fst (workers_for ns tq ty node ((look ^^ k) st)))) [0..<length ws]
         in distinct firsts \<and> set firsts = set ws"
proof (cases "pool_workers ns tq ty node st = []")
  case True
  with assms(2) show ?thesis by (simp add: workers_for_eq)
next
  case False
  let ?pool = "pool_workers ns tq ty node st" and ?c = "cursor (key_new ns tq ty) st"
  define look where "look = (\<lambda>s. snd (workers_for ns tq ty node s))"
  have ws: "ws = rotate (unat ?c) ?pool" using assms(2) False by (simp add: workers_for_eq Let_def)
  have first: "hd (fst (workers_for ns tq ty node ((look ^^ k) st))) = ws ! k" if "k < length ws" for k
  proof -
    have "unat (?c + of_nat k) = unat ?c + k" using that assms(3) by (intro u64_add) simp
    then have "fst (workers_for ns tq ty node ((look ^^ k) st)) = rotate (unat ?c + k) ?pool"
      using lookup_iterates [OF False, of k] False unfolding look_def [symmetric] by (simp add: workers_for_eq Let_def)
    then show ?thesis using that ws False by (simp add: hd_conv_nth nth_rotate)
  qed
  have "map (\<lambda>k. hd (fst (workers_for ns tq ty node ((look ^^ k) st)))) [0..<length ws] = ws"
    by (rule nth_equalityI) (simp_all add: first)
  moreover have "distinct ws"
    using pool_workers_exact(2) [OF registry_reachable_ok [OF assms(1)], of ns tq ty node] by (simp add: ws distinct_map)
  ultimately show ?thesis unfolding Let_def look_def by (simp only:)
qed

text \<open>C27: a registration under a minter, undisturbed.  It is accepted exactly when the guard authorizes it, every
  namespace exists or may be created, and the worker's node is among the labels of every namespace that is pinned.  An
  accepted worker is connected with the namespaces authorized, all of which now exist; a refused one leaves the
  connected workers as they were.\<close>

theorem registration_gated:
  assumes "registry_step\<^sup>*\<^sup>* registry_state_default st" and "rs_next_worker_id st \<noteq> - 1"
    and "accept_registration (Some policy) (\<lambda>_ x. x) now authorized node tq types channel (ns, st) = (res, ns', st')"
  shows "((\<exists>wid. res = Inr wid) \<longleftrightarrow> (\<exists>names. authorized = Inr names \<and> (policy = Open \<or> set names \<subseteq> dom (map_of ns))
            \<and> admitted (optional_node node) names ns))
    \<and> (case res of
         Inl e \<Rightarrow> st' = st
       | Inr wid \<Rightarrow> worker_by_id wid st = None
           \<and> (\<exists>names h. authorized = Inr names \<and> set names \<subseteq> dom (map_of ns') \<and> worker_by_id wid st' = Some h
               \<and> set (wk_namespaces h) = set names \<and> wk_node h = optional_node node
               \<and> (\<forall>i. i \<noteq> wid \<longrightarrow> worker_by_id i st' = worker_by_id i st)))"
proof (cases authorized)
  case (Inl e)
  with assms(3) show ?thesis by (auto simp: accept_registration_def)
next
  case (Inr names)
  obtain minted ns1 where mint: "mint_or_gate policy now names WorkerMint ns = (minted, ns1)" by fastforce
  note mp = mint_placement [OF mint]
  have adm: "admitted n names ns1 = admitted n names ns" for n using mp by (simp add: admitted_def)
  show ?thesis
  proof (cases "minted = Inr () \<and> admitted (optional_node node) names ns1")
    case False
    have "\<exists>e. enforce_pinned_placement (optional_node node) names ns1 = Inl e" if "\<not> admitted (optional_node node) names ns1"
      using that enforce_iff [of "optional_node node" names ns1]
      by (cases "enforce_pinned_placement (optional_node node) names ns1") auto
    with False assms(3) Inr mint have "(\<exists>e. res = Inl e) \<and> st' = st"
      by (cases minted) (auto simp: accept_registration_def)
    with False mp adm Inr show ?thesis by auto
  next
    case True
    then have enf: "enforce_pinned_placement (optional_node node) names ns1 = Inr ()" by (simp add: enforce_iff)
    obtain wid st1 where reg: "register_delivery_with_capabilities names tq (optional_node node) types (Grpc channel) [] st = (wid, st1)"
      by fastforce
    have res: "res = Inr wid" "ns' = ns1" "st' = st1"
      using assms(3) Inr mint True enf reg
      by (simp_all add: accept_registration_def register_namespaces_def register_delivery_def)
    have "worker_by_id wid st = None"
      using register_ok [OF registry_reachable_ok [OF assms(1)] assms(2) reg] by (simp add: worker_by_id_def)
    moreover have "\<exists>h. worker_by_id wid st1 = Some h \<and> set (wk_namespaces h) = set names \<and> wk_node h = optional_node node
        \<and> (\<forall>i. i \<noteq> wid \<longrightarrow> worker_by_id i st1 = worker_by_id i st)"
      using reg by (auto simp: register_delivery_with_capabilities_def Let_def worker_by_id_def update_conv' btree_set_def)
    ultimately show ?thesis using True mp adm Inr res by auto
  qed
qed

section \<open>Witnesses\<close>

text \<open>Three workers: two of namespace \<open>a\<close>, the second on a node, and one of \<open>b\<close>.\<close>

abbreviation s_join :: "string \<Rightarrow> string option \<Rightarrow> nat \<Rightarrow> registry_state \<Rightarrow> registry_state" where
  "s_join ns node channel st \<equiv> snd (register_namespaces [ns] [] node [''charge''] channel st)"

definition s_registry :: registry_state where
  "s_registry = s_join ''b'' None 3 (s_join ''a'' (Some ''n'') 2 (s_join ''a'' None 1 registry_state_default))"

definition s_worker :: "string \<Rightarrow> string option \<Rightarrow> u64 \<Rightarrow> nat \<Rightarrow> worker_handle" where
  "s_worker ns node n channel = \<lparr>wk_id = WorkerId n, wk_namespaces = [ns], wk_task_queue = [], wk_node = node,
     wk_activity_types = [''charge''], wk_delivery = Grpc channel, wk_capabilities = []\<rparr>"

lemma s_join_eq:
  "s_join ns node channel st = st\<lparr>rs_next_worker_id := saturating_add (rs_next_worker_id st) 1,
     rs_by_activity := index_insert (WorkerId (rs_next_worker_id st)) (s_worker ns node (rs_next_worker_id st) channel)
       (key_new ns [] ''charge'') (rs_by_activity st),
     rs_workers := AList.update (WorkerId (rs_next_worker_id st)) (s_worker ns node (rs_next_worker_id st) channel) (rs_workers st)\<rparr>"
  by (simp add: register_namespaces_def register_delivery_def register_delivery_with_capabilities_def Let_def
      worker_keys_def btree_set_def s_worker_def)

lemma s_registry_eq:
  "s_registry = \<lparr>rs_next_worker_id = 4,
     rs_workers = [(WorkerId 1, s_worker ''a'' None 1 1), (WorkerId 2, s_worker ''a'' (Some ''n'') 2 2), (WorkerId 3, s_worker ''b'' None 3 3)],
     rs_by_activity = [(key_new ''a'' [] ''charge'', [(WorkerId 1, s_worker ''a'' None 1 1), (WorkerId 2, s_worker ''a'' (Some ''n'') 2 2)]),
       (key_new ''b'' [] ''charge'', [(WorkerId 3, s_worker ''b'' None 3 3)])],
     rs_rotation = []\<rparr>"
  by (simp add: s_registry_def s_join_eq registry_state_default_def saturating_add_def checked_add_def index_insert_def
      key_new_def pool_new_def)

lemma s_registry_reachable: "registry_step\<^sup>*\<^sup>* registry_state_default s_registry"
proof -
  have join: "registry_step st (s_join ns node channel st)" if "rs_next_worker_id st \<noteq> - 1" for ns node channel st
    using that unfolding register_namespaces_def register_delivery_def
    by (rule registry_step.registered) (rule prod.collapse [symmetric])
  let ?st1 = "s_join ''a'' None 1 registry_state_default" and ?st2 = "s_join ''a'' (Some ''n'') 2 (s_join ''a'' None 1 registry_state_default)"
  have "rs_next_worker_id registry_state_default = 1" "rs_next_worker_id ?st1 = 2" "rs_next_worker_id ?st2 = 3"
    by (simp_all add: s_join_eq registry_state_default_def saturating_add_def checked_add_def)
  then have "registry_step registry_state_default ?st1" "registry_step ?st1 ?st2" "registry_step ?st2 s_registry"
    unfolding s_registry_def by (simp_all add: join)
  then show ?thesis by (rule converse_rtranclp_into_rtranclp [OF _ converse_rtranclp_into_rtranclp [OF _ r_into_rtranclp]])
qed

lemma s_registry_pool:
  "pool_workers ''a'' [] ''charge'' None s_registry = [s_worker ''a'' None 1 1, s_worker ''a'' (Some ''n'') 2 2]"
  "pool_workers ''a'' [] ''charge'' (Some ''n'') s_registry = [s_worker ''a'' (Some ''n'') 2 2]"
  by (simp_all add: pool_workers_def s_registry_eq key_new_def pool_new_def s_worker_def less_eq_worker_id_def)

theorem lookup_exact_witness:
  "set (fst (workers_for ''a'' [] ''charge'' (Some ''n'') s_registry)) =
     {h. worker_by_id (wk_id h) s_registry = Some h \<and> ''a'' \<in> set (wk_namespaces h) \<and> pool_new ''a'' [] = pool_new ''a'' (wk_task_queue h)
         \<and> ''charge'' \<in> set (wk_activity_types h) \<and> wk_node h = Some ''n''}
   \<and> fst (workers_for ''a'' [] ''charge'' (Some ''n'') s_registry) = [s_worker ''a'' (Some ''n'') 2 2]"
  using lookup_exact [OF s_registry_reachable, of "''a''" "[]" "''charge''" "Some ''n''"]
  by (simp add: workers_for_eq Let_def cursor_def s_registry_pool)

theorem lookups_take_turns_witness:
  "let look = \<lambda>s. snd (workers_for ''a'' [] ''charge'' None s);
       firsts = map (\<lambda>k. hd (fst (workers_for ''a'' [] ''charge'' None ((look ^^ k) s_registry)))) [0..<2]
   in distinct firsts \<and> set firsts = {s_worker ''a'' None 1 1, s_worker ''a'' (Some ''n'') 2 2}"
proof -
  have ws: "fst (workers_for ''a'' [] ''charge'' None s_registry) = [s_worker ''a'' None 1 1, s_worker ''a'' (Some ''n'') 2 2]"
    by (simp add: workers_for_eq Let_def cursor_def s_registry_pool) (simp add: s_registry_eq)
  have "cursor (key_new ''a'' [] ''charge'') s_registry = 0" by (simp add: cursor_def s_registry_eq)
  with lookups_take_turns [OF s_registry_reachable ws [symmetric]] show ?thesis
    unfolding Let_def by (simp only: list.size) (simp add: upt_rec)
qed

text \<open>The namespace is pinned to the node \<open>n\<close>: a worker without a node is refused, one on the node is accepted.\<close>

theorem registration_gated_witness:
  "let ns = [(''a'', (new_minted ''a'' Explicit 3)\<lparr>nr_placement := Pinned {''n''}\<rparr>)];
       join = \<lambda>node. fst (accept_registration (Some Open) (\<lambda>_ x. x) 9 (Inr [''a'']) node [] [''charge''] 7 (ns, s_registry))
   in (\<exists>wid. join ''n'' = Inr wid) \<and> \<not> (\<exists>wid. join [] = Inr wid)"
proof -
  let ?ns = "[(''a'', (new_minted ''a'' Explicit 3)\<lparr>nr_placement := Pinned {''n''}\<rparr>)]"
  have next_id: "rs_next_worker_id s_registry \<noteq> - 1" by (simp add: s_registry_eq)
  have iff: "(\<exists>wid. fst (accept_registration (Some Open) (\<lambda>_ x. x) 9 (Inr [''a'']) node [] [''charge''] 7 (?ns, s_registry)) = Inr wid)
      \<longleftrightarrow> admitted (optional_node node) [''a''] ?ns" for node
  proof -
    obtain res ns' st' where r: "accept_registration (Some Open) (\<lambda>_ x. x) 9 (Inr [''a'']) node [] [''charge''] 7 (?ns, s_registry) = (res, ns', st')"
      by (metis prod_cases3)
    show ?thesis using registration_gated [OF s_registry_reachable next_id r] r by simp
  qed
  have "admitted (Some ''n'') [''a''] ?ns" "\<not> admitted None [''a''] ?ns" by (simp_all add: admitted_def placement_of_eq)
  then show ?thesis unfolding Let_def iff by (simp add: optional_node_def)
qed

end
