(* ===== verification/Backpressure.thy ===== *)
theory Backpressure
  imports Libsql_Store Namespace_Registry
begin

text \<open>
  \<^verbatim>\<open>crates/aion-server/src/worker/backpressure.rs\<close>, with the caches it and the dispatcher read (\<^verbatim>\<open>quota_cache.rs\<close>,
  \<^verbatim>\<open>placement_cache.rs\<close>): the per-tenant claim of outbox rows.  A sweep groups the routes with pending work by namespace,
  gives every namespace a share of the batch, capped by what its quota leaves, and offers what is left in a second pass.

  The reads of the namespace registry can fail, so \<open>read\<close>, the answer of \<^verbatim>\<open>get_namespace\<close>, is an argument.  All claims of
  one sweep read the instant \<open>now\<close>, and no other task changes the outbox between them.  Log output is not modelled.

  The lemmas show that a sweep never takes more than the batch, nor a tenant past its ceiling, nor a held row; and that the
  guaranteed share is not guaranteed.
\<close>

section \<open>Arithmetic of u32\<close>

definition saturating_sub :: "'a::len word \<Rightarrow> 'a word \<Rightarrow> 'a word" where
  "saturating_sub a b = (if b \<le> a then a - b else 0)"

definition div_ceil :: "u32 \<Rightarrow> u32 \<Rightarrow> u32" where
  "div_ceil a b = (if a mod b = 0 then a div b else a div b + 1)"

text \<open>\<^verbatim>\<open>u32::try_from(n).unwrap_or(u32::MAX)\<close>.\<close>

definition u32_of :: "nat \<Rightarrow> u32" where
  "u32_of n = (if n < 2 ^ 32 then of_nat n else - 1)"

section \<open>Shares of the key space\<close>

record owned_shard_fraction =
  sf_owned :: u32
  sf_total :: u32

definition fraction_new :: "u32 \<Rightarrow> u32 \<Rightarrow> owned_shard_fraction" where
  "fraction_new owned shards =
     (let shards = max shards 1
      in \<lparr>sf_owned = (if owned < 1 then 1 else if shards < owned then shards else owned), sf_total = shards\<rparr>)"

definition own_all :: owned_shard_fraction where
  "own_all = \<lparr>sf_owned = 1, sf_total = 1\<rparr>"

definition per_node_ceiling :: "owned_shard_fraction \<Rightarrow> u32 \<Rightarrow> u32" where
  "per_node_ceiling f quota =
     (let numerator = (ucast quota * ucast (sf_owned f) + ucast (sf_total f) - 1 :: u64);
          ceiling = numerator div ucast (sf_total f)
      in if ceiling \<le> 0xFFFFFFFF then ucast ceiling else 0xFFFFFFFF)"

section \<open>Caches over the namespace registry\<close>

type_synonym 'v cache = "(string \<times> 'v \<times> timestamp) list"

type_synonym namespace_read = "string \<Rightarrow> (store_error, namespace_record option) result"

definition fresh_hit :: "timestamp \<Rightarrow> int \<Rightarrow> string \<Rightarrow> 'v cache \<Rightarrow> 'v option" where
  "fresh_hit now ttl name entries =
     (case map_of entries name of
        None \<Rightarrow> None
      | Some (v, fetched_at) \<Rightarrow> if max 0 (now - fetched_at) < ttl then Some v else None)"

definition store_entry :: "timestamp \<Rightarrow> string \<Rightarrow> 'v \<Rightarrow> 'v cache \<Rightarrow> 'v cache" where
  "store_entry now name v entries = AList.update name (v, now) entries"

record quota_cache =
  qc_platform_default :: u32
  qc_ttl :: int
  qc_entries :: "u32 cache"

definition quota_ceiling :: "namespace_read \<Rightarrow> timestamp \<Rightarrow> string \<Rightarrow> quota_cache \<Rightarrow> u32 \<times> quota_cache" where
  "quota_ceiling read now name qc =
     (case fresh_hit now (qc_ttl qc) name (qc_entries qc) of
        Some hit \<Rightarrow> (hit, qc)
      | None \<Rightarrow>
          (let ceiling = (case read name of
               Inr (Some r) \<Rightarrow> (case nc_max_in_flight_activities (nr_config r) of Some n \<Rightarrow> n | None \<Rightarrow> qc_platform_default qc)
             | _ \<Rightarrow> qc_platform_default qc)
           in (ceiling, qc\<lparr>qc_entries := store_entry now name ceiling (qc_entries qc)\<rparr>)))"

record placement_cache =
  pc_ttl :: int
  pc_entries :: "namespace_placement cache"

definition cached_placement ::
  "namespace_read \<Rightarrow> timestamp \<Rightarrow> string \<Rightarrow> placement_cache \<Rightarrow> namespace_placement \<times> placement_cache" where
  "cached_placement read now name pc =
     (case fresh_hit now (pc_ttl pc) name (pc_entries pc) of
        Some hit \<Rightarrow> (hit, pc)
      | None \<Rightarrow>
          (let placement = (case read name of Inr (Some r) \<Rightarrow> nr_placement r | _ \<Rightarrow> Unplaced)
           in (placement, pc\<lparr>pc_entries := store_entry now name placement (pc_entries pc)\<rparr>)))"

section \<open>The plan of a sweep\<close>

record namespace_plan =
  np_headroom :: u32
  np_routes :: "claim_scope list"

record sweep_plan =
  sp_namespaces :: "(string \<times> namespace_plan) list"
  sp_per_namespace_slice :: u32

text \<open>The \<^verbatim>\<open>BTreeMap\<close> of routes by namespace: in the order of the names, the routes of each in the order they came.\<close>

definition group_routes :: "claim_scope list \<Rightarrow> (string \<times> claim_scope list) list" where
  "group_routes routes =
     map (\<lambda>name. (name, filter (\<lambda>r. cs_namespace r = name) routes)) (sort (remdups (map cs_namespace routes)))"

fun plan_namespaces ::
  "owned_shard_fraction \<Rightarrow> namespace_read \<Rightarrow> timestamp \<Rightarrow> (string \<times> nat) list \<Rightarrow> (string \<times> claim_scope list) list \<Rightarrow> quota_cache
    \<Rightarrow> (string \<times> namespace_plan) list \<times> quota_cache" where
  "plan_namespaces f read now counts [] qc = ([], qc)"
| "plan_namespaces f read now counts ((name, routes) # groups) qc =
     (let (quota, qc1) = quota_ceiling read now name qc;
          ceiling = per_node_ceiling f quota;
          claimed = u32_of (case map_of counts name of None \<Rightarrow> 0 | Some n \<Rightarrow> n);
          (plans, qc2) = plan_namespaces f read now counts groups qc1
      in ((name, \<lparr>np_headroom = saturating_sub ceiling claimed, np_routes = routes\<rparr>) # plans, qc2))"

definition plan_sweep ::
  "owned_shard_fraction \<Rightarrow> namespace_read \<Rightarrow> timestamp \<Rightarrow> claim_scope list \<Rightarrow> u32 \<Rightarrow> quota_cache \<Rightarrow> libsql_state
    \<Rightarrow> (store_error, sweep_plan) result \<times> quota_cache" where
  "plan_sweep f read now routes batch_size qc s =
     (let groups = group_routes routes
      in case count_claimed_outbox_rows_by_namespace (map fst groups) s of
           Inl e \<Rightarrow> (Inl e, qc)
         | Inr counts \<Rightarrow>
             (let (plans, qc') = plan_namespaces f read now counts groups qc;
                  active = max (u32_of (length plans)) 1
              in (Inr \<lparr>sp_namespaces = plans, sp_per_namespace_slice = max (div_ceil batch_size active) 1\<rparr>, qc')))"

section \<open>The claims of a sweep\<close>

fun claim_routes ::
  "timestamp \<Rightarrow> workflow_id set \<Rightarrow> claim_scope list \<Rightarrow> u32 \<Rightarrow> u32 \<Rightarrow> u32 \<Rightarrow> outbox_row list \<Rightarrow> libsql_state
    \<Rightarrow> (store_error, u32) result \<times> outbox_row list \<times> libsql_state" where
  "claim_routes now held [] remaining got left claimed s = (Inr got, claimed, s)"
| "claim_routes now held (route # routes) remaining got left claimed s =
     (if remaining = 0 then (Inr got, claimed, s)
      else
        (let share = min (max (div_ceil remaining left) 1) remaining
         in case claim_outbox_rows_scoped_excluding now route share held s of
              (Inl e, s') \<Rightarrow> (Inl e, claimed, s')
            | (Inr rows, s') \<Rightarrow>
                (let n = u32_of (length rows)
                 in claim_routes now held routes (saturating_sub remaining n) (saturating_add got n)
                      (max (saturating_sub left 1) 1) (claimed @ rows) s')))"

definition claim_namespace_slice ::
  "timestamp \<Rightarrow> workflow_id set \<Rightarrow> claim_scope list \<Rightarrow> u32 \<Rightarrow> outbox_row list \<Rightarrow> libsql_state
    \<Rightarrow> (store_error, u32) result \<times> outbox_row list \<times> libsql_state" where
  "claim_namespace_slice now held routes allocation claimed s =
     claim_routes now held routes allocation 0 (max (u32_of (length routes)) 1) claimed s"

text \<open>Both passes: \<open>cap\<close> is the slice in the first and no further cap in the second, which also stops once the budget is
  used up.\<close>

fun claim_pass ::
  "timestamp \<Rightarrow> workflow_id set \<Rightarrow> u32 option \<Rightarrow> (string \<times> namespace_plan) list \<Rightarrow> (string \<times> u32) list \<Rightarrow> u32 \<Rightarrow> outbox_row list
    \<Rightarrow> libsql_state \<Rightarrow> (store_error, (string \<times> u32) list \<times> u32) result \<times> outbox_row list \<times> libsql_state" where
  "claim_pass now held cap [] headroom budget claimed s = (Inr (headroom, budget), claimed, s)"
| "claim_pass now held cap ((name, plan) # plans) headroom budget claimed s =
     (if cap = None \<and> budget = 0 then (Inr (headroom, budget), claimed, s)
      else
        (let room = (case map_of headroom name of None \<Rightarrow> 0 | Some n \<Rightarrow> n);
             allocation = (case cap of Some share \<Rightarrow> min (min share room) budget | None \<Rightarrow> min room budget)
         in case claim_namespace_slice now held (np_routes plan) allocation claimed s of
              (Inl e, claimed', s') \<Rightarrow> (Inl e, claimed', s')
            | (Inr got, claimed', s') \<Rightarrow>
                claim_pass now held cap plans (AList.update name (saturating_sub room got) headroom)
                  (saturating_sub budget got) claimed' s'))"

definition execute_plan ::
  "timestamp \<Rightarrow> workflow_id set \<Rightarrow> sweep_plan \<Rightarrow> u32 \<Rightarrow> libsql_state \<Rightarrow> (store_error, outbox_row list) result \<times> libsql_state" where
  "execute_plan now held plan batch_size s =
     (case claim_pass now held (Some (sp_per_namespace_slice plan)) (sp_namespaces plan)
             (map (\<lambda>(name, p). (name, np_headroom p)) (sp_namespaces plan)) batch_size [] s of
        (Inl e, _, s1) \<Rightarrow> (Inl e, s1)
      | (Inr (headroom, budget), claimed, s1) \<Rightarrow>
          (case claim_pass now held None (sp_namespaces plan) headroom budget claimed s1 of
             (Inl e, _, s2) \<Rightarrow> (Inl e, s2)
           | (Inr _, claimed', s2) \<Rightarrow> (Inr claimed', s2)))"

definition claim_round_robin ::
  "owned_shard_fraction \<Rightarrow> namespace_read \<Rightarrow> timestamp \<Rightarrow> u32 \<Rightarrow> workflow_id set \<Rightarrow> quota_cache \<Rightarrow> libsql_state
    \<Rightarrow> (store_error, outbox_row list) result \<times> quota_cache \<times> libsql_state" where
  "claim_round_robin f read now batch_size held qc s =
     (case pending_outbox_routes now s of
        Inl e \<Rightarrow> (Inl e, qc, s)
      | Inr routes \<Rightarrow>
          if routes = [] then (Inr [], qc, s)
          else
            (case plan_sweep f read now routes batch_size qc s of
               (Inl e, qc') \<Rightarrow> (Inl e, qc', s)
             | (Inr plan, qc') \<Rightarrow> (let (res, s') = execute_plan now held plan batch_size s in (res, qc', s'))))"

section \<open>Lemmas: arithmetic\<close>

lemma unat_saturating_sub: "unat (saturating_sub a b) = unat a - unat b"
  by (auto simp: saturating_sub_def unat_sub word_le_nat_alt)

lemma unat_u32_of: "n \<le> unat (w :: u32) \<Longrightarrow> unat (u32_of n) = n"
  using unsigned_less [of w, where 'a = nat] by (simp add: u32_of_def unat_of_nat)

lemma unat_saturating_add: "unat a + unat b < 2 ^ LENGTH('a) \<Longrightarrow> unat (saturating_add (a :: 'a::len word) b) = unat a + unat b"
  by (auto simp: saturating_add_def checked_add_def unat_word_ariths)

lemma unat_widen: "unat (ucast (w :: u32) :: u64) = unat w"
  using unsigned_less [of w, where 'a = nat] by (simp add: unsigned_ucast_eq take_bit_nat_eq_self)

lemma unat_narrow: "unat (x :: u64) < 2 ^ 32 \<Longrightarrow> unat (ucast x :: u32) = unat x"
  by (simp add: unsigned_ucast_eq take_bit_nat_eq_self)

text \<open>A ceiling is the quota times the fraction, rounded up.\<close>

lemma per_node_ceiling_eq:
  assumes "0 < sf_total f" and "sf_owned f \<le> sf_total f"
  shows "unat (per_node_ceiling f quota) = (unat quota * unat (sf_owned f) + unat (sf_total f) - 1) div unat (sf_total f)"
    and "unat (per_node_ceiling f quota) \<le> unat quota"
proof -
  let ?q = "unat quota" and ?o = "unat (sf_owned f)" and ?t = "unat (sf_total f)"
  have lim: "?q < 2 ^ 32" "?o < 2 ^ 32" "?t < 2 ^ 32"
    using unsigned_less [of quota, where 'a = nat] unsigned_less [of "sf_owned f", where 'a = nat] unsigned_less [of "sf_total f", where 'a = nat]
    by simp_all
  have ot: "?o \<le> ?t" "0 < ?t" using assms by (simp_all add: word_le_nat_alt word_less_nat_alt)
  have prod: "?q * ?o \<le> (2 ^ 32 - 1) * (2 ^ 32 - 1)" using lim by (intro mult_le_mono) simp_all
  let ?n = "ucast quota * ucast (sf_owned f) + ucast (sf_total f) - 1 :: u64"
  have m: "unat (ucast quota * ucast (sf_owned f) :: u64) = ?q * ?o"
    using prod by (simp add: unat_word_ariths unat_widen)
  have a: "unat (ucast quota * ucast (sf_owned f) + ucast (sf_total f) :: u64) = ?q * ?o + ?t"
    using prod lim m by (subst unat_add_lem [THEN iffD1]) (simp_all add: unat_widen)
  have n: "unat ?n = ?q * ?o + ?t - 1"
    using a ot by (subst unat_sub) (simp_all add: word_le_nat_alt)
  have le: "(?q * ?o + ?t - 1) div ?t \<le> ?q"
  proof -
    have "?q * ?o \<le> ?q * ?t" using ot(1) by simp
    moreover have "(?q + 1) * ?t = ?q * ?t + ?t" by simp
    ultimately have "?q * ?o + ?t - 1 < (?q + 1) * ?t" using ot(2) by linarith
    from less_mult_imp_div_less [OF this] show ?thesis by simp
  qed
  have c: "unat (?n div ucast (sf_total f)) = (?q * ?o + ?t - 1) div ?t"
    by (simp add: unat_div n unat_widen)
  with le lim(1) have "?n div ucast (sf_total f) \<le> 0xFFFFFFFF" by (simp add: word_le_nat_alt)
  then have "per_node_ceiling f quota = ucast (?n div ucast (sf_total f))" by (simp add: per_node_ceiling_def Let_def)
  then show eq: "unat (per_node_ceiling f quota) = (?q * ?o + ?t - 1) div ?t"
    using c le lim(1) by (simp add: unat_narrow)
  show "unat (per_node_ceiling f quota) \<le> unat quota" using eq le by simp
qed

section \<open>Lemmas: claims\<close>

definition claimed_in :: "string \<Rightarrow> libsql_state \<Rightarrow> nat" where
  "claimed_in name s = length (filter (\<lambda>r. or_namespace r = name \<and> or_status r = Claimed) (ls_outbox s))"

lemma claimed_row_sel [simp]:
  "or_namespace (claimed_row now r) = or_namespace r" "or_workflow_id (claimed_row now r) = or_workflow_id r"
  "or_dispatch_key (claimed_row now r) = or_dispatch_key r" "or_status (claimed_row now r) = Claimed"
  by (simp_all add: claimed_row_def)

lemma filter_mark:
  "length (filter (\<lambda>r. P r \<and> or_status r = Claimed) (map (\<lambda>r. if Q r \<and> or_status r = Pending then claimed_row now r else r) rows))
   = length (filter (\<lambda>r. P r \<and> or_status r = Claimed) rows)
     + length (filter (\<lambda>r. P (claimed_row now r) \<and> Q r \<and> or_status r = Pending) rows)"
  by (induction rows) auto

text \<open>What a claim does to the table: it marks the pending rows it returns, and nothing else.\<close>

definition claims :: "timestamp \<Rightarrow> outbox_row list \<Rightarrow> libsql_state \<Rightarrow> libsql_state \<Rightarrow> bool" where
  "claims now rows s s' \<longleftrightarrow>
     (\<exists>sel. rows = map (claimed_row now) sel \<and> set sel \<subseteq> {r \<in> set (ls_outbox s). or_status r = Pending}
        \<and> distinct (map or_dispatch_key sel) \<and> s' = mark_claimed now (or_dispatch_key ` set sel) s)"

lemma claims_nil: "claims now [] s s"
  by (simp add: claims_def)

lemma mark_claimed_twice: "mark_claimed now K (mark_claimed now L s) = mark_claimed now (L \<union> K) s"
proof -
  have "(\<lambda>r. if or_dispatch_key r \<in> K \<and> or_status r = Pending then claimed_row now r else r) \<circ>
      (\<lambda>r. if or_dispatch_key r \<in> L \<and> or_status r = Pending then claimed_row now r else r) =
      (\<lambda>r. if or_dispatch_key r \<in> L \<union> K \<and> or_status r = Pending then claimed_row now r else r)"
    by (auto simp: fun_eq_iff)
  then show ?thesis by (simp add: mark_claimed_def update_outbox_def)
qed

lemma claims_append:
  assumes "claims now rows s s1" and "claims now rows' s1 s2"
  shows "claims now (rows @ rows') s s2"
proof -
  obtain sel where 1: "rows = map (claimed_row now) sel" "set sel \<subseteq> {r \<in> set (ls_outbox s). or_status r = Pending}"
    "distinct (map or_dispatch_key sel)" "s1 = mark_claimed now (or_dispatch_key ` set sel) s" using assms(1) by (auto simp: claims_def)
  obtain sel' where 2: "rows' = map (claimed_row now) sel'" "set sel' \<subseteq> {r \<in> set (ls_outbox s1). or_status r = Pending}"
    "distinct (map or_dispatch_key sel')" "s2 = mark_claimed now (or_dispatch_key ` set sel') s1" using assms(2) by (auto simp: claims_def)
  have new: "r \<in> set (ls_outbox s) \<and> or_status r = Pending \<and> or_dispatch_key r \<notin> or_dispatch_key ` set sel" if "r \<in> set sel'" for r
    using that 2(2) unfolding 1(4) by (auto simp: mark_claimed_def update_outbox_def split: if_splits)
  have "k \<notin> or_dispatch_key ` set sel" if "k \<in> or_dispatch_key ` set sel'" for k using new that by (metis imageE)
  then have "or_dispatch_key ` set sel \<inter> or_dispatch_key ` set sel' = {}" by (auto simp only: disjoint_iff)
  then have "distinct (map or_dispatch_key (sel @ sel'))" using 1(3) 2(3) by simp
  moreover have "s2 = mark_claimed now (or_dispatch_key ` set (sel @ sel')) s"
    unfolding 2(4) 1(4) mark_claimed_twice by (simp add: image_Un)
  ultimately show ?thesis unfolding claims_def using 1(1,2) 2(1) new by (intro exI [of _ "sel @ sel'"]) auto
qed

lemma scoped_claim:
  assumes "ls_inv s" and "claim_outbox_rows_scoped_excluding now route limit held s = (res, s')"
  shows "\<exists>rows. res = Inr rows \<and> ls_inv s' \<and> claims now rows s s' \<and> length rows \<le> unat limit
    \<and> (\<forall>r \<in> set rows. or_workflow_id r \<notin> held \<and> or_namespace r = cs_namespace route \<and> or_visible_after r \<le> now)
    \<and> (\<forall>name. claimed_in name s' = claimed_in name s + (if name = cs_namespace route then length rows else 0))"
proof -
  let ?sel = "selection (scoped_claimable now route) (unat limit) held s"
  let ?K = "or_dispatch_key ` set ?sel"
  have res: "res = Inr (map (claimed_row now) ?sel)" "s' = mark_claimed now ?K s"
    using assms(2) by (auto simp: claim_scoped_eq claim_result_def)
  have d: "distinct (map or_dispatch_key (ls_outbox s))" using assms(1) by (simp add: ls_inv_def)
  have sel: "r \<in> set (ls_outbox s)" "scoped_claimable now route r" "or_workflow_id r \<notin> held" if "r \<in> set ?sel" for r
    using selection_in [OF that] by simp_all
  have "distinct ?sel"
    using d by (auto simp: selection_def distinct_map intro!: distinct_take distinct_filter)
  have pend: "r \<in> set (ls_outbox s) \<and> or_dispatch_key r \<in> ?K \<longleftrightarrow> r \<in> set ?sel" for r
  proof
    assume "r \<in> set (ls_outbox s) \<and> or_dispatch_key r \<in> ?K"
    then obtain r' where "r' \<in> set ?sel" "or_dispatch_key r = or_dispatch_key r'" by blast
    with d sel(1) \<open>r \<in> _ \<and> _\<close> have "r = r'" by (metis distinct_map inj_onD)
    with \<open>r' \<in> set ?sel\<close> show "r \<in> set ?sel" by simp
  qed (auto dest: sel(1))
  have count: "length (filter (\<lambda>r. or_namespace r = name \<and> or_dispatch_key r \<in> ?K \<and> or_status r = Pending) (ls_outbox s))
      = (if name = cs_namespace route then length ?sel else 0)" (is "length ?rows = _") for name
  proof -
    have "set ?rows = {r \<in> set (ls_outbox s). or_dispatch_key r \<in> ?K} \<inter> {r. or_namespace r = name \<and> or_status r = Pending}" by auto
    also have "\<dots> = set ?sel \<inter> {r. or_namespace r = name \<and> or_status r = Pending}" using pend by simp
    also have "\<dots> = (if name = cs_namespace route then set ?sel else {})"
      using sel(2) by (auto simp: scoped_claimable_def claimable_def)
    finally have "set ?rows = (if name = cs_namespace route then set ?sel else {})" .
    moreover have "distinct ?rows" using d by (simp add: distinct_map)
    ultimately show ?thesis using \<open>distinct ?sel\<close> distinct_card [of ?rows] distinct_card [of ?sel] by (simp split: if_splits)
  qed
  have "claimed_in name s' = claimed_in name s + (if name = cs_namespace route then length ?sel else 0)" for name
    using filter_mark [of "\<lambda>r. or_namespace r = name" "\<lambda>r. or_dispatch_key r \<in> ?K" now "ls_outbox s"] count [of name]
    by (simp add: claimed_in_def res(2) mark_claimed_def update_outbox_def)
  moreover have "ls_inv s'" unfolding res(2) mark_claimed_def using assms(1) by (intro ls_inv_update) simp_all
  moreover have "\<forall>r \<in> set (map (claimed_row now) ?sel). or_workflow_id r \<notin> held \<and> or_namespace r = cs_namespace route \<and> or_visible_after r \<le> now"
    using sel(2,3) by (auto simp: scoped_claimable_def claimable_def claimed_row_def)
  moreover have "claims now (map (claimed_row now) ?sel) s s'"
    unfolding claims_def res(2) using sel d \<open>distinct ?sel\<close>
    by (intro exI [of _ ?sel]) (auto simp: scoped_claimable_def claimable_def distinct_map inj_on_def)
  ultimately show ?thesis unfolding res(1) by (auto simp: length_selection)
qed

definition takeable :: "timestamp \<Rightarrow> workflow_id set \<Rightarrow> outbox_row \<Rightarrow> bool" where
  "takeable now held r \<longleftrightarrow> or_workflow_id r \<notin> held \<and> or_visible_after r \<le> now"

lemma claim_routes_bound:
  assumes "claim_routes now held routes remaining got left claimed s = (res, claimed', s')"
    and "ls_inv s" and "\<forall>r \<in> set routes. cs_namespace r = name" and "unat got + unat remaining < 2 ^ 32"
  shows "\<exists>n rows. res = Inr n \<and> ls_inv s' \<and> claimed' = claimed @ rows \<and> claims now rows s s' \<and> unat n = unat got + length rows
    \<and> length rows \<le> unat remaining \<and> (\<forall>r \<in> set rows. takeable now held r)
    \<and> (\<forall>m. claimed_in m s' = claimed_in m s + (if m = name then length rows else 0))"
  using assms
proof (induction now held routes remaining got left claimed s rule: claim_routes.induct)
  case (1 now held remaining got left claimed s)
  then show ?case by (auto simp: claims_nil)
next
  case (2 now held route routes remaining got left claimed s)
  show ?case
  proof (cases "remaining = 0")
    case True
    with 2 show ?thesis by (auto simp: claims_nil)
  next
    case False
    let ?share = "min (max (div_ceil remaining left) 1) remaining"
    obtain out s1 where c: "claim_outbox_rows_scoped_excluding now route ?share held s = (out, s1)" by fastforce
    from scoped_claim [OF "2.prems"(2) c] obtain rows where rows: "out = Inr rows" "ls_inv s1" "claims now rows s s1" "length rows \<le> unat ?share"
      "\<forall>r \<in> set rows. or_workflow_id r \<notin> held \<and> or_namespace r = cs_namespace route \<and> or_visible_after r \<le> now"
      "\<forall>m. claimed_in m s1 = claimed_in m s + (if m = cs_namespace route then length rows else 0)" by (elim exE conjE) (rule that)
    have len: "length rows \<le> unat remaining" using rows(4) by (simp add: min_def word_le_nat_alt split: if_splits)
    let ?n = "u32_of (length rows)"
    have n: "unat ?n = length rows" using len by (rule unat_u32_of)
    have rem: "unat (saturating_sub remaining ?n) = unat remaining - length rows" by (simp add: unat_saturating_sub n)
    have got: "unat (saturating_add got ?n) = unat got + length rows"
      using "2.prems"(4) len by (subst unat_saturating_add) (simp_all add: n)
    have rest: "claim_routes now held routes (saturating_sub remaining ?n) (saturating_add got ?n)
        (max (saturating_sub left 1) 1) (claimed @ rows) s1 = (res, claimed', s')"
      using "2.prems"(1) False c rows(1) by (simp add: Let_def)
    have lim: "unat (saturating_add got ?n) + unat (saturating_sub remaining ?n) < 2 ^ 32" using "2.prems"(4) len by (simp add: got rem)
    have names: "\<forall>r \<in> set routes. cs_namespace r = name" using "2.prems"(3) by simp
    obtain n' rows' where "res = Inr n'" "ls_inv s'" "claimed' = (claimed @ rows) @ rows'" "claims now rows' s1 s'"
      "unat n' = unat got + length rows + length rows'" "length rows' \<le> unat remaining - length rows"
      "\<forall>r \<in> set rows'. takeable now held r" "\<forall>m. claimed_in m s' = claimed_in m s1 + (if m = name then length rows' else 0)"
      using "2.IH" [OF False refl c [symmetric] rows(1) refl rest rows(2) names lim] unfolding got rem by (elim exE conjE) (rule that)
    moreover have "cs_namespace route = name" using "2.prems"(3) by simp
    ultimately show ?thesis using rows(5,6) len claims_append [OF rows(3)]
      by (intro exI [of _ n'] exI [of _ "rows @ rows'"]) (auto simp: takeable_def)
  qed
qed

lemma claim_slice_bound:
  assumes "claim_namespace_slice now held routes allocation claimed s = (res, claimed', s')"
    and "ls_inv s" and "\<forall>r \<in> set routes. cs_namespace r = name"
  shows "\<exists>n rows. res = Inr n \<and> ls_inv s' \<and> claimed' = claimed @ rows \<and> claims now rows s s' \<and> unat n = length rows
    \<and> length rows \<le> unat allocation \<and> (\<forall>r \<in> set rows. takeable now held r)
    \<and> (\<forall>m. claimed_in m s' = claimed_in m s + (if m = name then length rows else 0))"
  using claim_routes_bound [OF assms(1) [unfolded claim_namespace_slice_def] assms(2,3)]
    unsigned_less [of allocation, where 'a = nat] by simp

definition room :: "(string \<times> u32) list \<Rightarrow> string \<Rightarrow> nat" where
  "room headroom name = unat (case map_of headroom name of None \<Rightarrow> 0 | Some n \<Rightarrow> n)"

text \<open>A pass moves rows from the headroom of their namespace, and from the budget, into the table; nothing is lost.\<close>

lemma claim_pass_conserves:
  assumes "claim_pass now held cap plans headroom budget claimed s = (res, claimed', s')" and "ls_inv s"
    and "\<forall>(name, plan) \<in> set plans. \<forall>r \<in> set (np_routes plan). cs_namespace r = name"
  shows "\<exists>headroom' budget' rows. res = Inr (headroom', budget') \<and> ls_inv s' \<and> claimed' = claimed @ rows \<and> claims now rows s s'
    \<and> unat budget = unat budget' + length rows \<and> (\<forall>r \<in> set rows. takeable now held r)
    \<and> (\<forall>m. claimed_in m s' + room headroom' m = claimed_in m s + room headroom m)"
  using assms
proof (induction now held cap plans headroom budget claimed s rule: claim_pass.induct)
  case (1 now held cap headroom budget claimed s)
  then show ?case by (auto simp: claims_nil)
next
  case (2 now held cap name plan plans headroom budget claimed s)
  show ?case
  proof (cases "cap = None \<and> budget = 0")
    case True
    with 2 show ?thesis by (auto simp: claims_nil)
  next
    case False
    let ?room = "case map_of headroom name of None \<Rightarrow> 0 | Some n \<Rightarrow> n"
    let ?alloc = "case cap of Some share \<Rightarrow> min (min share ?room) budget | None \<Rightarrow> min ?room budget"
    have alloc: "unat ?alloc \<le> unat ?room" "unat ?alloc \<le> unat budget"
      by (auto simp: word_le_nat_alt [symmetric] min.coboundedI2 min.coboundedI1 split: option.split)
    obtain out claimed1 s1 where c: "claim_namespace_slice now held (np_routes plan) ?alloc claimed s = (out, claimed1, s1)"
      by (metis prod_cases3)
    have "\<forall>r \<in> set (np_routes plan). cs_namespace r = name" using "2.prems"(3) by simp
    from claim_slice_bound [OF c "2.prems"(2) this] obtain n rows where n: "out = Inr n" "ls_inv s1" "claimed1 = claimed @ rows" "claims now rows s s1"
      "unat n = length rows" "length rows \<le> unat ?alloc" "\<forall>r \<in> set rows. takeable now held r"
      "\<forall>m. claimed_in m s1 = claimed_in m s + (if m = name then length rows else 0)" by (elim exE conjE) (rule that)
    let ?head = "AList.update name (saturating_sub ?room n) headroom"
    have head: "room ?head m = (if m = name then unat ?room - length rows else room headroom m)" for m
      unfolding room_def update_conv' by (simp add: unat_saturating_sub n(5))
    have rest: "claim_pass now held cap plans ?head (saturating_sub budget n) claimed1 s1 = (res, claimed', s')"
      using "2.prems"(1) False c n(1) by (simp add: Let_def)
    have "\<forall>(name, plan) \<in> set plans. \<forall>r \<in> set (np_routes plan). cs_namespace r = name" using "2.prems"(3) by simp
    from "2.IH" [OF False refl refl c [symmetric] n(1) refl rest n(2) this] obtain headroom' budget' rows' where
      "res = Inr (headroom', budget')" "ls_inv s'" "claimed' = claimed1 @ rows'" "claims now rows' s1 s'"
      "unat (saturating_sub budget n) = unat budget' + length rows'" "\<forall>r \<in> set rows'. takeable now held r"
      "\<forall>m. claimed_in m s' + room headroom' m = claimed_in m s1 + room ?head m" by (elim exE conjE) (rule that)
    moreover have "room headroom name = unat ?room" by (simp add: room_def)
    moreover have "length rows \<le> unat ?room" "length rows \<le> unat budget" using n(6) alloc by (blast intro: order_trans)+
    ultimately show ?thesis using n(3,5,7,8) claims_append [OF n(4)]
      by (intro exI [of _ headroom'] exI [of _ budget'] exI [of _ "rows @ rows'"]) (auto simp: unat_saturating_sub head)
  qed
qed

lemma claimed_counts:
  assumes "count_claimed_outbox_rows_by_namespace names s = Inr counts" and "name \<in> set names"
  shows "map_of counts name = Some (claimed_in name s)"
proof -
  have step: "map_of (fold (\<lambda>(ns, n) c. if ns \<in> set names then AList.update ns n c else c) groups init) name
      = (case map_of groups name of None \<Rightarrow> map_of init name | Some n \<Rightarrow> Some n)"
    if "distinct (map fst groups)" for groups :: "(string \<times> nat) list" and init
    using that
  proof (induction groups arbitrary: init)
    case (Cons g groups)
    obtain ns n where g: "g = (ns, n)" by fastforce
    with Cons.prems have "map_of groups ns = None" by (simp add: map_of_eq_None_iff)
    with Cons.IH [of "if ns \<in> set names then AList.update ns n init else init"] Cons.prems g assms(2) show ?case
      by (auto simp: update_conv' split: option.split)
  qed simp
  let ?claimed = "filter (\<lambda>r. or_status r = Claimed) (ls_outbox s)"
  have groups: "distinct (map fst (claimed_groups s))" by (simp add: claimed_groups_def comp_def)
  have "map_of (map (\<lambda>ns. (ns, f ns)) ns) name = (if name \<in> set ns then Some (f name) else None)" for f :: "string \<Rightarrow> nat" and ns
    by (induction ns) auto
  then have look: "map_of (claimed_groups s) name = (if name \<in> set (map or_namespace ?claimed) then Some (claimed_in name s) else None)"
    and init: "map_of (map (\<lambda>ns. (ns, 0 :: nat)) (sort (remdups names))) name = Some 0"
    using assms(2) by (auto simp: claimed_groups_def claimed_in_def Let_def conj_commute cong: conj_cong)
  have zero: "claimed_in name s = 0" if "name \<notin> set (map or_namespace ?claimed)"
    using that by (auto simp: claimed_in_def filter_empty_conv)
  have "counts = fold (\<lambda>(ns, n) c. if ns \<in> set names then AList.update ns n c else c) (claimed_groups s)
      (map (\<lambda>ns. (ns, 0)) (sort (remdups names)))"
    using assms(1) by (simp add: count_claimed_outbox_rows_by_namespace_def)
  then show ?thesis unfolding step [OF groups, folded] using look init zero by (auto simp: step [OF groups] split: if_splits)
qed

text \<open>The ceiling of a namespace is independent of the order in which the namespaces are looked up.\<close>

lemma quota_frame:
  assumes "quota_ceiling read now name qc = (n, qc')" and "m \<noteq> name"
  shows "fst (quota_ceiling read now m qc') = fst (quota_ceiling read now m qc)"
proof -
  have "qc_platform_default qc' = qc_platform_default qc" "qc_ttl qc' = qc_ttl qc"
    "map_of (qc_entries qc') m = map_of (qc_entries qc) m"
    using assms by (auto simp: quota_ceiling_def store_entry_def update_conv' Let_def split: option.splits)
  then show ?thesis by (simp add: quota_ceiling_def fresh_hit_def Let_def split: option.split sum.split)
qed

lemma within_max: "(a :: nat) \<le> b + r \<Longrightarrow> r \<le> c - b \<Longrightarrow> a \<le> max b c"
  by linarith

lemma plan_namespaces_sound:
  assumes "plan_namespaces f read now counts groups qc = (plans, qc')" and "distinct (map fst groups)"
  shows "map fst plans = map fst groups
    \<and> (\<forall>(name, plan) \<in> set plans. (name, np_routes plan) \<in> set groups
        \<and> np_headroom plan = saturating_sub (per_node_ceiling f (fst (quota_ceiling read now name qc)))
            (u32_of (case map_of counts name of None \<Rightarrow> 0 | Some n \<Rightarrow> n)))"
  using assms
proof (induction f read now counts groups qc arbitrary: plans qc' rule: plan_namespaces.induct)
  case (2 f read now counts name routes groups qc)
  obtain quota qc1 where q: "quota_ceiling read now name qc = (quota, qc1)" by fastforce
  obtain plans1 qc2 where p: "plan_namespaces f read now counts groups qc1 = (plans1, qc2)" by fastforce
  have ih: "map fst plans1 = map fst groups"
    "\<And>m plan. (m, plan) \<in> set plans1 \<Longrightarrow> (m, np_routes plan) \<in> set groups
        \<and> np_headroom plan = saturating_sub (per_node_ceiling f (fst (quota_ceiling read now m qc1)))
            (u32_of (case map_of counts m of None \<Rightarrow> 0 | Some n \<Rightarrow> n))"
    using "2.IH" [OF q [symmetric] refl refl refl p] "2.prems"(2) by auto
  have "fst (quota_ceiling read now m qc1) = fst (quota_ceiling read now m qc)" if "(m, plan) \<in> set plans1" for m plan
    using ih(2) [OF that] "2.prems"(2) by (intro quota_frame [OF q]) force
  with ih "2.prems" q p show ?case by (auto simp: Let_def)
qed auto

text \<open>Both passes together.\<close>

lemma execute_plan_claims:
  assumes "execute_plan now held plan batch_size s = (res, s')" and "ls_inv s"
    and "\<forall>(name, p) \<in> set (sp_namespaces plan). \<forall>r \<in> set (np_routes p). cs_namespace r = name"
  shows "\<exists>rows. res = Inr rows \<and> ls_inv s' \<and> claims now rows s s' \<and> length rows \<le> unat batch_size \<and> (\<forall>r \<in> set rows. takeable now held r)
    \<and> (\<forall>m. claimed_in m s' \<le> claimed_in m s + room (map (\<lambda>(name, p). (name, np_headroom p)) (sp_namespaces plan)) m)"
proof -
  let ?head = "map (\<lambda>(name, p). (name, np_headroom p)) (sp_namespaces plan)"
  obtain r1 c1 s1 where p1: "claim_pass now held (Some (sp_per_namespace_slice plan)) (sp_namespaces plan) ?head batch_size [] s = (r1, c1, s1)"
    by (metis prod_cases3)
  from claim_pass_conserves [OF p1 assms(2,3)] obtain h1 b1 rows1 where 1: "r1 = Inr (h1, b1)" "ls_inv s1" "c1 = [] @ rows1" "claims now rows1 s s1"
    "unat batch_size = unat b1 + length rows1" "\<forall>r \<in> set rows1. takeable now held r"
    "\<forall>m. claimed_in m s1 + room h1 m = claimed_in m s + room ?head m" by (elim exE conjE) (rule that)
  obtain r2 c2 s2 where p2: "claim_pass now held None (sp_namespaces plan) h1 b1 c1 s1 = (r2, c2, s2)" by (metis prod_cases3)
  from claim_pass_conserves [OF p2 1(2) assms(3)] obtain h2 b2 rows2 where 2: "r2 = Inr (h2, b2)" "ls_inv s2" "c2 = c1 @ rows2" "claims now rows2 s1 s2"
    "unat b1 = unat b2 + length rows2" "\<forall>r \<in> set rows2. takeable now held r"
    "\<forall>m. claimed_in m s2 + room h2 m = claimed_in m s1 + room h1 m" by (elim exE conjE) (rule that)
  have "res = Inr (rows1 @ rows2)" "s' = s2" using assms(1) p1 p2 1(1,3) 2(1,3) by (auto simp: execute_plan_def)
  moreover have "claimed_in m s2 \<le> claimed_in m s + room ?head m" for m using 1(7) 2(7) by (metis le_add1)
  ultimately show ?thesis using 1(5,6) 2(2,5,6) claims_append [OF 1(4) 2(4)] by auto
qed

lemma group_routes_own: "(name, routes) \<in> set (group_routes rs) \<Longrightarrow> r \<in> set routes \<Longrightarrow> cs_namespace r = name"
  by (auto simp: group_routes_def)

lemma excluding_claims:
  assumes "ls_inv s" and "claim_outbox_rows_excluding now limit held s = (res, s')"
  shows "\<exists>rows. res = Inr rows \<and> ls_inv s' \<and> claims now rows s s' \<and> (\<forall>r \<in> set rows. takeable now held r)"
proof -
  let ?sel = "selection (claimable now) (unat limit) held s"
  have res: "res = Inr (map (claimed_row now) ?sel)" "s' = mark_claimed now (or_dispatch_key ` set ?sel) s"
    using assms(2) by (auto simp: claim_excluding_eq claim_result_def)
  have d: "distinct (map or_dispatch_key (ls_outbox s))" using assms(1) by (simp add: ls_inv_def)
  then have "distinct ?sel" by (auto simp: selection_def distinct_map intro!: distinct_take distinct_filter)
  have sel: "r \<in> set (ls_outbox s)" "claimable now r" "or_workflow_id r \<notin> held" if "r \<in> set ?sel" for r using selection_in [OF that] by simp_all
  have "claims now (map (claimed_row now) ?sel) s s'"
    unfolding claims_def res(2) using sel d \<open>distinct ?sel\<close>
    by (intro exI [of _ ?sel]) (auto simp: claimable_def distinct_map inj_on_def)
  moreover have "ls_inv s'" unfolding res(2) mark_claimed_def using assms(1) by (intro ls_inv_update) simp_all
  ultimately show ?thesis using res(1) sel by (auto simp: takeable_def claimable_def claimed_row_def)
qed

lemma round_robin_claims:
  assumes "ls_inv s" and "claim_round_robin f read now batch_size held qc s = (res, qc', s')"
  shows "\<exists>rows. res = Inr rows \<and> ls_inv s' \<and> claims now rows s s' \<and> (\<forall>r \<in> set rows. takeable now held r)"
proof -
  obtain routes where routes: "pending_outbox_routes now s = Inr routes" by (simp add: pending_outbox_routes_def)
  show ?thesis
  proof (cases "routes = []")
    case True
    with assms routes show ?thesis by (auto simp: claim_round_robin_def claims_nil intro!: exI [of _ "[]"])
  next
    case False
    let ?groups = "group_routes routes"
    obtain counts where counts: "count_claimed_outbox_rows_by_namespace (map fst ?groups) s = Inr counts"
      by (simp add: count_claimed_outbox_rows_by_namespace_def)
    obtain plans qc1 where plans: "plan_namespaces f read now counts ?groups qc = (plans, qc1)" by fastforce
    have "distinct (map fst ?groups)" by (simp add: group_routes_def comp_def)
    note ps = plan_namespaces_sound [OF plans this]
    let ?plan = "\<lparr>sp_namespaces = plans, sp_per_namespace_slice = max (div_ceil batch_size (max (u32_of (length plans)) 1)) 1\<rparr>"
    have ex: "execute_plan now held ?plan batch_size s = (res, s')"
      using assms(2) routes False counts plans by (simp add: claim_round_robin_def plan_sweep_def Let_def split: prod.splits)
    have "\<forall>(name, p) \<in> set (sp_namespaces ?plan). \<forall>r \<in> set (np_routes p). cs_namespace r = name"
      using ps by (auto dest: group_routes_own)
    from execute_plan_claims [OF ex assms(1) this] show ?thesis by blast
  qed
qed

section \<open>Properties\<close>

text \<open>C28: one sweep of the per-tenant claim, over a well-formed outbox and whatever the namespace registry answers.  It takes
  no more rows than the batch, only due rows of workflows that are not held, and no namespace is taken past its share of
  the quota: after the sweep it has at most as many claimed rows as before or as its ceiling on this node,
  and that ceiling never exceeds the quota of the whole cluster.\<close>

theorem sweep_within_ceilings:
  assumes "ls_inv s" and "0 < sf_total f" and "sf_owned f \<le> sf_total f"
    and "claim_round_robin f read now batch_size held qc s = (Inr rows, qc', s')"
  shows "length rows \<le> unat batch_size
    \<and> (\<forall>r \<in> set rows. or_workflow_id r \<notin> held \<and> or_visible_after r \<le> now)
    \<and> (\<forall>name. let quota = fst (quota_ceiling read now name qc)
        in claimed_in name s' \<le> max (claimed_in name s) (unat (per_node_ceiling f quota)) \<and> per_node_ceiling f quota \<le> quota)"
proof -
  have ceil: "per_node_ceiling f quota \<le> quota" for quota
    using per_node_ceiling_eq(2) [OF assms(2,3)] by (simp add: word_le_nat_alt)
  obtain routes where routes: "pending_outbox_routes now s = Inr routes" by (simp add: pending_outbox_routes_def)
  show ?thesis
  proof (cases "routes = []")
    case True
    with assms(4) routes show ?thesis by (simp add: claim_round_robin_def Let_def ceil)
  next
    case False
    let ?groups = "group_routes routes"
    obtain counts where counts: "count_claimed_outbox_rows_by_namespace (map fst ?groups) s = Inr counts"
      by (simp add: count_claimed_outbox_rows_by_namespace_def)
    obtain plans qc1 where plans: "plan_namespaces f read now counts ?groups qc = (plans, qc1)" by fastforce
    have "distinct (map fst ?groups)" by (simp add: group_routes_def comp_def)
    note ps = plan_namespaces_sound [OF plans this]
    let ?plan = "\<lparr>sp_namespaces = plans, sp_per_namespace_slice = max (div_ceil batch_size (max (u32_of (length plans)) 1)) 1\<rparr>"
    have ex: "execute_plan now held ?plan batch_size s = (Inr rows, s')"
      using assms(4) routes False counts plans by (simp add: claim_round_robin_def plan_sweep_def Let_def split: prod.splits)
    have own: "\<forall>(name, plan) \<in> set plans. \<forall>r \<in> set (np_routes plan). cs_namespace r = name"
      using ps by (fastforce simp: group_routes_def)
    let ?head = "map (\<lambda>(name, p). (name, np_headroom p)) plans"
    have took: "length rows \<le> unat batch_size" "\<forall>r \<in> set rows. takeable now held r" "\<forall>m. claimed_in m s' \<le> claimed_in m s + room ?head m"
      using execute_plan_claims [OF ex assms(1)] own by auto
    have "claimed_in m s' \<le> claimed_in m s + room ?head m" for m using took(3) by blast
    moreover have "room ?head m \<le> unat (per_node_ceiling f (fst (quota_ceiling read now m qc))) - claimed_in m s" for m
    proof (cases "map_of plans m")
      case None
      then have "map_of ?head m = None" by (induction plans) auto
      then show ?thesis by (simp add: room_def)
    next
      case (Some plan)
      then have mem: "(m, plan) \<in> set plans" by (rule map_of_SomeD)
      then have "m \<in> set (map fst plans)" by force
      then have "m \<in> set (map fst ?groups)" using ps by simp
      from claimed_counts [OF counts this] ps mem have
        "np_headroom plan = saturating_sub (per_node_ceiling f (fst (quota_ceiling read now m qc))) (u32_of (claimed_in m s))" by auto
      moreover have "map_of ?head m = Some (np_headroom plan)" using Some by (induction plans) auto
      moreover have "unat x - unat (u32_of n) \<le> unat x - n" for x :: u32 and n
        using unsigned_less [of x, where 'a = nat] by (cases "n < 2 ^ 32") (simp_all add: u32_of_def unat_of_nat unsigned_minus_1_eq_mask mask_eq_exp_minus_1)
      ultimately show ?thesis by (simp add: room_def unat_saturating_sub)
    qed
    ultimately have le: "claimed_in m s' \<le> max (claimed_in m s) (unat (per_node_ceiling f (fst (quota_ceiling read now m qc))))" for m
      by (rule within_max)
    with took(1,2) show ?thesis by (simp add: takeable_def ceil Let_def)
  qed
qed

section \<open>Starvation\<close>

abbreviation s_tenant_row :: "string \<Rightarrow> u64 \<Rightarrow> outbox_row" where
  "s_tenant_row name n \<equiv> (pending_row decimal_uuid s_workflow n ''charge'' s_payload (uint n))\<lparr>or_namespace := name\<rparr>"

definition s_tenants :: libsql_state where
  "s_tenants = libsql_empty\<lparr>ls_outbox := [s_tenant_row ''a'' 1, s_tenant_row ''a'' 2, s_tenant_row ''b'' 3, s_tenant_row ''b'' 4,
     s_tenant_row ''c'' 5]\<rparr>"

definition s_quota :: quota_cache where
  "s_quota = \<lparr>qc_platform_default = 10, qc_ttl = 60, qc_entries = []\<rparr>"

abbreviation s_route :: "string \<Rightarrow> claim_scope" where
  "s_route name \<equiv> \<lparr>cs_namespace = name, cs_task_queue = ''default'', cs_node = None\<rparr>"

lemma s_tenants_inv: "ls_inv s_tenants"
  using libsql_empty_inv by (simp add: ls_inv_def s_tenants_def pending_row_def dispatch_key_for_def) 

lemma s_routes: "pending_outbox_routes 9 s_tenants = Inr [s_route ''a'', s_route ''b'', s_route ''c'']"
  by (simp add: pending_outbox_routes_def s_tenants_def claimable_def pending_row_def claim_scope_new_def claim_scope_with_node_def
      DEFAULT_OUTBOX_ROUTE_def DEFAULT_TASK_QUEUE_def)

lemma s_groups:
  "group_routes [s_route ''a'', s_route ''b'', s_route ''c''] = [(''a'', [s_route ''a'']), (''b'', [s_route ''b'']), (''c'', [s_route ''c''])]"
  by (simp add: group_routes_def)

lemma s_plan:
  "\<exists>qc'. plan_sweep own_all (\<lambda>_. Inr None) 9 [s_route ''a'', s_route ''b'', s_route ''c''] 4 s_quota s_tenants =
     (Inr \<lparr>sp_namespaces = map (\<lambda>name. (name, \<lparr>np_headroom = 10, np_routes = [s_route name]\<rparr>)) [''a'', ''b'', ''c''],
           sp_per_namespace_slice = 2\<rparr>, qc')"
proof -
  have counts: "count_claimed_outbox_rows_by_namespace [''a'', ''b'', ''c''] s_tenants = Inr [(''a'', 0), (''b'', 0), (''c'', 0)]"
    by (simp add: count_claimed_outbox_rows_by_namespace_def claimed_groups_def s_tenants_def pending_row_def)
  have "per_node_ceiling own_all 10 = 10" by (simp add: per_node_ceiling_def own_all_def)
  then have "\<exists>qc'. plan_namespaces own_all (\<lambda>_. Inr None) 9 [(''a'', 0), (''b'', 0), (''c'', 0)]
      [(''a'', [s_route ''a'']), (''b'', [s_route ''b'']), (''c'', [s_route ''c''])] s_quota
      = (map (\<lambda>name. (name, \<lparr>np_headroom = 10, np_routes = [s_route name]\<rparr>)) [''a'', ''b'', ''c''], qc')"
    by (simp add: quota_ceiling_def fresh_hit_def store_entry_def s_quota_def Let_def u32_of_def saturating_sub_def)
  then show ?thesis by (auto simp: plan_sweep_def s_groups counts div_ceil_def u32_of_def)
qed

text \<open>A namespace with one route claims as much as its allocation allows.\<close>

lemma slice_one_route:
  assumes "allocation \<noteq> 0" and "selection (scoped_claimable now route) (unat allocation) held s = sel" and "length sel = unat allocation"
  shows "claim_namespace_slice now held [route] allocation claimed s =
    (Inr allocation, claimed @ map (claimed_row now) sel, mark_claimed now (or_dispatch_key ` set sel) s)"
proof -
  have "div_ceil allocation 1 = allocation" by (simp add: div_ceil_def)
  moreover have "max allocation 1 = allocation" using assms(1) by (intro max_absorb1) (simp add: word_le_nat_alt Suc_le_eq unat_gt_0)
  moreover have "u32_of (unat allocation) = allocation" using unsigned_less [of allocation, where 'a = nat] by (simp add: u32_of_def)
  ultimately show ?thesis
    using assms unsigned_less [of allocation, where 'a = nat]
    by (simp add: claim_namespace_slice_def claim_scoped_eq claim_result_def u32_of_def [of "Suc 0"] Let_def saturating_add_def checked_add_def)
qed

lemma s_sweep:
  "\<exists>plan qc' rows s'. plan_sweep own_all (\<lambda>_. Inr None) 9 [s_route ''a'', s_route ''b'', s_route ''c''] 4 s_quota s_tenants = (Inr plan, qc')
     \<and> sp_per_namespace_slice plan = 2 \<and> map fst (sp_namespaces plan) = [''a'', ''b'', ''c'']
     \<and> map (\<lambda>p. np_headroom (snd p)) (sp_namespaces plan) = [10, 10, 10]
     \<and> claim_round_robin own_all (\<lambda>_. Inr None) 9 4 {} s_quota s_tenants = (Inr rows, qc', s')
     \<and> map or_namespace rows = [''a'', ''a'', ''b'', ''b'']
     \<and> (\<exists>r \<in> set (ls_outbox s'). or_namespace r = ''c'' \<and> claimable 9 r)"
proof -
  let ?sel = "\<lambda>name s. selection (scoped_claimable 9 (s_route name)) 2 {} s"
  define s1 where "s1 = mark_claimed 9 (or_dispatch_key ` set [s_tenant_row ''a'' 1, s_tenant_row ''a'' 2]) s_tenants"
  define s2 where "s2 = mark_claimed 9 (or_dispatch_key ` set [s_tenant_row ''b'' 3, s_tenant_row ''b'' 4]) s1"
  note table = s1_def s2_def s_tenants_def mark_claimed_def update_outbox_def pending_row_def claimed_row_def dispatch_key_for_def
  note scope = scoped_claimable_def claimable_def node_clause_def DEFAULT_OUTBOX_ROUTE_def DEFAULT_TASK_QUEUE_def
  have sel: "?sel ''a'' s_tenants = [s_tenant_row ''a'' 1, s_tenant_row ''a'' 2]" "?sel ''b'' s1 = [s_tenant_row ''b'' 3, s_tenant_row ''b'' 4]"
    by (simp_all add: selection_def table scope due_order_def less_eq_prod_def)
  obtain qc' where plan: "plan_sweep own_all (\<lambda>_. Inr None) 9 [s_route ''a'', s_route ''b'', s_route ''c''] 4 s_quota s_tenants =
     (Inr \<lparr>sp_namespaces = map (\<lambda>name. (name, \<lparr>np_headroom = 10, np_routes = [s_route name]\<rparr>)) [''a'', ''b'', ''c''],
           sp_per_namespace_slice = 2\<rparr>, qc')" using s_plan by blast
  have a: "claim_namespace_slice 9 {} [s_route ''a''] 2 [] s_tenants = (Inr 2, map (claimed_row 9) (?sel ''a'' s_tenants), s1)"
    using slice_one_route [of 2 9 "s_route ''a''" "{}" s_tenants "[s_tenant_row ''a'' 1, s_tenant_row ''a'' 2]" "[]"] sel(1) by (simp add: s1_def)
  have b: "claim_namespace_slice 9 {} [s_route ''b''] 2 rows s1 = (Inr 2, rows @ map (claimed_row 9) (?sel ''b'' s1), s2)" for rows
    using slice_one_route [of 2 9 "s_route ''b''" "{}" s1 "[s_tenant_row ''b'' 3, s_tenant_row ''b'' 4]" rows] sel(2) by (simp add: s2_def)
  have c: "claim_namespace_slice 9 {} [s_route ''c''] 0 rows s2 = (Inr 0, rows, s2)" for rows
    by (simp add: claim_namespace_slice_def)
  let ?rows = "map (claimed_row 9) (?sel ''a'' s_tenants) @ map (claimed_row 9) (?sel ''b'' s1)"
  have "claim_round_robin own_all (\<lambda>_. Inr None) 9 4 {} s_quota s_tenants = (Inr ?rows, qc', s2)"
    by (simp add: claim_round_robin_def s_routes plan execute_plan_def a b c saturating_sub_def)
  moreover have "\<exists>r \<in> set (ls_outbox s2). or_namespace r = ''c'' \<and> claimable 9 r" by (simp add: table claimable_def)
  ultimately show ?thesis using plan by (simp add: sel)
qed

text \<open>The guaranteed slice is not guaranteed: it is the batch divided by the number of active namespaces, rounded up, so the
  first namespaces in the order of their names can use up the batch.  With a batch of four and three namespaces, the first
  two with two due rows each, the third is given nothing although its slice is two, it has a due row and
  all its quota is free.\<close>

theorem late_namespace_starved:
  "\<exists>plan qc' rows s'. plan_sweep own_all (\<lambda>_. Inr None) 9 [s_route ''a'', s_route ''b'', s_route ''c''] 4 s_quota s_tenants = (Inr plan, qc')
     \<and> sp_per_namespace_slice plan = 2 \<and> map fst (sp_namespaces plan) = [''a'', ''b'', ''c'']
     \<and> map (\<lambda>p. np_headroom (snd p)) (sp_namespaces plan) = [10, 10, 10]
     \<and> claim_round_robin own_all (\<lambda>_. Inr None) 9 4 {} s_quota s_tenants = (Inr rows, qc', s')
     \<and> map or_namespace rows = [''a'', ''a'', ''b'', ''b'']
     \<and> (\<exists>r \<in> set (ls_outbox s'). or_namespace r = ''c'' \<and> claimable 9 r)"
  by (rule s_sweep)

section \<open>Witness\<close>

theorem sweep_within_ceilings_witness:
  "\<exists>rows qc' s'. claim_round_robin own_all (\<lambda>_. Inr None) 9 4 {} s_quota s_tenants = (Inr rows, qc', s')
     \<and> length rows = 4 \<and> claimed_in ''a'' s' \<le> 10"
proof -
  from s_sweep obtain rows qc' s' where 1: "claim_round_robin own_all (\<lambda>_. Inr None) 9 4 {} s_quota s_tenants = (Inr rows, qc', s')"
    "map or_namespace rows = [''a'', ''a'', ''b'', ''b'']" by (elim exE conjE) (rule that)
  have frac: "0 < sf_total own_all" "sf_owned own_all \<le> sf_total own_all" by (simp_all add: own_all_def)
  have "fst (quota_ceiling (\<lambda>_. Inr None) 9 ''a'' s_quota) = 10"
    "claimed_in ''a'' s_tenants = 0" "unat (per_node_ceiling own_all 10) = 10"
    by (simp_all add: quota_ceiling_def fresh_hit_def s_quota_def claimed_in_def s_tenants_def pending_row_def per_node_ceiling_def own_all_def)
  with sweep_within_ceilings [OF s_tenants_inv frac 1(1)] have "claimed_in ''a'' s' \<le> 10" by (auto simp: Let_def dest!: spec [of _ "''a''"])
  moreover have "length rows = 4" using arg_cong [OF 1(2), of length] by simp
  ultimately show ?thesis using 1(1) by blast
qed

end
