(* ===== verification/Outbox_Dispatcher.thy ===== *)
theory Outbox_Dispatcher
  imports Worker_Registry Backpressure Schedule
begin

text \<open>
  \<^verbatim>\<open>crates/aion-server/src/worker/outbox_dispatcher.rs\<close> with the push dispatch it drives (\<^verbatim>\<open>dispatch.rs\<close>, the tiers of
  \<^verbatim>\<open>placement_cache.rs\<close> and the gate of \<^verbatim>\<open>shutdown.rs\<close>): a sweep claims outbox rows and pushes each to a connected worker; a row that
  was delivered is done, one that was not is retried after a growing delay, and failed once its attempts are used up.

  \<open>dispatch_world\<close> is what the dispatcher sees: the store, the worker registry, the caches, the hold set, the drain gate, the
  clock, the channels that are open and, in \<open>dw_rest\<close>, everything else.  Three fields are traces: \<open>dw_sent\<close>, the tasks sent with the
  worker each went to, \<open>dw_calls\<close>, the rows handed to the dispatch, and \<open>dw_rearmed\<close>, the rows other tasks have re-armed.  \<open>tasks\<close> is what other tasks do while the
  dispatcher is suspended: \<open>tk_meanwhile\<close> while a send waits for room, \<open>tk_arrive\<close> until the next registration wakes a waiting dispatch,
  \<open>None\<close> when none does.  An operation that waits for ever, or panics because the retry instant is out of range,
  is \<open>None\<close>.  The row dispatch is a trait, so the sweep takes it as an argument.  So is the store: \<open>fails row w\<close> says that the write
  of the row's outcome fails, which leaves the row as it is.  A claim is taken to succeed.  Log output is not modelled.

  The lemmas show where a task may go, that it is delivered when it can be, and how often and with which delay a row is
  tried; and that a failed read of the registry overrides a pin.
\<close>

section \<open>Types\<close>

record scheduled_activity =
  sa_namespace :: string
  sa_task_queue :: string
  sa_activity_type :: string
  sa_node :: "string option"
  sa_workflow_id :: workflow_id
  sa_activity_id :: activity_id
  sa_run_id :: "run_id option"
  sa_input :: payload
  sa_attempt :: u32
  sa_labels :: "(string \<times> string) list"

record activity_task =
  at_workflow_id :: workflow_id
  at_activity_id :: activity_id
  at_activity_type :: string
  at_input :: payload
  at_attempt :: u32
  at_labels :: "(string \<times> string) list"
  at_run_id :: "run_id option"

definition to_task :: "scheduled_activity \<Rightarrow> activity_task" where
  "to_task a =
     \<lparr>at_workflow_id = sa_workflow_id a, at_activity_id = sa_activity_id a, at_activity_type = sa_activity_type a,
      at_input = sa_input a, at_attempt = sa_attempt a, at_labels = sa_labels a, at_run_id = sa_run_id a\<rparr>"

record 'x dispatch_world =
  dw_store :: libsql_state
  dw_registry :: registry_state
  dw_read :: namespace_read
  dw_placements :: "placement_cache option"
  dw_quota :: quota_cache
  dw_paused :: "workflow_id set"
  dw_draining :: bool
  dw_now :: timestamp
  dw_open :: "nat set"
  dw_sent :: "(worker_handle \<times> activity_task) list"
  dw_calls :: "string list"
  dw_rearmed :: "string list"
  dw_rest :: 'x

record 'x tasks =
  tk_meanwhile :: "'x dispatch_world \<Rightarrow> 'x dispatch_world"
  tk_arrive :: "'x dispatch_world \<Rightarrow> 'x dispatch_world option"

type_synonym 'x dispatched = "((server_error, unit) result \<times> 'x dispatch_world) option"

section \<open>Pushing a task to a worker\<close>

definition ensure_accepting :: "scheduled_activity \<Rightarrow> 'x dispatch_world \<Rightarrow> (server_error, unit) result" where
  "ensure_accepting a w =
     (if dw_draining w
      then Inl (WorkerDispatch (sa_namespace a) (sa_activity_type a) ''server is draining and not accepting new activity tasks'')
      else Inr ())"

definition drop_worker :: "worker_handle \<Rightarrow> 'x dispatch_world \<Rightarrow> 'x dispatch_world" where
  "drop_worker h w = w\<lparr>dw_registry := deregister_worker (wk_id h) (dw_registry w)\<rparr>"

text \<open>The result tells whether the task was delivered.\<close>

fun send_to_candidates ::
  "'x tasks \<Rightarrow> scheduled_activity \<Rightarrow> worker_handle list \<Rightarrow> 'x dispatch_world \<Rightarrow> (server_error, bool) result \<times> 'x dispatch_world" where
  "send_to_candidates tk a [] w = (Inr False, w)"
| "send_to_candidates tk a (h # hs) w =
     (case ensure_accepting a w of
        Inl e \<Rightarrow> (Inl e, w)
      | Inr _ \<Rightarrow>
          (case sender h of
             None \<Rightarrow> send_to_candidates tk a hs (drop_worker h w)
           | Some channel \<Rightarrow>
               (let w1 = tk_meanwhile tk w
                in if channel \<in> dw_open w1 then (Inr True, w1\<lparr>dw_sent := dw_sent w1 @ [(h, to_task a)]\<rparr>)
                   else send_to_candidates tk a hs (drop_worker h w1))))"

definition look_up :: "scheduled_activity \<Rightarrow> string option \<Rightarrow> 'x dispatch_world \<Rightarrow> worker_handle list \<times> 'x dispatch_world" where
  "look_up a node w =
     (let (candidates, reg) = workers_for (sa_namespace a) (sa_task_queue a) (sa_activity_type a) node (dw_registry w)
      in (candidates, w\<lparr>dw_registry := reg\<rparr>))"

partial_function (option) dispatch_to_node ::
  "'x tasks \<Rightarrow> scheduled_activity \<Rightarrow> string option \<Rightarrow> 'x dispatch_world \<Rightarrow> 'x dispatched" where
  "dispatch_to_node tk a node w =
     (case ensure_accepting a w of
        Inl e \<Rightarrow> Some (Inl e, w)
      | Inr _ \<Rightarrow>
          (case look_up a node w of (candidates, w1) \<Rightarrow>
             if candidates = [] then Option.bind (tk_arrive tk w1) (\<lambda>w2. dispatch_to_node tk a node w2)
             else Some (case send_to_candidates tk a candidates w1 of
                    (Inl e, w2) \<Rightarrow> (Inl e, w2)
                  | (Inr True, w2) \<Rightarrow> (Inr (), w2)
                  | (Inr False, w2) \<Rightarrow>
                      (Inl (WorkerDispatch (sa_namespace a) (sa_activity_type a)
                         (''all matching worker streams in task queue '' @ sa_task_queue a
                          @ '' closed before task could be delivered'')), w2))))"

definition dispatch_activity :: "'x tasks \<Rightarrow> scheduled_activity \<Rightarrow> 'x dispatch_world \<Rightarrow> 'x dispatched" where
  "dispatch_activity tk a w = dispatch_to_node tk a (sa_node a) w"

text \<open>One attempt at the workers on one node, without waiting.\<close>

definition try_label ::
  "'x tasks \<Rightarrow> scheduled_activity \<Rightarrow> string \<Rightarrow> 'x dispatch_world \<Rightarrow> (server_error, bool) result \<times> 'x dispatch_world" where
  "try_label tk a label w =
     (case ensure_accepting a w of
        Inl e \<Rightarrow> (Inl e, w)
      | Inr _ \<Rightarrow> (case look_up a (Some label) w of (candidates, w1) \<Rightarrow> send_to_candidates tk a candidates w1))"

fun try_labels ::
  "'x tasks \<Rightarrow> scheduled_activity \<Rightarrow> string list \<Rightarrow> 'x dispatch_world \<Rightarrow> (server_error, bool) result \<times> 'x dispatch_world" where
  "try_labels tk a [] w = (Inr False, w)"
| "try_labels tk a (label # labels) w =
     (case try_label tk a label w of
        (Inl e, w1) \<Rightarrow> (Inl e, w1)
      | (Inr True, w1) \<Rightarrow> (Inr True, w1)
      | (Inr False, w1) \<Rightarrow> try_labels tk a labels w1)"

partial_function (option) dispatch_requiring ::
  "'x tasks \<Rightarrow> scheduled_activity \<Rightarrow> string list \<Rightarrow> 'x dispatch_world \<Rightarrow> 'x dispatched" where
  "dispatch_requiring tk a required w =
     (case try_labels tk a required w of
        (Inl e, w1) \<Rightarrow> Some (Inl e, w1)
      | (Inr delivered, w1) \<Rightarrow>
          if delivered then Some (Inr (), w1)
          else Option.bind (tk_arrive tk w1) (\<lambda>w2. dispatch_requiring tk a required w2))"

fun dispatch_over_tiers ::
  "'x tasks \<Rightarrow> scheduled_activity \<Rightarrow> string option list \<Rightarrow> 'x dispatch_world \<Rightarrow> 'x dispatched" where
  "dispatch_over_tiers tk a [] w = dispatch_to_node tk a (sa_node a) w"
| "dispatch_over_tiers tk a (None # tiers) w = dispatch_to_node tk a (sa_node a) w"
| "dispatch_over_tiers tk a (Some label # tiers) w =
     (case try_label tk a label w of
        (Inl e, w1) \<Rightarrow> Some (Inl e, w1)
      | (Inr True, w1) \<Rightarrow> Some (Inr (), w1)
      | (Inr False, w1) \<Rightarrow> dispatch_over_tiers tk a tiers w1)"

fun preferred_node_order :: "namespace_placement \<Rightarrow> string option list" where
  "preferred_node_order (Prefer nodes) = map Some (sorted_list_of_set nodes) @ [None]"
| "preferred_node_order _ = [None]"

definition dispatch_preferring :: "'x tasks \<Rightarrow> scheduled_activity \<Rightarrow> string set \<Rightarrow> 'x dispatch_world \<Rightarrow> 'x dispatched" where
  "dispatch_preferring tk a preferred w = dispatch_over_tiers tk a (preferred_node_order (Prefer preferred)) w"

section \<open>Dispatching a row\<close>

definition to_scheduled :: "outbox_row \<Rightarrow> scheduled_activity" where
  "to_scheduled row =
     \<lparr>sa_namespace = or_namespace row, sa_task_queue = or_task_queue row, sa_activity_type = or_activity_type row,
      sa_node = or_node row, sa_workflow_id = or_workflow_id row, sa_activity_id = from_sequence_position (or_ordinal row),
      sa_run_id = or_run_id row, sa_input = or_input row, sa_attempt = saturating_add (or_attempt row) 1, sa_labels = []\<rparr>"

definition worker_dispatch :: "'x tasks \<Rightarrow> outbox_row \<Rightarrow> 'x dispatch_world \<Rightarrow> 'x dispatched" where
  "worker_dispatch tk row w =
     (let a = to_scheduled row
      in case (dw_placements w, sa_node a) of
           (Some pc, None) \<Rightarrow>
             (let (placement, pc') = cached_placement (dw_read w) (dw_now w) (sa_namespace a) pc;
                  w1 = w\<lparr>dw_placements := Some pc'\<rparr>
              in case placement of
                   Prefer nodes \<Rightarrow> dispatch_preferring tk a nodes w1
                 | Pinned nodes \<Rightarrow> dispatch_requiring tk a (sorted_list_of_set nodes) w1
                 | Unplaced \<Rightarrow> dispatch_activity tk a w1)
         | _ \<Rightarrow> dispatch_activity tk a w)"

section \<open>Retries\<close>

record dispatcher_config =
  dc_poll_interval :: duration
  dc_batch_size :: u32
  dc_max_attempts :: u32
  dc_backoff_base :: duration
  dc_backoff_multiplier :: u32
  dc_backoff_max :: duration

text \<open>\<^verbatim>\<open>Duration::as_millis\<close> and \<^verbatim>\<open>from_millis\<close>, and \<^verbatim>\<open>u128::saturating_mul\<close>.\<close>

definition as_millis :: "duration \<Rightarrow> 128 word" where
  "as_millis d = of_nat (d div 1000000)"

definition from_millis :: "u64 \<Rightarrow> duration" where
  "from_millis n = unat n * 1000000"

definition saturating_mul :: "'a::len word \<Rightarrow> 'a word \<Rightarrow> 'a word" where
  "saturating_mul a b = (if unat a * unat b < 2 ^ LENGTH('a) then a * b else - 1)"

fun grow_delay :: "128 word \<Rightarrow> 128 word \<Rightarrow> nat \<Rightarrow> 128 word \<Rightarrow> 128 word" where
  "grow_delay max_ms multiplier 0 delay_ms = delay_ms"
| "grow_delay max_ms multiplier (Suc n) delay_ms =
     (let delay = saturating_mul delay_ms multiplier
      in if max_ms \<le> delay then delay else grow_delay max_ms multiplier n delay)"

definition backoff_for_attempt :: "dispatcher_config \<Rightarrow> u32 \<Rightarrow> duration" where
  "backoff_for_attempt c attempt =
     (let max_ms = ucast (- 1 :: u64);
          multiplier = ucast (dc_backoff_multiplier c);
          delay_ms = grow_delay max_ms multiplier (unat attempt) (min (as_millis (dc_backoff_base c)) max_ms);
          cap_ms = min (as_millis (dc_backoff_max c)) max_ms;
          clamped_ms = min delay_ms cap_ms
      in from_millis (if clamped_ms \<le> max_ms then ucast clamped_ms else - 1))"

text \<open>\<^verbatim>\<open>chrono::Duration::MAX\<close>: \<^verbatim>\<open>i64::MAX\<close> milliseconds.\<close>

definition CHRONO_MAX :: duration where
  "CHRONO_MAX = (2 ^ 63 - 1) * 1000000"

definition chrono_duration :: "'c calendar \<Rightarrow> duration \<Rightarrow> duration" where
  "chrono_duration cal d = (case cal_from_std cal d of Some d' \<Rightarrow> d' | None \<Rightarrow> CHRONO_MAX)"

section \<open>The sweep\<close>

text \<open>\<open>od_backpressure\<close> is the node's share of the key space when backpressure is attached, \<open>od_hold\<close> whether the hold set is.\<close>

record outbox_dispatcher =
  od_config :: dispatcher_config
  od_backpressure :: "owned_shard_fraction option"
  od_hold :: bool

fun is_worker_connection_lost :: "server_error \<Rightarrow> bool" where
  "is_worker_connection_lost (WorkerConnectionLost _ _) = True"
| "is_worker_connection_lost _ = False"

text \<open>A write of a row's outcome.  When the backend fails the error is logged and the row stays as it is.\<close>

type_synonym 'x faults = "outbox_row \<Rightarrow> 'x dispatch_world \<Rightarrow> bool"

definition write_row ::
  "'x faults \<Rightarrow> outbox_row \<Rightarrow> (libsql_state \<Rightarrow> (store_error, unit) result \<times> libsql_state) \<Rightarrow> 'x dispatch_world \<Rightarrow> 'x dispatch_world" where
  "write_row fails row update w = (if fails row w then w else w\<lparr>dw_store := snd (update (dw_store w))\<rparr>)"

definition mark_done :: "'x faults \<Rightarrow> outbox_row \<Rightarrow> 'x dispatch_world \<Rightarrow> 'x dispatch_world" where
  "mark_done fails row w = write_row fails row (complete_outbox_row (or_dispatch_key row)) w"

definition handle_dispatch_error ::
  "'c calendar \<Rightarrow> outbox_dispatcher \<Rightarrow> 'x faults \<Rightarrow> outbox_row \<Rightarrow> server_error \<Rightarrow> 'x dispatch_world \<Rightarrow> 'x dispatch_world option" where
  "handle_dispatch_error cal d fails row e w =
     (let attempted = saturating_add (or_attempt row) 1;
          retry = (\<lambda>visible_after. write_row fails row (retry_outbox_row (or_dispatch_key row) attempted visible_after) w)
      in if dc_max_attempts (od_config d) \<le> attempted
         then Some (write_row fails row (fail_outbox_row (or_dispatch_key row)) w)
         else if is_worker_connection_lost e then Some (retry (dw_now w))
         else map_option retry
           (cal_checked_add cal (dw_now w) (chrono_duration cal (backoff_for_attempt (od_config d) (or_attempt row)))))"

definition process_row ::
  "'c calendar \<Rightarrow> outbox_dispatcher \<Rightarrow> 'x faults \<Rightarrow> (outbox_row \<Rightarrow> 'x dispatch_world \<Rightarrow> 'x dispatched) \<Rightarrow> outbox_row
    \<Rightarrow> 'x dispatch_world \<Rightarrow> 'x dispatch_world option" where
  "process_row cal d fails dispatch row w =
     (case dispatch row (w\<lparr>dw_calls := dw_calls w @ [or_dispatch_key row]\<rparr>) of
        None \<Rightarrow> None
      | Some (Inr _, w1) \<Rightarrow> Some (mark_done fails row w1)
      | Some (Inl e, w1) \<Rightarrow> handle_dispatch_error cal d fails row e w1)"

definition claim_rows :: "outbox_dispatcher \<Rightarrow> 'x dispatch_world \<Rightarrow> (store_error, outbox_row list) result \<times> 'x dispatch_world" where
  "claim_rows d w =
     (let held = (if od_hold d then dw_paused w else {})
      in case od_backpressure d of
           Some f \<Rightarrow>
             (let (res, qc, s) = claim_round_robin f (dw_read w) (dw_now w) (dc_batch_size (od_config d)) held (dw_quota w) (dw_store w)
              in (res, w\<lparr>dw_quota := qc, dw_store := s\<rparr>))
         | None \<Rightarrow>
             (let (res, s) = claim_outbox_rows_excluding (dw_now w) (dc_batch_size (od_config d)) held (dw_store w)
              in (res, w\<lparr>dw_store := s\<rparr>)))"

fun process_rows ::
  "'c calendar \<Rightarrow> outbox_dispatcher \<Rightarrow> 'x faults \<Rightarrow> (outbox_row \<Rightarrow> 'x dispatch_world \<Rightarrow> 'x dispatched) \<Rightarrow> outbox_row list
    \<Rightarrow> 'x dispatch_world \<Rightarrow> 'x dispatch_world option" where
  "process_rows cal d fails dispatch [] w = Some w"
| "process_rows cal d fails dispatch (row # rows) w =
     Option.bind (process_row cal d fails dispatch row w) (process_rows cal d fails dispatch rows)"

definition sweep_once ::
  "'c calendar \<Rightarrow> outbox_dispatcher \<Rightarrow> 'x faults \<Rightarrow> (outbox_row \<Rightarrow> 'x dispatch_world \<Rightarrow> 'x dispatched) \<Rightarrow> 'x dispatch_world
    \<Rightarrow> 'x dispatch_world option" where
  "sweep_once cal d fails dispatch w =
     (case claim_rows d w of
        (Inl _, w1) \<Rightarrow> Some w1
      | (Inr rows, w1) \<Rightarrow> process_rows cal d fails dispatch rows w1)"

section \<open>Lemmas: the delay\<close>

lemma unat_ucast_fits: "unat (x :: 'a::len word) < 2 ^ LENGTH('b) \<Longrightarrow> unat (ucast x :: 'b::len word) = unat x"
  by (simp add: unsigned_ucast_eq take_bit_nat_eq_self)

lemma u64_max: "unat (ucast (- 1 :: u64) :: 128 word) = 2 ^ 64 - 1"
  by (subst unat_ucast_fits) (simp_all add: unsigned_minus_1_eq_mask mask_eq_exp_minus_1)

lemma min_word: "unat (min a b :: 'a::len word) = min (unat a) (unat b)"
  by (simp add: min_def word_le_nat_alt)

lemma grow_delay_eq:
  assumes "unat multiplier < 2 ^ 32" and "unat max_ms < 2 ^ 64" and "0 < unat max_ms" and "unat delay \<le> unat max_ms" and "k \<le> unat max_ms"
  shows "min (unat (grow_delay max_ms multiplier n delay)) k = min (unat delay * unat multiplier ^ n) k"
  using assms(4)
proof (induction n arbitrary: delay)
  case (Suc n)
  let ?p = "unat delay * unat multiplier"
  have "?p < 2 ^ 64 * 2 ^ 32" using Suc.prems assms(1,2) by (intro mult_strict_mono) simp_all
  then have "?p < 2 ^ 128" by simp
  then have d: "unat (saturating_mul delay multiplier) = ?p" by (simp add: saturating_mul_def unat_word_ariths)
  show ?case
  proof (cases "unat max_ms \<le> ?p")
    case True
    then have "0 < unat multiplier" using assms(3) by (metis mult_0_right not_gr_zero not_le)
    then have "?p * 1 \<le> ?p * unat multiplier ^ n" by (intro mult_le_mono2) simp
    then have "k \<le> unat delay * unat multiplier ^ Suc n" using True assms(5) by (simp only: power_Suc mult.assoc mult_1_right)
    with True assms(5) show ?thesis by (simp add: word_le_nat_alt d min_absorb2 del: power_Suc)
  next
    case False
    then show ?thesis using Suc.IH [of "saturating_mul delay multiplier"] by (simp add: word_le_nat_alt d mult.assoc)
  qed
qed simp

lemma min_scaled:
  assumes "0 < (q :: nat)" and "k \<le> m"
  shows "min (min b m * q) k = min (b * q) k"
proof (cases "b \<le> m")
  case False
  have "m * 1 \<le> m * q" "b * 1 \<le> b * q" using assms(1) by (intro mult_le_mono2; simp)+
  with False assms(2) have "k \<le> m * q" "k \<le> b * q" by (simp_all only: mult_1_right)
  with False show ?thesis by simp
qed simp

lemma as_millis_eq: "d < 2 ^ 64 * 10 ^ 9 \<Longrightarrow> unat (as_millis d) = d div 1000000"
  by (simp add: as_millis_def unat_of_nat)

lemma backoff_eq:
  assumes "dc_backoff_base c < 2 ^ 64 * 10 ^ 9" and "dc_backoff_max c < 2 ^ 64 * 10 ^ 9"
  shows "backoff_for_attempt c attempt =
    min (dc_backoff_base c div 1000000 * unat (dc_backoff_multiplier c) ^ unat attempt) (min (dc_backoff_max c div 1000000) (2 ^ 64 - 1)) * 1000000"
proof -
  let ?max = "ucast (- 1 :: u64) :: 128 word"
  let ?m = "ucast (dc_backoff_multiplier c) :: 128 word"
  let ?base = "min (as_millis (dc_backoff_base c)) ?max"
  let ?cap = "min (as_millis (dc_backoff_max c)) ?max"
  let ?clamped = "min (grow_delay ?max ?m (unat attempt) ?base) ?cap"
  have m: "unat ?m = unat (dc_backoff_multiplier c)" using unsigned_less [of "dc_backoff_multiplier c", where 'a = nat] by (intro unat_ucast_fits) simp
  have cap: "unat ?cap = min (dc_backoff_max c div 1000000) (2 ^ 64 - 1)" using assms(2) by (simp only: min_word u64_max as_millis_eq)
  have base: "unat ?base = min (dc_backoff_base c div 1000000) (2 ^ 64 - 1)" using assms(1) by (simp only: min_word u64_max as_millis_eq)
  have "unat ?clamped = min (unat ?base * unat ?m ^ unat attempt) (unat ?cap)"
    unfolding min_word [of "grow_delay _ _ _ _"]
    using unsigned_less [of "dc_backoff_multiplier c", where 'a = nat]
    by (intro grow_delay_eq) (simp_all only: m u64_max base cap, simp_all)
  also have "\<dots> = min (dc_backoff_base c div 1000000 * unat ?m ^ unat attempt) (unat ?cap)"
  proof (cases "unat ?m ^ unat attempt = 0")
    case False
    then show ?thesis unfolding base cap by (intro min_scaled) simp_all
  qed (simp only: mult_0_right)
  finally have eq: "unat ?clamped = min (dc_backoff_base c div 1000000 * unat (dc_backoff_multiplier c) ^ unat attempt) (min (dc_backoff_max c div 1000000) (2 ^ 64 - 1))"
    by (simp only: m cap)
  moreover have "min a (min b k) \<le> (k :: nat)" for a b k by simp
  ultimately have "unat ?clamped \<le> 2 ^ 64 - 1" by (simp only:)
  then have le: "?clamped \<le> ?max" and "unat (ucast ?clamped :: u64) = unat ?clamped"
    by (simp_all only: word_le_nat_alt u64_max) (simp add: unat_ucast_fits)
  with eq show ?thesis by (simp only: backoff_for_attempt_def Let_def if_True from_millis_def)
qed

section \<open>Lemmas: where a task may go\<close>

text \<open>The workers a task may go to: those of its pool, on the node asked for when one is.\<close>

definition serves :: "scheduled_activity \<Rightarrow> string option \<Rightarrow> worker_handle \<Rightarrow> bool" where
  "serves a node h \<longleftrightarrow>
     sa_namespace a \<in> set (wk_namespaces h) \<and> pool_new (sa_namespace a) (sa_task_queue a) = pool_new (sa_namespace a) (wk_task_queue h)
   \<and> sa_activity_type a \<in> set (wk_activity_types h) \<and> worker_matches_node node h"

text \<open>Other tasks keep the registry well formed and do not touch the trace of what the dispatcher has sent.\<close>

definition tasks_ok :: "'x tasks \<Rightarrow> bool" where
  "tasks_ok tk \<longleftrightarrow>
     (\<forall>w. registry_ok (dw_registry w) \<longrightarrow>
        registry_ok (dw_registry (tk_meanwhile tk w)) \<and> dw_sent (tk_meanwhile tk w) = dw_sent w
      \<and> (\<forall>w'. tk_arrive tk w = Some w' \<longrightarrow> registry_ok (dw_registry w') \<and> dw_sent w' = dw_sent w))"

lemma tasks_okD:
  assumes "tasks_ok tk" and "registry_ok (dw_registry w)"
  shows "registry_ok (dw_registry (tk_meanwhile tk w))" and "dw_sent (tk_meanwhile tk w) = dw_sent w"
    and "tk_arrive tk w = Some w' \<Longrightarrow> registry_ok (dw_registry w')" and "tk_arrive tk w = Some w' \<Longrightarrow> dw_sent w' = dw_sent w"
  using assms unfolding tasks_ok_def by blast+

text \<open>Whether one task was sent, and to a worker with the property.\<close>

definition sends :: "scheduled_activity \<Rightarrow> (worker_handle \<Rightarrow> bool) \<Rightarrow> bool \<Rightarrow> 'x dispatch_world \<Rightarrow> 'x dispatch_world \<Rightarrow> bool" where
  "sends a p delivered w w' \<longleftrightarrow> registry_ok (dw_registry w') \<and>
     (if delivered then \<exists>h. p h \<and> dw_sent w' = dw_sent w @ [(h, to_task a)] else dw_sent w' = dw_sent w)"

lemma sends_trans: "dw_sent w1 = dw_sent w \<Longrightarrow> sends a p b w1 w' \<Longrightarrow> sends a p b w w'"
  by (auto simp: sends_def)

lemma sends_mono: "sends a p b w w' \<Longrightarrow> (\<And>h. p h \<Longrightarrow> q h) \<Longrightarrow> sends a q b w w'"
  by (auto simp: sends_def split: if_splits)

lemma look_up_exact:
  assumes "registry_ok (dw_registry w)" and "look_up a node w = (hs, w1)"
  shows "set hs = {h. map_of (rs_workers (dw_registry w)) (wk_id h) = Some h \<and> serves a node h}"
    and "registry_ok (dw_registry w1)" and "rs_workers (dw_registry w1) = rs_workers (dw_registry w)"
    and "dw_sent w1 = dw_sent w" and "dw_draining w1 = dw_draining w" and "dw_open w1 = dw_open w"
    and "dw_store w1 = dw_store w" and "dw_calls w1 = dw_calls w"
proof -
  let ?look = "workers_for (sa_namespace a) (sa_task_queue a) (sa_activity_type a) node (dw_registry w)"
  have eq: "hs = fst ?look" "w1 = w\<lparr>dw_registry := snd ?look\<rparr>" using assms(2) by (simp_all add: look_up_def split: prod.splits)
  have "set hs = set (pool_workers (sa_namespace a) (sa_task_queue a) (sa_activity_type a) node (dw_registry w))"
    unfolding eq(1) by (simp add: workers_for_eq Let_def)
  then show "set hs = {h. map_of (rs_workers (dw_registry w)) (wk_id h) = Some h \<and> serves a node h}"
    by (simp add: pool_workers_exact(1) [OF assms(1)] serves_def)
  show "registry_ok (dw_registry w1)" using workers_for_ok [OF assms(1)] by (simp add: eq(2))
  show "rs_workers (dw_registry w1) = rs_workers (dw_registry w)" by (simp add: eq(2) workers_for_eq Let_def)
qed (use assms(2) in \<open>auto simp: look_up_def split: prod.splits\<close>)

lemma drop_worker_ok:
  assumes "registry_ok (dw_registry w)"
  shows "registry_ok (dw_registry (drop_worker h w))"
  using remove_ok [OF assms] by (simp add: drop_worker_def deregister_worker_def)

lemma drop_worker_sel [simp]:
  "dw_sent (drop_worker h w) = dw_sent w" "dw_draining (drop_worker h w) = dw_draining w" "dw_open (drop_worker h w) = dw_open w"
  "dw_store (drop_worker h w) = dw_store w" "dw_calls (drop_worker h w) = dw_calls w" "dw_rearmed (drop_worker h w) = dw_rearmed w"
  by (simp_all add: drop_worker_def)

lemma send_sound:
  assumes "tasks_ok tk" and "registry_ok (dw_registry w)" and "send_to_candidates tk a hs w = (res, w')"
  shows "sends a (\<lambda>h. h \<in> set hs) (res = Inr True) w w'"
  using assms(2,3)
proof (induction hs arbitrary: w)
  case Nil
  then show ?case by (auto simp: sends_def)
next
  case (Cons h hs)
  let ?w = "tk_meanwhile tk w"
  have mean: "registry_ok (dw_registry ?w)" "dw_sent ?w = dw_sent w" by (rule tasks_okD [OF assms(1) Cons.prems(1)])+
  have rest: "sends a (\<lambda>x. x \<in> set (h # hs)) (res = Inr True) w w'"
    if "registry_ok (dw_registry v)" "dw_sent v = dw_sent w" "send_to_candidates tk a hs v = (res, w')" for v
    using Cons.IH [OF that(1,3)] by (rule sends_trans [OF that(2) sends_mono]) simp
  show ?case
  proof (cases "dw_draining w")
    case True
    with Cons.prems show ?thesis by (auto simp: ensure_accepting_def sends_def)
  next
    case False
    then have acc: "ensure_accepting a w = Inr ()" by (simp add: ensure_accepting_def)
    show ?thesis
    proof (cases "sender h")
      case None
      with acc Cons.prems show ?thesis by (intro rest [of "drop_worker h w"]) (simp_all add: drop_worker_ok)
    next
      case (Some channel)
      show ?thesis
      proof (cases "channel \<in> dw_open ?w")
        case True
        with acc Some Cons.prems mean show ?thesis by (auto simp: sends_def Let_def)
      next
        case False
        with acc Some Cons.prems mean show ?thesis by (intro rest [of "drop_worker h ?w"]) (simp_all add: drop_worker_ok Let_def)
      qed
    qed
  qed
qed

lemma try_label_sound:
  assumes "tasks_ok tk" and "registry_ok (dw_registry w)" and "try_label tk a label w = (res, w')"
  shows "sends a (serves a (Some label)) (res = Inr True) w w'"
proof (cases "dw_draining w")
  case True
  with assms(2,3) show ?thesis by (auto simp: try_label_def ensure_accepting_def sends_def)
next
  case False
  obtain hs w1 where look: "look_up a (Some label) w = (hs, w1)" by fastforce
  note l = look_up_exact [OF assms(2) look]
  have "send_to_candidates tk a hs w1 = (res, w')" using assms(3) look False by (simp add: try_label_def ensure_accepting_def)
  from send_sound [OF assms(1) l(2) this] show ?thesis
    by (rule sends_trans [OF l(4) sends_mono]) (simp add: l(1))
qed

lemma try_labels_sound:
  assumes "tasks_ok tk" and "registry_ok (dw_registry w)" and "try_labels tk a labels w = (res, w')"
  shows "sends a (\<lambda>h. \<exists>label \<in> set labels. serves a (Some label) h) (res = Inr True) w w'"
  using assms(2,3)
proof (induction labels arbitrary: w)
  case Nil
  then show ?case by (auto simp: sends_def)
next
  case (Cons label labels)
  obtain r w1 where t: "try_label tk a label w = (r, w1)" by fastforce
  note s = try_label_sound [OF assms(1) Cons.prems(1) t]
  show ?case
  proof (cases "r = Inr False")
    case True
    with s have w1: "registry_ok (dw_registry w1)" "dw_sent w1 = dw_sent w" by (simp_all add: sends_def)
    from True t Cons.prems(2) have "try_labels tk a labels w1 = (res, w')" by simp
    from Cons.IH [OF w1(1) this] show ?thesis by (rule sends_trans [OF w1(2) sends_mono]) simp
  next
    case False
    with t Cons.prems(2) have "res = r" "w' = w1" by (auto split: sum.splits bool.splits)
    with s show ?thesis by (auto intro: sends_mono)
  qed
qed

lemma to_node_sound:
  assumes "dispatch_to_node tk a node w = Some out" and "tasks_ok tk" and "registry_ok (dw_registry w)"
  shows "sends a (serves a node) (fst out = Inr ()) w (snd out)"
  using assms
proof (induction rule: dispatch_to_node.raw_induct [rotated, consumes 1, case_names step])
  case (step f tk a node w out)
  show ?case
  proof (cases "dw_draining w")
    case True
    with step.prems show ?thesis using step.hyps by (auto simp: ensure_accepting_def sends_def)
  next
    case False
    obtain hs w1 where look: "look_up a node w = (hs, w1)" by fastforce
    note l = look_up_exact [OF step.prems(2) look]
    show ?thesis
    proof (cases "hs = []")
      case True
      then obtain w2 where w2: "tk_arrive tk w1 = Some w2" "f tk a node w2 = Some out"
        using step.hyps False look by (auto simp: ensure_accepting_def Option.bind_eq_Some_conv)
      have "registry_ok (dw_registry w2)" "dw_sent w2 = dw_sent w"
        using tasks_okD(3,4) [OF step.prems(1) l(2) w2(1)] l(4) by simp_all
      with step.IH [OF w2(2) step.prems(1)] show ?thesis by (auto intro: sends_trans)
    next
      case nonempty: False
      obtain r w2 where s: "send_to_candidates tk a hs w1 = (r, w2)" by fastforce
      from send_sound [OF step.prems(1) l(2) s] have "sends a (serves a node) (r = Inr True) w w2"
        by (rule sends_trans [OF l(4) sends_mono]) (simp add: l(1))
      moreover have "snd out = w2 \<and> (fst out = Inr () \<longleftrightarrow> r = Inr True)"
        using step.hyps False look nonempty s by (cases r) (auto simp: ensure_accepting_def split: bool.splits)
      ultimately show ?thesis by simp
    qed
  qed
qed

lemma requiring_sound:
  assumes "dispatch_requiring tk a labels w = Some out" and "tasks_ok tk" and "registry_ok (dw_registry w)"
  shows "sends a (\<lambda>h. \<exists>label \<in> set labels. serves a (Some label) h) (fst out = Inr ()) w (snd out)"
  using assms
proof (induction rule: dispatch_requiring.raw_induct [rotated, consumes 1, case_names step])
  case (step f tk a labels w out)
  obtain r w1 where t: "try_labels tk a labels w = (r, w1)" by fastforce
  note s = try_labels_sound [OF step.prems t]
  show ?case
  proof (cases "r = Inr False")
    case True
    with s have w1: "registry_ok (dw_registry w1)" "dw_sent w1 = dw_sent w" by (simp_all add: sends_def)
    from step.hyps True t obtain w2 where w2: "tk_arrive tk w1 = Some w2" "f tk a labels w2 = Some out"
      by (auto simp: Option.bind_eq_Some_conv)
    have "registry_ok (dw_registry w2)" "dw_sent w2 = dw_sent w" using tasks_okD(3,4) [OF step.prems(1) w1(1) w2(1)] w1(2) by simp_all
    with step.IH [OF w2(2) step.prems(1)] show ?thesis by (auto intro: sends_trans)
  next
    case False
    with step.hyps t have "snd out = w1" "fst out = Inr () \<longleftrightarrow> r = Inr True" by (auto split: sum.splits if_splits)
    with s show ?thesis by simp
  qed
qed

lemma tiers_sound:
  assumes "tasks_ok tk" and "sa_node a = None" and "registry_ok (dw_registry w)" and "dispatch_over_tiers tk a tiers w = Some out"
  shows "sends a (serves a None) (fst out = Inr ()) w (snd out)"
  using assms(3,4)
proof (induction tiers arbitrary: w)
  case Nil
  with to_node_sound [OF _ assms(1)] assms(2) show ?case by fastforce
next
  case (Cons tier tiers)
  show ?case
  proof (cases tier)
    case None
    with Cons.prems to_node_sound [OF _ assms(1)] assms(2) show ?thesis by fastforce
  next
    case (Some label)
    obtain r w1 where t: "try_label tk a label w = (r, w1)" by fastforce
    have s: "sends a (serves a None) (r = Inr True) w w1"
      using try_label_sound [OF assms(1) Cons.prems(1) t] by (rule sends_mono) (simp add: serves_def)
    show ?thesis
    proof (cases "r = Inr False")
      case True
      with s have w1: "registry_ok (dw_registry w1)" "dw_sent w1 = dw_sent w" by (simp_all add: sends_def)
      from True t Some Cons.prems(2) have "dispatch_over_tiers tk a tiers w1 = Some out" by simp
      from Cons.IH [OF w1(1) this] show ?thesis by (rule sends_trans [OF w1(2)])
    next
      case False
      with t Some Cons.prems(2) have "snd out = w1" "fst out = Inr () \<longleftrightarrow> r = Inr True" by (auto split: sum.splits bool.splits)
      with s show ?thesis by simp
    qed
  qed
qed

text \<open>What the placement cache answers for an unpinned row, when there is one.\<close>

definition placement_for :: "outbox_row \<Rightarrow> 'x dispatch_world \<Rightarrow> namespace_placement" where
  "placement_for row w =
     (case (dw_placements w, or_node row) of
        (Some pc, None) \<Rightarrow> fst (cached_placement (dw_read w) (dw_now w) (or_namespace row) pc)
      | _ \<Rightarrow> Unplaced)"

lemma to_scheduled_sel [simp]:
  "sa_node (to_scheduled row) = or_node row" "sa_namespace (to_scheduled row) = or_namespace row"
  by (simp_all add: to_scheduled_def)

text \<open>Dispatching a row is one of the three dispatches on the world with the refreshed cache.\<close>

lemma worker_dispatch_cases:
  obtains pcs where "worker_dispatch tk row w =
      (let a = to_scheduled row; w1 = w\<lparr>dw_placements := pcs\<rparr>
       in case placement_for row w of
            Prefer nodes \<Rightarrow> dispatch_preferring tk a nodes w1
          | Pinned nodes \<Rightarrow> dispatch_requiring tk a (sorted_list_of_set nodes) w1
          | Unplaced \<Rightarrow> dispatch_activity tk a w1)"
    and "placement_for row w \<noteq> Unplaced \<longrightarrow> or_node row = None"
proof (cases "dw_placements w")
  case None
  then have "w\<lparr>dw_placements := None\<rparr> = w" by simp
  with None that [of None] show ?thesis by (simp add: worker_dispatch_def placement_for_def)
next
  case (Some pc)
  show ?thesis
  proof (cases "or_node row")
    case None
    obtain pl pc' where "cached_placement (dw_read w) (dw_now w) (or_namespace row) pc = (pl, pc')" by fastforce
    with None Some that [of "Some pc'"] show ?thesis by (simp add: worker_dispatch_def placement_for_def)
  next
    case (Some n)
    then show ?thesis using \<open>dw_placements w = Some pc\<close> that [of "Some pc"]
      by (cases w) (simp add: worker_dispatch_def placement_for_def)
  qed
qed

lemma worker_dispatch_sound:
  assumes "tasks_ok tk" and "registry_ok (dw_registry w)" and "worker_dispatch tk row w = Some out"
  shows "sends (to_scheduled row)
    (\<lambda>h. serves (to_scheduled row) (or_node row) h \<and> (\<forall>labels. placement_for row w = Pinned labels \<longrightarrow> (\<exists>n \<in> labels. wk_node h = Some n)))
    (fst out = Inr ()) w (snd out)"
proof -
  let ?a = "to_scheduled row"
  obtain pcs where eq: "worker_dispatch tk row w =
      (let a = ?a; w1 = w\<lparr>dw_placements := pcs\<rparr>
       in case placement_for row w of
            Prefer nodes \<Rightarrow> dispatch_preferring tk a nodes w1
          | Pinned nodes \<Rightarrow> dispatch_requiring tk a (sorted_list_of_set nodes) w1
          | Unplaced \<Rightarrow> dispatch_activity tk a w1)" and unpinned: "placement_for row w \<noteq> Unplaced \<longrightarrow> or_node row = None"
    by (rule worker_dispatch_cases)
  have reg: "registry_ok (dw_registry (w\<lparr>dw_placements := pcs\<rparr>))" and sent: "dw_sent (w\<lparr>dw_placements := pcs\<rparr>) = dw_sent w"
    using assms(2) by simp_all
  show ?thesis
  proof (cases "placement_for row w")
    case Unplaced
    then have "dispatch_to_node tk ?a (or_node row) (w\<lparr>dw_placements := pcs\<rparr>) = Some out"
      using assms(3) eq by (simp add: dispatch_activity_def)
    from to_node_sound [OF this assms(1) reg] show ?thesis by (rule sends_trans [OF sent sends_mono]) (simp add: Unplaced)
  next
    case (Prefer nodes)
    then have "dispatch_over_tiers tk ?a (preferred_node_order (Prefer nodes)) (w\<lparr>dw_placements := pcs\<rparr>) = Some out"
      using assms(3) eq by (simp add: dispatch_preferring_def)
    from tiers_sound [OF assms(1) _ reg this] unpinned Prefer show ?thesis
      by (auto intro!: sends_trans [OF sent] elim!: sends_mono)
  next
    case (Pinned nodes)
    then have "dispatch_requiring tk ?a (sorted_list_of_set nodes) (w\<lparr>dw_placements := pcs\<rparr>) = Some out"
      using assms(3) eq by simp
    from requiring_sound [OF this assms(1) reg] show ?thesis
    proof (rule sends_trans [OF sent sends_mono])
      fix h
      assume "\<exists>label \<in> set (sorted_list_of_set nodes). serves ?a (Some label) h"
      moreover have "set (sorted_list_of_set nodes) \<subseteq> nodes" by (cases "finite nodes") simp_all
      ultimately show "serves ?a (or_node row) h \<and> (\<forall>labels. placement_for row w = Pinned labels \<longrightarrow> (\<exists>n \<in> labels. wk_node h = Some n))"
        using unpinned Pinned by (auto simp: serves_def)
    qed
  qed
qed

section \<open>Lemmas: a task that can be delivered is\<close>

definition quiet :: "'x tasks \<Rightarrow> bool" where
  "quiet tk \<longleftrightarrow> (\<forall>w. tk_meanwhile tk w = w)"

text \<open>A connected worker with an open channel, on a server that accepts work.\<close>

definition can_take :: "'x dispatch_world \<Rightarrow> worker_handle \<Rightarrow> bool" where
  "can_take w h \<longleftrightarrow> registry_ok (dw_registry w) \<and> \<not> dw_draining w \<and> map_of (rs_workers (dw_registry w)) (wk_id h) = Some h
     \<and> (\<exists>channel \<in> dw_open w. sender h = Some channel)"

lemma index_remove_workers: "rs_workers (fold (index_remove wid) keys st) = rs_workers st"
  by (induction keys arbitrary: st) (simp_all add: index_remove_def Let_def split: option.split)

lemma drop_other: "can_take w h \<Longrightarrow> wk_id h' \<noteq> wk_id h \<Longrightarrow> can_take (drop_worker h' w) h"
  using drop_worker_ok [of w h']
  by (auto simp: can_take_def drop_worker_def deregister_worker_def remove_worker_def index_remove_workers delete_conv' split: option.split)

lemma send_outcome:
  assumes "quiet tk" and "can_take w h" and "\<forall>x \<in> set hs. wk_id x = wk_id h \<longrightarrow> x = h"
  shows "\<exists>b w'. send_to_candidates tk a hs w = (Inr b, w') \<and> (\<not> b \<longrightarrow> can_take w' h) \<and> (h \<in> set hs \<longrightarrow> b)"
  using assms(2,3)
proof (induction hs arbitrary: w)
  case (Cons x hs)
  have acc: "ensure_accepting a w = Inr ()" "tk_meanwhile tk w = w"
    using Cons.prems(1) assms(1) by (simp_all add: ensure_accepting_def can_take_def quiet_def)
  show ?case
  proof (cases "\<exists>channel \<in> dw_open w. sender x = Some channel")
    case True
    with acc show ?thesis by (auto simp: Let_def)
  next
    case False
    then have "x \<noteq> h" using Cons.prems(1) by (auto simp: can_take_def)
    with Cons.prems have "can_take (drop_worker x w) h" by (auto intro: drop_other)
    from Cons.IH [OF this] Cons.prems(2) \<open>x \<noteq> h\<close> False acc show ?thesis by (cases "sender x") (auto simp: Let_def)
  qed
qed auto

lemma look_up_candidates:
  assumes "can_take w h" and "look_up a node w = (hs, w1)"
  shows "can_take w1 h" and "\<forall>x \<in> set hs. wk_id x = wk_id h \<longrightarrow> x = h" and "serves a node h \<longrightarrow> h \<in> set hs"
proof -
  have reg: "registry_ok (dw_registry w)" using assms(1) by (simp add: can_take_def)
  note l = look_up_exact [OF reg assms(2)]
  show "can_take w1 h" using assms(1) l(2,3,5,6) by (simp add: can_take_def)
  show "\<forall>x \<in> set hs. wk_id x = wk_id h \<longrightarrow> x = h" "serves a node h \<longrightarrow> h \<in> set hs"
    using assms(1) by (auto simp: l(1) can_take_def)
qed

lemma try_label_outcome:
  assumes "quiet tk" and "can_take w h"
  shows "\<exists>b w'. try_label tk a label w = (Inr b, w') \<and> (\<not> b \<longrightarrow> can_take w' h) \<and> (serves a (Some label) h \<longrightarrow> b)"
proof -
  obtain hs w1 where look: "look_up a (Some label) w = (hs, w1)" by fastforce
  note c = look_up_candidates [OF assms(2) look]
  have "ensure_accepting a w = Inr ()" using assms(2) by (simp add: ensure_accepting_def can_take_def)
  with look send_outcome [OF assms(1) c(1,2)] c(3) show ?thesis by (simp add: try_label_def) blast
qed

lemma try_labels_outcome:
  assumes "quiet tk" and "can_take w h" and "\<exists>label \<in> set labels. serves a (Some label) h"
  shows "\<exists>w'. try_labels tk a labels w = (Inr True, w')"
  using assms(2,3)
proof (induction labels arbitrary: w)
  case (Cons label labels)
  obtain b w1 where t: "try_label tk a label w = (Inr b, w1)" "\<not> b \<longrightarrow> can_take w1 h" "serves a (Some label) h \<longrightarrow> b"
    using try_label_outcome [OF assms(1) Cons.prems(1)] by blast
  show ?case
  proof (cases b)
    case False
    with t Cons.prems(2) have "\<exists>label \<in> set labels. serves a (Some label) h" by auto
    with Cons.IH t False show ?thesis by simp
  qed (use t in simp)
qed simp

lemma to_node_outcome:
  assumes "quiet tk" and "can_take w h" and "serves a node h"
  shows "\<exists>w'. dispatch_to_node tk a node w = Some (Inr (), w')"
proof -
  obtain hs w1 where look: "look_up a node w = (hs, w1)" by fastforce
  note c = look_up_candidates [OF assms(2) look]
  obtain w2 where "send_to_candidates tk a hs w1 = (Inr True, w2)" using send_outcome [OF assms(1) c(1,2), of a] c(3) assms(3) by (metis (full_types))
  moreover have "ensure_accepting a w = Inr ()" using assms(2) by (simp add: ensure_accepting_def can_take_def)
  moreover have "hs \<noteq> []" using c(3) assms(3) by auto
  ultimately show ?thesis using look by (subst dispatch_to_node.simps) simp
qed

lemma tiers_outcome:
  assumes "quiet tk" and "can_take w h" and "serves a (sa_node a) h"
  shows "\<exists>w'. dispatch_over_tiers tk a tiers w = Some (Inr (), w')"
  using assms(2)
proof (induction tiers arbitrary: w)
  case Nil
  with to_node_outcome [OF assms(1) _ assms(3)] show ?case by simp
next
  case (Cons tier tiers)
  show ?case
  proof (cases tier)
    case None
    with to_node_outcome [OF assms(1) Cons.prems assms(3)] show ?thesis by simp
  next
    case (Some label)
    obtain b w1 where "try_label tk a label w = (Inr b, w1)" "\<not> b \<longrightarrow> can_take w1 h"
      using try_label_outcome [OF assms(1) Cons.prems] by blast
    with Some Cons.IH show ?thesis by (cases b) auto
  qed
qed

lemma requiring_outcome:
  assumes "quiet tk" and "can_take w h" and "\<exists>label \<in> set labels. serves a (Some label) h"
  shows "\<exists>w'. dispatch_requiring tk a labels w = Some (Inr (), w')"
  using try_labels_outcome [OF assms] by (subst dispatch_requiring.simps) auto

lemma worker_dispatch_outcome:
  assumes "quiet tk" and "registry_ok (dw_registry w)" and "\<not> dw_draining w" and "worker_by_id (wk_id h) (dw_registry w) = Some h"
    and "sender h = Some channel" and "channel \<in> dw_open w" and "serves (to_scheduled row) (or_node row) h"
    and "case placement_for row w of Pinned labels \<Rightarrow> finite labels \<and> (\<exists>n \<in> labels. wk_node h = Some n) | _ \<Rightarrow> True"
  shows "\<exists>w'. worker_dispatch tk row w = Some (Inr (), w')"
proof -
  let ?a = "to_scheduled row"
  obtain pcs where eq: "worker_dispatch tk row w =
      (let a = ?a; w1 = w\<lparr>dw_placements := pcs\<rparr>
       in case placement_for row w of
            Prefer nodes \<Rightarrow> dispatch_preferring tk a nodes w1
          | Pinned nodes \<Rightarrow> dispatch_requiring tk a (sorted_list_of_set nodes) w1
          | Unplaced \<Rightarrow> dispatch_activity tk a w1)" by (rule worker_dispatch_cases)
  have take: "can_take (w\<lparr>dw_placements := pcs\<rparr>) h" using assms(2-6) by (simp add: can_take_def worker_by_id_def)
  show ?thesis
  proof (cases "placement_for row w")
    case (Pinned labels)
    with assms(7,8) have "\<exists>label \<in> set (sorted_list_of_set labels). serves ?a (Some label) h" by (auto simp: serves_def)
    from requiring_outcome [OF assms(1) take this] show ?thesis by (simp add: eq Pinned)
  next
    case Unplaced
    with to_node_outcome [OF assms(1) take, of ?a] assms(7) show ?thesis by (simp add: eq dispatch_activity_def)
  next
    case (Prefer nodes)
    with tiers_outcome [OF assms(1) take, of ?a] assms(7) show ?thesis by (simp add: eq dispatch_preferring_def)
  qed
qed

section \<open>Lemmas: what other tasks do to the table\<close>

text \<open>One write by another task, on the trace of re-armed rows and the store: it may stage fresh rows, cancel live ones, and re-arm rows
  of any status (the reconciler a stale claim, the engine on recovery), each of which enters the trace.\<close>

definition moved :: "string list \<Rightarrow> outbox_row \<Rightarrow> outbox_row \<Rightarrow> bool" where
  "moved keys r r' \<longleftrightarrow> or_dispatch_key r' = or_dispatch_key r \<and> or_attempt r' = or_attempt r
     \<and> (r' = r \<or> live_row r \<and> or_status r' = CancelledRow \<or> or_dispatch_key r \<in> set keys \<and> or_status r' = Pending)"

definition fresh_row :: "libsql_state \<Rightarrow> outbox_row \<Rightarrow> bool" where
  "fresh_row s r \<longleftrightarrow> or_dispatch_key r \<notin> or_dispatch_key ` set (ls_outbox s) \<and> or_status r = Pending \<and> or_attempt r = 0"

definition table_move :: "string list \<times> libsql_state \<Rightarrow> string list \<times> libsql_state \<Rightarrow> bool" where
  "table_move = (\<lambda>(again, s) (again', s').
     (ls_inv s \<longrightarrow> ls_inv s') \<and> or_dispatch_key ` set (ls_outbox s) \<subseteq> or_dispatch_key ` set (ls_outbox s')
   \<and> (\<exists>keys. again' = again @ keys
        \<and> (\<forall>r' \<in> set (ls_outbox s'). fresh_row s r' \<or> (\<exists>r \<in> set (ls_outbox s). moved keys r r'))))"

lemma table_move_update:
  assumes "\<And>r. or_dispatch_key (f r) = or_dispatch_key r" and "\<And>r. p r \<Longrightarrow> moved keys r (f r)"
  shows "table_move (again, s) (again @ keys, update_outbox p f s)"
proof -
  have "or_dispatch_key ` set (ls_outbox (update_outbox p f s)) = or_dispatch_key ` set (ls_outbox s)"
    using assms(1) by (simp add: update_outbox_keys flip: set_map)
  moreover have "\<exists>r \<in> set (ls_outbox s). moved keys r r'" if "r' \<in> set (ls_outbox (update_outbox p f s))" for r'
    using that assms(2) by (auto simp: update_outbox_def moved_def)
  ultimately show ?thesis using ls_inv_update [OF _ assms(1)] by (auto simp: table_move_def)
qed

text \<open>The operations of the engine and of the reconciler are such writes.\<close>

lemma settle_row_moves: "table_move (again, s) (again, snd (ls_settle_outbox_row_cancelled key s))"
  using table_move_update [of cancelled_row "\<lambda>r. or_dispatch_key r = key \<and> live_row r" "[]" again s]
  by (simp add: ls_settle_outbox_row_cancelled_def cancelled_row_def moved_def)

lemma table_move_refl: "table_move c c"
  by (cases c) (auto simp: table_move_def moved_def)

lemma settle_workflow_moves: "table_move (again, s) (again, snd (ls_settle_workflow_outbox_rows_cancelled w s))"
  using table_move_update [of cancelled_row "\<lambda>r. or_workflow_id r = w \<and> live_row r" "[]" again s] table_move_refl
  by (simp add: ls_settle_workflow_outbox_rows_cancelled_def cancelled_row_def moved_def Let_def)

lemma rearm_row_moves:
  assumes "rearm_outbox_row row s = Inr s'" and "or_attempt row = 0"
  shows "table_move (again, s) (again @ [or_dispatch_key row], s')"
proof (cases "has_key (or_dispatch_key row) (ls_outbox s)")
  case True
  with assms(1) show ?thesis
    using table_move_update [of "\<lambda>r. r\<lparr>or_status := Pending, or_visible_after := or_visible_after row, or_claimed_at := None\<rparr>"
        "\<lambda>r. or_dispatch_key r = or_dispatch_key row" "[or_dispatch_key row]" again s]
    by (auto simp: rearm_outbox_row_def moved_def split: if_splits)
next
  case False
  let ?new = "row\<lparr>or_status := Pending, or_claimed_at := None, or_run_id := None\<rparr>"
  have "s' = s\<lparr>ls_outbox := ls_outbox s @ [?new]\<rparr>" using False assms(1) by (auto simp: rearm_outbox_row_def split: if_splits)
  moreover have "fresh_row s ?new" using False assms(2) by (auto simp: fresh_row_def has_key_iff)
  moreover have "ls_inv s \<Longrightarrow> ls_inv (s\<lparr>ls_outbox := ls_outbox s @ [?new]\<rparr>)"
    using False by (auto simp: ls_inv_def ls_rows_def has_key_iff)
  ultimately show ?thesis by (auto simp: table_move_def moved_def)
qed

lemma rearm_stale_moves:
  assumes "limit \<noteq> 0"
  shows "table_move\<^sup>*\<^sup>* (again, s) (again @ map or_dispatch_key (select_stale older_than limit s),
      snd (rearm_stale_claimed_outbox_rows older_than visible_after limit s))"
proof -
  let ?f = "\<lambda>row. update_outbox (\<lambda>r. or_dispatch_key r = or_dispatch_key row \<and> or_status r = Claimed) (rearmed_row visible_after)"
  have "table_move\<^sup>*\<^sup>* (again, s) (again @ map or_dispatch_key rows, fold ?f rows s)" for rows
  proof (induction rows arbitrary: again s)
    case (Cons row rows)
    have "table_move (again, s) (again @ [or_dispatch_key row], ?f row s)"
      by (rule table_move_update) (auto simp: rearmed_row_def moved_def)
    from converse_rtranclp_into_rtranclp [where r = table_move, OF this Cons.IH] show ?case by simp
  qed simp
  then show ?thesis using assms by (simp add: rearm_stale_claimed_outbox_rows_def Let_def)
qed

lemma stage_rows_set: "set (stage_rows rows table) \<subseteq> set table \<union> {r \<in> set rows. or_dispatch_key r \<notin> or_dispatch_key ` set table}"
proof (induction rows arbitrary: table)
  case (Cons r rows)
  show ?case using Cons.IH [of "if has_key (or_dispatch_key r) table then table else table @ [r]"]
    by (auto simp: has_key_iff)
qed simp

lemma append_moves:
  assumes "ls_inv s" and "\<forall>r \<in> set rows. or_status r = Pending \<and> or_attempt r = 0"
  shows "table_move (again, s) (again, snd (ls_append_with_outbox w events expected rows s))"
proof (cases "ls_outbox (snd (ls_append_with_outbox w events expected rows s)) = stage_rows rows (ls_outbox s)")
  case True
  have "ls_inv (snd (ls_append_with_outbox w events expected rows s))"
    using libsql.outbox_append [OF assms(1), of w events expected rows] by (simp add: libsql_store_def) (metis prod.collapse)
  with True assms(2) stage_rows_set [of rows "ls_outbox s"] stage_rows_prefix [of "ls_outbox s" rows] show ?thesis
    by (fastforce simp: table_move_def fresh_row_def moved_def stage_rows_keys)
next
  case False
  then have "snd (ls_append_with_outbox w events expected rows s) = s"
    by (auto simp: ls_append_with_outbox_eq [OF assms(1)] split: if_splits option.splits)
  then show ?thesis by (simp add: table_move_refl)
qed

section \<open>Lemmas: the budget of a row\<close>

text \<open>What other tasks leave alone: the trace of calls.\<close>

definition kept :: "'x dispatch_world \<Rightarrow> 'x dispatch_world \<Rightarrow> bool" where
  "kept w w' \<longleftrightarrow> dw_calls w' = dw_calls w \<and> table_move\<^sup>*\<^sup>* (dw_rearmed w, dw_store w) (dw_rearmed w', dw_store w')"

definition leaves_rows :: "(outbox_row \<Rightarrow> 'x dispatch_world \<Rightarrow> 'x dispatched) \<Rightarrow> bool" where
  "leaves_rows dispatch \<longleftrightarrow> (\<forall>row w res w'. dispatch row w = Some (res, w') \<longrightarrow> kept w w')"

text \<open>How often a row has been tried (\<open>n\<close>, and \<open>q\<close> more that it is queued for), against its attempt and the number \<open>c\<close> of its re-arms:
  each re-arm allows for one try more, and so does a row that is not pending.\<close>

definition within_budget :: "bool \<Rightarrow> u32 \<Rightarrow> nat \<Rightarrow> nat \<Rightarrow> nat \<Rightarrow> outbox_row \<Rightarrow> bool" where
  "within_budget stranded m c n q r \<longleftrightarrow>
     unat (or_attempt r) \<le> n \<and> (or_attempt r = 0 \<or> or_attempt r < m)
   \<and> n + q \<le> c + unat (or_attempt r) + (if or_status r = Pending then 0 else 1)
   \<and> (or_status r = Claimed \<longrightarrow> unat (or_attempt r) < n + q \<and> (q = 0 \<longrightarrow> stranded))
   \<and> (or_status r = FailedRow \<longrightarrow> max 1 (unat m) \<le> n)"

definition queued :: "outbox_row list \<Rightarrow> string \<Rightarrow> nat" where
  "queued rows key = (if key \<in> or_dispatch_key ` set rows then 1 else 0)"

text \<open>The write of the row's outcome may fail.\<close>

definition may_strand :: "'x faults \<Rightarrow> string \<Rightarrow> bool" where
  "may_strand fails key \<longleftrightarrow> (\<exists>row w. or_dispatch_key row = key \<and> fails row w)"

text \<open>The invariant, while the claimed rows \<open>rows\<close> are still to be processed.\<close>

definition budget ::
  "'x faults \<Rightarrow> u32 \<Rightarrow> outbox_row list \<Rightarrow> string list \<Rightarrow> string list \<times> libsql_state \<Rightarrow> bool" where
  "budget fails m rows calls = (\<lambda>(again, s). ls_inv s \<and> distinct (map or_dispatch_key rows)
     \<and> (\<forall>row \<in> set rows. \<exists>r \<in> set (ls_outbox s). or_dispatch_key r = or_dispatch_key row \<and> or_attempt r = or_attempt row)
     \<and> (\<forall>r \<in> set (ls_outbox s). let key = or_dispatch_key r
          in within_budget (may_strand fails key) m (count_list again key) (count_list calls key) (queued rows key) r)
     \<and> set calls \<subseteq> or_dispatch_key ` set (ls_outbox s))"

abbreviation world_budget :: "'x faults \<Rightarrow> u32 \<Rightarrow> outbox_row list \<Rightarrow> 'x dispatch_world \<Rightarrow> bool" where
  "world_budget fails m rows w \<equiv> budget fails m rows (dw_calls w) (dw_rearmed w, dw_store w)"

lemma same_key:
  "ls_inv s \<Longrightarrow> r \<in> set (ls_outbox s) \<Longrightarrow> r' \<in> set (ls_outbox s) \<Longrightarrow> or_dispatch_key r = or_dispatch_key r' \<Longrightarrow> r = r'"
  by (auto simp: ls_inv_def distinct_map dest: inj_onD)

lemma within_budget_moved:
  assumes "within_budget st m c n q r" and "moved keys r r'"
  shows "within_budget st m (c + count_list keys (or_dispatch_key r)) n q r'"
proof -
  have "1 \<le> count_list keys (or_dispatch_key r)" if "or_dispatch_key r \<in> set keys"
    using that by (metis count_list_0_iff not_less_eq_eq One_nat_def bot_nat_0.extremum_uniqueI)
  with assms show ?thesis by (auto simp: within_budget_def moved_def live_row_def split: if_splits)
qed

lemma budget_move:
  assumes "budget fails m rows calls (again, s)" and "table_move (again, s) (again', s')"
  shows "budget fails m rows calls (again', s')"
proof -
  from assms(2) obtain keys where again': "again' = again @ keys"
    and rows': "\<And>r'. r' \<in> set (ls_outbox s') \<Longrightarrow> fresh_row s r' \<or> (\<exists>r \<in> set (ls_outbox s). moved keys r r')"
    and sub: "or_dispatch_key ` set (ls_outbox s) \<subseteq> or_dispatch_key ` set (ls_outbox s')" and inv': "ls_inv s'"
    using assms(1) by (auto simp: table_move_def budget_def)
  have inv: "ls_inv s" using assms(1) by (simp add: budget_def)
  have "\<exists>r' \<in> set (ls_outbox s'). or_dispatch_key r' = or_dispatch_key row \<and> or_attempt r' = or_attempt row" if row: "row \<in> set rows" for row
  proof -
    obtain r where r: "r \<in> set (ls_outbox s)" "or_dispatch_key r = or_dispatch_key row" "or_attempt r = or_attempt row"
      using assms(1) row by (auto simp: budget_def)
    then obtain r' where r': "r' \<in> set (ls_outbox s')" "or_dispatch_key r' = or_dispatch_key r" using sub by (metis imageE image_eqI subsetD)
    with rows' [OF r'(1)] r(1) obtain r2 where "r2 \<in> set (ls_outbox s)" "moved keys r2 r'" by (auto simp: fresh_row_def)
    moreover from this r(1) r'(2) have "r2 = r" using same_key [OF inv] by (metis moved_def)
    ultimately show ?thesis using r' r by (metis moved_def)
  qed
  moreover have "let key = or_dispatch_key r'
      in within_budget (may_strand fails key) m (count_list again' key) (count_list calls key) (queued rows key) r'"
    if r': "r' \<in> set (ls_outbox s')" for r'
    using rows' [OF r']
  proof
    assume fresh: "fresh_row s r'"
    then have "or_dispatch_key r' \<notin> set calls" using assms(1) by (auto simp: budget_def fresh_row_def)
    moreover have "or_dispatch_key r' \<notin> or_dispatch_key ` set rows"
    proof
      assume "or_dispatch_key r' \<in> or_dispatch_key ` set rows"
      then obtain row where "row \<in> set rows" "or_dispatch_key r' = or_dispatch_key row" by blast
      with assms(1) obtain r where "r \<in> set (ls_outbox s)" "or_dispatch_key r = or_dispatch_key r'" by (auto simp: budget_def)
      with fresh show False unfolding fresh_row_def by (metis image_eqI)
    qed
    ultimately show ?thesis using fresh by (simp add: within_budget_def fresh_row_def count_notin queued_def Let_def)
  next
    assume "\<exists>r \<in> set (ls_outbox s). moved keys r r'"
    then obtain r where r: "r \<in> set (ls_outbox s)" "moved keys r r'" by blast
    then have "or_dispatch_key r' = or_dispatch_key r" by (simp add: moved_def)
    moreover have "within_budget (may_strand fails (or_dispatch_key r)) m (count_list again (or_dispatch_key r))
        (count_list calls (or_dispatch_key r)) (queued rows (or_dispatch_key r)) r"
      using assms(1) r(1) by (simp add: budget_def Let_def)
    ultimately show ?thesis using within_budget_moved [OF _ r(2)] by (simp add: again' Let_def)
  qed
  ultimately show ?thesis using assms(1) inv' sub by (auto simp: budget_def)
qed

lemma budget_kept:
  assumes "world_budget fails m rows w" and "table_move\<^sup>*\<^sup>* (dw_rearmed w, dw_store w) c"
  shows "budget fails m rows (dw_calls w) c"
  using assms(2,1)
proof (induction rule: rtranclp_induct)
  case (step c1 c2)
  then show ?case by (metis budget_move prod.collapse)
qed

lemma budget_claimed:
  assumes "budget fails m [] calls (again, s)" and "claims now rows s s'" and "ls_inv s'"
  shows "budget fails m rows calls (again, s')"
proof -
  obtain sel where sel: "rows = map (claimed_row now) sel" "set sel \<subseteq> {r \<in> set (ls_outbox s). or_status r = Pending}"
    "distinct (map or_dispatch_key sel)" "s' = mark_claimed now (or_dispatch_key ` set sel) s"
    using assms(2) by (auto simp: claims_def)
  have inv: "ls_inv s" using assms(1) by (simp add: budget_def)
  have mem: "r \<in> set sel" if "r \<in> set (ls_outbox s)" "or_dispatch_key r \<in> or_dispatch_key ` set sel" for r
    using that sel(2) same_key [OF inv, of r] by auto
  have out: "set (ls_outbox s') = claimed_row now ` set sel \<union> {r \<in> set (ls_outbox s). r \<notin> set sel}"
    using sel(2) mem by (fastforce simp: sel(4) mark_claimed_def update_outbox_def image_iff)
  have keys: "or_dispatch_key ` set (ls_outbox s') = or_dispatch_key ` set (ls_outbox s)"
    unfolding sel(4) mark_claimed_def by (simp add: update_outbox_keys flip: set_map)
  have row: "within_budget (may_strand fails (or_dispatch_key r)) m (count_list again (or_dispatch_key r))
      (count_list calls (or_dispatch_key r)) 0 r" if "r \<in> set (ls_outbox s)" for r
    using assms(1) that by (simp add: budget_def Let_def queued_def)
  have q: "queued rows (or_dispatch_key r) = (if r \<in> set sel then 1 else 0)" if "r \<in> set (ls_outbox s)" for r
    using mem [OF that] by (auto simp: queued_def sel(1) image_image)
  have "within_budget (may_strand fails (or_dispatch_key r)) m (count_list again (or_dispatch_key r))
      (count_list calls (or_dispatch_key r)) 1 (claimed_row now r)" if "r \<in> set sel" for r
    using row [of r] that sel(2) by (auto simp: within_budget_def claimed_row_def)
  then have "let key = or_dispatch_key r
      in within_budget (may_strand fails key) m (count_list again key) (count_list calls key) (queued rows key) r"
    if "r \<in> set (ls_outbox s')" for r
    using that row q sel(2) unfolding out by (auto simp: Let_def)
  moreover have "\<exists>r \<in> set (ls_outbox s'). or_dispatch_key r = or_dispatch_key row \<and> or_attempt r = or_attempt row" if "row \<in> set rows" for row
    using that unfolding out by (auto simp: sel(1))
  moreover have "distinct (map or_dispatch_key rows)" using sel(3) by (simp add: sel(1) comp_def)
  ultimately show ?thesis using assms(1,3) keys by (simp add: budget_def)
qed

lemma budget_head:
  assumes "budget fails m (row # rows) calls (again, s)"
  obtains r where "r \<in> set (ls_outbox s)" and "or_dispatch_key r = or_dispatch_key row" and "or_attempt r = or_attempt row"
    and "within_budget (may_strand fails (or_dispatch_key row)) m (count_list again (or_dispatch_key row))
      (count_list calls (or_dispatch_key row)) 1 r"
proof -
  from assms obtain r where r: "r \<in> set (ls_outbox s)" "or_dispatch_key r = or_dispatch_key row" "or_attempt r = or_attempt row"
    unfolding budget_def prod.case by (metis list.set_intros(1))
  moreover have "let key = or_dispatch_key r
      in within_budget (may_strand fails key) m (count_list again key) (count_list calls key) (queued (row # rows) key) r"
    using assms r(1) unfolding budget_def prod.case by blast
  ultimately show ?thesis using that [of r] by (simp add: Let_def queued_def)
qed

text \<open>The row at the head of the queue has been tried and its outcome written, or not.\<close>

lemma budget_settled:
  assumes "budget fails m (row # rows) calls (again, s)"
    and "s' = update_outbox (\<lambda>r. or_dispatch_key r = or_dispatch_key row) f s" and "\<And>r. or_dispatch_key (f r) = or_dispatch_key r"
    and "\<And>r c n. or_attempt r = or_attempt row \<Longrightarrow> within_budget (may_strand fails (or_dispatch_key row)) m c n 1 r
      \<Longrightarrow> within_budget (may_strand fails (or_dispatch_key row)) m c (Suc n) 0 (f r)"
  shows "budget fails m rows (calls @ [or_dispatch_key row]) (again, s')"
proof -
  let ?k = "or_dispatch_key row"
  obtain r where r: "r \<in> set (ls_outbox s)" "or_dispatch_key r = ?k" "or_attempt r = or_attempt row"
    "within_budget (may_strand fails ?k) m (count_list again ?k) (count_list calls ?k) 1 r"
    by (rule budget_head [OF assms(1)])
  have inv: "ls_inv s" using assms(1) by (simp add: budget_def)
  have key: "x = r" if "x \<in> set (ls_outbox s)" "or_dispatch_key x = ?k" for x
    using same_key [OF inv that(1) r(1)] that(2) r(2) by simp
  have "set (ls_outbox s') = (\<lambda>x. if or_dispatch_key x = ?k then f x else x) ` set (ls_outbox s)"
    by (simp add: assms(2) update_outbox_def)
  also have "\<dots> = (\<lambda>x. if or_dispatch_key x = ?k then f r else x) ` set (ls_outbox s)"
    by (rule image_cong [OF refl]) (metis key)
  also have "\<dots> = insert (f r) {x \<in> set (ls_outbox s). or_dispatch_key x \<noteq> ?k}" using r(1,2) by (auto simp: image_iff)
  finally have out: "set (ls_outbox s') = insert (f r) {x \<in> set (ls_outbox s). or_dispatch_key x \<noteq> ?k}" .
  have keys: "or_dispatch_key ` set (ls_outbox s') = or_dispatch_key ` set (ls_outbox s)"
    unfolding assms(2) using assms(3) by (simp add: update_outbox_keys flip: set_map)
  have not: "?k \<notin> or_dispatch_key ` set rows" using assms(1) by (auto simp: budget_def)
  have "let key = or_dispatch_key x
      in within_budget (may_strand fails key) m (count_list again key) (count_list (calls @ [?k]) key) (queued rows key) x"
    if "x \<in> set (ls_outbox s')" for x
  proof (cases "x = f r")
    case True
    then show ?thesis using assms(4) [OF r(3,4)] not r(2) by (simp add: assms(3) queued_def)
  next
    case False
    with that have x: "x \<in> set (ls_outbox s)" "or_dispatch_key x \<noteq> ?k" by (simp_all add: out)
    then have "let key = or_dispatch_key x
      in within_budget (may_strand fails key) m (count_list again key) (count_list calls key) (queued (row # rows) key) x"
      using assms(1) by (simp add: budget_def)
    with x(2) show ?thesis by (simp add: queued_def Let_def)
  qed
  moreover have "\<exists>x \<in> set (ls_outbox s'). or_dispatch_key x = or_dispatch_key y \<and> or_attempt x = or_attempt y" if "y \<in> set rows" for y
  proof -
    obtain x where x: "x \<in> set (ls_outbox s)" "or_dispatch_key x = or_dispatch_key y" "or_attempt x = or_attempt y"
      using assms(1) \<open>y \<in> set rows\<close> unfolding budget_def prod.case by (metis list.set_intros(2))
    moreover from x(2) \<open>y \<in> set rows\<close> not have "or_dispatch_key x \<noteq> ?k" by (metis image_eqI)
    ultimately show ?thesis unfolding out by blast
  qed
  moreover have "ls_inv s'" unfolding assms(2) using inv assms(3) by (rule ls_inv_update)
  moreover have "?k \<in> or_dispatch_key ` set (ls_outbox s)" using r(1,2) by (metis image_eqI)
  then have "set (calls @ [?k]) \<subseteq> or_dispatch_key ` set (ls_outbox s')"
    unfolding keys using assms(1) by (simp add: budget_def)
  ultimately show ?thesis using assms(1) by (simp add: budget_def)
qed

lemma saturating_next: "saturating_add a 1 < m \<Longrightarrow> unat (saturating_add a 1 :: u32) = Suc (unat a)"
  using unsigned_less [of m, where 'a = nat]
  by (auto simp: saturating_add_def checked_add_def unat_word_ariths word_less_nat_alt unsigned_minus_1_eq_mask mask_eq_exp_minus_1 split: if_splits)

lemma saturating_last:
  assumes "m \<le> saturating_add a (1 :: u32)" and "a = 0 \<or> a < m"
  shows "Suc (unat a) = max 1 (unat m)"
proof (cases "a = 0")
  case True
  with assms(1) show ?thesis by (simp add: saturating_add_def checked_add_def word_le_nat_alt split: if_splits)
next
  case False
  with assms(2) have less: "unat a < unat m" by (simp add: word_less_nat_alt)
  then have "unat a + 1 < 2 ^ 32" using unsigned_less [of m, where 'a = nat] by simp
  then have "unat (saturating_add a 1) = unat a + 1" by (simp add: saturating_add_def checked_add_def unat_word_ariths)
  with assms(1) less show ?thesis by (simp add: word_le_nat_alt)
qed

lemma process_row_budget:
  assumes "leaves_rows dispatch" and "world_budget fails (dc_max_attempts (od_config d)) (row # rows) w"
    and "process_row cal d fails dispatch row w = Some w'"
  shows "world_budget fails (dc_max_attempts (od_config d)) rows w'"
proof -
  let ?m = "dc_max_attempts (od_config d)" and ?k = "or_dispatch_key row"
  let ?w = "w\<lparr>dw_calls := dw_calls w @ [?k]\<rparr>"
  obtain res w1 where d: "dispatch row ?w = Some (res, w1)" using assms(3) by (cases "dispatch row ?w") (auto simp: process_row_def)
  then have "kept ?w w1" using assms(1) unfolding leaves_rows_def by blast
  then have calls: "dw_calls w1 = dw_calls w @ [?k]"
    and b: "budget fails ?m (row # rows) (dw_calls w) (dw_rearmed w1, dw_store w1)"
    using budget_kept [OF assms(2)] by (simp_all add: kept_def)
  have a: "or_attempt row = 0 \<or> or_attempt row < ?m" by (rule budget_head [OF b]) (simp add: within_budget_def)
  have strand: "world_budget fails ?m rows w1" if "fails row w1"
  proof -
    have "may_strand fails ?k" using that by (auto simp: may_strand_def)
    moreover have "dw_store w1 = update_outbox (\<lambda>r. or_dispatch_key r = ?k) (\<lambda>r. r) (dw_store w1)" by (simp add: update_outbox_def)
    ultimately show ?thesis unfolding calls
      by (intro budget_settled [OF b, where f = "\<lambda>r. r"]) (auto simp: within_budget_def split: if_splits)
  qed
  have written: "world_budget fails ?m rows (write_row fails row update w1)"
    if "snd (update (dw_store w1)) = update_outbox (\<lambda>r. or_dispatch_key r = ?k) f (dw_store w1)"
      and "\<And>r. or_dispatch_key (f r) = or_dispatch_key r"
      and "\<And>r c n. or_attempt r = or_attempt row \<Longrightarrow> within_budget (may_strand fails ?k) ?m c n 1 r
        \<Longrightarrow> within_budget (may_strand fails ?k) ?m c (Suc n) 0 (f r)" for update f
    using strand budget_settled [OF b that(1) that(2) that(3)] by (simp add: write_row_def calls)
  show ?thesis
  proof (cases res)
    case (Inr u)
    with d assms(3) have "w' = write_row fails row (complete_outbox_row ?k) w1" by (simp add: process_row_def mark_done_def)
    then show ?thesis
      by (simp only:) (rule written [where f = "\<lambda>r. r\<lparr>or_status := Done, or_claimed_at := None\<rparr>"],
        auto simp: complete_outbox_row_def within_budget_def split: if_splits)
  next
    case (Inl e)
    let ?next = "saturating_add (or_attempt row) 1"
    have h: "handle_dispatch_error cal d fails row e w1 = Some w'" using Inl d assms(3) by (simp add: process_row_def)
    show ?thesis
    proof (cases "?m \<le> ?next")
      case True
      with h have "w' = write_row fails row (fail_outbox_row ?k) w1" by (simp add: handle_dispatch_error_def)
      then show ?thesis using saturating_last [OF True a]
        by (simp only:) (rule written [where f = "\<lambda>r. r\<lparr>or_status := FailedRow, or_claimed_at := None\<rparr>"],
          auto simp: fail_outbox_row_def within_budget_def split: if_splits)
    next
      case False
      then obtain at where "w' = write_row fails row (retry_outbox_row ?k ?next at) w1"
        using h by (auto simp: handle_dispatch_error_def Let_def split: if_splits)
      then show ?thesis using False saturating_next [of "or_attempt row" ?m]
        by (simp only:) (rule written [where f = "\<lambda>r. r\<lparr>or_status := Pending, or_attempt := ?next, or_visible_after := at, or_claimed_at := None\<rparr>"],
          auto simp: retry_outbox_row_def within_budget_def split: if_splits)
    qed
  qed
qed

lemma process_rows_budget:
  assumes "leaves_rows dispatch" and "world_budget fails (dc_max_attempts (od_config d)) rows w"
    and "process_rows cal d fails dispatch rows w = Some w'"
  shows "world_budget fails (dc_max_attempts (od_config d)) [] w'"
  using assms(2,3)
  by (induction rows arbitrary: w) (auto simp: Option.bind_eq_Some_conv dest: process_row_budget [OF assms(1)])

lemma sweep_budget:
  assumes "leaves_rows dispatch" and "world_budget fails (dc_max_attempts (od_config d)) [] w"
    and "sweep_once cal d fails dispatch w = Some w'"
  shows "world_budget fails (dc_max_attempts (od_config d)) [] w'"
proof -
  have inv: "ls_inv (dw_store w)" using assms(2) by (simp add: budget_def)
  obtain res w1 where c: "claim_rows d w = (res, w1)" by fastforce
  have "\<exists>rows. res = Inr rows \<and> ls_inv (dw_store w1) \<and> claims (dw_now w) rows (dw_store w) (dw_store w1)"
    using c round_robin_claims [OF inv] excluding_claims [OF inv]
    by (fastforce simp: claim_rows_def Let_def split: option.splits prod.splits)
  then obtain rows where rows: "res = Inr rows" "ls_inv (dw_store w1)" "claims (dw_now w) rows (dw_store w) (dw_store w1)"
    by (elim exE conjE) (rule that)
  have "dw_calls w1 = dw_calls w" "dw_rearmed w1 = dw_rearmed w"
    using c by (auto simp: claim_rows_def Let_def split: option.splits prod.splits)
  with budget_claimed [OF assms(2) rows(3,2)] have "world_budget fails (dc_max_attempts (od_config d)) rows w1" by simp
  with process_rows_budget [OF assms(1)] assms(3) c rows(1) show ?thesis by (simp add: sweep_once_def)
qed

text \<open>A sweep returns when every dispatch does and no retry instant is out of range.\<close>

lemma sweep_returns:
  assumes "\<And>row w. dispatch row w \<noteq> None" and "\<And>t n. cal_checked_add cal t n \<noteq> None"
  shows "sweep_once cal d fails dispatch w \<noteq> None"
proof -
  have row: "process_row cal d fails dispatch row w \<noteq> None" for row w
    using assms(1) [of row "w\<lparr>dw_calls := dw_calls w @ [or_dispatch_key row]\<rparr>"] assms(2)
    by (auto simp: process_row_def handle_dispatch_error_def Let_def split: option.split sum.split)
  have "process_rows cal d fails dispatch rows w \<noteq> None" for rows w
    using row by (induction rows arbitrary: w) (auto simp: Option.bind_eq_None_conv)
  then show ?thesis by (simp add: sweep_once_def split: prod.split sum.split)
qed

section \<open>Lemmas: the push dispatch leaves the table alone\<close>

text \<open>Other tasks do only such writes to the table, and do not touch the trace of calls.\<close>

definition tasks_stage :: "'x tasks \<Rightarrow> bool" where
  "tasks_stage tk \<longleftrightarrow> (\<forall>w. kept w (tk_meanwhile tk w) \<and> (\<forall>w'. tk_arrive tk w = Some w' \<longrightarrow> kept w w'))"

lemma kept_trans: "kept w w1 \<Longrightarrow> kept w1 w2 \<Longrightarrow> kept w w2"
  by (auto simp: kept_def)

lemma kept_same: "dw_calls w' = dw_calls w \<Longrightarrow> dw_rearmed w' = dw_rearmed w \<Longrightarrow> dw_store w' = dw_store w \<Longrightarrow> kept w w'"
  by (simp add: kept_def)

lemma send_kept: "tasks_stage tk \<Longrightarrow> kept w (snd (send_to_candidates tk a hs w))"
proof (induction hs arbitrary: w)
  case (Cons h hs)
  let ?w = "tk_meanwhile tk w"
  have mean: "kept w ?w" using Cons.prems by (simp add: tasks_stage_def)
  have rest: "kept w (snd (send_to_candidates tk a hs (drop_worker h v)))" if "kept w v" for v
    using that by (rule kept_trans [OF kept_trans [OF _ kept_same] Cons.IH [OF Cons.prems]]) simp_all
  have sent: "kept w (?w\<lparr>dw_sent := sent\<rparr>)" for sent by (rule kept_trans [OF mean kept_same]) simp_all
  show ?case
    using rest [OF mean] rest [OF kept_same [of w w]] sent kept_same [of w w]
    by (cases "dw_draining w"; cases "sender h") (simp_all add: ensure_accepting_def Let_def)
qed (simp add: kept_same)

lemma look_up_kept: "kept w (snd (look_up a node w))"
  by (rule kept_same) (simp_all add: look_up_def split: prod.split)

lemma try_label_kept:
  assumes "tasks_stage tk"
  shows "kept w (snd (try_label tk a label w))"
  using kept_trans [OF look_up_kept send_kept [OF assms]] kept_same [of w w]
  by (cases "dw_draining w") (simp_all add: try_label_def ensure_accepting_def split_beta)

lemma try_labels_kept: "tasks_stage tk \<Longrightarrow> kept w (snd (try_labels tk a labels w))"
proof (induction labels arbitrary: w)
  case (Cons label labels)
  obtain r w1 where t: "try_label tk a label w = (r, w1)" by fastforce
  then have "kept w w1" using try_label_kept [OF Cons.prems, of w a label] by simp
  with t kept_trans [OF _ Cons.IH [OF Cons.prems]] show ?case by (auto split: sum.split bool.split)
qed (simp add: kept_same)

lemma to_node_kept:
  assumes "dispatch_to_node tk a node w = Some out" and "tasks_stage tk"
  shows "kept w (snd out)"
  using assms
proof (induction rule: dispatch_to_node.raw_induct [rotated, consumes 1, case_names step])
  case (step f tk a node w out)
  obtain hs w1 where look: "look_up a node w = (hs, w1)" by fastforce
  then have k: "kept w w1" using look_up_kept [of w a node] by simp
  obtain r w2 where s: "send_to_candidates tk a hs w1 = (r, w2)" by fastforce
  have "kept w w2" using kept_trans [OF k] send_kept [OF step.prems, of w1 a hs] s by simp
  moreover have "kept w (snd out)" if "tk_arrive tk w1 = Some w3" "f tk a node w3 = Some out" for w3
  proof -
    have "kept w1 w3" using step.prems that(1) by (auto simp: tasks_stage_def)
    then show ?thesis using kept_trans [OF kept_trans [OF k] step.IH [OF that(2) step.prems]] by simp
  qed
  ultimately show ?case using step.hyps look s kept_same [of w w]
    by (auto simp: ensure_accepting_def Option.bind_eq_Some_conv split: if_splits sum.splits bool.splits)
qed

lemma requiring_kept:
  assumes "dispatch_requiring tk a labels w = Some out" and "tasks_stage tk"
  shows "kept w (snd out)"
  using assms
proof (induction rule: dispatch_requiring.raw_induct [rotated, consumes 1, case_names step])
  case (step f tk a labels w out)
  obtain r w1 where t: "try_labels tk a labels w = (r, w1)" by fastforce
  then have k: "kept w w1" using try_labels_kept [OF step.prems, of w a labels] by simp
  have "kept w (snd out)" if "tk_arrive tk w1 = Some w3" "f tk a labels w3 = Some out" for w3
  proof -
    have "kept w1 w3" using step.prems that(1) by (auto simp: tasks_stage_def)
    then show ?thesis using kept_trans [OF kept_trans [OF k] step.IH [OF that(2) step.prems]] by simp
  qed
  with k show ?case using step.hyps t by (auto simp: Option.bind_eq_Some_conv split: if_splits sum.splits)
qed

lemma tiers_kept: "tasks_stage tk \<Longrightarrow> dispatch_over_tiers tk a tiers w = Some out \<Longrightarrow> kept w (snd out)"
proof (induction tiers arbitrary: w)
  case (Cons tier tiers)
  show ?case
  proof (cases tier)
    case (Some label)
    obtain r w1 where t: "try_label tk a label w = (r, w1)" by fastforce
    then have "kept w w1" using try_label_kept [OF Cons.prems(1), of w a label] by simp
    with t Some Cons.prems(2) kept_trans [OF _ Cons.IH [OF Cons.prems(1)]] show ?thesis by (auto split: sum.splits bool.splits)
  qed (use Cons.prems in \<open>auto dest: to_node_kept\<close>)
qed (auto dest: to_node_kept)

lemma worker_leaves_rows:
  assumes "tasks_stage tk"
  shows "leaves_rows (worker_dispatch tk)"
  unfolding leaves_rows_def
proof (intro allI impI)
  fix row w res w'
  assume out: "worker_dispatch tk row w = Some (res, w')"
  obtain pcs where eq: "worker_dispatch tk row w =
      (let a = to_scheduled row; w1 = w\<lparr>dw_placements := pcs\<rparr>
       in case placement_for row w of
            Prefer nodes \<Rightarrow> dispatch_preferring tk a nodes w1
          | Pinned nodes \<Rightarrow> dispatch_requiring tk a (sorted_list_of_set nodes) w1
          | Unplaced \<Rightarrow> dispatch_activity tk a w1)" by (rule worker_dispatch_cases)
  have "kept (w\<lparr>dw_placements := pcs\<rparr>) (snd (res, w'))"
    using out requiring_kept [OF _ assms] tiers_kept [OF assms] to_node_kept [OF _ assms]
    unfolding eq dispatch_preferring_def dispatch_activity_def by (auto simp: Let_def split: namespace_placement.splits)
  then show "kept w w'" by (simp add: kept_def)
qed

section \<open>Properties\<close>

text \<open>C23: where a task may go.  However other tasks change the world while the dispatch waits for a worker or for
  room in a channel, a dispatch that succeeds has sent exactly one task, the one of the row, to a worker that serves the row's
  namespace, task queue and activity type, on the node the row is pinned to when it is; and, when the placement
  cache answered that the namespace is pinned, on a node of the pin.  A dispatch that fails has sent nothing.\<close>

theorem task_routed:
  assumes "tasks_ok tk" and "registry_ok (dw_registry w)" and "worker_dispatch tk row w = Some (res, w')"
  shows "case res of
      Inl e \<Rightarrow> dw_sent w' = dw_sent w
    | Inr _ \<Rightarrow> \<exists>h. dw_sent w' = dw_sent w @ [(h, to_task (to_scheduled row))]
        \<and> or_namespace row \<in> set (wk_namespaces h) \<and> pool_new (or_namespace row) (or_task_queue row) = pool_new (or_namespace row) (wk_task_queue h)
        \<and> or_activity_type row \<in> set (wk_activity_types h) \<and> (or_node row \<noteq> None \<longrightarrow> wk_node h = or_node row)
        \<and> (\<forall>labels. placement_for row w = Pinned labels \<longrightarrow> (\<exists>n \<in> labels. wk_node h = Some n))"
  using worker_dispatch_sound [OF assms]
  by (cases "or_node row") (auto simp: sends_def serves_def to_scheduled_def split: sum.split)

text \<open>A task that can be delivered is.  While no other task interferes and the server accepts work, a row is delivered as soon
  as one connected worker of its pool with an open channel is eligible: on the row's node when it is pinned, on one of
  the labels when the namespace is.  The dispatch then returns and does not wait, whatever workers with closed
  channels it meets before.\<close>

theorem dispatch_delivers:
  assumes "quiet tk" and "registry_ok (dw_registry w)" and "\<not> dw_draining w" and "worker_by_id (wk_id h) (dw_registry w) = Some h"
    and "sender h = Some channel" and "channel \<in> dw_open w" and "serves (to_scheduled row) (or_node row) h"
    and "case placement_for row w of Pinned labels \<Rightarrow> finite labels \<and> (\<exists>n \<in> labels. wk_node h = Some n) | _ \<Rightarrow> True"
  shows "\<exists>w'. worker_dispatch tk row w = Some (Inr (), w')"
  using assms by (rule worker_dispatch_outcome)

text \<open>The sweeps of a dispatcher, and what other tasks do between them.\<close>

inductive dispatcher_step ::
  "'c calendar \<Rightarrow> outbox_dispatcher \<Rightarrow> 'x faults \<Rightarrow> (outbox_row \<Rightarrow> 'x dispatch_world \<Rightarrow> 'x dispatched)
    \<Rightarrow> 'x dispatch_world \<Rightarrow> 'x dispatch_world \<Rightarrow> bool"
  for cal d fails dispatch where
  swept: "sweep_once cal d fails dispatch w = Some w' \<Longrightarrow> dispatcher_step cal d fails dispatch w w'"
| others: "kept w w' \<Longrightarrow> dispatcher_step cal d fails dispatch w w'"

text \<open>C24: the retry budget.  Over any number of sweeps of one dispatcher, with or without backpressure, whatever the dispatch of a row
  answers, whichever writes of an outcome fail, and while other tasks stage rows, cancel them and re-arm them (during a dispatch or
  between sweeps), a row is handed to the dispatch at most as often as the configuration allows (once if it allows
  none) and once more for each time it was re-armed.  The attempt stored with a pending row is the number of times it was tried, up to
  its re-arms; a row is failed only when the last attempt it had was used up; and a row is left claimed between sweeps only
  if it was dispatched and the write of the outcome failed.  Claims are taken to succeed, and no other dispatcher works on the table.\<close>

theorem attempts_bounded:
  assumes "leaves_rows dispatch" and "ls_inv (dw_store w0)" and "dw_calls w0 = []"
    and "\<forall>r \<in> set (ls_outbox (dw_store w0)). or_status r = Pending \<and> or_attempt r = 0"
    and "(dispatcher_step cal d fails dispatch)\<^sup>*\<^sup>* w0 w"
  shows "let allowed = max 1 (unat (dc_max_attempts (od_config d))); tried = count_list (dw_calls w); again = count_list (dw_rearmed w)
    in (\<forall>key. tried key \<le> allowed + again key)
     \<and> (\<forall>r \<in> set (ls_outbox (dw_store w)). let key = or_dispatch_key r
          in case or_status r of
               Pending \<Rightarrow> unat (or_attempt r) \<le> tried key \<and> tried key \<le> unat (or_attempt r) + again key
             | Claimed \<Rightarrow> unat (or_attempt r) < tried key \<and> (\<exists>row w. or_dispatch_key row = key \<and> fails row w)
             | FailedRow \<Rightarrow> allowed \<le> tried key
             | _ \<Rightarrow> True)"
proof -
  let ?m = "dc_max_attempts (od_config d)"
  have "world_budget fails ?m [] w0" using assms(2-4) by (auto simp: budget_def within_budget_def queued_def)
  have b: "world_budget fails ?m [] w" using assms(5)
  proof (induction rule: rtranclp_induct)
    case (step w1 w2)
    from step.hyps(2) show ?case
    proof cases
      case swept
      from sweep_budget [OF assms(1) step.IH this] show ?thesis .
    next
      case others
      with budget_kept [OF step.IH] show ?thesis by (simp add: kept_def)
    qed
  qed (rule \<open>world_budget fails ?m [] w0\<close>)
  have row: "within_budget (may_strand fails (or_dispatch_key r)) ?m (count_list (dw_rearmed w) (or_dispatch_key r))
      (count_list (dw_calls w) (or_dispatch_key r)) 0 r"
    if "r \<in> set (ls_outbox (dw_store w))" for r using b that by (auto simp: budget_def Let_def queued_def)
  have "count_list (dw_calls w) key \<le> max 1 (unat ?m) + count_list (dw_rearmed w) key" for key
  proof (cases "key \<in> set (dw_calls w)")
    case True
    then obtain r where r: "r \<in> set (ls_outbox (dw_store w))" "key = or_dispatch_key r" using b by (auto simp: budget_def)
    with row [OF r(1)] show ?thesis by (auto simp: within_budget_def word_less_nat_alt split: if_splits)
  qed (simp add: count_notin)
  moreover have "let key = or_dispatch_key r
      in case or_status r of
           Pending \<Rightarrow> unat (or_attempt r) \<le> count_list (dw_calls w) key
             \<and> count_list (dw_calls w) key \<le> unat (or_attempt r) + count_list (dw_rearmed w) key
         | Claimed \<Rightarrow> unat (or_attempt r) < count_list (dw_calls w) key \<and> (\<exists>row w. or_dispatch_key row = key \<and> fails row w)
         | FailedRow \<Rightarrow> max 1 (unat ?m) \<le> count_list (dw_calls w) key
         | _ \<Rightarrow> True" if "r \<in> set (ls_outbox (dw_store w))" for r
    using row [OF that] by (cases "or_status r") (simp_all add: within_budget_def may_strand_def Let_def)
  ultimately show ?thesis unfolding Let_def by blast
qed

text \<open>What becomes of a row.  After a delivery the row is done.  After a failure it is failed when its attempts are used up, and otherwise
  pending again with one more attempt: at once when the connection was lost, and else after a delay of the base times the
  multiplier to the power of the attempts so far, in whole milliseconds, capped by the configured maximum.  No
  intermediate value overflows, however many attempts there were, and no other row changes.\<close>

theorem row_outcome:
  assumes "calendar_ok cal" and "\<forall>t \<le> CHRONO_MAX. cal_from_std cal t = Some t"
    and "dc_backoff_base c < 2 ^ 64 * 10 ^ 9" and "dc_backoff_max c \<le> CHRONO_MAX" and "od_config d = c"
    and "dispatch row (w\<lparr>dw_calls := dw_calls w @ [or_dispatch_key row]\<rparr>) = Some (res, w1)" and "process_row cal d fails dispatch row w = Some w'"
    and "\<not> fails row w1"
  shows "let attempted = saturating_add (or_attempt row) 1;
             delay = min (dc_backoff_base c div 1000000 * unat (dc_backoff_multiplier c) ^ unat (or_attempt row)) (dc_backoff_max c div 1000000) * 1000000;
             again = (\<lambda>t r. r\<lparr>or_status := Pending, or_attempt := attempted, or_visible_after := t, or_claimed_at := None\<rparr>)
    in dw_store w' = update_outbox (\<lambda>r. or_dispatch_key r = or_dispatch_key row)
         (case res of
            Inr _ \<Rightarrow> (\<lambda>r. r\<lparr>or_status := Done, or_claimed_at := None\<rparr>)
          | Inl e \<Rightarrow> if dc_max_attempts c \<le> attempted then (\<lambda>r. r\<lparr>or_status := FailedRow, or_claimed_at := None\<rparr>)
                     else if is_worker_connection_lost e then again (dw_now w1) else again (dw_now w1 + int delay))
         (dw_store w1)
       \<and> delay \<le> dc_backoff_max c"
proof -
  let ?delay = "min (dc_backoff_base c div 1000000 * unat (dc_backoff_multiplier c) ^ unat (or_attempt row)) (dc_backoff_max c div 1000000) * 1000000"
  define D where "D = ?delay"
  have lim: "CHRONO_MAX < 2 ^ 64 * 10 ^ 9" "CHRONO_MAX div 1000000 \<le> 2 ^ 64 - 1" by (simp_all add: CHRONO_MAX_def)
  have "dc_backoff_max c div 1000000 \<le> 2 ^ 64 - 1" using div_le_mono [OF assms(4), of 1000000] lim(2) by (rule le_trans)
  then have delay: "backoff_for_attempt c (or_attempt row) = D"
    using backoff_eq [OF assms(3) le_less_trans [OF assms(4) lim(1)], of "or_attempt row"] unfolding D_def by (simp only: min_absorb1)
  have le: "D \<le> dc_backoff_max c"
    unfolding D_def by (rule le_trans [OF mult_le_mono1 [OF min.cobounded2]]) (rule div_times_less_eq_dividend)
  then have chrono: "chrono_duration cal D = D" using assms(2,4) by (simp add: chrono_duration_def)
  have add: "u = t + int D" if "cal_checked_add cal t D = Some u" for t u using assms(1) that by (simp add: calendar_ok_def)
  show ?thesis
    unfolding Let_def D_def [symmetric]
  proof (intro conjI le)
    let ?next = "saturating_add (or_attempt row) 1"
    show "dw_store w' = update_outbox (\<lambda>r. or_dispatch_key r = or_dispatch_key row)
         (case res of
            Inr _ \<Rightarrow> (\<lambda>r. r\<lparr>or_status := Done, or_claimed_at := None\<rparr>)
          | Inl e \<Rightarrow> if dc_max_attempts c \<le> ?next then (\<lambda>r. r\<lparr>or_status := FailedRow, or_claimed_at := None\<rparr>)
                     else if is_worker_connection_lost e
                     then (\<lambda>r. r\<lparr>or_status := Pending, or_attempt := ?next, or_visible_after := dw_now w1, or_claimed_at := None\<rparr>)
                     else (\<lambda>r. r\<lparr>or_status := Pending, or_attempt := ?next, or_visible_after := dw_now w1 + int D, or_claimed_at := None\<rparr>))
         (dw_store w1)"
    proof (cases res)
      case (Inr u)
      with assms(6-8) show ?thesis by (auto simp: process_row_def mark_done_def write_row_def complete_outbox_row_def)
    next
      case (Inl e)
      then have h: "handle_dispatch_error cal d fails row e w1 = Some w'" using assms(6,7) by (simp add: process_row_def)
      show ?thesis
      proof (cases "dc_max_attempts c \<le> ?next \<or> is_worker_connection_lost e")
        case True
        with h assms(5,8) Inl show ?thesis by (auto simp: handle_dispatch_error_def write_row_def fail_outbox_row_def retry_outbox_row_def)
      next
        case False
        with h assms(5,8) delay chrono obtain at where "cal_checked_add cal (dw_now w1) D = Some at"
          "dw_store w' = snd (retry_outbox_row (or_dispatch_key row) ?next at (dw_store w1))"
          by (auto simp: handle_dispatch_error_def write_row_def)
        with add False Inl show ?thesis by (simp add: retry_outbox_row_def)
      qed
    qed
  qed
qed

section \<open>A pin and a failed read\<close>

text \<open>The registry of the samples: worker 1 has no node, worker 2 is on \<open>n\<close>.  Only the channel of worker 1 is open.\<close>

abbreviation s_task_row :: outbox_row where
  "s_task_row \<equiv> s_tenant_row ''a'' 1"

definition s_dispatch_world :: "namespace_read \<Rightarrow> nat set \<Rightarrow> unit dispatch_world" where
  "s_dispatch_world read channels =
     \<lparr>dw_store = s_tenants, dw_registry = s_registry, dw_read = read, dw_placements = Some \<lparr>pc_ttl = 60, pc_entries = []\<rparr>,
      dw_quota = s_quota, dw_paused = {}, dw_draining = False, dw_now = 9, dw_open = channels, dw_sent = [], dw_calls = [], dw_rearmed = [], dw_rest = ()\<rparr>"

definition s_tasks :: "unit tasks" where
  "s_tasks = \<lparr>tk_meanwhile = (\<lambda>w. w), tk_arrive = (\<lambda>_. None)\<rparr>"

abbreviation s_pinned_read :: namespace_read where
  "s_pinned_read \<equiv> \<lambda>_. Inr (Some ((new_minted ''a'' Explicit 3)\<lparr>nr_placement := Pinned {''n''}\<rparr>))"

lemma s_dispatch_world_sel [simp]:
  "dw_store (s_dispatch_world read channels) = s_tenants" "dw_registry (s_dispatch_world read channels) = s_registry"
  "dw_draining (s_dispatch_world read channels) = False" "dw_open (s_dispatch_world read channels) = channels"
  "dw_sent (s_dispatch_world read channels) = []" "dw_calls (s_dispatch_world read channels) = []"
  by (simp_all add: s_dispatch_world_def)

lemma s_placement: "placement_for s_task_row (s_dispatch_world read channels) = (case read ''a'' of Inr (Some r) \<Rightarrow> nr_placement r | _ \<Rightarrow> Unplaced)"
  by (simp add: placement_for_def s_dispatch_world_def pending_row_def cached_placement_def fresh_hit_def Let_def)

lemma s_tasks_ok: "tasks_ok s_tasks" "quiet s_tasks" "tasks_stage s_tasks"
  by (simp_all add: tasks_ok_def quiet_def tasks_stage_def s_tasks_def kept_same)

lemma s_registry_ok: "registry_ok s_registry"
  by (rule registry_reachable_ok [OF s_registry_reachable])

lemma s_serves: "serves (to_scheduled s_task_row) None (s_worker ''a'' node i channel)"
  by (simp add: serves_def to_scheduled_def pending_row_def s_worker_def pool_new_def DEFAULT_OUTBOX_ROUTE_def DEFAULT_TASK_QUEUE_def)

lemma s_workers: "worker_by_id (WorkerId 1) s_registry = Some (s_worker ''a'' None 1 1)"
  "worker_by_id (WorkerId 2) s_registry = Some (s_worker ''a'' (Some ''n'') 2 2)"
  by (simp_all add: worker_by_id_def s_registry_eq)

lemma pending_row_node [simp]: "or_node (pending_row show_uuid w n ty input now) = None"
  by (simp add: pending_row_def)

lemma s_candidates: "pool_workers ''a'' ''default'' ''charge'' node s_registry = pool_workers ''a'' [] ''charge'' node s_registry"
  by (simp add: pool_workers_def key_new_def pool_new_def DEFAULT_TASK_QUEUE_def)

lemma pending_scheduled [simp]:
  "sa_task_queue (to_scheduled (pending_row show_uuid w n ty input now\<lparr>or_namespace := ns\<rparr>)) = ''default''"
  "sa_activity_type (to_scheduled (pending_row show_uuid w n ty input now\<lparr>or_namespace := ns\<rparr>)) = ty"
  by (simp_all add: to_scheduled_def pending_row_def DEFAULT_OUTBOX_ROUTE_def DEFAULT_TASK_QUEUE_def)

text \<open>A pin is dropped when the namespace registry cannot be read.  The namespace is pinned to the node \<open>n\<close>, whose worker is gone, and a
  worker without a node is connected.  As long as the registry answers, the row waits for a worker on \<open>n\<close>, for ever if
  none comes.  When the read of the registry fails, the same row is delivered to the worker without a node.\<close>

theorem failed_read_overrides_pin:
  "worker_dispatch s_tasks s_task_row (s_dispatch_world s_pinned_read {1}) = None
   \<and> (\<exists>w' h. worker_dispatch s_tasks s_task_row (s_dispatch_world (\<lambda>_. Inl (Backend ''down'')) {1}) = Some (Inr (), w')
        \<and> map fst (dw_sent w') = [h] \<and> wk_node h = None)"
proof (intro conjI)
  have look: "fst (workers_for ''a'' ''default'' ''charge'' (Some ''n'') s_registry) = [s_worker ''a'' (Some ''n'') 2 2]"
    "hd (fst (workers_for ''a'' ''default'' ''charge'' None s_registry)) = s_worker ''a'' None 1 1"
    "fst (workers_for ''a'' ''default'' ''charge'' None s_registry) \<noteq> []"
    by (simp_all add: workers_for_eq Let_def s_candidates s_registry_pool cursor_def) (simp add: s_registry_eq)
  show "worker_dispatch s_tasks s_task_row (s_dispatch_world s_pinned_read {1}) = None"
    using look(1)
    by (simp add: worker_dispatch_def s_dispatch_world_def cached_placement_def fresh_hit_def Let_def dispatch_requiring.simps try_label_def
        ensure_accepting_def look_up_def split_beta s_tasks_def s_worker_def)
  let ?w = "s_dispatch_world (\<lambda>_. Inl (Backend ''down'')) {1}"
  show "\<exists>w' h. worker_dispatch s_tasks s_task_row ?w = Some (Inr (), w') \<and> map fst (dw_sent w') = [h] \<and> wk_node h = None"
    using look(2,3)
    by (cases "fst (workers_for ''a'' ''default'' ''charge'' None s_registry)")
       (auto simp: worker_dispatch_def s_dispatch_world_def cached_placement_def fresh_hit_def dispatch_activity_def dispatch_to_node.simps
        ensure_accepting_def look_up_def split_beta s_tasks_def s_worker_def)
qed

section \<open>Witnesses\<close>

lemma s_delivery: "\<exists>w'. worker_dispatch s_tasks s_task_row (s_dispatch_world s_pinned_read {2}) = Some (Inr (), w')"
proof (rule worker_dispatch_outcome [where h = "s_worker ''a'' (Some ''n'') 2 2" and channel = 2])
  show "serves (to_scheduled s_task_row) (or_node s_task_row) (s_worker ''a'' (Some ''n'') 2 2)"
    using s_serves by (simp add: pending_row_def)
qed (simp_all only: s_placement, simp_all add: s_tasks_ok s_registry_ok s_workers s_worker_def [of "''a''" "Some ''n''" 2 2] s_worker_def)

theorem task_routed_witness:
  "\<exists>w' h. worker_dispatch s_tasks s_task_row (s_dispatch_world s_pinned_read {2}) = Some (Inr (), w')
     \<and> map fst (dw_sent w') = [h] \<and> wk_node h = Some ''n''"
proof -
  obtain w' where w': "worker_dispatch s_tasks s_task_row (s_dispatch_world s_pinned_read {2}) = Some (Inr (), w')" using s_delivery by blast
  have "registry_ok (dw_registry (s_dispatch_world s_pinned_read {2}))" by (simp add: s_registry_ok)
  from task_routed [OF s_tasks_ok(1) this w'] w' show ?thesis unfolding s_placement by auto
qed

theorem dispatch_delivers_witness:
  "\<exists>w'. worker_dispatch s_tasks s_task_row (s_dispatch_world s_pinned_read {2}) = Some (Inr (), w')"
proof (rule dispatch_delivers [where h = "s_worker ''a'' (Some ''n'') 2 2" and channel = 2])
  show "serves (to_scheduled s_task_row) (or_node s_task_row) (s_worker ''a'' (Some ''n'') 2 2)"
    using s_serves by (simp add: pending_row_def)
qed (simp_all only: s_placement, simp_all add: s_tasks_ok s_registry_ok s_workers s_worker_def [of "''a''" "Some ''n''" 2 2] s_worker_def)

text \<open>Three attempts, the first retry after 100 milliseconds; every dispatch fails.\<close>

definition s_dispatcher :: outbox_dispatcher where
  "s_dispatcher = \<lparr>od_config = \<lparr>dc_poll_interval = 10000000, dc_batch_size = 16, dc_max_attempts = 3, dc_backoff_base = 100000000,
     dc_backoff_multiplier = 2, dc_backoff_max = 60000000000\<rparr>, od_backpressure = None, od_hold = True\<rparr>"

abbreviation s_refuse :: "outbox_row \<Rightarrow> unit dispatch_world \<Rightarrow> unit dispatched" where
  "s_refuse \<equiv> \<lambda>row w. Some (Inl (WorkerDispatch ''a'' ''charge'' ''no worker''), w)"

text \<open>A failing backend: the first write of an outcome is lost, so the row stays claimed until the reconciler re-arms it.\<close>

definition s_faults :: "unit faults" where
  "s_faults row w \<longleftrightarrow> dw_now w = 9"

definition s_reconciled :: "unit dispatch_world \<Rightarrow> unit dispatch_world" where
  "s_reconciled w = w\<lparr>dw_now := 100, dw_rearmed := dw_rearmed w @ map or_dispatch_key (select_stale 50 16 (dw_store w)),
     dw_store := snd (rearm_stale_claimed_outbox_rows 50 100 16 (dw_store w))\<rparr>"

theorem attempts_bounded_witness:
  "\<exists>w w'. sweep_once s_calendar s_dispatcher s_faults s_refuse (s_dispatch_world s_pinned_read {}) = Some w
     \<and> sweep_once s_calendar s_dispatcher s_faults s_refuse (s_reconciled w) = Some w'
     \<and> count_list (dw_calls w') (or_dispatch_key s_task_row) \<le> 3 + count_list (dw_rearmed w') (or_dispatch_key s_task_row)"
proof -
  let ?w = "s_dispatch_world s_pinned_read {}" and ?sweep = "sweep_once s_calendar s_dispatcher s_faults s_refuse"
  let ?step = "dispatcher_step s_calendar s_dispatcher s_faults s_refuse"
  have "?sweep v \<noteq> None" for v
    using sweep_returns [of s_refuse s_calendar s_dispatcher s_faults v] by (simp add: s_calendar_def)
  then obtain w w' where w: "?sweep ?w = Some w" and w': "?sweep (s_reconciled w) = Some w'" by blast
  have "kept w (s_reconciled w)" using rearm_stale_moves [of 16] by (simp add: kept_def s_reconciled_def)
  from dispatcher_step.swept [OF w] dispatcher_step.others [OF this] dispatcher_step.swept [OF w']
  have "?step\<^sup>*\<^sup>* ?w w'"
    by (rule rtranclp.rtrancl_into_rtrancl [OF rtranclp.rtrancl_into_rtrancl [OF r_into_rtranclp]])
  moreover have "leaves_rows s_refuse" by (simp add: leaves_rows_def kept_same)
  moreover have "ls_inv (dw_store ?w)" using s_tenants_inv by simp
  moreover have "\<forall>r \<in> set (ls_outbox (dw_store ?w)). or_status r = Pending \<and> or_attempt r = 0"
    by (simp add: s_tenants_def pending_row_def)
  ultimately have "let allowed = max 1 (unat (dc_max_attempts (od_config s_dispatcher))); tried = count_list (dw_calls w'); again = count_list (dw_rearmed w')
    in \<forall>key. tried key \<le> allowed + again key"
    using attempts_bounded [of s_refuse ?w s_calendar s_dispatcher s_faults w'] by (simp add: Let_def)
  then have "count_list (dw_calls w') (or_dispatch_key s_task_row) \<le> 3 + count_list (dw_rearmed w') (or_dispatch_key s_task_row)"
    by (simp add: Let_def s_dispatcher_def)
  with w w' show ?thesis by blast
qed

theorem row_outcome_witness:
  "\<exists>w'. process_row s_calendar s_dispatcher (\<lambda>_ _. False) s_refuse s_task_row (s_dispatch_world s_pinned_read {}) = Some w'
     \<and> dw_store w' = update_outbox (\<lambda>r. or_dispatch_key r = or_dispatch_key s_task_row)
         (\<lambda>r. r\<lparr>or_status := Pending, or_attempt := 1, or_visible_after := 100000009, or_claimed_at := None\<rparr>) s_tenants"
proof -
  let ?w = "s_dispatch_world s_pinned_read {}"
  have "process_row s_calendar s_dispatcher (\<lambda>_ _. False) s_refuse s_task_row ?w \<noteq> None"
    by (simp add: process_row_def handle_dispatch_error_def s_calendar_def Let_def)
  then obtain w' where w': "process_row s_calendar s_dispatcher (\<lambda>_ _. False) s_refuse s_task_row ?w = Some w'" by blast
  have cfg: "\<forall>t \<le> CHRONO_MAX. cal_from_std s_calendar t = Some t" "dc_backoff_base (od_config s_dispatcher) < 2 ^ 64 * 10 ^ 9"
    "dc_backoff_max (od_config s_dispatcher) \<le> CHRONO_MAX" by (simp_all add: s_calendar_def s_dispatcher_def CHRONO_MAX_def)
  have "or_attempt s_task_row = 0" "saturating_add 0 1 = (1 :: u32)" "\<not> (3 :: u32) \<le> 1"
    by (simp_all add: pending_row_def saturating_add_def checked_add_def word_le_nat_alt)
  with row_outcome [OF s_calendar_ok cfg refl refl w'] w' show ?thesis
    by (simp add: Let_def s_dispatcher_def) (simp add: s_dispatch_world_def s_dispatcher_def)
qed

end
