(* ===== verification/Outbox_Reconciler.thy ===== *)
theory Outbox_Reconciler
  imports Libsql_Store Schedule
begin

text \<open>
  \<^verbatim>\<open>crates/aion-server/src/worker/outbox_settle.rs\<close> and \<^verbatim>\<open>outbox_reconciler.rs\<close>: two repairs of the outbox.  At start the live rows of
  workflows that have ended are cancelled.  While the server runs, a reconciler periodically looks for rows that have been
  claimed for too long; it cancels those of workflows that have ended and returns the others to the queue.

  \<open>meanwhile\<close> is what other tasks do to the store while a sweep awaits it.  A store operation is one step.  The instant
  before which a claim is stale is a difference of unbounded integers, where chrono panics out of its range.  Log output and the
  ticking loop around the sweep are not modelled.

  The lemmas show that the settlement at start leaves no live row of an ended workflow and changes no other row; that a
  sweep, when its batch covers the stale rows, returns exactly the stale rows of live workflows to the queue; and that it
  returns rows it has not probed when the batch does not.
\<close>

fun is_settle_terminal :: "workflow_status \<Rightarrow> bool" where
  "is_settle_terminal Completed = True"
| "is_settle_terminal Failed = True"
| "is_settle_terminal Cancelled = True"
| "is_settle_terminal TimedOut = True"
| "is_settle_terminal _ = False"

section \<open>Settlement at start\<close>

fun settle_workflows :: "workflow_id list \<Rightarrow> string list \<Rightarrow> libsql_state \<Rightarrow> (store_error, string list) result \<times> libsql_state" where
  "settle_workflows [] settled s = (Inr settled, s)"
| "settle_workflows (w # ws) settled s =
     (case ls_read_history w s of
        Inl e \<Rightarrow> (Inl e, s)
      | Inr h \<Rightarrow>
          if \<not> is_settle_terminal (status_from_events h) then settle_workflows ws settled s
          else (case ls_settle_workflow_outbox_rows_cancelled w s of
                  (Inl e, s') \<Rightarrow> (Inl e, s')
                | (Inr keys, s') \<Rightarrow> settle_workflows ws (settled @ keys) s'))"

definition settle_terminal_outbox_rows :: "show_uuid \<Rightarrow> libsql_state \<Rightarrow> (store_error, string list) result \<times> libsql_state" where
  "settle_terminal_outbox_rows show_uuid s =
     (case list_unsettled_outbox_workflow_ids show_uuid s of
        Inl e \<Rightarrow> (Inl e, s)
      | Inr ws \<Rightarrow> settle_workflows ws [] s)"

section \<open>The reconciler\<close>

record reconciler_config =
  rc_interval :: duration
  rc_stale_after :: duration
  rc_batch_size :: u32

text \<open>The first row of every workflow, in order.\<close>

fun distinct_candidates :: "workflow_id set \<Rightarrow> outbox_row list \<Rightarrow> outbox_row list" where
  "distinct_candidates seen [] = []"
| "distinct_candidates seen (r # rows) =
     (if or_workflow_id r \<in> seen then distinct_candidates seen rows
      else r # distinct_candidates (insert (or_workflow_id r) seen) rows)"

fun settle_candidates ::
  "(libsql_state \<Rightarrow> libsql_state) \<Rightarrow> outbox_row list \<Rightarrow> libsql_state \<Rightarrow> (store_error, unit) result \<times> libsql_state" where
  "settle_candidates meanwhile [] s = (Inr (), s)"
| "settle_candidates meanwhile (r # rows) s =
     (case ls_read_history (or_workflow_id r) s of
        Inl e \<Rightarrow> (Inl e, s)
      | Inr h \<Rightarrow>
          if \<not> is_settle_terminal (status_from_events h) then settle_candidates meanwhile rows (meanwhile s)
          else (case ls_settle_workflow_outbox_rows_cancelled (or_workflow_id r) (meanwhile s) of
                  (Inl e, s') \<Rightarrow> (Inl e, s')
                | (Inr _, s') \<Rightarrow> settle_candidates meanwhile rows (meanwhile s')))"

definition settle_terminal_candidates ::
  "(libsql_state \<Rightarrow> libsql_state) \<Rightarrow> reconciler_config \<Rightarrow> timestamp \<Rightarrow> libsql_state \<Rightarrow> (store_error, unit) result \<times> libsql_state" where
  "settle_terminal_candidates meanwhile c older_than s =
     (case list_stale_claimed_outbox_rows older_than (rc_batch_size c) s of
        Inl e \<Rightarrow> (Inl e, s)
      | Inr stale \<Rightarrow>
          if stale = [] then (Inr (), s) else settle_candidates meanwhile (distinct_candidates {} stale) (meanwhile s))"

definition reconcile_once ::
  "'c calendar \<Rightarrow> (libsql_state \<Rightarrow> libsql_state) \<Rightarrow> reconciler_config \<Rightarrow> timestamp \<Rightarrow> libsql_state \<Rightarrow> libsql_state" where
  "reconcile_once cal meanwhile c now s =
     (case cal_from_std cal (rc_stale_after c) of
        None \<Rightarrow> s
      | Some stale_after \<Rightarrow>
          (let older_than = now - int stale_after
           in case settle_terminal_candidates meanwhile c older_than s of
                (Inl _, s1) \<Rightarrow> s1
              | (Inr _, s1) \<Rightarrow> snd (rearm_stale_claimed_outbox_rows older_than now (rc_batch_size c) (meanwhile s1))))"

section \<open>Lemmas\<close>

text \<open>Whether a workflow has ended, by its recorded history.\<close>

definition ended :: "libsql_state \<Rightarrow> workflow_id \<Rightarrow> bool" where
  "ended s w \<longleftrightarrow> is_settle_terminal (status_from_events (sort_key seq (ls_rows w s)))"

lemma ended_update [simp]: "ended (update_outbox p f s) w = ended s w"
  by (simp add: ended_def)

lemma update_outbox_id: "(\<And>r. r \<in> set (ls_outbox s) \<Longrightarrow> \<not> p r) \<Longrightarrow> update_outbox p f s = s"
  by (simp add: update_outbox_def map_idI)

text \<open>Cancelling the live rows of a set of workflows.\<close>

definition cancel_in :: "workflow_id set \<Rightarrow> libsql_state \<Rightarrow> libsql_state" where
  "cancel_in W = update_outbox (\<lambda>r. or_workflow_id r \<in> W \<and> live_row r) cancelled_row"

lemma cancel_in_ended [simp]: "ended (cancel_in W s) w = ended s w"
  by (simp add: cancel_in_def)

lemma cancel_in_empty: "cancel_in {} s = s"
  by (simp add: cancel_in_def update_outbox_id)

lemma cancel_in_twice: "cancel_in W (cancel_in V s) = cancel_in (V \<union> W) s"
proof -
  have "\<not> live_row (cancelled_row r)" for r by (simp add: live_row_def cancelled_row_def)
  then have "(\<lambda>r. if or_workflow_id r \<in> W \<and> live_row r then cancelled_row r else r) \<circ> (\<lambda>r. if or_workflow_id r \<in> V \<and> live_row r then cancelled_row r else r)
      = (\<lambda>r. if or_workflow_id r \<in> V \<union> W \<and> live_row r then cancelled_row r else r)" by (auto simp: fun_eq_iff)
  then show ?thesis by (simp add: cancel_in_def update_outbox_def)
qed

lemma settle_workflow_eq: "\<exists>keys. ls_settle_workflow_outbox_rows_cancelled w s = (Inr keys, cancel_in {w} s)"
proof -
  let ?rows = "filter (\<lambda>r. or_workflow_id r = w \<and> live_row r) (ls_outbox s)"
  have "cancel_in {w} s = s" if "?rows = []"
    unfolding cancel_in_def using that by (intro update_outbox_id) (simp add: filter_empty_conv)
  moreover have "sort (map or_dispatch_key ?rows) = [] \<longleftrightarrow> ?rows = []"
    unfolding length_0_conv [symmetric] by (simp only: length_sort length_map)
  ultimately show ?thesis by (simp add: ls_settle_workflow_outbox_rows_cancelled_def Let_def cancel_in_def)
qed

lemma settle_workflows_eq: "\<exists>keys. settle_workflows ws settled s = (Inr keys, cancel_in {w \<in> set ws. ended s w} s)"
proof (induction ws arbitrary: settled s)
  case Nil
  then show ?case by (simp add: cancel_in_empty)
next
  case (Cons w ws)
  show ?case
  proof (cases "ended s w")
    case True
    obtain keys where keys: "ls_settle_workflow_outbox_rows_cancelled w s = (Inr keys, cancel_in {w} s)" using settle_workflow_eq by blast
    obtain keys' where "settle_workflows ws (settled @ keys) (cancel_in {w} s) = (Inr keys', cancel_in {v \<in> set ws. ended (cancel_in {w} s) v} (cancel_in {w} s))"
      using Cons.IH by blast
    moreover have "{w} \<union> {v \<in> set ws. ended s v} = {v \<in> set (w # ws). ended s v}" using True by auto
    ultimately show ?thesis using True keys by (auto simp: ls_read_history_def ended_def cancel_in_twice simp flip: ended_def)
  next
    case False
    then have "{v \<in> set (w # ws). ended s v} = {v \<in> set ws. ended s v}" by auto
    then show ?thesis using Cons.IH [of settled s] False by (simp add: ls_read_history_def ended_def)
  qed
qed

lemma candidates_workflows: "or_workflow_id ` set (distinct_candidates seen rows) = or_workflow_id ` set rows - seen"
  by (induction seen rows rule: distinct_candidates.induct) auto

lemma settle_candidates_eq: "settle_candidates (\<lambda>s. s) rows s = (Inr (), cancel_in {w \<in> or_workflow_id ` set rows. ended s w} s)"
proof (induction rows arbitrary: s)
  case Nil
  then show ?case by (simp add: cancel_in_empty)
next
  case (Cons r rows)
  let ?w = "or_workflow_id r"
  show ?case
  proof (cases "ended s ?w")
    case True
    obtain keys where "ls_settle_workflow_outbox_rows_cancelled ?w s = (Inr keys, cancel_in {?w} s)" using settle_workflow_eq by blast
    moreover have "{?w} \<union> {v \<in> or_workflow_id ` set rows. ended s v} = {v \<in> or_workflow_id ` set (r # rows). ended s v}" using True by auto
    ultimately show ?thesis using True Cons.IH [of "cancel_in {?w} s"]
      by (simp add: ls_read_history_def ended_def cancel_in_twice flip: ended_def)
  next
    case False
    then have "{v \<in> or_workflow_id ` set (r # rows). ended s v} = {v \<in> or_workflow_id ` set rows. ended s v}" by auto
    then show ?thesis using Cons.IH [of s] False by (simp add: ls_read_history_def ended_def)
  qed
qed

lemma update_twice:
  assumes "\<And>r. (let r' = if q r then g r else r in if p r' then f r' else r') = (if p' r then h r else r)"
  shows "update_outbox p f (update_outbox q g s) = update_outbox p' h s"
  using assms by (simp add: update_outbox_def Let_def comp_def)

lemma rearm_fold:
  "fold (\<lambda>row. update_outbox (\<lambda>r. or_dispatch_key r = or_dispatch_key row \<and> or_status r = Claimed) (rearmed_row v)) rows s
   = update_outbox (\<lambda>r. or_dispatch_key r \<in> or_dispatch_key ` set rows \<and> or_status r = Claimed) (rearmed_row v) s"
proof (induction rows arbitrary: s)
  case Nil
  then show ?case by (simp add: update_outbox_id)
next
  case (Cons x rows)
  show ?case unfolding fold_Cons comp_apply Cons.IH by (rule update_twice) (simp add: rearmed_row_def)
qed

lemma rearm_all:
  assumes "ls_inv s" and "length (filter (stale_claimed t) (ls_outbox s)) \<le> unat limit"
  shows "snd (rearm_stale_claimed_outbox_rows t v limit s) = update_outbox (stale_claimed t) (rearmed_row v) s"
proof (cases "limit = 0")
  case True
  with assms(2) have "filter (stale_claimed t) (ls_outbox s) = []" by simp
  then have "update_outbox (stale_claimed t) (rearmed_row v) s = s" by (intro update_outbox_id) (simp add: filter_empty_conv)
  with True show ?thesis by (simp add: rearm_stale_claimed_outbox_rows_def)
next
  case False
  have all: "set (select_stale t limit s) = {r \<in> set (ls_outbox s). stale_claimed t r}" using assms(2) by (simp add: select_stale_def)
  have inj: "inj_on or_dispatch_key (set (ls_outbox s))" using assms(1) by (simp add: ls_inv_def distinct_map)
  have "or_dispatch_key r \<in> or_dispatch_key ` set (select_stale t limit s) \<and> or_status r = Claimed \<longleftrightarrow> stale_claimed t r"
    if "r \<in> set (ls_outbox s)" for r
    using inj_on_image_mem_iff [OF inj that, of "{r \<in> set (ls_outbox s). stale_claimed t r}"] that
    unfolding all by (simp add: stale_claimed_def) blast
  then have "update_outbox (\<lambda>r. or_dispatch_key r \<in> or_dispatch_key ` set (select_stale t limit s) \<and> or_status r = Claimed) (rearmed_row v) s
      = update_outbox (stale_claimed t) (rearmed_row v) s"
    by (simp add: update_outbox_def cong: map_cong)
  with False show ?thesis by (simp add: rearm_stale_claimed_outbox_rows_def rearm_fold Let_def)
qed

lemma filter_replaced: "(\<And>r. \<not> p (g r)) \<Longrightarrow> length (filter p (map (\<lambda>r. if q r then g r else r) rows)) \<le> length (filter p rows)"
  by (induction rows) auto

section \<open>Properties\<close>

text \<open>The settlement at start.  It succeeds, cancels exactly the live rows of workflows whose history projects to completed, failed,
  cancelled or timed out, and leaves every other row, among them those of paused and of continued workflows, as it was.
  Afterwards no live row belongs to a workflow that has ended.\<close>

theorem settled_at_start:
  "\<exists>keys s'. settle_terminal_outbox_rows show_uuid s = (Inr keys, s')
    \<and> s' = s\<lparr>ls_outbox := map (\<lambda>r. if live_row r \<and> ended s (or_workflow_id r) then cancelled_row r else r) (ls_outbox s)\<rparr>
    \<and> filter (\<lambda>r. live_row r \<and> ended s' (or_workflow_id r)) (ls_outbox s') = []"
proof -
  let ?W = "or_workflow_id ` {r \<in> set (ls_outbox s). live_row r}"
  obtain ws where ws: "list_unsettled_outbox_workflow_ids show_uuid s = Inr ws" "set ws = ?W"
    by (auto simp: list_unsettled_outbox_workflow_ids_def)
  obtain keys where keys: "settle_workflows ws [] s = (Inr keys, cancel_in {w \<in> set ws. ended s w} s)" using settle_workflows_eq by blast
  have "cancel_in {w \<in> set ws. ended s w} s =
      s\<lparr>ls_outbox := map (\<lambda>r. if live_row r \<and> ended s (or_workflow_id r) then cancelled_row r else r) (ls_outbox s)\<rparr>" (is "_ = ?s")
    unfolding cancel_in_def update_outbox_def ws(2) by (auto intro!: arg_cong [where f = "\<lambda>x. s\<lparr>ls_outbox := x\<rparr>"])
  then have "settle_terminal_outbox_rows show_uuid s = (Inr keys, ?s)" using ws(1) keys by (simp add: settle_terminal_outbox_rows_def)
  moreover have "filter (\<lambda>r. live_row r \<and> ended ?s (or_workflow_id r)) (ls_outbox ?s) = []"
    by (auto simp: filter_empty_conv ended_def cancelled_row_def live_row_def)
  ultimately show ?thesis by blast
qed

text \<open>C25: one sweep of the reconciler, when no other task interferes and its batch covers the rows that are stale.  A stale row of a workflow that
  has ended is cancelled, with every other live row of that workflow; every other stale row is returned to the queue,
  visible at once and with its attempts; nothing else changes.  In particular no row of an ended workflow becomes claimable.\<close>

theorem reconcile_exact:
  assumes "ls_inv s" and "cal_from_std cal (rc_stale_after c) = Some age" and "older_than = now - int age"
    and "length (filter (stale_claimed older_than) (ls_outbox s)) \<le> unat (rc_batch_size c)"
  shows "reconcile_once cal (\<lambda>s. s) c now s =
    s\<lparr>ls_outbox := map (\<lambda>r.
       if live_row r \<and> ended s (or_workflow_id r) \<and> or_workflow_id r \<in> or_workflow_id ` set (filter (stale_claimed older_than) (ls_outbox s))
       then cancelled_row r
       else if stale_claimed older_than r then rearmed_row now r else r) (ls_outbox s)\<rparr>"
proof -
  let ?stale = "filter (stale_claimed older_than) (ls_outbox s)"
  let ?W = "{w \<in> or_workflow_id ` set ?stale. ended s w}"
  have listed: "\<exists>rows. list_stale_claimed_outbox_rows older_than (rc_batch_size c) s = Inr rows \<and> set rows = set ?stale"
  proof (cases "rc_batch_size c = 0")
    case True
    with assms(4) have "?stale = []" by simp
    with True show ?thesis by (simp only: list_stale_claimed_outbox_rows_def if_True) simp
  next
    case False
    with assms(4) show ?thesis by (simp add: list_stale_claimed_outbox_rows_def select_stale_def)
  qed
  then obtain rows where rows: "list_stale_claimed_outbox_rows older_than (rc_batch_size c) s = Inr rows" "set rows = set ?stale" by blast
  have gate: "settle_terminal_candidates (\<lambda>s. s) c older_than s = (Inr (), cancel_in ?W s)"
  proof (cases "rows = []")
    case True
    with rows(2) have "?W = {}" by simp
    then have "cancel_in ?W s = s" by (simp only: cancel_in_empty)
    with True rows(1) show ?thesis by (simp add: settle_terminal_candidates_def)
  next
    case False
    then show ?thesis using rows by (simp add: settle_terminal_candidates_def settle_candidates_eq candidates_workflows)
  qed
  have inv: "ls_inv (cancel_in ?W s)" unfolding cancel_in_def using assms(1) by (rule ls_inv_update) (simp add: cancelled_row_def)
  have "\<not> stale_claimed older_than (cancelled_row r)" for r by (simp add: stale_claimed_def cancelled_row_def)
  moreover have "ls_outbox (cancel_in ?W s) = map (\<lambda>r. if or_workflow_id r \<in> ?W \<and> live_row r then cancelled_row r else r) (ls_outbox s)"
    by (simp add: cancel_in_def update_outbox_def)
  ultimately have "length (filter (stale_claimed older_than) (ls_outbox (cancel_in ?W s))) \<le> length ?stale"
    by (simp only: filter_replaced not_False_eq_True)
  with assms(4) have "snd (rearm_stale_claimed_outbox_rows older_than now (rc_batch_size c) (cancel_in ?W s))
      = update_outbox (stale_claimed older_than) (rearmed_row now) (cancel_in ?W s)" by (intro rearm_all [OF inv]) simp
  then have "reconcile_once cal (\<lambda>s. s) c now s = update_outbox (stale_claimed older_than) (rearmed_row now) (cancel_in ?W s)"
    using assms(2,3) gate by (simp add: reconcile_once_def Let_def)
  also have "\<dots> = s\<lparr>ls_outbox := map (\<lambda>r.
       if live_row r \<and> ended s (or_workflow_id r) \<and> or_workflow_id r \<in> or_workflow_id ` set ?stale then cancelled_row r
       else if stale_claimed older_than r then rearmed_row now r else r) (ls_outbox s)\<rparr>"
    using \<open>\<And>r. \<not> stale_claimed older_than (cancelled_row r)\<close>
    by (auto simp: cancel_in_def update_outbox_def intro!: arg_cong [where f = "\<lambda>x. s\<lparr>ls_outbox := x\<rparr>"])
  finally show ?thesis .
qed

section \<open>The batch and the gate\<close>

text \<open>Two workflows have failed, and a row of each has been claimed since long ago.\<close>

definition s_stranded :: libsql_state where
  "s_stranded = libsql_empty\<lparr>
     ls_events := concat (map (\<lambda>w. [(w, s_started 1), (w, WorkflowFailed (s_env 2) \<lparr>we_message = ''boom'', we_details = None\<rparr>)]) [s_workflow, s_child]),
     ls_outbox := [claimed_row 1 (pending_row decimal_uuid s_workflow 1 ''charge'' s_payload 0),
                   claimed_row 2 (pending_row decimal_uuid s_child 1 ''charge'' s_payload 0)]\<rparr>"

definition s_reconciler :: "u32 \<Rightarrow> reconciler_config" where
  "s_reconciler batch = \<lparr>rc_interval = 10, rc_stale_after = 50, rc_batch_size = batch\<rparr>"

lemma s_stranded_ended: "ended s_stranded s_workflow" "ended s_stranded s_child"
  by (simp_all add: ended_def s_stranded_def ls_rows_def status_from_events_def seq_def)

lemma s_stranded_stale:
  "stale_claimed 50 r" if "r \<in> set (ls_outbox s_stranded)"
  using that by (auto simp: s_stranded_def stale_claimed_def claimed_row_def)

lemma s_stranded_inv: "ls_inv s_stranded"
  by (simp add: ls_inv_def s_stranded_def ls_rows_def claimed_row_def pending_row_def dispatch_key_for_def contiguous_from_def seq_def
      inj_eq [OF inj_decimal_uuid])

text \<open>C40: a sweep returns rows to the queue that it has not probed.  The gate probes one batch of stale rows and cancels those of ended workflows;
  the re-arm then selects one batch again, and the rows the gate has cancelled no longer count.  With a batch of
  one, the row of the second of two failed workflows is returned to the queue and will be dispatched.\<close>

theorem unprobed_row_rearmed:
  "ended s_stranded s_workflow \<and> ended s_stranded s_child
   \<and> map (\<lambda>r. (or_workflow_id r, or_status r)) (ls_outbox (reconcile_once s_calendar (\<lambda>s. s) (s_reconciler 1) 100 s_stranded))
     = [(s_workflow, CancelledRow), (s_child, Pending)]"
proof -
  let ?r = "claimed_row 1 (pending_row decimal_uuid s_workflow 1 ''charge'' s_payload 0)"
    and ?r' = "claimed_row 2 (pending_row decimal_uuid s_child 1 ''charge'' s_payload 0)"
  have out: "ls_outbox s_stranded = [?r, ?r']" by (simp add: s_stranded_def)
  have "list_stale_claimed_outbox_rows 50 1 s_stranded = Inr [?r]"
    by (simp add: list_stale_claimed_outbox_rows_def select_stale_def out stale_claimed_def claimed_row_def)
  moreover have W: "{w \<in> or_workflow_id ` set [?r]. ended s_stranded w} = {s_workflow}"
    using s_stranded_ended by (auto simp: claimed_row_def pending_row_def)
  ultimately have "settle_terminal_candidates (\<lambda>s. s) (s_reconciler 1) 50 s_stranded = (Inr (), cancel_in {s_workflow} s_stranded)"
    unfolding settle_terminal_candidates_def by (simp add: s_reconciler_def settle_candidates_eq del: insert_iff flip: W)
  moreover have "ls_outbox (cancel_in {s_workflow} s_stranded) = [cancelled_row ?r, ?r']"
    by (simp add: cancel_in_def update_outbox_def out live_row_def claimed_row_def pending_row_def)
  moreover from this have "snd (rearm_stale_claimed_outbox_rows 50 100 1 (cancel_in {s_workflow} s_stranded))
      = update_outbox (\<lambda>r. or_dispatch_key r \<in> {or_dispatch_key ?r'} \<and> or_status r = Claimed) (rearmed_row 100) (cancel_in {s_workflow} s_stranded)"
    by (simp add: rearm_stale_claimed_outbox_rows_def rearm_fold select_stale_def stale_claimed_def cancelled_row_def claimed_row_def)
  ultimately show ?thesis using s_stranded_ended
    by (simp add: reconcile_once_def s_calendar_def s_reconciler_def update_outbox_def cancelled_row_def claimed_row_def pending_row_def rearmed_row_def)
qed

section \<open>Witness\<close>

theorem reconcile_exact_witness:
  "map or_status (ls_outbox (reconcile_once s_calendar (\<lambda>s. s) (s_reconciler 2) 100 s_stranded)) = [CancelledRow, CancelledRow]"
proof -
  have age: "cal_from_std s_calendar (rc_stale_after (s_reconciler 2)) = Some 50" "(50 :: int) = 100 - int 50"
    by (simp_all add: s_calendar_def s_reconciler_def)
  have "length (filter (stale_claimed 50) (ls_outbox s_stranded)) \<le> unat (rc_batch_size (s_reconciler 2))"
    by (simp add: s_reconciler_def s_stranded_def stale_claimed_def claimed_row_def)
  from reconcile_exact [OF s_stranded_inv age this] s_stranded_ended show ?thesis
    by (simp add: s_stranded_def live_row_def stale_claimed_def claimed_row_def pending_row_def cancelled_row_def)
qed

end
