(* ===== verification/Signals.thy ===== *)
theory Signals
  imports Timers
begin

text \<open>
  \<^verbatim>\<open>crates/aion/src/signal/router.rs\<close> and \<^verbatim>\<open>resume.rs\<close>, with the engine operations above them (\<^verbatim>\<open>engine/delegated.rs\<close>,
  \<^verbatim>\<open>engine/seam_handle.rs\<close>, \<^verbatim>\<open>Engine::resume_workflow\<close>): sending a signal to a workflow.  A signal is recorded under the recorder lock of the run, and
  only then the process is woken; for a suspended run the wake is queued until the run is resumed.  The
  marker a process is woken with carries no payload: the signal itself is read from the history.

  \<open>signal_world\<close> is the engine with the queue of deferred signals and the clock.  \<open>wake\<close> is whether the runtime accepts a marker for
  a process, \<open>is_live\<close> whether a process runs; \<open>interfere\<close> is what other tasks do at each await.  The wait for a run that is
  being registered polls until its budget is spent: it is a partial function of the states it observes, proved to return when
  the clock advances.

  The lemmas show that a signal is recorded exactly once and never after the end of a run, that a wake follows the record,
  that deferred signals are flushed once, and that a resume can overtake the deferral so that the process is not woken.
\<close>

section \<open>State\<close>

record 's signal_world =
  sw_engine :: "'s engine"
  sw_deferred :: "(workflow_id \<times> (string \<times> payload) list) list"
  sw_now :: timestamp

type_synonym 's meddling = "nat \<Rightarrow> 's signal_world \<Rightarrow> 's signal_world"

datatype signal_router_error =
  SignalTerminal workflow_id run_id
| SignalHandoff string
| DeliveryFailed workflow_id run_id u64 string string

text \<open>\<^verbatim>\<open>EngineError\<close>, with its variant for the errors of the router.\<close>

datatype signal_error = SignalEngine engine_error | SignalRouter signal_router_error

datatype signal_resume_error = ResumeNonResident workflow_id | ResumeTerminal workflow_id | ResumeUnknown workflow_id

section \<open>Deferred signals\<close>

definition defer_signal :: "workflow_id \<Rightarrow> string \<Rightarrow> payload \<Rightarrow> 's signal_world \<Rightarrow> 's signal_world" where
  "defer_signal w name p sw =
     sw\<lparr>sw_deferred := AList.update w ((case map_of (sw_deferred sw) w of None \<Rightarrow> [] | Some q \<Rightarrow> q) @ [(name, p)]) (sw_deferred sw)\<rparr>"

definition pending_count :: "workflow_id \<Rightarrow> 's signal_world \<Rightarrow> nat" where
  "pending_count w sw = (case map_of (sw_deferred sw) w of None \<Rightarrow> 0 | Some q \<Rightarrow> length q)"

definition deliver_signal_received ::
  "(u64 \<Rightarrow> (string, unit) result) \<Rightarrow> u64 \<Rightarrow> 's engine \<Rightarrow> (string, unit) result \<times> 's engine" where
  "deliver_signal_received wake pid en =
     (case wake pid of Inl reason \<Rightarrow> (Inl reason, en) | Inr _ \<Rightarrow> (Inr (), en\<lparr>en_woken := en_woken en @ [pid]\<rparr>))"

fun drain_queue ::
  "(u64 \<Rightarrow> (string, unit) result) \<Rightarrow> u64 \<Rightarrow> (string \<times> payload) list \<Rightarrow> nat \<Rightarrow> 's engine \<Rightarrow> nat \<times> 's engine" where
  "drain_queue wake pid [] delivered en = (delivered, en)"
| "drain_queue wake pid (_ # queue) delivered en =
     (case deliver_signal_received wake pid en of
        (Inl _, en') \<Rightarrow> drain_queue wake pid queue delivered en'
      | (Inr _, en') \<Rightarrow> drain_queue wake pid queue (delivered + 1) en')"

definition deliver_deferred ::
  "(u64 \<Rightarrow> (string, unit) result) \<Rightarrow> workflow_id \<Rightarrow> 's signal_world \<Rightarrow> (signal_resume_error, nat) result \<times> 's signal_world" where
  "deliver_deferred wake w sw =
     (case resolve_workflow w (sw_engine sw) of
        SeamNonResident \<Rightarrow> (Inl (ResumeNonResident w), sw)
      | SeamTerminal \<Rightarrow> (Inl (ResumeTerminal w), sw)
      | SeamUnknown \<Rightarrow> (Inl (ResumeUnknown w), sw)
      | SeamResident pid \<Rightarrow>
          (case map_of (sw_deferred sw) w of
             None \<Rightarrow> (Inr 0, sw)
           | Some queue \<Rightarrow>
               (let (delivered, en) = drain_queue wake pid queue 0 (sw_engine sw)
                in (Inr delivered, sw\<lparr>sw_engine := en, sw_deferred := AList.delete w (sw_deferred sw)\<rparr>))))"

text \<open>A failure to flush is only logged.\<close>

definition resume_workflow ::
  "(u64 \<Rightarrow> (string, unit) result) \<Rightarrow> 's meddling \<Rightarrow> workflow_id \<Rightarrow> run_id \<Rightarrow> 's signal_world
    \<Rightarrow> (signal_error, workflow_handle) result \<times> 's signal_world" where
  "resume_workflow wake interfere w run sw =
     (case transition_resume w run (en_registry (sw_engine sw)) of
        (Inl _, rg) \<Rightarrow> (Inl (SignalEngine (WorkflowNotFound w run)), sw\<lparr>sw_engine := (sw_engine sw)\<lparr>en_registry := rg\<rparr>\<rparr>)
      | (Inr hnd, rg) \<Rightarrow>
          (Inr hnd, snd (deliver_deferred wake w (interfere 0 (sw\<lparr>sw_engine := (sw_engine sw)\<lparr>en_registry := rg\<rparr>\<rparr>)))))"

section \<open>The router\<close>

definition run_has_terminal_history :: "history \<Rightarrow> run_id \<Rightarrow> bool" where
  "run_has_terminal_history h run \<longleftrightarrow> current_lease_terminal (run_segment h run) \<noteq> None"

text \<open>The section under the recorder lock.\<close>

definition signal_section ::
  "'s event_store \<Rightarrow> timestamp \<Rightarrow> workflow_handle \<Rightarrow> string \<Rightarrow> payload \<Rightarrow> 's engine \<Rightarrow> (signal_error, unit) result \<times> 's engine" where
  "signal_section ops now target name p en =
     (let w = wh_workflow_id target; run = wh_run_id target; cell = wh_recorder target
      in case es_read_history ops (rc_workflow_id (en_recorders en cell)) (en_store en) of
           Inl e \<Rightarrow> (Inl (SignalEngine (EngineDurability (StoreErr e))), en)
         | Inr h \<Rightarrow>
             if run_has_terminal_history h run then (Inl (SignalRouter (SignalTerminal w run)), en)
             else
               (let (res, r, s) = record_signal_received ops now name p (en_recorders en cell) (en_store en)
                in (map_err (\<lambda>e. SignalEngine (EngineDurability e)) res,
                    en\<lparr>en_store := s, en_recorders := (en_recorders en)(cell := r)\<rparr>)))"

text \<open>What follows the record.  The residency is that of the handle the router was given.\<close>

definition after_record ::
  "(u64 \<Rightarrow> (string, unit) result) \<Rightarrow> (u64 \<Rightarrow> bool) \<Rightarrow> workflow_handle \<Rightarrow> string \<Rightarrow> payload \<Rightarrow> 's signal_world
    \<Rightarrow> (signal_error, unit) result \<times> 's signal_world" where
  "after_record wake is_live target name p sw =
     (case wh_residency target of
        Resident \<Rightarrow>
          (case deliver_signal_received wake (wh_pid target) (sw_engine sw) of
             (Inr _, en) \<Rightarrow> (Inr (), sw\<lparr>sw_engine := en\<rparr>)
           | (Inl reason, en) \<Rightarrow>
               if \<not> is_live (wh_pid target) then (Inr (), sw\<lparr>sw_engine := en\<rparr>)
               else (Inl (SignalRouter (DeliveryFailed (wh_workflow_id target) (wh_run_id target) (wh_pid target) name reason)),
                     sw\<lparr>sw_engine := en\<rparr>))
      | Suspended \<Rightarrow> (Inr (), defer_signal (wh_workflow_id target) name p sw))"

definition route ::
  "'s event_store \<Rightarrow> (u64 \<Rightarrow> (string, unit) result) \<Rightarrow> (u64 \<Rightarrow> bool) \<Rightarrow> 's meddling \<Rightarrow> workflow_handle \<Rightarrow> string \<Rightarrow> payload
    \<Rightarrow> 's signal_world \<Rightarrow> (signal_error, unit) result \<times> 's signal_world" where
  "route ops wake is_live interfere target name p sw =
     (let sw1 = interfere 0 sw
      in case signal_section ops (sw_now sw1) target name p (sw_engine sw1) of
           (Inl e, en) \<Rightarrow> (Inl e, sw1\<lparr>sw_engine := en\<rparr>)
         | (Inr _, en) \<Rightarrow> after_record wake is_live target name p (interfere 1 (sw1\<lparr>sw_engine := en\<rparr>)))"

section \<open>Sending a signal\<close>

record signal_delivery_config =
  sd_ready_timeout :: duration
  sd_max_enqueue_attempts :: u32
  sd_initial_backoff :: duration
  sd_max_backoff :: duration

text \<open>\<open>sleep_for\<close> is what happens while the poll sleeps.  Durations are far from their range, so that the saturating products
  are those of the numbers.\<close>

partial_function (option) poll_registry ::
  "(duration \<Rightarrow> 's signal_world \<Rightarrow> 's signal_world) \<Rightarrow> duration \<Rightarrow> workflow_id \<Rightarrow> run_id \<Rightarrow> timestamp \<Rightarrow> duration \<Rightarrow> 's signal_world
    \<Rightarrow> (workflow_handle option \<times> 's signal_world) option" where
  "poll_registry sleep_for max_backoff w run deadline backoff sw =
     (case registry_get w run (en_registry (sw_engine sw)) of
        Some hnd \<Rightarrow> Some (Some hnd, sw)
      | None \<Rightarrow>
          if deadline \<le> sw_now sw then Some (None, sw)
          else poll_registry sleep_for max_backoff w run deadline (min (backoff * 2) max_backoff) (sleep_for backoff sw))"

definition wait_for_registered_handle ::
  "(duration \<Rightarrow> 's signal_world \<Rightarrow> 's signal_world) \<Rightarrow> signal_delivery_config \<Rightarrow> workflow_id \<Rightarrow> run_id \<Rightarrow> 's signal_world
    \<Rightarrow> (workflow_handle option \<times> 's signal_world) option" where
  "wait_for_registered_handle sleep_for c w run sw =
     poll_registry sleep_for (sd_max_backoff c) w run
       (sw_now sw + int (sd_ready_timeout c * max (unat (sd_max_enqueue_attempts c)) 1)) (sd_initial_backoff c) sw"

fun starts_the_run :: "run_id \<Rightarrow> event \<Rightarrow> bool" where
  "starts_the_run run (WorkflowStarted _ _ _ r _ _) = (r = run)"
| "starts_the_run run _ = False"

definition handle_after_birth_window ::
  "(duration \<Rightarrow> 's signal_world \<Rightarrow> 's signal_world) \<Rightarrow> signal_delivery_config \<Rightarrow> workflow_id \<Rightarrow> run_id \<Rightarrow> history \<Rightarrow> 's signal_world
    \<Rightarrow> (workflow_handle option \<times> 's signal_world) option" where
  "handle_after_birth_window sleep_for c w run h sw =
     (if \<not> list_ex (starts_the_run run) h then Some (None, sw) else wait_for_registered_handle sleep_for c w run sw)"

definition signal ::
  "'s event_store \<Rightarrow> (u64 \<Rightarrow> (string, unit) result) \<Rightarrow> (u64 \<Rightarrow> bool) \<Rightarrow> (duration \<Rightarrow> 's signal_world \<Rightarrow> 's signal_world) \<Rightarrow> 's meddling
    \<Rightarrow> signal_delivery_config \<Rightarrow> workflow_id \<Rightarrow> run_id \<Rightarrow> string \<Rightarrow> payload \<Rightarrow> 's signal_world
    \<Rightarrow> ((signal_error, unit) result \<times> 's signal_world) option" where
  "signal ops wake is_live sleep_for interfere c w run name p sw =
     (case registry_get w run (en_registry (sw_engine sw)) of
        Some hnd \<Rightarrow> Some (route ops wake is_live interfere hnd name p sw)
      | None \<Rightarrow>
          (case es_read_history ops w (en_store (sw_engine sw)) of
             Inl e \<Rightarrow> Some (Inl (SignalEngine (EngineStore e)), sw)
           | Inr h \<Rightarrow>
               if run_has_terminal_history h run then Some (Inl (SignalRouter (SignalTerminal w run)), sw)
               else if status_from_events (run_segment h run) = Paused
               then (let sw1 = interfere 2 sw;
                         (res, r, s) = record_signal_received ops (sw_now sw1) name p
                            (recorder_with_visibility (recorder_resume_at w (last_seq h)) run) (en_store (sw_engine sw1))
                     in Some (map_err (\<lambda>e. SignalEngine (EngineDurability e)) res, sw1\<lparr>sw_engine := (sw_engine sw1)\<lparr>en_store := s\<rparr>\<rparr>))
               else (case handle_after_birth_window sleep_for c w run h sw of
                       None \<Rightarrow> None
                     | Some (None, sw1) \<Rightarrow> Some (Inl (SignalEngine (WorkflowNotFound w run)), sw1)
                     | Some (Some hnd, sw1) \<Rightarrow> Some (route ops wake is_live interfere hnd name p sw1))))"

section \<open>Lemmas\<close>

lemma drain_queue_eq:
  "drain_queue wake pid queue n en =
     (case wake pid of
        Inl _ \<Rightarrow> (n, en)
      | Inr _ \<Rightarrow> (n + length queue, en\<lparr>en_woken := en_woken en @ replicate (length queue) pid\<rparr>))"
  by (induction queue arbitrary: n en) (auto simp: deliver_signal_received_def replicate_append_same split: sum.split)

context event_store_laws
begin

lemma signal_section_cases:
  assumes "store_inv (en_store en)" and "rc_workflow_id (en_recorders en (wh_recorder target)) = wh_workflow_id target"
    and "signal_section ops now target name p en = (res, en')"
  shows "en_registry en' = en_registry en \<and> en_woken en' = en_woken en \<and> store_inv (en_store en')
    \<and> (res = Inl (SignalRouter (SignalTerminal (wh_workflow_id target) (wh_run_id target)))
         \<longleftrightarrow> run_has_terminal_history (hist (en_store en) (wh_workflow_id target)) (wh_run_id target))
    \<and> (case res of
         Inl e \<Rightarrow> en_store en' = en_store en
       | Inr _ \<Rightarrow> \<exists>env. hist (en_store en') = (hist (en_store en))(wh_workflow_id target :=
             hist (en_store en) (wh_workflow_id target) @ [SignalReceived env name p]))"
proof (cases "run_has_terminal_history (hist (en_store en) (wh_workflow_id target)) (wh_run_id target)")
  case True
  with assms show ?thesis by (auto simp: signal_section_def read_back Let_def)
next
  case False
  obtain res0 r s where f: "record_signal_received ops now name p (en_recorders en (wh_recorder target)) (en_store en) = (res0, r, s)"
    by (metis prod_cases3)
  have op: "recording_op ops now (record_signal_received ops now name p) (\<lambda>w env. SignalReceived env name p)" by (rule recording_op.intros)
  have "res = map_err (\<lambda>e. SignalEngine (EngineDurability e)) res0"
    "en' = en\<lparr>en_store := s, en_recorders := (en_recorders en)(wh_recorder target := r)\<rparr>"
    using assms False f by (auto simp: signal_section_def read_back Let_def)
  with recording_op_cases [OF op assms(1) f] False assms(2) show ?thesis by (cases res0) auto
qed

end

lemma poll_returns:
  assumes "\<forall>d sw. sw_now sw < sw_now (sleep_for d sw)"
  shows "\<exists>res sw'. poll_registry sleep_for max_backoff w run deadline backoff sw = Some (res, sw')
    \<and> res = registry_get w run (en_registry (sw_engine sw')) \<and> (res = None \<longrightarrow> deadline \<le> sw_now sw')"
proof (induction "nat (deadline - sw_now sw)" arbitrary: backoff sw rule: less_induct)
  case less
  show ?case
  proof (cases "registry_get w run (en_registry (sw_engine sw)) = None \<and> sw_now sw < deadline")
    case True
    then have "nat (deadline - sw_now (sleep_for backoff sw)) < nat (deadline - sw_now sw)" using assms [rule_format, of sw backoff] by simp
    from less [OF this, of "min (backoff * 2) max_backoff"] True show ?thesis by (subst poll_registry.simps) simp
  next
    case False
    then show ?thesis by (subst poll_registry.simps) (auto split: option.split)
  qed
qed

section \<open>Properties\<close>

text \<open>C6: routing a signal, on every branch, whatever other tasks do before the recorder lock is taken and after it is released.  If the run has
  ended when the lock is held, the signal is refused; it is refused or fails without a trace, or it is recorded once, at
  the end of the history of a run that has not ended.  Only then, and on the state other tasks have left meanwhile, the process of a resident run is
  woken, and a wake that fails is an error only if the process still runs; the signal to a suspended run
  is appended to its queue.\<close>

theorem signal_recorded_then_woken:
  assumes "sw1 = interfere 0 sw" and "en = sw_engine sw1" and "w = wh_workflow_id target" and "ls_inv (en_store en)"
    and "rc_workflow_id (en_recorders en (wh_recorder target)) = w"
    and "route libsql_store wake is_live interfere target name p sw = (res, sw')"
  shows "\<exists>en'. en_woken en' = en_woken en
    \<and> (if run_has_terminal_history (ls_hist (en_store en) w) (wh_run_id target)
       then res = Inl (SignalRouter (SignalTerminal w (wh_run_id target))) \<and> sw' = sw1\<lparr>sw_engine := en'\<rparr> \<and> en_store en' = en_store en
       else (\<exists>e. res = Inl e \<and> sw' = sw1\<lparr>sw_engine := en'\<rparr> \<and> en_store en' = en_store en)
          \<or> (\<exists>env. ls_hist (en_store en') = (ls_hist (en_store en))(w := ls_hist (en_store en) w @ [SignalReceived env name p]))
            \<and> (let sw2 = interfere 1 (sw1\<lparr>sw_engine := en'\<rparr>); pid = wh_pid target
               in case (wh_residency target, wake pid) of
                    (Suspended, _) \<Rightarrow> res = Inr () \<and> sw' = defer_signal w name p sw2
                  | (Resident, Inr _) \<Rightarrow> res = Inr () \<and> sw' = sw2\<lparr>sw_engine := (sw_engine sw2)\<lparr>en_woken := en_woken (sw_engine sw2) @ [pid]\<rparr>\<rparr>
                  | (Resident, Inl reason) \<Rightarrow> sw' = sw2
                      \<and> res = (if is_live pid then Inl (SignalRouter (DeliveryFailed w (wh_run_id target) pid name reason)) else Inr ())))"
proof -
  obtain r en' where sec: "signal_section libsql_store (sw_now sw1) target name p en = (r, en')" by fastforce
  note c = libsql.signal_section_cases [OF assms(4) assms(5) [unfolded assms(3)] sec, folded assms(3)]
  show ?thesis
  proof (cases r)
    case (Inl e)
    then have "res = Inl e" "sw' = sw1\<lparr>sw_engine := en'\<rparr>" using assms(1,2,6) sec by (simp_all add: route_def Let_def)
    with c Inl show ?thesis by (intro exI [of _ en']) auto
  next
    case (Inr u)
    then have "after_record wake is_live target name p (interfere 1 (sw1\<lparr>sw_engine := en'\<rparr>)) = (res, sw')"
      using assms(1,2,6) sec by (simp add: route_def Let_def)
    with c Inr show ?thesis
      by (intro exI [of _ en'])
         (auto simp: after_record_def deliver_signal_received_def Let_def assms(3) split: residency.splits sum.splits if_splits)
  qed
qed

text \<open>The queue of deferred signals is flushed once.  When a run is resumed and the runtime accepts markers, its process is woken once for every
  signal deferred so far, the queue is gone, and the queues of other workflows are as they were; a second
  resume wakes nothing.\<close>

theorem deferred_flushed_once:
  assumes "transition_resume w run (en_registry (sw_engine sw)) = (Inr hnd, rg)"
    and "resolve_workflow w ((sw_engine sw)\<lparr>en_registry := rg\<rparr>) = SeamResident pid" and "wake pid = Inr ()"
  shows "\<exists>sw'. resume_workflow wake (\<lambda>_ x. x) w run sw = (Inr hnd, sw')
    \<and> en_woken (sw_engine sw') = en_woken (sw_engine sw) @ replicate (pending_count w sw) pid
    \<and> pending_count w sw' = 0 \<and> (\<forall>v. v \<noteq> w \<longrightarrow> pending_count v sw' = pending_count v sw)
    \<and> en_woken (sw_engine (snd (resume_workflow wake (\<lambda>_ x. x) w run sw'))) = en_woken (sw_engine sw')"
proof -
  let ?sw = "sw\<lparr>sw_engine := (sw_engine sw)\<lparr>en_registry := rg\<rparr>\<rparr>"
  define sw' where "sw' = snd (deliver_deferred wake w ?sw)"
  have res: "resume_workflow wake (\<lambda>_ x. x) w run sw = (Inr hnd, sw')" using assms(1) by (simp add: resume_workflow_def sw'_def)
  have woken: "en_woken (sw_engine sw') = en_woken (sw_engine sw) @ replicate (pending_count w sw) pid"
    and none: "map_of (sw_deferred sw') w = None" and other: "v \<noteq> w \<Longrightarrow> pending_count v sw' = pending_count v sw" for v
    using assms(2,3) by (auto simp: sw'_def deliver_deferred_def drain_queue_eq pending_count_def delete_conv' split: option.split)
  have "en_woken (sw_engine (snd (resume_workflow wake (\<lambda>_ x. x) w run sw'))) = en_woken (sw_engine sw')"
    using none by (auto simp: resume_workflow_def deliver_deferred_def split: prod.split sum.split workflow_residency.split)
  with res woken none other show ?thesis by (intro exI [of _ sw']) (simp add: pending_count_def)
qed

text \<open>Sending a signal returns.  As long as the clock advances while the registry is polled, sending a signal comes back with an
  answer, also for a run whose handle is never registered.\<close>

theorem signal_returns:
  assumes "\<forall>d sw. sw_now sw < sw_now (sleep_for d sw)"
  shows "\<exists>res sw'. signal ops wake is_live sleep_for interfere c w run name p sw = Some (res, sw')"
proof -
  obtain hnd sw1 where "wait_for_registered_handle sleep_for c w run sw = Some (hnd, sw1)"
    using poll_returns [OF assms] unfolding wait_for_registered_handle_def by blast
  then show ?thesis
    by (auto simp: signal_def handle_after_birth_window_def Let_def split: option.split sum.split prod.split)
qed

section \<open>A resume that overtakes the deferral\<close>

definition s_suspended :: workflow_handle where
  "s_suspended = s_handle\<lparr>wh_residency := Suspended\<rparr>"

definition s_signal_world :: "(string \<times> payload) list \<Rightarrow> libsql_state signal_world" where
  "s_signal_world queue = \<lparr>sw_engine = (s_engine [s_started 1])\<lparr>en_registry := \<lparr>rg_handles = [((s_workflow, s_run), s_suspended)], rg_index = []\<rparr>\<rparr>,
     sw_deferred = (if queue = [] then [] else [(s_workflow, queue)]), sw_now = 9\<rparr>"

abbreviation s_wake :: "u64 \<Rightarrow> (string, unit) result" where
  "s_wake \<equiv> \<lambda>_. Inr ()"

lemma s_suspended_sel [simp]: "wh_workflow_id s_suspended = s_workflow" "wh_run_id s_suspended = s_run" "wh_recorder s_suspended = 0"
  "wh_residency s_suspended = Suspended" "wh_pid s_suspended = 40"
  by (simp_all add: s_suspended_def s_handle_def s_handle_for_def)

lemma s_signal_section:
  "\<exists>r s. signal_section libsql_store 9 s_suspended ''go'' s_payload (sw_engine (s_signal_world q)) =
     (Inr (), (sw_engine (s_signal_world q))\<lparr>en_store := s, en_recorders := (en_recorders (sw_engine (s_signal_world q)))(0 := r)\<rparr>)"
proof -
  have c: "contiguous [s_started 1]" by (simp add: seq_def)
  have op: "recording_op libsql_store 9 (record_signal_received libsql_store 9 ''go'' s_payload) (\<lambda>w env. SignalReceived env ''go'' s_payload)"
    by (rule recording_op.intros)
  obtain en' where "locked_record libsql_store (\<lambda>_. Inr ()) (record_signal_received libsql_store 9 ''go'' s_payload) s_workflow 0 (s_engine [s_started 1]) = (Inr (), en')"
    using s_locked [OF c _ op, of "\<lambda>_. Inr ()"] by auto
  then obtain r s where "record_signal_received libsql_store 9 ''go'' s_payload (s_recorder [s_started 1]) (s_database [s_started 1]) = (Inr (), r, s)"
    by (auto simp: locked_record_def split: prod.splits sum.splits elim!: map_err.elims)
  moreover have "es_read_history libsql_store s_workflow (s_database [s_started 1]) = Inr [s_started 1]"
    using libsql.read_back [OF s_database_inv [OF c], of s_workflow] by (simp add: s_database_rows)
  ultimately show ?thesis
    by (intro exI [of _ r] exI [of _ s])
       (simp add: signal_section_def Let_def s_signal_world_def run_has_terminal_history_def current_lease_terminal_def run_segment_def)
qed

lemma s_resume: "transition_resume s_workflow s_run \<lparr>rg_handles = [((s_workflow, s_run), s_suspended)], rg_index = []\<rparr>
    = (Inr (s_suspended\<lparr>wh_residency := Resident\<rparr>), \<lparr>rg_handles = [((s_workflow, s_run), s_suspended\<lparr>wh_residency := Resident\<rparr>)], rg_index = []\<rparr>)"
  by (simp add: transition_resume_def transition_residency_def registry_replace_residency_def modify_handle_def)

lemma s_resolve: "resolve_workflow s_workflow (en\<lparr>en_registry := \<lparr>rg_handles = [((s_workflow, s_run), s_suspended\<lparr>wh_residency := Resident\<rparr>)], rg_index = []\<rparr>\<rparr>)
    = SeamResident 40"
  by (simp add: resolve_workflow_def find_handle_def registry_list_def)

text \<open>The properties at a suspended run of the sample workflow.\<close>

theorem signal_recorded_then_woken_witness:
  "\<exists>sw'. route libsql_store s_wake (\<lambda>_. True) (\<lambda>_ x. x) s_suspended ''go'' s_payload (s_signal_world [(''early'', s_payload)]) = (Inr (), sw')
    \<and> (\<exists>env. ls_hist (en_store (sw_engine sw')) s_workflow = [s_started 1, SignalReceived env ''go'' s_payload])
    \<and> pending_count s_workflow sw' = 2 \<and> en_woken (sw_engine sw') = []"
proof -
  let ?sw = "s_signal_world [(''early'', s_payload)]"
  have en: "en_store (sw_engine ?sw) = s_database [s_started 1]" "rc_workflow_id (en_recorders (sw_engine ?sw) 0) = s_workflow"
    "en_woken (sw_engine ?sw) = []" "sw_now ?sw = 9" "sw_deferred ?sw = [(s_workflow, [(''early'', s_payload)])]"
    by (simp_all add: s_signal_world_def s_engine_def)
  have inv: "ls_inv (s_database [s_started 1])" by (rule s_database_inv) (simp add: seq_def)
  obtain sw' where r: "route libsql_store s_wake (\<lambda>_. True) (\<lambda>_ x. x) s_suspended ''go'' s_payload ?sw = (Inr (), sw')"
    using s_signal_section [of "[(''early'', s_payload)]"] en(4)
    by (auto simp: route_def after_record_def Let_def)
  have "\<not> run_has_terminal_history [s_started 1] s_run"
    by (simp add: run_has_terminal_history_def current_lease_terminal_def run_segment_def)
  with signal_recorded_then_woken [OF refl refl refl _ _ r] inv en obtain en' env
    where w: "en_woken en' = []" and h: "ls_hist (en_store en') = (ls_hist (s_database [s_started 1]))(s_workflow := [s_started 1, SignalReceived env ''go'' s_payload])"
      and "sw' = defer_signal s_workflow ''go'' s_payload (?sw\<lparr>sw_engine := en'\<rparr>)"
    by (auto simp: s_database_rows)
  with r w en(5) fun_cong [OF h, of s_workflow] show ?thesis by (intro exI [of _ sw'] conjI exI [of _ env]) (simp_all add: defer_signal_def pending_count_def)
qed

theorem deferred_flushed_once_witness:
  "\<exists>sw' hnd. resume_workflow s_wake (\<lambda>_ x. x) s_workflow s_run (s_signal_world [(''early'', s_payload)]) = (Inr hnd, sw')
    \<and> en_woken (sw_engine sw') = [40] \<and> pending_count s_workflow sw' = 0"
proof -
  let ?sw = "s_signal_world [(''early'', s_payload)]"
  have en: "en_registry (sw_engine ?sw) = \<lparr>rg_handles = [((s_workflow, s_run), s_suspended)], rg_index = []\<rparr>"
    "en_woken (sw_engine ?sw) = []" "pending_count s_workflow ?sw = 1"
    by (simp_all add: s_signal_world_def s_engine_def pending_count_def)
  show ?thesis
    using deferred_flushed_once [OF s_resume [folded en(1)] s_resolve, of s_wake] en(2,3) by auto
qed

theorem signal_returns_witness:
  "\<exists>res sw'. signal libsql_store s_wake (\<lambda>_. True) (\<lambda>_ sw. sw\<lparr>sw_now := sw_now sw + 1\<rparr>) (\<lambda>_ x. x)
     \<lparr>sd_ready_timeout = 3, sd_max_enqueue_attempts = 2, sd_initial_backoff = 1, sd_max_backoff = 4\<rparr> s_workflow (RunId 2) ''go'' s_payload (s_signal_world [])
     = Some (res, sw')"
  by (rule signal_returns) simp

text \<open>C37: a resume can overtake the deferral of a signal.  The router decides by the handle it was given that the run is suspended; if the run is resumed,
  and its queue flushed, between the record and the deferral, the signal is queued for a process that runs already: it is recorded and
  reported as sent, but nothing wakes the process for it.\<close>

theorem resume_overtakes_deferral:
  "let interfere = (\<lambda>n sw. if n = (1 :: nat) then snd (resume_workflow s_wake (\<lambda>_ x. x) s_workflow s_run sw) else sw)
   in \<exists>sw'. route libsql_store s_wake (\<lambda>_. True) interfere s_suspended ''go'' s_payload (s_signal_world []) = (Inr (), sw')
        \<and> resolve_workflow s_workflow (sw_engine sw') = SeamResident 40 \<and> en_woken (sw_engine sw') = [] \<and> pending_count s_workflow sw' = 1"
proof -
  obtain r s where sec: "signal_section libsql_store 9 s_suspended ''go'' s_payload (sw_engine (s_signal_world [])) =
     (Inr (), (sw_engine (s_signal_world []))\<lparr>en_store := s, en_recorders := (en_recorders (sw_engine (s_signal_world [])))(0 := r)\<rparr>)"
    using s_signal_section by blast
  define sw1 where "sw1 = (s_signal_world [])\<lparr>sw_engine := (sw_engine (s_signal_world []))\<lparr>en_store := s, en_recorders := (en_recorders (sw_engine (s_signal_world [])))(0 := r)\<rparr>\<rparr>"
  have sel: "en_registry (sw_engine sw1) = \<lparr>rg_handles = [((s_workflow, s_run), s_suspended)], rg_index = []\<rparr>" "en_woken (sw_engine sw1) = []" "sw_deferred sw1 = []"
    by (simp_all add: sw1_def s_signal_world_def s_engine_def)
  let ?rg = "\<lparr>rg_handles = [((s_workflow, s_run), s_suspended\<lparr>wh_residency := Resident\<rparr>)], rg_index = []\<rparr>"
  have resumed: "snd (resume_workflow s_wake (\<lambda>_ x. x) s_workflow s_run sw1) = sw1\<lparr>sw_engine := (sw_engine sw1)\<lparr>en_registry := ?rg\<rparr>\<rparr>"
    using sel by (simp add: resume_workflow_def s_resume deliver_deferred_def s_resolve)
  have "sw_now (s_signal_world []) = 9" by (simp add: s_signal_world_def)
  with sec resumed sel show ?thesis
    by (simp add: route_def sw1_def [symmetric] after_record_def defer_signal_def pending_count_def s_resolve)
qed

end
