(* ===== verification/Nif_Context.thy ===== *)
theory Nif_Context
  imports Signals Resolver
begin

text \<open>
  \<^verbatim>\<open>crates/aion/src/runtime/nif_context.rs\<close>, \<^verbatim>\<open>nif_state.rs\<close> and the deadline scopes of \<^verbatim>\<open>nif_timeout.rs\<close>: what the natives a workflow
  process calls share.  Every call builds a context: the handle registered for the calling process and a resolver over a fresh cursor on the
  history of its run, which is moved to the command's correlation key before the command is resolved.

  \<open>nif_world\<close> is the engine with the state of the natives: the await each process is parked on, its stack of deadline scopes, and the
  counters of its run.  The counters are shared by the clones of a handle, which the recorder cell of the handle identifies.
  Decoding and encoding BEAM terms is not modelled.

  The lemmas determine what a signal or timer command is resolved to from the history alone.
\<close>

section \<open>State\<close>

record run_counters =
  rn_activities :: u64
  rn_timers :: u64
  rn_children :: u64
  rn_receives :: "(string \<times> u64) list"
  rn_sends :: "(string \<times> u64) list"

datatype collect_kind = CollectAll | CollectRace

datatype pending_await =
  PendingSleep timer_id timestamp
| PendingSignal nat
| PendingChild workflow_id
| PendingCollect u64 u64 collect_kind

record timeout_scope =
  sc_pid :: u64
  sc_timer_id :: timer_id
  sc_replay_timed_out :: "bool option"

record 's nif_world =
  nw_signals :: "'s signal_world"
  nw_counters :: "nat \<Rightarrow> run_counters"
  nw_pending :: "(u64 \<times> pending_await) list"
  nw_scopes :: "(u64 \<times> timeout_scope) list"
  nw_stacks :: "(u64 \<times> u64 list) list"
  nw_next_scope :: u64

abbreviation nw_engine :: "'s nif_world \<Rightarrow> 's engine" where
  "nw_engine nw \<equiv> sw_engine (nw_signals nw)"

definition with_engine :: "'s engine \<Rightarrow> 's nif_world \<Rightarrow> 's nif_world" where
  "with_engine en nw = nw\<lparr>nw_signals := (nw_signals nw)\<lparr>sw_engine := en\<rparr>\<rparr>"

definition fresh_counters :: run_counters where
  "fresh_counters = \<lparr>rn_activities = 0, rn_timers = 0, rn_children = 0, rn_receives = [], rn_sends = []\<rparr>"

text \<open>\<^verbatim>\<open>fetch_add\<close> wraps.\<close>

definition allocate_timer_ordinals :: "u64 \<Rightarrow> run_counters \<Rightarrow> u64 \<times> run_counters" where
  "allocate_timer_ordinals n rn = (rn_timers rn, rn\<lparr>rn_timers := rn_timers rn + n\<rparr>)"

definition signal_receives_consumed :: "string \<Rightarrow> run_counters \<Rightarrow> u64" where
  "signal_receives_consumed name rn = (case map_of (rn_receives rn) name of None \<Rightarrow> 0 | Some n \<Rightarrow> n)"

definition mark_signal_receive_consumed :: "string \<Rightarrow> run_counters \<Rightarrow> run_counters" where
  "mark_signal_receive_consumed name rn =
     rn\<lparr>rn_receives := AList.update name (signal_receives_consumed name rn + 1) (rn_receives rn)\<rparr>"

definition signal_sends_completed :: "string \<Rightarrow> run_counters \<Rightarrow> u64" where
  "signal_sends_completed name rn = (case map_of (rn_sends rn) name of None \<Rightarrow> 0 | Some n \<Rightarrow> n)"

definition mark_signal_send_completed :: "string \<Rightarrow> run_counters \<Rightarrow> run_counters" where
  "mark_signal_send_completed name rn =
     rn\<lparr>rn_sends := AList.update name (signal_sends_completed name rn + 1) (rn_sends rn)\<rparr>"

definition cleanup_process :: "u64 \<Rightarrow> 's nif_world \<Rightarrow> 's nif_world" where
  "cleanup_process pid nw =
     nw\<lparr>nw_pending := AList.delete pid (nw_pending nw), nw_stacks := AList.delete pid (nw_stacks nw),
        nw_scopes := filter (\<lambda>(_, sc). sc_pid sc \<noteq> pid) (nw_scopes nw)\<rparr>"

section \<open>The context of a call\<close>

datatype nif_context_error =
  UnknownCaller u64
| RecorderPoisoned
| NifDurability durability_error
| TermEncoding string

record nif_context =
  nx_handle :: workflow_handle
  nx_resolver :: resolver
  nx_last_recorded_at :: "timestamp option"

definition handle_of_process :: "u64 \<Rightarrow> 's signal_world \<Rightarrow> workflow_handle option" where
  "handle_of_process pid sw = find (\<lambda>hnd. wh_pid hnd = pid) (registry_list (en_registry (sw_engine sw)))"

partial_function (option) poll_process ::
  "(duration \<Rightarrow> 's signal_world \<Rightarrow> 's signal_world) \<Rightarrow> duration \<Rightarrow> u64 \<Rightarrow> timestamp \<Rightarrow> duration \<Rightarrow> 's signal_world
    \<Rightarrow> (workflow_handle option \<times> 's signal_world) option" where
  "poll_process sleep_for max_backoff pid deadline backoff sw =
     (if sw_now sw < deadline
      then (let sw1 = sleep_for backoff sw
            in case handle_of_process pid sw1 of
                 Some hnd \<Rightarrow> Some (Some hnd, sw1)
               | None \<Rightarrow> poll_process sleep_for max_backoff pid deadline (min (backoff * 2) max_backoff) sw1)
      else Some (None, sw))"

definition resolve_handle_with_birth_wait ::
  "(duration \<Rightarrow> 's signal_world \<Rightarrow> 's signal_world) \<Rightarrow> signal_delivery_config \<Rightarrow> u64 \<Rightarrow> 's signal_world
    \<Rightarrow> ((nif_context_error, workflow_handle) result \<times> 's signal_world) option" where
  "resolve_handle_with_birth_wait sleep_for c pid sw =
     (case handle_of_process pid sw of
        Some hnd \<Rightarrow> Some (Inr hnd, sw)
      | None \<Rightarrow>
          (case poll_process sleep_for (sd_max_backoff c) pid
                  (sw_now sw + int (sd_ready_timeout c * max (unat (sd_max_enqueue_attempts c)) 1)) (sd_initial_backoff c) sw of
             None \<Rightarrow> None
           | Some (hnd, sw1) \<Rightarrow> Some (ok_or hnd (UnknownCaller pid), sw1)))"

text \<open>The context over the history of the run.\<close>

definition context_over :: "workflow_handle \<Rightarrow> history \<Rightarrow> (durability_error, nif_context) result" where
  "context_over hnd h =
     bind_res (current_run_segment h (wh_run_id hnd)) (\<lambda>segment.
     bind_res (cursor_new segment) (\<lambda>c.
       Inr \<lparr>nx_handle = hnd, nx_resolver = resolver_new (wh_workflow_id hnd) c,
            nx_last_recorded_at = (if segment = [] then None else Some (recorded_at (last segment)))\<rparr>))"

definition context_new ::
  "'s event_store \<Rightarrow> (duration \<Rightarrow> 's signal_world \<Rightarrow> 's signal_world) \<Rightarrow> signal_delivery_config \<Rightarrow> u64 \<Rightarrow> 's signal_world
    \<Rightarrow> ((nif_context_error, nif_context) result \<times> 's signal_world) option" where
  "context_new ops sleep_for c pid sw =
     (case resolve_handle_with_birth_wait sleep_for c pid sw of
        None \<Rightarrow> None
      | Some (Inl e, sw1) \<Rightarrow> Some (Inl e, sw1)
      | Some (Inr hnd, sw1) \<Rightarrow>
          (let en = sw_engine sw1
           in Some (map_err NifDurability
                (bind_res (map_err StoreErr (es_read_history ops (rc_workflow_id (en_recorders en (wh_recorder hnd))) (en_store en)))
                   (context_over hnd)), sw1)))"

definition context_history :: "nif_context \<Rightarrow> history" where
  "context_history cx = hc_events (rs_cursor (nx_resolver cx))"

definition resolve_command :: "command \<Rightarrow> nif_context \<Rightarrow> (durability_error, resolve_outcome) result \<times> nif_context" where
  "resolve_command command cx =
     (let rs = (case command_key command of
                  Some key \<Rightarrow> fast_forward_to key (nx_resolver cx)
                | None \<Rightarrow>
                    (case command of
                       AwaitChild child \<Rightarrow> resolver_fast_forward_to_child_terminal child (nx_resolver cx)
                     | _ \<Rightarrow> nx_resolver cx));
          (res, rs') = resolve command rs
      in (res, cx\<lparr>nx_resolver := rs'\<rparr>))"

definition block_on_recorder ::
  "(recorder \<Rightarrow> 's \<Rightarrow> ('a, 's) recorded) \<Rightarrow> nif_context \<Rightarrow> 's engine \<Rightarrow> (nif_context_error, 'a) result \<times> 's engine" where
  "block_on_recorder f cx en =
     (let cell = wh_recorder (nx_handle cx); (res, r, s) = f (en_recorders en cell) (en_store en)
      in (map_err NifDurability res, en\<lparr>en_store := s, en_recorders := (en_recorders en)(cell := r)\<rparr>))"

section \<open>Deadline scopes\<close>

datatype expired_deadline = RecordedAt u64 | Unordered

fun fired_seq_of :: "timer_id \<Rightarrow> event \<Rightarrow> u64 option" where
  "fired_seq_of t (TimerFired env t') = (if t' = t then Some (env_seq env) else None)"
| "fired_seq_of t _ = None"

definition timer_fired_seq :: "history \<Rightarrow> timer_id \<Rightarrow> u64 option" where
  "timer_fired_seq h t = find_map (fired_seq_of t) h"

definition scope_expired :: "history \<Rightarrow> timeout_scope \<Rightarrow> bool" where
  "scope_expired h sc =
     (case sc_replay_timed_out sc of Some b \<Rightarrow> b | None \<Rightarrow> timer_fired_seq h (sc_timer_id sc) \<noteq> None)"

definition note_scope :: "history \<Rightarrow> timeout_scope \<Rightarrow> u64 option \<times> bool \<Rightarrow> u64 option \<times> bool" where
  "note_scope h sc acc =
     (if \<not> scope_expired h sc then acc
      else case timer_fired_seq h (sc_timer_id sc) of
             Some s \<Rightarrow> (Some (case fst acc of None \<Rightarrow> s | Some current \<Rightarrow> min current s), snd acc)
           | None \<Rightarrow> (fst acc, True))"

definition scopes_of :: "u64 \<Rightarrow> 's nif_world \<Rightarrow> timeout_scope list" where
  "scopes_of pid nw =
     (case map_of (nw_stacks nw) pid of None \<Rightarrow> [] | Some stack \<Rightarrow> List.map_filter (map_of (nw_scopes nw)) stack)"

definition expired_deadline_of :: "history \<Rightarrow> timeout_scope list \<Rightarrow> expired_deadline option" where
  "expired_deadline_of h scopes =
     (let (earliest, expired_without_position) = fold (note_scope h) scopes (None, False)
      in if expired_without_position then Some Unordered else map_option RecordedAt earliest)"

definition expired_scope_deadline :: "u64 \<Rightarrow> history \<Rightarrow> 's nif_world \<Rightarrow> expired_deadline option" where
  "expired_scope_deadline pid h nw = expired_deadline_of h (scopes_of pid nw)"

section \<open>What a command is resolved to\<close>

text \<open>A context as it is built: nothing consumed, the cursor at the top of the history of the run.\<close>

definition fresh_context :: "history \<Rightarrow> nif_context \<Rightarrow> bool" where
  "fresh_context h cx \<longleftrightarrow>
     rs_cursor (nx_resolver cx) = \<lparr>hc_events = h, hc_consumed = replicate (length h) False, hc_position = 0\<rparr>"

lemma fresh_context_history [simp]: "fresh_context h cx \<Longrightarrow> context_history cx = h"
  by (simp add: fresh_context_def context_history_def)

lemma key_has_family: "key_for_event h i = Some key \<Longrightarrow> i < length h \<and> family_for_event (h ! i) \<noteq> None"
  by (cases "i < length h"; cases "h ! i") (auto simp: key_for_event_def split: if_splits)

lemma descriptor_key [simp]: "fd_key (descriptor_at c i e) = key_for_event (hc_events c) i"
  "fd_family (descriptor_at c i e) = family_for_event e"
  by (simp_all add: descriptor_at_def)

lemma fast_forward_none:
  assumes "\<forall>i. key_for_event (hc_events c) i \<noteq> Some key" and "cursor_wf c"
  shows "next_matchable_index (fast_forward_to_key key c) = None"
proof (rule ccontr)
  assume "next_matchable_index (fast_forward_to_key key c) \<noteq> None"
  then obtain i where "next_matchable_index (fast_forward_to_key key c) = Some i" by blast
  from fast_forward_stops [OF this [unfolded fast_forward_to_key_def]]
  have "key_for_event (hc_events (fast_forward_to_key key c)) i = Some key" by (simp add: fast_forward_to_key_def)
  moreover have "hc_events (fast_forward_to_key key c) = hc_events c"
    using fast_forward_wf [OF assms(2)] by (simp add: fast_forward_to_key_def cursor_le_def)
  ultimately show False using assms(1) by simp
qed

lemma fast_forward_first:
  assumes "hc_consumed c = replicate (length (hc_events c)) False" and "hc_position c \<le> i"
    and "key_for_event (hc_events c) i = Some key" and "\<And>j. j < i \<Longrightarrow> key_for_event (hc_events c) j \<noteq> Some key"
  shows "\<exists>p \<le> i. fast_forward_to_key key c = c\<lparr>hc_position := p\<rparr> \<and> next_matchable_index (c\<lparr>hc_position := p\<rparr>) = Some i"
  using assms
proof (induction "length (hc_events c) - hc_position c" arbitrary: c rule: less_induct)
  case less
  let ?h = "hc_events c"
  note i = key_has_family [OF less.prems(3)]
  have "next_matchable_index c \<noteq> None"
  proof
    assume "next_matchable_index c = None"
    then have "position matchable (zip (drop (hc_position c) ?h) (drop (hc_position c) (hc_consumed c))) = None"
      using i less.prems(1,2) by (simp add: next_matchable_index_def)
    moreover have "(?h ! i, False) \<in> set (zip (drop (hc_position c) ?h) (drop (hc_position c) (hc_consumed c)))"
      using i less.prems(1,2) by (auto simp: in_set_zip intro!: exI [of _ "i - hc_position c"])
    ultimately show False using i by (auto simp: matchable_def position_None_iff)
  qed
  then obtain m where m: "next_matchable_index c = Some m" by blast
  note d = next_matchable_index_SomeD [OF m]
  have mi: "m \<le> i"
  proof (rule ccontr)
    assume "\<not> m \<le> i"
    with d(6) [of i] i less.prems(1,2) show False by auto
  qed
  show ?case
  proof (cases "m = i")
    case True
    with m less.prems(2,3) show ?thesis
      by (intro exI [of _ "hc_position c"]) (simp add: fast_forward_to_key_def fast_forward.simps [of _ c])
  next
    case False
    let ?c = "c\<lparr>hc_position := m + 1\<rparr>"
    have lt: "length (hc_events ?c) - hc_position ?c < length ?h - hc_position c" using d(1,2) by simp
    have step: "fast_forward_to_key key c = fast_forward_to_key key ?c"
      using m mi False less.prems(4) [of m] by (simp add: fast_forward_to_key_def fast_forward.simps [of _ c])
    obtain p where "p \<le> i" "fast_forward_to_key key ?c = ?c\<lparr>hc_position := p\<rparr>" "next_matchable_index (?c\<lparr>hc_position := p\<rparr>) = Some i"
      using less.hyps [OF lt] less.prems(1,3,4) mi False by auto
    with step show ?thesis by auto
  qed
qed

lemma filter_nth_unique:
  assumes "n < length (filter P xs)"
  shows "\<exists>i < length xs. P (xs ! i) \<and> xs ! i = filter P xs ! n \<and> length (filter P (take i xs)) = n"
  using assms
proof (induction xs rule: rev_induct)
  case (snoc x xs)
  show ?case
  proof (cases "n < length (filter P xs)")
    case True
    then obtain i where "i < length xs" "P (xs ! i)" "xs ! i = filter P xs ! n" "length (filter P (take i xs)) = n" using snoc.IH by blast
    with True show ?thesis by (intro exI [of _ i]) (simp add: nth_append)
  next
    case False
    with snoc.prems have "P x" "n = length (filter P xs)" by (auto split: if_splits)
    then show ?thesis by (intro exI [of _ "length xs"]) (simp add: nth_append)
  qed
qed simp

lemma occurrence_unique:
  assumes "i < j" and "j < length xs" and "P (xs ! i)" and "P (xs ! j)"
  shows "length (filter P (take i xs)) < length (filter P (take j xs))"
proof -
  have "take j xs = take i (take j xs) @ take j xs ! i # drop (Suc i) (take j xs)"
    by (rule id_take_nth_drop) (use assms(1,2) in simp)
  then have "take j xs = take i xs @ xs ! i # drop (Suc i) (take j xs)" using assms(1) by (simp add: min_def)
  then have "filter P (take j xs) = filter P (take i xs) @ xs ! i # filter P (drop (Suc i) (take j xs))"
    using assms(3) by (metis filter.simps(2) filter_append)
  then show ?thesis by simp
qed

abbreviation occurrences :: "string \<Rightarrow> history \<Rightarrow> history" where
  "occurrences name h \<equiv> filter (\<lambda>e. signal_name e = Some name) h"

lemma signal_key_iff:
  "key_for_event h i = Some (KSignal name n) \<longleftrightarrow>
     i < length h \<and> signal_name (h ! i) = Some name \<and> length (occurrences name (take i h)) = n"
  by (cases "i < length h"; cases "h ! i") (auto simp: key_for_event_def)

lemma timer_key_iff: "key_for_event h i = Some (KTimer t) \<longleftrightarrow> i < length h \<and> (\<exists>env at. h ! i = TimerStarted env t at)"
  by (cases "i < length h"; cases "h ! i") (auto simp: key_for_event_def)

lemma resolve_command_keyed:
  assumes "fresh_context h cx" and "family_and_key cmd = Some (fam, key)"
  shows "fst (resolve_command cmd cx) =
    (case fst (resolve_next fam key (fast_forward_to_key key \<lparr>hc_events = h, hc_consumed = replicate (length h) False, hc_position = 0\<rparr>)) of
       Matched es \<Rightarrow> map_sum id into_outcome (resolution_from_matched es)
     | Exhausted \<Rightarrow> Inr OutResumeLive
     | Mismatch k found \<Rightarrow> Inl (NonDeterminism (mismatch_error (nx_resolver cx) fam k found)))"
  using assms
  by (cases cmd)
     (auto simp: resolve_command_def fresh_context_def fast_forward_to_def resolve_def resolve_with_consumed_def Let_def mismatch_error_def
           split: prod.split cursor_resolve_result.split)

lemma resolve_none:
  assumes "fresh_context h cx" and "family_and_key cmd = Some (fam, key)" and "\<forall>i. key_for_event h i \<noteq> Some key"
  shows "fst (resolve_command cmd cx) = Inr OutResumeLive"
proof -
  let ?c = "\<lparr>hc_events = h, hc_consumed = replicate (length h) False, hc_position = 0\<rparr>"
  have "next_matchable_index (fast_forward_to_key key ?c) = None"
    by (rule fast_forward_none) (use assms(3) in \<open>simp_all add: cursor_wf_def\<close>)
  then show ?thesis by (simp add: resolve_command_keyed [OF assms(1,2)] resolve_next_def)
qed

lemma resolve_signal:
  assumes "fresh_context h cx" and "family_and_key cmd = Some (FSignal, KSignal name n)"
  shows "fst (resolve_command cmd cx) =
    Inr (if n < length (occurrences name h)
         then OutRecorded (case occurrences name h ! n of SignalReceived _ _ p \<Rightarrow> ResSignalDelivered p | _ \<Rightarrow> ResSignalSent)
         else OutResumeLive)"
proof (cases "n < length (occurrences name h)")
  case True
  let ?c = "\<lparr>hc_events = h, hc_consumed = replicate (length h) False, hc_position = 0\<rparr>"
  obtain i where i: "i < length h" "signal_name (h ! i) = Some name" "h ! i = occurrences name h ! n" "length (occurrences name (take i h)) = n"
    using filter_nth_unique [OF True] by blast
  have key: "key_for_event h i = Some (KSignal name n)" using i by (simp add: signal_key_iff)
  have first: "key_for_event h j \<noteq> Some (KSignal name n)" if "j < i" for j
    using occurrence_unique [OF that i(1), of "\<lambda>e. signal_name e = Some name"] i(2,4) by (auto simp: signal_key_iff)
  obtain p where ff: "fast_forward_to_key (KSignal name n) ?c = ?c\<lparr>hc_position := p\<rparr>" "next_matchable_index (?c\<lparr>hc_position := p\<rparr>) = Some i"
    using fast_forward_first [of ?c i "KSignal name n"] key first by auto
  have fam: "family_for_event (h ! i) = Some FSignal" using i(2) by (cases "h ! i") auto
  have "fst (resolve_next FSignal (KSignal name n) (fast_forward_to_key (KSignal name n) ?c)) = Matched [h ! i]"
    using ff key fam i(1) by (simp add: resolve_next_def consume_one_def take_range_def Let_def take_Suc_conv_app_nth Cons_nth_drop_Suc [symmetric])
  then have "fst (resolve_command cmd cx) = map_sum id into_outcome (resolution_from_matched [h ! i])"
    by (simp add: resolve_command_keyed [OF assms])
  moreover from i(2) obtain env w p where "h ! i = SignalReceived env name p \<or> h ! i = SignalSent env w name p" by (cases "h ! i") auto
  ultimately show ?thesis using True by (auto simp: resolution_from_matched_def i(3) [symmetric])
next
  case False
  have "key_for_event h i \<noteq> Some (KSignal name n)" for i
  proof
    assume "key_for_event h i = Some (KSignal name n)"
    then have i: "i < length h" "signal_name (h ! i) = Some name" "length (occurrences name (take i h)) = n" by (simp_all add: signal_key_iff)
    have "occurrences name h = occurrences name (take i h) @ h ! i # occurrences name (drop (Suc i) h)"
      using i(1,2) by (subst id_take_nth_drop [OF i(1)]) simp
    with i(3) False show False by simp
  qed
  with False show ?thesis by (simp add: resolve_none [OF assms])
qed

fun immediate_outcome :: "timer_id \<Rightarrow> event \<Rightarrow> resolution" where
  "immediate_outcome t (TimerFired _ t') = (if t' = t then ResTimerFired else ResTimerStarted)"
| "immediate_outcome t (TimerCancelled _ t' cause) = (if t' = t \<and> cause = WorkflowIntent then ResTimerCancelled else ResTimerStarted)"
| "immediate_outcome t (WithTimeoutCompleted _ t' outcome result) = (if t' = t then ResWithTimeout outcome result else ResTimerStarted)"
| "immediate_outcome t _ = ResTimerStarted"

lemma starts_timer_key: "i < length h \<Longrightarrow> starts_timer t (h ! i) \<longleftrightarrow> key_for_event h i = Some (KTimer t)"
  by (auto simp: timer_key_iff elim: starts_timer.elims)

lemma immediate_outcome_matched:
  assumes "starts_timer t e"
  shows "map_sum id into_outcome (resolution_from_matched (if timer_outcome_for e' (KTimer t) then [e, e'] else [e]))
    = Inr (OutRecorded (immediate_outcome t e'))"
  using assms by (cases e; cases e') (auto simp: resolution_from_matched_def)

lemma resolve_timer:
  assumes "fresh_context h cx" and "family_and_key cmd = Some (FTimer, KTimer t)"
  shows "fst (resolve_command cmd cx) =
    Inr (case position (starts_timer t) h of
           None \<Rightarrow> OutResumeLive
         | Some i \<Rightarrow> OutRecorded (case get h (i + 1) of None \<Rightarrow> ResTimerStarted | Some e \<Rightarrow> immediate_outcome t e))"
proof (cases "position (starts_timer t) h")
  case None
  then have "key_for_event h i \<noteq> Some (KTimer t)" for i
    using starts_timer_key [of i h t] by (cases "i < length h") (auto simp: position_None_iff timer_key_iff)
  with None show ?thesis by (simp add: resolve_none [OF assms])
next
  case (Some i)
  let ?c = "\<lparr>hc_events = h, hc_consumed = replicate (length h) False, hc_position = 0\<rparr>"
  note d = position_SomeD [OF Some]
  have key: "key_for_event h i = Some (KTimer t)" using d starts_timer_key by blast
  have first: "key_for_event h j \<noteq> Some (KTimer t)" if "j < i" for j using d starts_timer_key [of j h t] that by auto
  obtain p where ff: "fast_forward_to_key (KTimer t) ?c = ?c\<lparr>hc_position := p\<rparr>" "next_matchable_index (?c\<lparr>hc_position := p\<rparr>) = Some i"
    using fast_forward_first [of ?c i "KTimer t"] key first by auto
  have fam: "family_for_event (h ! i) = Some FTimer" using d by (auto elim: starts_timer.elims)
  have one: "take (Suc 0) (drop i h) = [h ! i]" using d by (simp add: Cons_nth_drop_Suc [symmetric])
  have two: "take 2 (drop i h) = [h ! i, e]" if "get h (Suc i) = Some e" for e
    using that by (auto simp: get_def numeral_2_eq_2 Cons_nth_drop_Suc [symmetric] split: if_splits)
  have "fst (resolve_next FTimer (KTimer t) (fast_forward_to_key (KTimer t) ?c)) =
      Matched (case get h (i + 1) of None \<Rightarrow> [h ! i] | Some e \<Rightarrow> if timer_outcome_for e (KTimer t) then [h ! i, e] else [h ! i])"
    using ff key fam one two
    by (auto simp: resolve_next_def resolve_started_with_immediate_outcome_def consume_one_def take_range_def Let_def is_outcome_for_start_key_def
             split: option.splits)
  with d Some show ?thesis
    by (auto simp: resolve_command_keyed [OF assms] immediate_outcome_matched [where e = "h ! i", symmetric] split: option.split)
       (auto simp: resolution_from_matched_def elim: starts_timer.elims)
qed

end
