(* ===== verification/Workflow_Signals.thy ===== *)
theory Workflow_Signals
  imports Nif_Context
begin

text \<open>
  \<^verbatim>\<open>crates/aion/src/runtime/nif_signal.rs\<close>: the natives with which a workflow process receives and sends signals.  A receive resolves to a
  recorded arrival and never records one: the router has recorded it before it wakes the process.  It is two-phased: a call that finds
  no arrival pins the occurrence it awaits and suspends the process; the next wake calls it again.

  Payloads are rendered and parsed as JSON by \<^verbatim>\<open>serde_json\<close>, the arguments \<open>render\<close> and \<open>parse\<close>; error texts are
  structured values.  The argument and term handling around the two functions is not modelled.

  The lemmas show that the k-th completed receive of a name gets the k-th arrival of that name, with a deadline scope ordered against the
  arrival by their places in the history, and that a replay on any longer history gives the answer of the live run.
\<close>

section \<open>Occurrences of a name\<close>

definition signal_occurrence_index :: "history \<Rightarrow> string \<Rightarrow> nat" where
  "signal_occurrence_index h name = length (occurrences name h)"

fun nth_received_from :: "string \<Rightarrow> u64 \<Rightarrow> nat \<Rightarrow> u64 \<Rightarrow> history \<Rightarrow> nat option" where
  "nth_received_from name k occurrence receives_seen [] = None"
| "nth_received_from name k occurrence receives_seen (e # es) =
     (case e of
        SignalReceived _ n _ \<Rightarrow>
          if n = name
          then (if receives_seen = k then Some occurrence
                else nth_received_from name k (occurrence + 1) (receives_seen + 1) es)
          else nth_received_from name k occurrence receives_seen es
      | SignalSent _ _ n _ \<Rightarrow>
          if n = name then nth_received_from name k (occurrence + 1) receives_seen es
          else nth_received_from name k occurrence receives_seen es
      | _ \<Rightarrow> nth_received_from name k occurrence receives_seen es)"

definition nth_received_occurrence_index :: "history \<Rightarrow> string \<Rightarrow> u64 \<Rightarrow> nat option" where
  "nth_received_occurrence_index h name k = nth_received_from name k 0 0 h"

fun nth_sent_from :: "string \<Rightarrow> u64 \<Rightarrow> nat \<Rightarrow> u64 \<Rightarrow> history \<Rightarrow> nat option" where
  "nth_sent_from name k occurrence sends_seen [] = None"
| "nth_sent_from name k occurrence sends_seen (e # es) =
     (case e of
        SignalSent _ _ n _ \<Rightarrow>
          if n = name
          then (if sends_seen = k then Some occurrence
                else nth_sent_from name k (occurrence + 1) (sends_seen + 1) es)
          else nth_sent_from name k occurrence sends_seen es
      | SignalReceived _ n _ \<Rightarrow>
          if n = name then nth_sent_from name k (occurrence + 1) sends_seen es
          else nth_sent_from name k occurrence sends_seen es
      | _ \<Rightarrow> nth_sent_from name k occurrence sends_seen es)"

definition nth_sent_occurrence_index :: "history \<Rightarrow> string \<Rightarrow> u64 \<Rightarrow> nat option" where
  "nth_sent_occurrence_index h name k = nth_sent_from name k 0 0 h"

fun occurrence_seq_from :: "string \<Rightarrow> nat \<Rightarrow> nat \<Rightarrow> history \<Rightarrow> u64 option" where
  "occurrence_seq_from name index occurrence [] = None"
| "occurrence_seq_from name index occurrence (e # es) =
     (if signal_name e = Some name
      then (if occurrence = index then Some (seq e) else occurrence_seq_from name index (occurrence + 1) es)
      else occurrence_seq_from name index occurrence es)"

definition signal_occurrence_seq :: "history \<Rightarrow> string \<Rightarrow> nat \<Rightarrow> u64 option" where
  "signal_occurrence_seq h name index = occurrence_seq_from name index 0 h"

definition scope_expired_before_signal_arrival :: "u64 \<Rightarrow> string \<Rightarrow> nat \<Rightarrow> nif_context \<Rightarrow> 's nif_world \<Rightarrow> bool" where
  "scope_expired_before_signal_arrival pid name index cx nw =
     (case expired_scope_deadline pid (context_history cx) nw of
        None \<Rightarrow> False
      | Some deadline \<Rightarrow>
          (case (deadline, signal_occurrence_seq (context_history cx) name index) of
             (RecordedAt fired_seq, Some arrival_seq) \<Rightarrow> fired_seq < arrival_seq
           | (Unordered, _) \<Rightarrow> True
           | (RecordedAt _, None) \<Rightarrow> True))"

section \<open>Receiving\<close>

datatype nif_signal_error =
  SignalContext nif_context_error
| PinnedToOtherAwait pending_await
| ScopeExpired
| UnexpectedResolution resolution
| PayloadText string
| BadWorkflowId string
| TargetNotFound workflow_id
| RoutingFailed signal_error

datatype signal_receive_outcome = ReceivedPayload string | SuspendReceive

definition counters_of :: "nif_context \<Rightarrow> 's nif_world \<Rightarrow> run_counters" where
  "counters_of cx nw = nw_counters nw (wh_recorder (nx_handle cx))"

definition set_counters :: "nif_context \<Rightarrow> run_counters \<Rightarrow> 's nif_world \<Rightarrow> 's nif_world" where
  "set_counters cx rn nw = nw\<lparr>nw_counters := (nw_counters nw)(wh_recorder (nx_handle cx) := rn)\<rparr>"

definition unpin :: "u64 \<Rightarrow> 's nif_world \<Rightarrow> 's nif_world" where
  "unpin pid nw = nw\<lparr>nw_pending := AList.delete pid (nw_pending nw)\<rparr>"

definition pin :: "u64 \<Rightarrow> pending_await \<Rightarrow> 's nif_world \<Rightarrow> 's nif_world" where
  "pin pid await nw = nw\<lparr>nw_pending := AList.update pid await (nw_pending nw)\<rparr>"

definition awaited_index :: "string \<Rightarrow> u64 \<Rightarrow> nif_context \<Rightarrow> 's nif_world \<Rightarrow> (nif_signal_error, nat) result" where
  "awaited_index name pid cx nw =
     (case map_of (nw_pending nw) pid of
        Some (PendingSignal index) \<Rightarrow> Inr index
      | Some other \<Rightarrow> Inl (PinnedToOtherAwait other)
      | None \<Rightarrow>
          (let h = context_history cx
           in Inr (case nth_received_occurrence_index h name (signal_receives_consumed name (counters_of cx nw)) of
                     Some index \<Rightarrow> index
                   | None \<Rightarrow> signal_occurrence_index h name)))"

definition receive_in_context ::
  "(payload \<Rightarrow> (string, string) result) \<Rightarrow> string \<Rightarrow> u64 \<Rightarrow> nif_context \<Rightarrow> 's nif_world
    \<Rightarrow> (nif_signal_error, signal_receive_outcome) result \<times> 's nif_world" where
  "receive_in_context render name pid cx nw =
     (case awaited_index name pid cx nw of
        Inl e \<Rightarrow> (Inl e, nw)
      | Inr index \<Rightarrow>
          (case resolve_command (AwaitSignal (KSignal name index)) cx of
             (Inl e, _) \<Rightarrow> (Inl (SignalContext (NifDurability e)), nw)
           | (Inr (OutRecorded (ResSignalDelivered p)), cx') \<Rightarrow>
               if scope_expired_before_signal_arrival pid name index cx' nw then (Inl ScopeExpired, unpin pid nw)
               else (map_err PayloadText (bind_res (render p) (\<lambda>text. Inr (ReceivedPayload text))),
                     set_counters cx' (mark_signal_receive_consumed name (counters_of cx' nw)) (unpin pid nw))
           | (Inr (OutRecorded other), _) \<Rightarrow> (Inl (UnexpectedResolution other), nw)
           | (Inr OutResumeLive, cx') \<Rightarrow>
               if expired_scope_deadline pid (context_history cx') nw \<noteq> None then (Inl ScopeExpired, unpin pid nw)
               else (Inr SuspendReceive, pin pid (PendingSignal index) nw)))"

definition receive_signal_impl ::
  "'s event_store \<Rightarrow> (duration \<Rightarrow> 's signal_world \<Rightarrow> 's signal_world) \<Rightarrow> signal_delivery_config \<Rightarrow> (payload \<Rightarrow> (string, string) result)
    \<Rightarrow> string \<Rightarrow> u64 \<Rightarrow> 's nif_world \<Rightarrow> ((nif_signal_error, signal_receive_outcome) result \<times> 's nif_world) option" where
  "receive_signal_impl ops sleep_for c render name pid nw =
     (case context_new ops sleep_for c pid (nw_signals nw) of
        None \<Rightarrow> None
      | Some (Inl e, sw) \<Rightarrow> Some (Inl (SignalContext e), nw\<lparr>nw_signals := sw\<rparr>)
      | Some (Inr cx, sw) \<Rightarrow> Some (receive_in_context render name pid cx (nw\<lparr>nw_signals := sw\<rparr>)))"

section \<open>Sending\<close>

text \<open>The signal is routed first and then recorded as sent; \<open>interfere 2\<close> is what happens in between.\<close>

definition send_live ::
  "'s event_store \<Rightarrow> (u64 \<Rightarrow> (string, unit) result) \<Rightarrow> (u64 \<Rightarrow> bool) \<Rightarrow> 's meddling \<Rightarrow> workflow_id \<Rightarrow> string \<Rightarrow> payload \<Rightarrow> nif_context
    \<Rightarrow> 's signal_world \<Rightarrow> (nif_signal_error, unit) result \<times> 's signal_world" where
  "send_live ops wake is_live interfere target name p cx sw =
     (case find_handle target (en_registry (sw_engine sw)) of
        None \<Rightarrow> (Inl (TargetNotFound target), sw)
      | Some hnd \<Rightarrow>
          (case route ops wake is_live interfere hnd name p sw of
             (Inl e, sw1) \<Rightarrow> (Inl (RoutingFailed e), sw1)
           | (Inr _, sw1) \<Rightarrow>
               (let sw2 = interfere 2 sw1;
                    (res, en) = block_on_recorder (record_signal_sent ops (sw_now sw2) target name p) cx (sw_engine sw2)
                in (map_err SignalContext res, sw2\<lparr>sw_engine := en\<rparr>))))"

definition send_in_context ::
  "'s event_store \<Rightarrow> (u64 \<Rightarrow> (string, unit) result) \<Rightarrow> (u64 \<Rightarrow> bool) \<Rightarrow> 's meddling \<Rightarrow> workflow_id \<Rightarrow> string \<Rightarrow> payload \<Rightarrow> nif_context
    \<Rightarrow> 's nif_world \<Rightarrow> (nif_signal_error, unit) result \<times> 's nif_world" where
  "send_in_context ops wake is_live interfere target name p cx nw =
     (let h = context_history cx;
          index = (case nth_sent_occurrence_index h name (signal_sends_completed name (counters_of cx nw)) of
                     Some index \<Rightarrow> index
                   | None \<Rightarrow> signal_occurrence_index h name);
          done = (\<lambda>cx nw. set_counters cx (mark_signal_send_completed name (counters_of cx nw)) nw)
      in case resolve_command (SendSignal (KSignal name index) \<lparr>sd_target_workflow_id = target, sd_name = name, sd_payload = p\<rparr>) cx of
           (Inl e, _) \<Rightarrow> (Inl (SignalContext (NifDurability e)), nw)
         | (Inr (OutRecorded ResSignalSent), cx') \<Rightarrow> (Inr (), done cx' nw)
         | (Inr (OutRecorded other), _) \<Rightarrow> (Inl (UnexpectedResolution other), nw)
         | (Inr OutResumeLive, cx') \<Rightarrow>
             (case send_live ops wake is_live interfere target name p cx' (nw_signals nw) of
                (Inl e, sw) \<Rightarrow> (Inl e, nw\<lparr>nw_signals := sw\<rparr>)
              | (Inr _, sw) \<Rightarrow> (Inr (), done cx' (nw\<lparr>nw_signals := sw\<rparr>))))"

definition send_signal_impl ::
  "'s event_store \<Rightarrow> (u64 \<Rightarrow> (string, unit) result) \<Rightarrow> (u64 \<Rightarrow> bool) \<Rightarrow> (duration \<Rightarrow> 's signal_world \<Rightarrow> 's signal_world) \<Rightarrow> 's meddling
    \<Rightarrow> signal_delivery_config \<Rightarrow> parse_uuid \<Rightarrow> (string \<Rightarrow> (string, payload) result) \<Rightarrow> string \<Rightarrow> string \<Rightarrow> string \<Rightarrow> u64 \<Rightarrow> 's nif_world
    \<Rightarrow> ((nif_signal_error, unit) result \<times> 's nif_world) option" where
  "send_signal_impl ops wake is_live sleep_for interfere c parse_uuid parse target name text pid nw =
     (case parse_uuid target of
        None \<Rightarrow> Some (Inl (BadWorkflowId target), nw)
      | Some u \<Rightarrow>
          (case parse text of
             Inl reason \<Rightarrow> Some (Inl (PayloadText reason), nw)
           | Inr p \<Rightarrow>
               (case context_new ops sleep_for c pid (nw_signals nw) of
                  None \<Rightarrow> None
                | Some (Inl e, sw) \<Rightarrow> Some (Inl (SignalContext e), nw\<lparr>nw_signals := sw\<rparr>)
                | Some (Inr cx, sw) \<Rightarrow>
                    Some (send_in_context ops wake is_live interfere (WorkflowId u) name p cx (nw\<lparr>nw_signals := sw\<rparr>)))))"

section \<open>Arrivals\<close>

fun receives :: "string \<Rightarrow> event \<Rightarrow> bool" where
  "receives name (SignalReceived _ n _) = (n = name)"
| "receives name _ = False"

abbreviation arrivals :: "string \<Rightarrow> history \<Rightarrow> history" where
  "arrivals name h \<equiv> filter (receives name) h"

lemma receives_occurs: "receives name e \<Longrightarrow> signal_name e = Some name"
  by (cases e) auto

fun sends :: "string \<Rightarrow> event \<Rightarrow> bool" where
  "sends name (SignalSent _ _ n _) = (n = name)"
| "sends name _ = False"

lemma occurs_iff: "signal_name e = Some name \<longleftrightarrow> receives name e \<or> sends name e"
  by (cases e) auto

text \<open>The two scans are one: the position, among the occurrences of a name, of the \<open>k\<close>-th that satisfies a predicate.\<close>

fun nth_from :: "(event \<Rightarrow> bool) \<Rightarrow> string \<Rightarrow> u64 \<Rightarrow> nat \<Rightarrow> u64 \<Rightarrow> history \<Rightarrow> nat option" where
  "nth_from p name k occ seen [] = None"
| "nth_from p name k occ seen (e # es) =
     (if p e then (if seen = k then Some occ else nth_from p name k (occ + 1) (seen + 1) es)
      else nth_from p name k (if signal_name e = Some name then occ + 1 else occ) seen es)"

lemma nth_received_from_eq: "nth_received_from name k occ seen h = nth_from (receives name) name k occ seen h"
  by (induction h arbitrary: occ seen) (simp_all split: event.split)

lemma nth_sent_from_eq: "nth_sent_from name k occ seen h = nth_from (sends name) name k occ seen h"
  by (induction h arbitrary: occ seen) (simp_all split: event.split)

lemma nth_from_spec:
  assumes "unat k = unat seen + d" and "unat seen + length h < 2 ^ 64" and "\<And>e. p e \<Longrightarrow> signal_name e = Some name"
  shows "(length (filter p h) \<le> d \<longrightarrow> nth_from p name k occ seen h = None)
    \<and> (d < length (filter p h) \<longrightarrow>
         (\<exists>j < length (occurrences name h). nth_from p name k occ seen h = Some (occ + j) \<and> occurrences name h ! j = filter p h ! d))"
  using assms(1,2)
proof (induction h arbitrary: occ seen d)
  case (Cons e h)
  show ?case
  proof (cases "p e")
    case True
    show ?thesis
    proof (cases d)
      case 0
      then have "seen = k" using Cons.prems(1) by (simp add: word_unat_eq_iff)
      with True 0 assms(3) [OF True] show ?thesis by auto
    next
      case (Suc d')
      have "unat (seen + 1) = unat seen + 1" using Cons.prems(2) by (intro unat_plus_simple [THEN iffD1, THEN trans]) (auto simp: word_le_nat_alt unat_word_ariths)
      with Suc Cons.prems have "unat k = unat (seen + 1) + d'" "unat (seen + 1) + length h < 2 ^ 64" by simp_all
      note IH = Cons.IH [OF this, of "occ + 1"]
      have "seen \<noteq> k" using Suc Cons.prems(1) by auto
      with IH True Suc assms(3) [OF True] show ?thesis by (auto intro: exI [of _ "Suc _"])
    qed
  next
    case False
    have "unat seen + length h < 2 ^ 64" using Cons.prems(2) by simp
    note IH = Cons.IH [OF Cons.prems(1) this]
    from IH [of "occ + 1"] IH [of occ] False show ?thesis
      by (cases "signal_name e = Some name") (auto intro: exI [of _ "Suc _"])
  qed
qed simp

lemma nth_index_spec:
  assumes "length h < 2 ^ 64" and "\<And>e. p e \<Longrightarrow> signal_name e = Some name"
  shows "length (filter p h) \<le> unat k \<Longrightarrow> nth_from p name k 0 0 h = None"
    and "unat k < length (filter p h) \<Longrightarrow>
      \<exists>j < length (occurrences name h). nth_from p name k 0 0 h = Some j \<and> occurrences name h ! j = filter p h ! unat k"
  using nth_from_spec [of k 0 "unat k" h p name 0] assms by auto

lemma occurrence_seq_from_spec:
  "occ \<le> index \<Longrightarrow> occurrence_seq_from name index occ h =
     (if index - occ < length (occurrences name h) then Some (seq (occurrences name h ! (index - occ))) else None)"
proof (induction h arbitrary: occ)
  case (Cons e h)
  show ?case
  proof (cases "occ = index")
    case False
    with Cons.prems have "index - occ = Suc (index - Suc occ)" by simp
    with Cons.IH [of "Suc occ"] Cons.IH [of occ] Cons.prems False show ?thesis by simp
  qed (use Cons.IH [of occ] in simp)
qed simp

lemma signal_occurrence_seq_eq:
  "signal_occurrence_seq h name index =
     (if index < length (occurrences name h) then Some (seq (occurrences name h ! index)) else None)"
  using occurrence_seq_from_spec [of 0 index name h] by (simp add: signal_occurrence_seq_def)

section \<open>What a receive promises\<close>

text \<open>The specification: with \<open>k\<close> receives of a name completed, the answer is the \<open>k\<close>-th arrival of the name, unless an enclosing deadline
  fired before it; without such an arrival it is a timeout if an enclosing deadline fired, and otherwise to be awaited.\<close>

fun arrived_payload :: "event \<Rightarrow> payload option" where
  "arrived_payload (SignalReceived _ _ p) = Some p"
| "arrived_payload _ = None"

definition overtaken :: "expired_deadline option \<Rightarrow> u64 \<Rightarrow> bool" where
  "overtaken deadline arrival =
     (case deadline of None \<Rightarrow> False | Some Unordered \<Rightarrow> True | Some (RecordedAt fired) \<Rightarrow> fired < arrival)"

definition receive_spec :: "string \<Rightarrow> nat \<Rightarrow> timeout_scope list \<Rightarrow> history \<Rightarrow> payload option option" where
  "receive_spec name k scopes h =
     (let deadline = expired_deadline_of h scopes
      in if k < length (arrivals name h)
         then (if overtaken deadline (seq (arrivals name h ! k)) then Some None else Some (arrived_payload (arrivals name h ! k)))
         else if deadline \<noteq> None then Some None else None)"

text \<open>The occurrence a receive awaits: the \<open>k\<close>-th arrival or, before it is recorded, the next occurrence of the name.\<close>

definition pin_ok :: "string \<Rightarrow> nat \<Rightarrow> history \<Rightarrow> nat \<Rightarrow> bool" where
  "pin_ok name k h index \<longleftrightarrow>
     (if k < length (arrivals name h)
      then index < length (occurrences name h) \<and> occurrences name h ! index = arrivals name h ! k
      else k = length (arrivals name h) \<and> index = length (occurrences name h))"

lemma pin_ok_grow:
  assumes "pin_ok name k h index" and "\<not> list_ex (sends name) u"
  shows "pin_ok name k (h @ u) index"
proof -
  have "occurrences name u = arrivals name u"
    using assms(2) by (intro filter_cong) (auto simp: occurs_iff list_ex_iff)
  with assms(1) show ?thesis by (auto simp: pin_ok_def nth_append split: if_splits)
qed

lemma resolve_command_keeps:
  assumes "fresh_context h cx" and "resolve_command cmd cx = (res, cx')"
  shows "nx_handle cx' = nx_handle cx" and "context_history cx' = h"
proof -
  show "nx_handle cx' = nx_handle cx" using assms(2) by (auto simp: resolve_command_def Let_def split: prod.splits)
  define rs where "rs = (case command_key cmd of
      Some key \<Rightarrow> fast_forward_to key (nx_resolver cx)
    | None \<Rightarrow> (case cmd of AwaitChild child \<Rightarrow> resolver_fast_forward_to_child_terminal child (nx_resolver cx) | _ \<Rightarrow> nx_resolver cx))"
  let ?c = "rs_cursor (nx_resolver cx)"
  have wf: "cursor_wf ?c" and h: "hc_events ?c = h" using assms(1) by (simp_all add: fresh_context_def cursor_wf_def)
  have ff: "cursor_wf (fast_forward stop ?c) \<and> hc_events (fast_forward stop ?c) = h" for stop
    using fast_forward_wf [OF wf, of stop] h by (simp add: cursor_le_def)
  have "resolver_wf rs \<and> hc_events (rs_cursor rs) = h"
    using wf h ff
    by (auto simp: rs_def fast_forward_to_def resolver_fast_forward_to_child_terminal_def fast_forward_to_key_def fast_forward_to_child_terminal_def
             split: option.split command.split)
  then have "hc_events (rs_cursor (snd (resolve_with_consumed cmd rs))) = h"
    using resolve_with_consumed_wf [of rs cmd] by (simp add: cursor_le_def)
  then show "context_history cx' = h"
    using assms(2) unfolding resolve_command_def rs_def [symmetric]
    by (auto simp: Let_def context_history_def resolve_def split: prod.splits)
qed

lemma awaited_index_ok:
  assumes "fresh_context h cx" and "length h < 2 ^ 64" and "k = unat (signal_receives_consumed name (counters_of cx nw))"
    and "k \<le> length (arrivals name h)"
    and "map_of (nw_pending nw) pid = None \<or> (\<exists>index. map_of (nw_pending nw) pid = Some (PendingSignal index) \<and> pin_ok name k h index)"
  shows "\<exists>index. awaited_index name pid cx nw = Inr index \<and> pin_ok name k h index"
proof (cases "map_of (nw_pending nw) pid")
  case None
  from nth_index_spec [OF assms(2), of "receives name", OF receives_occurs, of name "signal_receives_consumed name (counters_of cx nw)"] None assms(1,3,4) show ?thesis
    by (cases "k < length (arrivals name h)")
       (auto simp: awaited_index_def nth_received_occurrence_index_def nth_received_from_eq signal_occurrence_index_def pin_ok_def)
qed (use assms(5) in \<open>auto simp: awaited_index_def\<close>)

lemma scope_expired_before_eq:
  assumes "context_history cx = h" and "index < length (occurrences name h)"
  shows "scope_expired_before_signal_arrival pid name index cx nw =
    overtaken (expired_deadline_of h (scopes_of pid nw)) (seq (occurrences name h ! index))"
  using assms
  by (simp add: scope_expired_before_signal_arrival_def expired_scope_deadline_def signal_occurrence_seq_eq overtaken_def
           split: option.split expired_deadline.split)

text \<open>The whole receive, as a function of what the specification answers.\<close>

definition receive_result ::
  "(payload \<Rightarrow> (string, string) result) \<Rightarrow> string \<Rightarrow> u64 \<Rightarrow> nif_context \<Rightarrow> nat \<Rightarrow> payload option option \<Rightarrow> 's nif_world
    \<Rightarrow> (nif_signal_error, signal_receive_outcome) result \<times> 's nif_world" where
  "receive_result render name pid cx index answer nw =
     (case answer of
        None \<Rightarrow> (Inr SuspendReceive, pin pid (PendingSignal index) nw)
      | Some None \<Rightarrow> (Inl ScopeExpired, unpin pid nw)
      | Some (Some p) \<Rightarrow>
          (map_err PayloadText (bind_res (render p) (\<lambda>text. Inr (ReceivedPayload text))),
           set_counters cx (mark_signal_receive_consumed name (counters_of cx nw)) (unpin pid nw)))"

lemma receive_in_context_eq:
  assumes "fresh_context h cx" and "awaited_index name pid cx nw = Inr index" and "pin_ok name k h index"
  shows "receive_in_context render name pid cx nw = receive_result render name pid cx index (receive_spec name k (scopes_of pid nw) h) nw"
proof -
  obtain res cx' where r: "resolve_command (AwaitSignal (KSignal name index)) cx = (res, cx')" by fastforce
  note keeps = resolve_command_keeps [OF assms(1) r]
  have handle: "counters_of cx' nw' = counters_of cx nw'" "set_counters cx' rn nw' = set_counters cx rn nw'" for rn and nw' :: "'a nif_world"
    using keeps(1) by (simp_all add: counters_of_def set_counters_def)
  have res: "res = Inr (if index < length (occurrences name h)
      then OutRecorded (case occurrences name h ! index of SignalReceived _ _ p \<Rightarrow> ResSignalDelivered p | _ \<Rightarrow> ResSignalSent)
      else OutResumeLive)"
    using resolve_signal [OF assms(1), of "AwaitSignal (KSignal name index)" name index] r by simp
  show ?thesis
  proof (cases "k < length (arrivals name h)")
    case True
    with assms(3) have index: "index < length (occurrences name h)" "occurrences name h ! index = arrivals name h ! k" by (simp_all add: pin_ok_def)
    have "receives name (arrivals name h ! k)" using nth_mem [OF True] by simp
    then obtain env p where e: "arrivals name h ! k = SignalReceived env name p" by (cases "arrivals name h ! k") auto
    show ?thesis
      using r res index e True
      by (simp add: receive_in_context_def assms(2) receive_spec_def receive_result_def Let_def handle scope_expired_before_eq [OF keeps(2) index(1)])
  next
    case False
    with assms(3) have "\<not> index < length (occurrences name h)" by (simp add: pin_ok_def)
    with False r res keeps(2) show ?thesis
      by (simp add: receive_in_context_def assms(2) receive_spec_def receive_result_def Let_def expired_scope_deadline_def)
  qed
qed

section \<open>Deadlines on a growing history\<close>

text \<open>A scope is honest when it counts as expired exactly if its deadline's fire is in the history.\<close>

definition honest :: "history \<Rightarrow> timeout_scope \<Rightarrow> bool" where
  "honest h sc \<longleftrightarrow> (scope_expired h sc \<longleftrightarrow> timer_fired_seq h (sc_timer_id sc) \<noteq> None)"

definition fired_seqs :: "history \<Rightarrow> timer_id list \<Rightarrow> u64 set" where
  "fired_seqs h timers = {s. \<exists>t \<in> set timers. timer_fired_seq h t = Some s}"

lemma fired_seqs_simps [simp]: "fired_seqs h [] = {}"
  "fired_seqs h (t # ts) = (case timer_fired_seq h t of None \<Rightarrow> {} | Some s \<Rightarrow> {s}) \<union> fired_seqs h ts"
  by (auto simp: fired_seqs_def split: option.split)

lemma expired_deadline_fold:
  assumes "list_all (honest h) scopes"
  shows "\<exists>e'. fold (note_scope h) scopes (e, b) = (e', b)
    \<and> (e' = None \<longleftrightarrow> e = None \<and> fired_seqs h (map sc_timer_id scopes) = {})
    \<and> (\<forall>x. (\<exists>s. e' = Some s \<and> s < x) \<longleftrightarrow> (\<exists>s. e = Some s \<and> s < x) \<or> (\<exists>s \<in> fired_seqs h (map sc_timer_id scopes). s < x))"
  using assms
proof (induction scopes arbitrary: e)
  case (Cons sc scopes)
  have hs: "list_all (honest h) scopes" and hc: "honest h sc" using Cons.prems by simp_all
  show ?case
  proof (cases "timer_fired_seq h (sc_timer_id sc)")
    case None
    with hc have "note_scope h sc (e, b) = (e, b)" by (simp add: note_scope_def honest_def)
    with Cons.IH [OF hs, of e] None show ?thesis by simp
  next
    case (Some s)
    define e1 where "e1 = Some (case e of None \<Rightarrow> s | Some c \<Rightarrow> min c s)"
    have "note_scope h sc (e, b) = (e1, b)" using Some hc by (simp add: note_scope_def honest_def e1_def)
    moreover have "e1 \<noteq> None" and "(\<exists>s'. e1 = Some s' \<and> s' < x) \<longleftrightarrow> (\<exists>s'. e = Some s' \<and> s' < x) \<or> s < x" for x
      by (auto simp: e1_def min_less_iff_disj split: option.split)
    ultimately show ?thesis using Cons.IH [OF hs, of e1] Some by auto
  qed
qed simp

lemma expired_deadline_honest:
  assumes "list_all (honest h) scopes"
  shows "overtaken (expired_deadline_of h scopes) s \<longleftrightarrow> (\<exists>f \<in> fired_seqs h (map sc_timer_id scopes). f < s)"
    and "expired_deadline_of h scopes = None \<longleftrightarrow> fired_seqs h (map sc_timer_id scopes) = {}"
proof -
  obtain e' where e': "fold (note_scope h) scopes (None, False) = (e', False)" "e' = None \<longleftrightarrow> fired_seqs h (map sc_timer_id scopes) = {}"
    and less: "(\<exists>s. e' = Some s \<and> s < x) \<longleftrightarrow> (\<exists>s \<in> fired_seqs h (map sc_timer_id scopes). s < x)" for x
    using expired_deadline_fold [OF assms, of None False] by auto
  show "expired_deadline_of h scopes = None \<longleftrightarrow> fired_seqs h (map sc_timer_id scopes) = {}"
    using e' by (simp add: expired_deadline_of_def)
  show "overtaken (expired_deadline_of h scopes) s \<longleftrightarrow> (\<exists>f \<in> fired_seqs h (map sc_timer_id scopes). f < s)"
    unfolding less [symmetric] using e'(1) by (cases e') (simp_all add: expired_deadline_of_def overtaken_def)
qed

lemma timer_fired_seq_append:
  "timer_fired_seq (h @ u) t = (case timer_fired_seq h t of None \<Rightarrow> timer_fired_seq u t | Some s \<Rightarrow> Some s)"
  unfolding timer_fired_seq_def by (rule find_map_append)

lemma fired_seq_of_SomeD: "fired_seq_of t e = Some s \<Longrightarrow> seq e = s"
  by (cases e) (auto simp: seq_def split: if_splits)

lemma timer_fired_seq_mem: "timer_fired_seq h t = Some s \<Longrightarrow> \<exists>e \<in> set h. seq e = s"
  unfolding timer_fired_seq_def by (drule find_map_SomeD) (blast dest: fired_seq_of_SomeD)

lemma fired_seqs_append:
  shows "fired_seqs h ts \<subseteq> fired_seqs (h @ u) ts"
    and "s \<in> fired_seqs (h @ u) ts \<Longrightarrow> s \<in> fired_seqs h ts \<or> (\<exists>e \<in> set u. seq e = s)"
proof -
  show "fired_seqs h ts \<subseteq> fired_seqs (h @ u) ts" unfolding fired_seqs_def by (force simp: timer_fired_seq_append)
  show "s \<in> fired_seqs h ts \<or> (\<exists>e \<in> set u. seq e = s)" if "s \<in> fired_seqs (h @ u) ts"
    using that timer_fired_seq_mem [of u] unfolding fired_seqs_def by (force simp: timer_fired_seq_append split: option.splits)
qed

lemma receive_spec_grows:
  assumes "receive_spec name k scopes h = Some answer" and "list_all (honest h) scopes" and "list_all (honest (h @ u)) scopes'"
    and "map sc_timer_id scopes' = map sc_timer_id scopes" and "sorted_wrt (<) (map seq (h @ u))"
  shows "receive_spec name k scopes' (h @ u) = Some answer"
proof -
  let ?T = "map sc_timer_id scopes"
  note live = expired_deadline_honest [OF assms(2)]
  note replay = expired_deadline_honest [OF assms(3), unfolded assms(4)]
  have later: "seq e < seq e'" if "e \<in> set h" "e' \<in> set u" for e e' using assms(5) that by (auto simp: sorted_wrt_append)
  show ?thesis
  proof (cases "k < length (arrivals name h)")
    case True
    let ?s = "seq (arrivals name h ! k)"
    have mem: "arrivals name h ! k \<in> set h" using nth_mem [OF True] by simp
    have "f \<in> fired_seqs h ?T" if "f \<in> fired_seqs (h @ u) ?T" "f < ?s" for f
      using fired_seqs_append(2) [OF that(1)] later [OF mem] that(2) by fastforce
    then have "(\<exists>f \<in> fired_seqs (h @ u) ?T. f < ?s) \<longleftrightarrow> (\<exists>f \<in> fired_seqs h ?T. f < ?s)"
      using fired_seqs_append(1) [of h ?T u] by blast
    with True assms(1) show ?thesis
      by (simp add: receive_spec_def Let_def live replay nth_append) (auto split: if_splits)
  next
    case False
    with assms(1) have "expired_deadline_of h scopes \<noteq> None" "answer = None"
      unfolding receive_spec_def Let_def by (simp_all split: if_splits)
    then obtain f where f: "f \<in> fired_seqs h ?T" "answer = None" unfolding live(2) by blast
    obtain e where e: "e \<in> set h" "seq e = f" using f(1) timer_fired_seq_mem [of h _ f] unfolding fired_seqs_def by blast
    have f': "f \<in> fired_seqs (h @ u) ?T" using f(1) fired_seqs_append(1) by blast
    have "f < seq (arrivals name (h @ u) ! k)" if "k < length (arrivals name (h @ u))"
    proof -
      have "arrivals name (h @ u) ! k \<in> set u"
        using that False nth_mem [of "k - length (arrivals name h)" "arrivals name u"] by (auto simp: nth_append)
      with e later show ?thesis by blast
    qed
    moreover have "expired_deadline_of (h @ u) scopes' \<noteq> None" using f' replay(2) by blast
    ultimately show ?thesis using f f' unfolding receive_spec_def Let_def replay(1) by auto
  qed
qed

section \<open>Properties\<close>

text \<open>C3: receiving a signal implements its specification.  Whether the call is the first or a wake of a suspended one, with \<open>k\<close> receives of the name
  completed it hands out the \<open>k\<close>-th arrival of the name and counts it; it times out exactly if a deadline around it fired before that
  arrival, or fired and there is no such arrival; otherwise it suspends, and what it pinned stays right
  however the history grows while the process itself sends nothing under that name.\<close>

theorem receive_takes_kth_arrival:
  assumes "fresh_context h cx" and "length h < 2 ^ 64" and "k = unat (signal_receives_consumed name (counters_of cx nw))"
    and "k \<le> length (arrivals name h)"
    and "map_of (nw_pending nw) pid = None \<or> (\<exists>index. map_of (nw_pending nw) pid = Some (PendingSignal index) \<and> pin_ok name k h index)"
  shows "\<exists>index. receive_in_context render name pid cx nw =
      (case receive_spec name k (scopes_of pid nw) h of
         None \<Rightarrow> (Inr SuspendReceive, pin pid (PendingSignal index) nw)
       | Some None \<Rightarrow> (Inl ScopeExpired, unpin pid nw)
       | Some (Some p) \<Rightarrow>
           (map_err PayloadText (bind_res (render p) (\<lambda>text. Inr (ReceivedPayload text))),
            set_counters cx (mark_signal_receive_consumed name (counters_of cx nw)) (unpin pid nw)))
    \<and> (\<forall>u. \<not> list_ex (sends name) u \<longrightarrow> pin_ok name k (h @ u) index)"
proof -
  obtain index where index: "awaited_index name pid cx nw = Inr index" "pin_ok name k h index" using awaited_index_ok [OF assms] by blast
  show ?thesis
    using receive_in_context_eq [OF assms(1) index] pin_ok_grow [OF index(2)]
    by (intro exI [of _ index]) (simp add: receive_result_def)
qed

text \<open>C2: a replayed receive answers as the live one did.  If a receive of a live run answered on the history it saw, with a payload or with a timeout,
  then the receive of the process that replays the run on any longer history, with as many receives of the name completed and no
  await pinned, gives the same answer and completes as many receives: an arrival recorded after the deadline
  fired is not handed out by the replay either.\<close>

theorem receive_replays:
  assumes "fresh_context h cx" and "fresh_context (h @ u) cx'" and "length (h @ u) < 2 ^ 64" and "sorted_wrt (<) (map seq (h @ u))"
    and "k = signal_receives_consumed name (counters_of cx nw)" and "k = signal_receives_consumed name (counters_of cx' nw')"
    and "unat k \<le> length (arrivals name h)"
    and "map_of (nw_pending nw) pid = None \<or> (\<exists>index. map_of (nw_pending nw) pid = Some (PendingSignal index) \<and> pin_ok name (unat k) h index)"
    and "map_of (nw_pending nw') pid' = None"
    and "list_all (honest h) (scopes_of pid nw)" and "list_all (honest (h @ u)) (scopes_of pid' nw')"
    and "map sc_timer_id (scopes_of pid' nw') = map sc_timer_id (scopes_of pid nw)"
    and "receive_in_context render name pid cx nw = (res, nw1)" and "res \<noteq> Inr SuspendReceive"
  shows "\<exists>nw1'. receive_in_context render name pid' cx' nw' = (res, nw1')
    \<and> signal_receives_consumed name (counters_of cx' nw1') = signal_receives_consumed name (counters_of cx nw1)"
proof -
  have "length h < 2 ^ 64" "unat k \<le> length (arrivals name (h @ u))" using assms(3,7) by simp_all
  then obtain i i' where i: "awaited_index name pid cx nw = Inr i" "pin_ok name (unat k) h i"
    and i': "awaited_index name pid' cx' nw' = Inr i'" "pin_ok name (unat k) (h @ u) i'"
    using awaited_index_ok [OF assms(1), of "unat k" name nw pid] awaited_index_ok [OF assms(2,3), of "unat k" name nw' pid'] assms(5-9)
    by auto
  obtain answer where answer: "receive_spec name (unat k) (scopes_of pid nw) h = Some answer"
    using receive_in_context_eq [OF assms(1) i, of render] assms(13,14)
    by (cases "receive_spec name (unat k) (scopes_of pid nw) h") (auto simp: receive_result_def)
  note answer' = receive_spec_grows [OF answer assms(10,11,12,4)]
  have "receive_result render name pid cx i (Some answer) nw = (res, nw1)"
    using receive_in_context_eq [OF assms(1) i, of render] answer assms(13) by simp
  then show ?thesis
    using receive_in_context_eq [OF assms(2) i', of render] answer' assms(5,6)
    by (cases answer)
       (auto simp: receive_result_def counters_of_def set_counters_def unpin_def mark_signal_receive_consumed_def signal_receives_consumed_def update_conv')
qed

text \<open>C7: a recorded send is not repeated.  With \<open>k\<close> sends of the name completed, the next send is, if the history has more than \<open>k\<close> of them,
  answered from the history and touches neither the target nor the history, whatever arrivals of the name are recorded around
  it; only a send that is not recorded is routed and then recorded, and it counts as completed when both succeeded.\<close>

theorem recorded_send_not_repeated:
  assumes "fresh_context h cx" and "length h < 2 ^ 64" and "k = unat (signal_sends_completed name (counters_of cx nw))"
    and "completed = (\<lambda>nw. set_counters cx (mark_signal_send_completed name (counters_of cx nw)) nw)"
  shows "if k < length (filter (sends name) h)
    then send_in_context ops wake is_live interfere target name p cx nw = (Inr (), completed nw)
    else \<exists>cx'. nx_handle cx' = nx_handle cx \<and> send_in_context ops wake is_live interfere target name p cx nw =
      (case send_live ops wake is_live interfere target name p cx' (nw_signals nw) of
         (Inl e, sw) \<Rightarrow> (Inl e, nw\<lparr>nw_signals := sw\<rparr>)
       | (Inr _, sw) \<Rightarrow> (Inr (), completed (nw\<lparr>nw_signals := sw\<rparr>)))"
proof -
  define index where "index = (case nth_sent_occurrence_index h name (signal_sends_completed name (counters_of cx nw)) of
      Some index \<Rightarrow> index | None \<Rightarrow> signal_occurrence_index h name)"
  define cmd where "cmd = SendSignal (KSignal name index) \<lparr>sd_target_workflow_id = target, sd_name = name, sd_payload = p\<rparr>"
  have occ: "sends name e \<Longrightarrow> signal_name e = Some name" for e by (simp add: occurs_iff)
  note spec = nth_index_spec [OF assms(2), of "sends name", OF occ, of "signal_sends_completed name (counters_of cx nw)", folded assms(3)]
  obtain res cx' where r: "resolve_command cmd cx = (res, cx')" by fastforce
  note keeps = resolve_command_keeps [OF assms(1) r]
  have handle: "set_counters cx' (mark_signal_send_completed name (counters_of cx' nw')) nw' = completed nw'" for nw'
    using keeps(1) by (simp add: assms(4) counters_of_def set_counters_def)
  have res: "res = Inr (if index < length (occurrences name h)
      then OutRecorded (case occurrences name h ! index of SignalReceived _ _ p \<Rightarrow> ResSignalDelivered p | _ \<Rightarrow> ResSignalSent)
      else OutResumeLive)"
    using resolve_signal [OF assms(1), of cmd name index] r by (simp add: cmd_def)
  note body = send_in_context_def [of ops wake is_live interfere target name p cx nw, unfolded fresh_context_history [OF assms(1)] Let_def,
      folded index_def cmd_def]
  show ?thesis
  proof (cases "k < length (filter (sends name) h)")
    case True
    with spec(2) have index: "index < length (occurrences name h)" "occurrences name h ! index = filter (sends name) h ! k"
      by (auto simp: index_def nth_sent_occurrence_index_def nth_sent_from_eq)
    have "sends name (filter (sends name) h ! k)" using nth_mem [OF True] by simp
    then have "(case occurrences name h ! index of SignalReceived _ _ p \<Rightarrow> ResSignalDelivered p | _ \<Rightarrow> ResSignalSent) = ResSignalSent"
      unfolding index(2) by (cases "filter (sends name) h ! k") auto
    with index(1) True r res show ?thesis by (simp add: body handle)
  next
    case False
    with spec(1) have "index = length (occurrences name h)"
      by (simp add: index_def nth_sent_occurrence_index_def nth_sent_from_eq signal_occurrence_index_def)
    with r res have "send_in_context ops wake is_live interfere target name p cx nw =
      (case send_live ops wake is_live interfere target name p cx' (nw_signals nw) of
         (Inl e, sw) \<Rightarrow> (Inl e, nw\<lparr>nw_signals := sw\<rparr>)
       | (Inr _, sw) \<Rightarrow> (Inr (), completed (nw\<lparr>nw_signals := sw\<rparr>)))"
      by (auto simp: body handle split: prod.split sum.split)
    with False keeps(1) show ?thesis by auto
  qed
qed

section \<open>The properties at a sample run\<close>

definition s_context :: "history \<Rightarrow> nif_context" where
  "s_context h = \<lparr>nx_handle = s_handle,
     nx_resolver = resolver_new s_workflow \<lparr>hc_events = h, hc_consumed = replicate (length h) False, hc_position = 0\<rparr>,
     nx_last_recorded_at = Some (recorded_at (last h))\<rparr>"

definition s_nif_world :: "(u64 \<times> pending_await) list \<Rightarrow> bool option \<Rightarrow> libsql_state nif_world" where
  "s_nif_world pending timed_out = \<lparr>nw_signals = s_signal_world [], nw_counters = (\<lambda>_. fresh_counters), nw_pending = pending,
     nw_scopes = [(7, \<lparr>sc_pid = 40, sc_timer_id = Anonymous 0, sc_replay_timed_out = timed_out\<rparr>)],
     nw_stacks = [(40, [7])], nw_next_scope = 8\<rparr>"

abbreviation s_arrived :: history where
  "s_arrived \<equiv> [s_started 1, TimerStarted (s_env 2) (Anonymous 0) 200, SignalReceived (s_env 3) ''go'' s_payload]"

abbreviation s_deadline_fired :: event where
  "s_deadline_fired \<equiv> TimerFired (s_env 4) (Anonymous 0)"

abbreviation s_render :: "payload \<Rightarrow> (string, string) result" where
  "s_render \<equiv> \<lambda>_. Inr ''text''"

lemma s_context_fresh: "fresh_context h (s_context h)"
  by (simp add: fresh_context_def s_context_def resolver_new_def)

lemma s_nif_world_simps [simp]: "signal_receives_consumed name (counters_of cx (s_nif_world pending timed_out)) = 0"
  "signal_sends_completed name (counters_of cx (s_nif_world pending timed_out)) = 0"
  "nw_pending (s_nif_world pending timed_out) = pending"
  "scopes_of 40 (s_nif_world pending timed_out) = [\<lparr>sc_pid = 40, sc_timer_id = Anonymous 0, sc_replay_timed_out = timed_out\<rparr>]"
  by (simp_all add: signal_receives_consumed_def signal_sends_completed_def counters_of_def s_nif_world_def fresh_counters_def scopes_of_def List.map_filter_def)

lemma s_receive_spec: "receive_spec ''go'' 0 [\<lparr>sc_pid = 40, sc_timer_id = Anonymous 0, sc_replay_timed_out = None\<rparr>] s_arrived = Some (Some s_payload)"
  by (simp add: receive_spec_def expired_deadline_of_def note_scope_def scope_expired_def timer_fired_seq_def overtaken_def)

lemma s_pin_ok: "pin_ok ''go'' 0 s_arrived 0"
  by (simp add: pin_ok_def)

theorem receive_takes_kth_arrival_witness:
  "\<exists>nw. receive_in_context s_render ''go'' 40 (s_context s_arrived) (s_nif_world [(40, PendingSignal 0)] None) = (Inr (ReceivedPayload ''text''), nw)"
  using receive_takes_kth_arrival [OF s_context_fresh, of s_arrived 0 "''go''" "s_nif_world [(40, PendingSignal 0)] None" 40 s_render] s_pin_ok s_receive_spec
  by auto

theorem receive_replays_witness:
  "\<exists>nw. receive_in_context s_render ''go'' 40 (s_context (s_arrived @ [s_deadline_fired])) (s_nif_world [] (Some True)) = (Inr (ReceivedPayload ''text''), nw)"
proof -
  let ?nw = "s_nif_world [(40, PendingSignal 0)] None"
  obtain nw1 where live: "receive_in_context s_render ''go'' 40 (s_context s_arrived) ?nw = (Inr (ReceivedPayload ''text''), nw1)"
    using receive_in_context_eq [OF s_context_fresh _ s_pin_ok, of 40 ?nw s_render] s_receive_spec
    by (auto simp: awaited_index_def receive_result_def)
  have sorted: "sorted_wrt (<) (map seq (s_arrived @ [s_deadline_fired]))" by (simp add: seq_def)
  have honest: "list_all (honest s_arrived) (scopes_of 40 ?nw)"
    "list_all (honest (s_arrived @ [s_deadline_fired])) (scopes_of 40 (s_nif_world [] (Some True)))"
    by (simp_all add: honest_def scope_expired_def timer_fired_seq_def)
  have "\<exists>nw1'. receive_in_context s_render ''go'' 40 (s_context (s_arrived @ [s_deadline_fired])) (s_nif_world [] (Some True)) = (Inr (ReceivedPayload ''text''), nw1')
    \<and> signal_receives_consumed ''go'' (counters_of (s_context (s_arrived @ [s_deadline_fired])) nw1')
      = signal_receives_consumed ''go'' (counters_of (s_context s_arrived) nw1)"
    by (rule receive_replays [OF s_context_fresh s_context_fresh _ sorted _ _ _ _ _ honest _ live, where k = 0]) (use s_pin_ok in simp_all)
  then show ?thesis by blast
qed

theorem recorded_send_not_repeated_witness:
  "fst (send_in_context libsql_store s_wake (\<lambda>_. True) (\<lambda>_ x. x) s_child ''go'' s_payload
     (s_context [s_started 1, SignalReceived (s_env 2) ''go'' s_payload, SignalSent (s_env 3) s_child ''go'' s_payload]) (s_nif_world [] None)) = Inr ()"
  using recorded_send_not_repeated [OF s_context_fresh, of "[s_started 1, SignalReceived (s_env 2) ''go'' s_payload, SignalSent (s_env 3) s_child ''go'' s_payload]"
    0 "''go''" "s_nif_world [] None" _ libsql_store s_wake "\<lambda>_. True" "\<lambda>_ x. x" s_child s_payload]
  by simp

end
