(* ===== verification/Workflow_Timers.thy ===== *)
theory Workflow_Timers
  imports Workflow_Signals Timer_Recovery
begin

text \<open>
  \<^verbatim>\<open>crates/aion/src/runtime/nif_timer.rs\<close> and \<^verbatim>\<open>nif_timeout.rs\<close>: the natives with which a workflow process sleeps, starts and cancels named
  timers, and runs an operation under a deadline.  A sleep is two-phased like a receive; a deadline scope is a durable timer that is cancelled
  when the operation returns, so that its recorded outcome tells which of the two came first.

  \<open>interfere n\<close> is what other tasks do to the engine at the \<open>n\<close>-th await of an operation; \<open>sleep_for\<close> is what happens while a
  context waits for its handle.  Decoding the arguments and running the closure of a deadline scope belong to the virtual
  machine and are not modelled.

  The lemmas show that sleeps and deadline scopes answer a replay as they answered the live run, that an author cannot forge
  an engine timer, and that a named timer that has been started cannot be cancelled.
\<close>

section \<open>Results\<close>

datatype timer_context_reason =
  ContextFailed nif_context_error
| AwaitPinned pending_await
| SleepIdNotAnonymous
| MismatchedSleepId
| NoTerminalAfterCancel timer_id

datatype nif_timer_error =
  TimerArgument string
| TimerContext timer_context_reason
| TimerDurability durability_error
| TimerService timer_service_error
| TimerSleep sleep_timer_error

datatype nif_result = NifOk string | NifError string | NifSuspend

fun from_context_error :: "nif_context_error \<Rightarrow> nif_timer_error" where
  "from_context_error (NifDurability e) = TimerDurability e"
| "from_context_error e = TimerContext (ContextFailed e)"

section \<open>Author timer names\<close>

definition RESERVED_TIMER_NAME_PREFIXES :: "string list" where
  "RESERVED_TIMER_NAME_PREFIXES = [DEADLINE_TIMER_PREFIX, ''schedule:'']"

definition author_timer_id :: "string \<Rightarrow> (nif_timer_error, timer_id) result" where
  "author_timer_id name =
     (case find (\<lambda>reserved. prefix reserved name) RESERVED_TIMER_NAME_PREFIXES of
        Some reserved \<Rightarrow> Inl (TimerArgument reserved)
      | None \<Rightarrow> map_err (\<lambda>_. TimerArgument name) (timer_named name))"

definition decode_timer_id_arg :: "string \<Rightarrow> (nif_timer_error, timer_id) result" where
  "decode_timer_id_arg raw =
     author_timer_id (case strip_prefix ''timer:named:'' raw of None \<Rightarrow> raw | Some name \<Rightarrow> name)"

definition timer_ref :: "timer_id \<Rightarrow> string" where
  "timer_ref t = (case timer_name t of None \<Rightarrow> ''anonymous'' | Some name \<Rightarrow> name)"

section \<open>Recording and scheduling\<close>

definition timer_command :: "timer_id \<Rightarrow> timestamp \<Rightarrow> command" where
  "timer_command t fire_at = StartTimer (KTimer t) fire_at"

text \<open>The epoch is the instant 0.\<close>

definition recorded_now :: "nif_context \<Rightarrow> timestamp" where
  "recorded_now cx = (case nx_last_recorded_at cx of None \<Rightarrow> 0 | Some at \<Rightarrow> at)"

fun terminal_mark :: "timer_id \<Rightarrow> event \<Rightarrow> bool option option" where
  "terminal_mark t (TimerStarted _ t' _) = (if t' = t then Some None else None)"
| "terminal_mark t (TimerFired _ t') = (if t' = t then Some (Some True) else None)"
| "terminal_mark t (TimerCancelled _ t' cause) =
     (if t' = t then Some (case cause of WorkflowIntent \<Rightarrow> Some False | CancelTeardown \<Rightarrow> None) else None)"
| "terminal_mark t _ = None"

definition timer_terminal_recorded :: "history \<Rightarrow> timer_id \<Rightarrow> bool option" where
  "timer_terminal_recorded h t = (case find_map (terminal_mark t) (rev h) of None \<Rightarrow> None | Some mark \<Rightarrow> mark)"

definition add_duration :: "'c calendar \<Rightarrow> timestamp \<Rightarrow> duration \<Rightarrow> (nif_timer_error, timestamp) result" where
  "add_duration cal now dur =
     bind_res (ok_or (cal_from_std cal dur) (TimerArgument ''duration is out of range'')) (\<lambda>d.
       ok_or (cal_checked_add cal now d) (TimerArgument ''timer fire_at overflowed''))"

definition record_started ::
  "'s event_store \<Rightarrow> nif_context \<Rightarrow> timestamp \<Rightarrow> timer_id \<Rightarrow> timestamp \<Rightarrow> 's engine \<Rightarrow> (nif_timer_error, unit) result \<times> 's engine" where
  "record_started ops cx at t fire_at en =
     (let (res, en') = block_on_recorder (record_timer_started ops at t fire_at) cx en in (map_err from_context_error res, en'))"

definition schedule_sleep_timer ::
  "'c calendar \<Rightarrow> 's timer_store \<Rightarrow> nif_context \<Rightarrow> duration \<Rightarrow> timestamp \<Rightarrow> timer_id \<Rightarrow> 's engine \<Rightarrow> (nif_timer_error, unit) result \<times> 's engine" where
  "schedule_sleep_timer cal tops cx dur now t en =
     (case timer_sequence_position t of
        None \<Rightarrow> (Inl (TimerContext SleepIdNotAnonymous), en)
      | Some n \<Rightarrow>
          (case sleep cal tops (wh_workflow_id (nx_handle cx)) dur now n en of
             (Inl e, en') \<Rightarrow> (Inl (TimerSleep e), en')
           | (Inr st, en') \<Rightarrow> (if st_timer_id st = t then Inr () else Inl (TimerContext MismatchedSleepId), en')))"

definition schedule_named_timer ::
  "'s timer_store \<Rightarrow> nif_context \<Rightarrow> timer_id \<Rightarrow> timestamp \<Rightarrow> 's engine \<Rightarrow> (nif_timer_error, unit) result \<times> 's engine" where
  "schedule_named_timer tops cx t fire_at en =
     (let (res, en') = start_timer tops (wh_workflow_id (nx_handle cx)) t fire_at en in (map_err TimerService res, en'))"

definition cancel_live_timer ::
  "'s event_store \<Rightarrow> 's interference \<Rightarrow> timestamp \<Rightarrow> nif_context \<Rightarrow> timer_id \<Rightarrow> 's engine \<Rightarrow> (nif_timer_error, unit) result \<times> 's engine" where
  "cancel_live_timer ops interfere now cx t en =
     (let (res, en') = cancel_timer ops interfere now (wh_workflow_id (nx_handle cx)) t en in (map_err TimerService res, en'))"

section \<open>Named timers\<close>

definition start_timer_in_context ::
  "'s event_store \<Rightarrow> 'c calendar \<Rightarrow> 's timer_store \<Rightarrow> 's interference \<Rightarrow> timer_id \<Rightarrow> duration \<Rightarrow> nif_context \<Rightarrow> 's engine
    \<Rightarrow> (nif_timer_error, nif_result) result \<times> 's engine" where
  "start_timer_in_context ops cal tops interfere t dur cx en =
     (let now = recorded_now cx
      in case add_duration cal now dur of
           Inl e \<Rightarrow> (Inl e, en)
         | Inr fire_at \<Rightarrow>
             (case resolve_command (timer_command t fire_at) cx of
                (Inl e, _) \<Rightarrow> (Inl (TimerDurability e), en)
              | (Inr (OutRecorded ResTimerStarted), _) \<Rightarrow> (Inr (NifOk (timer_ref t)), en)
              | (Inr (OutRecorded ResTimerFired), _) \<Rightarrow> (Inr (NifOk (timer_ref t)), en)
              | (Inr (OutRecorded ResTimerCancelled), _) \<Rightarrow> (Inr (NifError ''cancelled''), en)
              | (Inr (OutRecorded _), _) \<Rightarrow> (Inr (NifError ''start_timer history mismatch''), en)
              | (Inr OutResumeLive, cx') \<Rightarrow>
                  (case record_started ops cx' now t fire_at (interfere 0 en) of
                     (Inl e, en1) \<Rightarrow> (Inl e, en1)
                   | (Inr _, en1) \<Rightarrow>
                       (case schedule_named_timer tops cx' t fire_at (interfere 1 en1) of
                          (Inl e, en2) \<Rightarrow> (Inl e, en2)
                        | (Inr _, en2) \<Rightarrow> (Inr (NifOk (timer_ref t)), en2)))))"

definition cancel_timer_in_context ::
  "'s event_store \<Rightarrow> 's interference \<Rightarrow> timestamp \<Rightarrow> timer_id \<Rightarrow> nif_context \<Rightarrow> 's engine
    \<Rightarrow> (nif_timer_error, nif_result) result \<times> 's engine" where
  "cancel_timer_in_context ops interfere now t cx en =
     (case resolve_command (timer_command t (recorded_now cx)) cx of
        (Inl e, _) \<Rightarrow> (Inl (TimerDurability e), en)
      | (Inr (OutRecorded ResTimerCancelled), _) \<Rightarrow> (Inr (NifOk ''cancelled''), en)
      | (Inr (OutRecorded ResTimerFired), _) \<Rightarrow> (Inr (NifOk ''cancelled''), en)
      | (Inr (OutRecorded _), _) \<Rightarrow> (Inr (NifError ''cancel_timer history mismatch''), en)
      | (Inr OutResumeLive, cx') \<Rightarrow>
          (case cancel_live_timer ops interfere now cx' t en of
             (Inl e, en1) \<Rightarrow> (Inl e, en1)
           | (Inr _, en1) \<Rightarrow> (Inr (NifOk ''cancelled''), en1)))"

section \<open>Sleeping\<close>

text \<open>\<open>rebuild\<close> builds a fresh context for the calling process, which may wait for its handle.\<close>

type_synonym 's rebuild = "'s signal_world \<Rightarrow> ((nif_context_error, nif_context) result \<times> 's signal_world) option"

fun settled_result :: "timer_id \<Rightarrow> bool option \<Rightarrow> (nif_timer_error, nif_result) result" where
  "settled_result t (Some True) = Inr (NifOk ''fired'')"
| "settled_result t (Some False) = Inr (NifError ''cancelled'')"
| "settled_result t None = Inl (TimerContext (NoTerminalAfterCancel t))"

definition park_sleep ::
  "'s event_store \<Rightarrow> 's rebuild \<Rightarrow> 's interference \<Rightarrow> u64 \<Rightarrow> timer_id \<Rightarrow> timestamp \<Rightarrow> nif_context \<Rightarrow> 's nif_world
    \<Rightarrow> ((nif_timer_error, nif_result) result \<times> 's nif_world) option" where
  "park_sleep ops rebuild interfere pid t fire_at cx nw =
     (if expired_scope_deadline pid (context_history cx) nw \<noteq> None
      then (case cancel_live_timer ops interfere (sw_now (nw_signals nw)) cx t (nw_engine nw) of
              (Inl e, en) \<Rightarrow> Some (Inl e, with_engine en nw)
            | (Inr _, en) \<Rightarrow>
                (let nw1 = unpin pid (with_engine en nw)
                 in case rebuild (nw_signals (with_engine (interfere 4 en) nw1)) of
                      None \<Rightarrow> None
                    | Some (Inl e, sw) \<Rightarrow> Some (Inl (from_context_error e), nw1\<lparr>nw_signals := sw\<rparr>)
                    | Some (Inr settled, sw) \<Rightarrow>
                        Some (settled_result t (timer_terminal_recorded (context_history settled) t), nw1\<lparr>nw_signals := sw\<rparr>)))
      else Some (Inr NifSuspend, pin pid (PendingSleep t fire_at) nw))"

text \<open>The timer of a sleep: the pinned one, or the next ordinal of the run, which is used up also if the deadline is out of range.\<close>

definition sleep_identity ::
  "'c calendar \<Rightarrow> u64 \<Rightarrow> duration \<Rightarrow> nif_context \<Rightarrow> 's nif_world
    \<Rightarrow> (nif_timer_error, bool \<times> timer_id \<times> timestamp) result \<times> 's nif_world" where
  "sleep_identity cal pid dur cx nw =
     (case map_of (nw_pending nw) pid of
        Some (PendingSleep t fire_at) \<Rightarrow> (Inr (False, t, fire_at), nw)
      | Some other \<Rightarrow> (Inl (TimerContext (AwaitPinned other)), nw)
      | None \<Rightarrow>
          (let (n, rn) = allocate_timer_ordinals 1 (counters_of cx nw)
           in (bind_res (add_duration cal (recorded_now cx) dur) (\<lambda>fire_at. Inr (True, timer_anonymous n, fire_at)), set_counters cx rn nw)))"

definition sleep_live ::
  "'s event_store \<Rightarrow> 'c calendar \<Rightarrow> 's timer_store \<Rightarrow> 's interference \<Rightarrow> timer_id \<Rightarrow> timestamp \<Rightarrow> duration \<Rightarrow> nif_context \<Rightarrow> 's engine
    \<Rightarrow> (nif_timer_error, unit) result \<times> 's engine" where
  "sleep_live ops cal tops interfere t fire_at dur cx en =
     (case record_started ops cx (recorded_now cx) t fire_at (interfere 2 en) of
        (Inl e, en1) \<Rightarrow> (Inl e, en1)
      | (Inr _, en1) \<Rightarrow> schedule_sleep_timer cal tops cx dur (recorded_now cx) t (interfere 3 en1))"

definition sleep_in_context ::
  "'s event_store \<Rightarrow> 'c calendar \<Rightarrow> 's timer_store \<Rightarrow> 's rebuild \<Rightarrow> 's interference \<Rightarrow> u64 \<Rightarrow> duration \<Rightarrow> nif_context \<Rightarrow> 's nif_world
    \<Rightarrow> ((nif_timer_error, nif_result) result \<times> 's nif_world) option" where
  "sleep_in_context ops cal tops rebuild interfere pid dur cx nw =
     (case sleep_identity cal pid dur cx nw of
        (Inl e, nw1) \<Rightarrow> Some (Inl e, nw1)
      | (Inr (first_arrival, t, fire_at), nw1) \<Rightarrow>
          (case resolve_command (timer_command t fire_at) cx of
             (Inl e, _) \<Rightarrow> Some (Inl (TimerDurability e), nw1)
           | (Inr (OutRecorded ResTimerFired), _) \<Rightarrow> Some (Inr (NifOk ''fired''), unpin pid nw1)
           | (Inr (OutRecorded ResTimerCancelled), _) \<Rightarrow> Some (Inr (NifError ''cancelled''), unpin pid nw1)
           | (Inr (OutRecorded ResTimerStarted), cx') \<Rightarrow>
               (case timer_terminal_recorded (context_history cx') t of
                  Some b \<Rightarrow> Some (settled_result t (Some b), unpin pid nw1)
                | None \<Rightarrow> park_sleep ops rebuild interfere pid t fire_at cx' nw1)
           | (Inr (OutRecorded _), _) \<Rightarrow> Some (Inr (NifError ''sleep history mismatch''), nw1)
           | (Inr OutResumeLive, cx') \<Rightarrow>
               if first_arrival
               then (case sleep_live ops cal tops interfere t fire_at dur cx' (nw_engine nw1) of
                       (Inl e, en) \<Rightarrow> Some (Inl e, with_engine en nw1)
                     | (Inr _, en) \<Rightarrow> park_sleep ops rebuild interfere pid t fire_at cx' (with_engine en nw1))
               else park_sleep ops rebuild interfere pid t fire_at cx' nw1))"

section \<open>Deadline scopes\<close>

definition resolve_scope ::
  "'s event_store \<Rightarrow> 'c calendar \<Rightarrow> 's timer_store \<Rightarrow> 's interference \<Rightarrow> timer_id \<Rightarrow> timestamp \<Rightarrow> duration \<Rightarrow> nif_context \<Rightarrow> 's engine
    \<Rightarrow> (nif_timer_error, bool option) result \<times> 's engine" where
  "resolve_scope ops cal tops interfere t fire_at dur cx en =
     (case resolve_command (timer_command t fire_at) cx of
        (Inl e, _) \<Rightarrow> (Inl (TimerDurability e), en)
      | (Inr (OutRecorded ResTimerFired), _) \<Rightarrow> (Inr (Some True), en)
      | (Inr (OutRecorded ResTimerCancelled), _) \<Rightarrow> (Inr (Some False), en)
      | (Inr (OutRecorded ResTimerStarted), cx') \<Rightarrow> (Inr (timer_terminal_recorded (context_history cx') t), en)
      | (Inr (OutRecorded _), _) \<Rightarrow> (Inl (TimerArgument ''with_timeout history mismatch''), en)
      | (Inr OutResumeLive, cx') \<Rightarrow>
          (case sleep_live ops cal tops interfere t fire_at dur cx' en of
             (Inl e, en1) \<Rightarrow> (Inl e, en1)
           | (Inr _, en1) \<Rightarrow> (Inr None, en1)))"

definition push_scope :: "timeout_scope \<Rightarrow> 's nif_world \<Rightarrow> u64 \<times> 's nif_world" where
  "push_scope sc nw =
     (let state_id = nw_next_scope nw; pid = sc_pid sc
      in (state_id, nw\<lparr>nw_next_scope := state_id + 1, nw_scopes := AList.update state_id sc (nw_scopes nw),
           nw_stacks := AList.update pid ((case map_of (nw_stacks nw) pid of None \<Rightarrow> [] | Some stack \<Rightarrow> stack) @ [state_id]) (nw_stacks nw)\<rparr>))"

definition arm_scope ::
  "'s event_store \<Rightarrow> 'c calendar \<Rightarrow> 's timer_store \<Rightarrow> 's interference \<Rightarrow> u64 \<Rightarrow> duration \<Rightarrow> nif_context \<Rightarrow> 's nif_world
    \<Rightarrow> (nif_timer_error, u64) result \<times> 's nif_world" where
  "arm_scope ops cal tops interfere pid dur cx nw =
     (let (n, rn) = allocate_timer_ordinals 1 (counters_of cx nw); t = timer_anonymous n; nw1 = set_counters cx rn nw
      in case add_duration cal (recorded_now cx) dur of
           Inl e \<Rightarrow> (Inl e, nw1)
         | Inr fire_at \<Rightarrow>
             (case resolve_scope ops cal tops interfere t fire_at dur cx (nw_engine nw1) of
                (Inl e, en) \<Rightarrow> (Inl e, with_engine en nw1)
              | (Inr timed_out, en) \<Rightarrow>
                  (let (state_id, nw2) = push_scope \<lparr>sc_pid = pid, sc_timer_id = t, sc_replay_timed_out = timed_out\<rparr> (with_engine en nw1)
                   in (Inr state_id, nw2))))"

datatype timeout_failure = DeadlineExpired | ScopeMissing | NoDeadlineTerminal | ScopeFailed nif_timer_error

definition settle_live_scope ::
  "'s event_store \<Rightarrow> 's rebuild \<Rightarrow> 's interference \<Rightarrow> timeout_scope \<Rightarrow> 's signal_world \<Rightarrow> ((timeout_failure, bool) result \<times> 's signal_world) option" where
  "settle_live_scope ops rebuild interfere sc sw =
     (case rebuild sw of
        None \<Rightarrow> None
      | Some (Inl e, sw1) \<Rightarrow> Some (Inl (ScopeFailed (from_context_error e)), sw1)
      | Some (Inr cx, sw1) \<Rightarrow>
          (case cancel_live_timer ops interfere (sw_now sw1) cx (sc_timer_id sc) (sw_engine sw1) of
             (Inl e, en) \<Rightarrow> Some (Inl (ScopeFailed e), sw1\<lparr>sw_engine := en\<rparr>)
           | (Inr _, en) \<Rightarrow>
               (case rebuild (sw1\<lparr>sw_engine := interfere 4 en\<rparr>) of
                  None \<Rightarrow> None
                | Some (Inl e, sw2) \<Rightarrow> Some (Inl (ScopeFailed (from_context_error e)), sw2)
                | Some (Inr settled, sw2) \<Rightarrow>
                    Some (ok_or (timer_terminal_recorded (context_history settled) (sc_timer_id sc)) NoDeadlineTerminal, sw2))))"

text \<open>The end of a scope: \<open>closure_result\<close> is what the wrapped operation returned.\<close>

definition resume_with_timeout ::
  "'s event_store \<Rightarrow> 's rebuild \<Rightarrow> 's interference \<Rightarrow> u64 \<Rightarrow> 'a \<Rightarrow> 's nif_world \<Rightarrow> ((timeout_failure, 'a) result \<times> 's nif_world) option" where
  "resume_with_timeout ops rebuild interfere state_id closure_result nw =
     (case map_of (nw_scopes nw) state_id of
        None \<Rightarrow> Some (Inl ScopeMissing, nw)
      | Some sc \<Rightarrow>
          (let nw1 = nw\<lparr>nw_scopes := AList.delete state_id (nw_scopes nw),
                        nw_stacks := AList.map_entry (sc_pid sc) (filter (\<lambda>entry. entry \<noteq> state_id)) (nw_stacks nw)\<rparr>;
               outcome = (\<lambda>timed_out. if timed_out then Inl DeadlineExpired else Inr closure_result)
           in case sc_replay_timed_out sc of
                Some timed_out \<Rightarrow> Some (outcome timed_out, nw1)
              | None \<Rightarrow>
                  (case settle_live_scope ops rebuild interfere sc (nw_signals nw1) of
                     None \<Rightarrow> None
                   | Some (Inl e, sw) \<Rightarrow> Some (Inl e, nw1\<lparr>nw_signals := sw\<rparr>)
                   | Some (Inr timed_out, sw) \<Rightarrow> Some (outcome timed_out, nw1\<lparr>nw_signals := sw\<rparr>))))"

section \<open>The outcome of a timer\<close>

fun settle_mark :: "timer_id \<Rightarrow> event \<Rightarrow> bool option" where
  "settle_mark t (TimerFired _ t') = (if t' = t then Some True else None)"
| "settle_mark t (TimerCancelled _ t' cause) = (if t' = t \<and> cause = WorkflowIntent then Some False else None)"
| "settle_mark t _ = None"

definition settlement :: "history \<Rightarrow> timer_id \<Rightarrow> bool option" where
  "settlement h t = find_map (settle_mark t) h"

text \<open>A timer is regular in a history if nothing of it follows the event that settles it.\<close>

fun settled_last :: "timer_id \<Rightarrow> history \<Rightarrow> bool" where
  "settled_last t [] = True"
| "settled_last t (e # es) =
     (if settle_mark t e \<noteq> None then list_all (\<lambda>e. terminal_mark t e = None) es else settled_last t es)"

fun completes_scope :: "timer_id \<Rightarrow> event \<Rightarrow> bool" where
  "completes_scope t (WithTimeoutCompleted _ t' _ _) = (t' = t)"
| "completes_scope t _ = False"

definition regular_timer :: "timer_id \<Rightarrow> history \<Rightarrow> bool" where
  "regular_timer t h \<longleftrightarrow> settled_last t h \<and> \<not> list_ex (completes_scope t) h"

lemma settle_mark_terminal: "settle_mark t e = Some b \<Longrightarrow> terminal_mark t e = Some (Some b)"
  by (cases e) (auto split: if_splits timer_cancel_cause.splits)

lemma settle_mark_NoneD: "settle_mark t e = None \<Longrightarrow> terminal_mark t e = None \<or> terminal_mark t e = Some None"
  by (cases e) (auto split: if_splits timer_cancel_cause.splits)

lemma terminal_mark_NoneD: "terminal_mark t e = None \<Longrightarrow> settle_mark t e = None"
  using settle_mark_terminal by (cases "settle_mark t e") force+

lemma terminal_recorded_eq: "settled_last t h \<Longrightarrow> timer_terminal_recorded h t = settlement h t"
proof (induction h)
  case (Cons e h)
  show ?case
  proof (cases "settle_mark t e")
    case None
    with Cons have "timer_terminal_recorded h t = settlement h t" by simp
    with None settle_mark_NoneD [OF None] show ?thesis
      by (auto simp: timer_terminal_recorded_def settlement_def find_map_append split: option.splits)
  next
    case (Some b)
    with Cons.prems have "find_map (terminal_mark t) (rev h) = None" by (simp add: find_map_None_iff list_all_iff)
    with Some settle_mark_terminal [OF Some] show ?thesis
      by (simp add: timer_terminal_recorded_def settlement_def find_map_append)
  qed
qed (simp add: timer_terminal_recorded_def settlement_def)

lemma settlement_unique:
  assumes "settled_last t h" and "e \<in> set h" and "settle_mark t e = Some b"
  shows "settlement h t = Some b"
  using assms
proof (induction h)
  case (Cons x h)
  show ?case
  proof (cases "settle_mark t x")
    case None
    with Cons show ?thesis by (auto simp: settlement_def)
  next
    case (Some c)
    with Cons.prems have "e = x" using settle_mark_terminal [OF Cons.prems(3)] by (auto simp: list_all_iff)
    with Some Cons.prems(3) show ?thesis by (simp add: settlement_def)
  qed
qed simp

lemma settlement_append: "settlement h t = Some b \<Longrightarrow> settlement (h @ u) t = Some b"
  by (simp add: settlement_def find_map_append)

lemma settled_last_prefix: "settled_last t (h @ u) \<Longrightarrow> settled_last t h"
  by (induction h) (auto split: if_splits)

lemma regular_prefix: "regular_timer t (h @ u) \<Longrightarrow> regular_timer t h"
  using settled_last_prefix by (auto simp: regular_timer_def)

lemma fired_iff_settlement: "settled_last t h \<Longrightarrow> timer_fired_seq h t \<noteq> None \<longleftrightarrow> settlement h t = Some True"
proof
  assume sl: "settled_last t h"
  {
    assume "timer_fired_seq h t \<noteq> None"
    then obtain e s where e: "e \<in> set h" "fired_seq_of t e = Some s" unfolding timer_fired_seq_def by (blast dest: find_map_SomeD)
    from e(2) have "settle_mark t e = Some True" by (cases e) (auto split: if_splits)
    from settlement_unique [OF sl e(1) this] show "settlement h t = Some True" .
  }
  assume "settlement h t = Some True"
  then obtain e where e: "e \<in> set h" "settle_mark t e = Some True" unfolding settlement_def by (blast dest: find_map_SomeD)
  from e(2) have "fired_seq_of t e \<noteq> None" by (cases e) (auto split: if_splits)
  with e(1) show "timer_fired_seq h t \<noteq> None" by (auto simp: timer_fired_seq_def find_map_None_iff)
qed

lemma immediate_outcome_cases:
  assumes "\<not> completes_scope t e"
  shows "immediate_outcome t e = ResTimerStarted \<or> immediate_outcome t e = ResTimerFired \<and> settle_mark t e = Some True
    \<or> immediate_outcome t e = ResTimerCancelled \<and> settle_mark t e = Some False"
  using assms by (cases e) simp_all

text \<open>What the history answers a timer command with, for a regular timer.\<close>

lemma resolve_regular:
  assumes "fresh_context h cx" and "regular_timer t h" and "resolve_command (timer_command t fire_at) cx = (res, cx')"
  shows "if list_ex (starts_timer t) h
    then (\<exists>b. res = Inr (OutRecorded (if b then ResTimerFired else ResTimerCancelled)) \<and> settlement h t = Some b)
       \<or> (res = Inr (OutRecorded ResTimerStarted) \<and> timer_terminal_recorded (context_history cx') t = settlement h t)
    else res = Inr OutResumeLive"
proof -
  have sl: "settled_last t h" and ncs: "\<not> list_ex (completes_scope t) h" using assms(2) by (simp_all add: regular_timer_def)
  have res: "res = Inr (case position (starts_timer t) h of
           None \<Rightarrow> OutResumeLive
         | Some i \<Rightarrow> OutRecorded (case get h (i + 1) of None \<Rightarrow> ResTimerStarted | Some e \<Rightarrow> immediate_outcome t e))"
    using resolve_timer [OF assms(1), of "timer_command t fire_at" t] assms(3) by (simp add: timer_command_def)
  have cx': "timer_terminal_recorded (context_history cx') t = settlement h t"
    using resolve_command_keeps(2) [OF assms(1,3)] terminal_recorded_eq [OF sl] by simp
  show ?thesis
  proof (cases "position (starts_timer t) h")
    case None
    then have "\<not> list_ex (starts_timer t) h" by (auto simp: position_None_iff list_ex_iff)
    with None res show ?thesis by simp
  next
    case (Some i)
    then have st: "list_ex (starts_timer t) h" using position_SomeD [OF Some] nth_mem by (auto simp: list_ex_iff)
    show ?thesis
    proof (cases "get h (i + 1)")
      case None
      with Some st res cx' show ?thesis by simp
    next
      case e: (Some e)
      then have mem: "e \<in> set h" by (auto simp: get_def split: if_splits)
      have "\<not> completes_scope t e" using mem ncs by (auto simp: list_ex_iff)
      from immediate_outcome_cases [OF this] consider "immediate_outcome t e = ResTimerStarted"
        | "immediate_outcome t e = ResTimerFired" "settlement h t = Some True"
        | "immediate_outcome t e = ResTimerCancelled" "settlement h t = Some False"
        using settlement_unique [OF sl mem] by blast
      then show ?thesis
        by cases (use Some st res cx' e in auto)
    qed
  qed
qed

lemma poll_process_handle:
  assumes "poll_process sleep_for max_backoff pid deadline backoff sw = Some res"
  shows "fst res \<noteq> None \<longrightarrow> handle_of_process pid (snd res) = fst res"
proof (rule poll_process.raw_induct [OF _ assms, where P = "\<lambda>sleep_for max_backoff pid deadline backoff sw res. fst res \<noteq> None \<longrightarrow> handle_of_process pid (snd res) = fst res"])
  fix poll sleep_for max_backoff pid deadline backoff and sw :: "'a signal_world" and res
  assume "\<And>sleep_for max_backoff pid deadline backoff (sw :: 'a signal_world) res.
      poll sleep_for max_backoff pid deadline backoff sw = Some res \<Longrightarrow> fst res \<noteq> None \<longrightarrow> handle_of_process pid (snd res) = fst res"
    and "(if sw_now sw < deadline
      then (let sw1 = sleep_for backoff sw
            in case handle_of_process pid sw1 of
                 Some hnd \<Rightarrow> Some (Some hnd, sw1)
               | None \<Rightarrow> poll sleep_for max_backoff pid deadline (min (backoff * 2) max_backoff) sw1)
      else Some (None, sw)) = Some res"
  then show "fst res \<noteq> None \<longrightarrow> handle_of_process pid (snd res) = fst res"
    by (cases "sw_now sw < deadline"; cases "handle_of_process pid (sleep_for backoff sw)") (auto simp: Let_def)
qed

text \<open>The history a process would see now.\<close>

definition visible_history :: "'s event_store \<Rightarrow> u64 \<Rightarrow> 's signal_world \<Rightarrow> history option" where
  "visible_history ops pid sw =
     (case handle_of_process pid sw of
        None \<Rightarrow> None
      | Some hnd \<Rightarrow>
          (let en = sw_engine sw
           in case es_read_history ops (rc_workflow_id (en_recorders en (wh_recorder hnd))) (en_store en) of
                Inl _ \<Rightarrow> None
              | Inr H \<Rightarrow> (case current_run_segment H (wh_run_id hnd) of Inl _ \<Rightarrow> None | Inr g \<Rightarrow> Some g)))"

lemma context_new_fresh:
  assumes "context_new ops sleep_for c pid sw = Some (Inr cx, sw')"
  shows "fresh_context (context_history cx) cx \<and> visible_history ops pid sw' = Some (context_history cx)"
proof -
  from assms obtain hnd H where res: "resolve_handle_with_birth_wait sleep_for c pid sw = Some (Inr hnd, sw')"
    and H: "es_read_history ops (rc_workflow_id (en_recorders (sw_engine sw') (wh_recorder hnd))) (en_store (sw_engine sw')) = Inr H"
    and over: "context_over hnd H = Inr cx"
    by (auto simp: context_new_def Let_def split: option.splits prod.splits sum.splits elim!: map_err.elims bind_res.elims)
  have "handle_of_process pid sw' = Some hnd"
    using res poll_process_handle [where sleep_for = sleep_for and pid = pid]
    by (auto simp: resolve_handle_with_birth_wait_def split: option.splits elim!: ok_or.elims)
  moreover from over obtain g where "current_run_segment H (wh_run_id hnd) = Inr g" "context_history cx = g" "fresh_context g cx" "nx_handle cx = hnd"
    by (auto simp: context_over_def cursor_new_def fresh_context_def context_history_def resolver_new_def split: option.splits elim!: bind_res.elims)
  ultimately show ?thesis using H by (simp add: visible_history_def Let_def)
qed

lemma sleep_from_settlement:
  assumes "fresh_context h cx" and "regular_timer t h" and "list_ex (starts_timer t) h" and "settlement h t = Some b"
    and "sleep_identity cal pid dur cx nw = (Inr (first_arrival, t, fire_at), nw1)"
  shows "sleep_in_context ops cal tops rebuild interfere pid dur cx nw = Some (settled_result t (Some b), unpin pid nw1)"
proof -
  obtain res cx' where r: "resolve_command (timer_command t fire_at) cx = (res, cx')" by fastforce
  from resolve_regular [OF assms(1,2) r] assms(3,4)
  have "res = Inr (OutRecorded (if b then ResTimerFired else ResTimerCancelled))
      \<or> res = Inr (OutRecorded ResTimerStarted) \<and> timer_terminal_recorded (context_history cx') t = Some b" by auto
  then show ?thesis using r assms(5) by (cases b) (auto simp: sleep_in_context_def)
qed

lemma park_sleep_answer:
  assumes "park_sleep ops rebuild interfere pid t fire_at cx nw = Some (Inr r, nw')" and "r \<noteq> NifSuspend"
  shows "\<exists>sw cx2. rebuild sw = Some (Inr cx2, nw_signals nw') \<and> settled_result t (timer_terminal_recorded (context_history cx2) t) = Inr r"
  using assms by (auto simp: park_sleep_def Let_def split: if_splits prod.splits sum.splits option.splits) blast

lemma sleep_answer:
  assumes "sleep_in_context ops cal tops rebuild interfere pid dur cx nw = Some (Inr r, nw')" and "r \<noteq> NifSuspend"
    and "sleep_identity cal pid dur cx nw = (Inr (first_arrival, t, fire_at), nw1)"
    and "resolve_command (timer_command t fire_at) cx = (res, cx')"
  shows "(\<exists>b. settled_result t (Some b) = Inr r \<and> (res = Inr (OutRecorded (if b then ResTimerFired else ResTimerCancelled))
            \<or> res = Inr (OutRecorded ResTimerStarted) \<and> timer_terminal_recorded (context_history cx') t = Some b))
    \<or> (\<exists>other. res = Inr (OutRecorded other) \<and> other \<notin> {ResTimerFired, ResTimerCancelled, ResTimerStarted})
    \<or> (\<exists>sw cx2. rebuild sw = Some (Inr cx2, nw_signals nw') \<and> settled_result t (timer_terminal_recorded (context_history cx2) t) = Inr r)"
proof (cases res)
  case (Inl e)
  with assms show ?thesis by (simp add: sleep_in_context_def)
next
  case (Inr out)
  show ?thesis
  proof (cases out)
    case (OutRecorded o')
    consider (settled) b where "o' = (if b then ResTimerFired else ResTimerCancelled)" | (started) "o' = ResTimerStarted"
      | (other) "o' \<notin> {ResTimerFired, ResTimerCancelled, ResTimerStarted}" by (metis (full_types) empty_iff insertE)
    then show ?thesis
    proof cases
      case settled
      with OutRecorded Inr assms have "settled_result t (Some b) = Inr r" by (cases b) (simp_all add: sleep_in_context_def)
      with settled OutRecorded Inr show ?thesis by blast
    next
      case started
      show ?thesis
      proof (cases "timer_terminal_recorded (context_history cx') t")
        case None
        with started OutRecorded Inr assms have "park_sleep ops rebuild interfere pid t fire_at cx' nw1 = Some (Inr r, nw')" by (simp add: sleep_in_context_def)
        from park_sleep_answer [OF this assms(2)] show ?thesis by blast
      next
        case (Some b)
        with started OutRecorded Inr assms have "settled_result t (Some b) = Inr r" by (simp add: sleep_in_context_def)
        with Some started OutRecorded Inr show ?thesis by blast
      qed
    qed (use OutRecorded Inr in blast)
  next
    case OutResumeLive
    with Inr assms obtain nw2 where "park_sleep ops rebuild interfere pid t fire_at cx' nw2 = Some (Inr r, nw')"
      by (auto simp: sleep_in_context_def split: if_splits prod.splits sum.splits)
    from park_sleep_answer [OF this assms(2)] show ?thesis by blast
  qed
qed

section \<open>Properties\<close>

text \<open>C4: a replayed sleep answers as the live one did.  A sleep that has answered leaves a history of the run, which extends the one it saw, such that
  the sleep of the same timer on every continuation of that history, in which the timer is regular, gives the same
  answer from the history alone: a sleep cut short by an enclosing deadline answers by what the timer service recorded
  first, the fire or the cancel.\<close>

theorem sleep_replays:
  assumes "fresh_context h cx" and "sleep_identity cal pid dur cx nw = (Inr (first_arrival, t, fire_at), nw1)"
    and "sleep_in_context ops cal tops (context_new ops sleep_for c pid) interfere pid dur cx nw = Some (Inr r, nw')" and "r \<noteq> NifSuspend"
    and "visible_history ops pid (nw_signals nw') = Some g" and "prefix h g"
    and "regular_timer t (g @ u)" and "list_ex (starts_timer t) (g @ u)"
    and "fresh_context (g @ u) cx'" and "sleep_identity cal' pid' dur' cx' nw2 = (Inr (first', t, fire'), nw3)"
  shows "sleep_in_context ops cal' tops' rebuild' interfere' pid' dur' cx' nw2 = Some (Inr r, unpin pid' nw3)"
proof -
  obtain res cxr where r: "resolve_command (timer_command t fire_at) cx = (res, cxr)" by fastforce
  obtain v where g: "g = h @ v" using assms(6) by (auto simp: prefix_def)
  have reg_g: "regular_timer t g" and reg_h: "regular_timer t h"
    using assms(7) regular_prefix [of t g u] regular_prefix [of t h v] by (simp_all add: g)
  have "\<exists>b. settlement g t = Some b \<and> settled_result t (Some b) = Inr r"
    using sleep_answer [OF assms(3,4,2) r]
  proof (elim disjE exE conjE)
    fix b
    assume b: "settled_result t (Some b) = Inr r" and "res = Inr (OutRecorded (if b then ResTimerFired else ResTimerCancelled))"
    with resolve_regular [OF assms(1) reg_h r] have "settlement h t = Some b" by (auto split: if_splits)
    with b settlement_append g show ?thesis by blast
  next
    fix b
    assume b: "settled_result t (Some b) = Inr r" and "res = Inr (OutRecorded ResTimerStarted)" "timer_terminal_recorded (context_history cxr) t = Some b"
    with resolve_regular [OF assms(1) reg_h r] have "settlement h t = Some b" by (auto split: if_splits)
    with b settlement_append g show ?thesis by blast
  next
    fix other
    assume "res = Inr (OutRecorded other)" "other \<notin> {ResTimerFired, ResTimerCancelled, ResTimerStarted}"
    with resolve_regular [OF assms(1) reg_h r] show ?thesis by (auto split: if_splits)
  next
    fix sw cx2
    assume "context_new ops sleep_for c pid sw = Some (Inr cx2, nw_signals nw')" and b: "settled_result t (timer_terminal_recorded (context_history cx2) t) = Inr r"
    from context_new_fresh [OF this(1)] assms(5) have "context_history cx2 = g" by simp
    with b reg_g show ?thesis by (cases "settlement g t") (auto simp: regular_timer_def terminal_recorded_eq)
  qed
  then show ?thesis
    using sleep_from_settlement [OF assms(9,7,8) settlement_append assms(10)] by auto
qed

text \<open>C5: a replayed deadline scope ends as the live one did.  When a live scope is settled, the operation or the deadline having come first, every replay on
  a continuation of the history it leaves, in which the scope's timer is regular, finds that outcome in the history and arms nothing; and its scope
  counts as expired for the awaits inside exactly if the history has the fire.\<close>

theorem timeout_replays:
  assumes "settle_live_scope ops (context_new ops sleep_for c pid) interfere sc sw = Some (Inr timed_out, sw')" and "t = sc_timer_id sc"
    and "visible_history ops pid sw' = Some g" and "regular_timer t (g @ u)" and "list_ex (starts_timer t) (g @ u)"
    and "fresh_context (g @ u) cx'"
  shows "resolve_scope ops cal tops interfere' t fire_at dur cx' en = (Inr (Some timed_out), en)
    \<and> honest (g @ u) \<lparr>sc_pid = pid', sc_timer_id = t, sc_replay_timed_out = Some timed_out\<rparr>"
proof -
  obtain sw1 cx2 where "context_new ops sleep_for c pid sw1 = Some (Inr cx2, sw')" and b: "timer_terminal_recorded (context_history cx2) t = Some timed_out"
    using assms(1,2) by (auto simp: settle_live_scope_def split: option.splits prod.splits sum.splits elim!: ok_or.elims)
  from context_new_fresh [OF this(1)] assms(3) have "context_history cx2 = g" by simp
  with b regular_prefix [OF assms(4)] have "settlement g t = Some timed_out" by (simp add: regular_timer_def terminal_recorded_eq)
  then have set: "settlement (g @ u) t = Some timed_out" by (rule settlement_append)
  obtain res cx'' where r: "resolve_command (timer_command t fire_at) cx' = (res, cx'')" by fastforce
  have "resolve_scope ops cal tops interfere' t fire_at dur cx' en = (Inr (Some timed_out), en)"
    using resolve_regular [OF assms(6,4) r] assms(5) set r by (auto simp: resolve_scope_def)
  moreover have "honest (g @ u) \<lparr>sc_pid = pid', sc_timer_id = t, sc_replay_timed_out = Some timed_out\<rparr>"
    using fired_iff_settlement [of t "g @ u"] assms(4) set by (simp add: honest_def scope_expired_def regular_timer_def)
  ultimately show ?thesis by blast
qed

text \<open>C36: a named timer that has been started cannot be cancelled.  The cancel is resolved as if it were the command that started the timer: unless the
  timer's outcome is the very next event after its start, the recorded start is taken for a mismatch, so that the workflow gets an
  error and the timer is neither cancelled nor disarmed.\<close>

theorem started_timer_not_cancelled:
  assumes "fresh_context h cx" and "position (starts_timer t) h = Some i"
    and "case get h (i + 1) of None \<Rightarrow> True | Some e \<Rightarrow> immediate_outcome t e = ResTimerStarted"
  shows "cancel_timer_in_context ops interfere now t cx en = (Inr (NifError ''cancel_timer history mismatch''), en)"
proof -
  obtain res cx' where r: "resolve_command (timer_command t (recorded_now cx)) cx = (res, cx')" by fastforce
  have "res = Inr (OutRecorded ResTimerStarted)"
    using resolve_timer [OF assms(1), of "timer_command t (recorded_now cx)" t] r assms(2,3) by (auto simp: timer_command_def split: option.splits)
  with r show ?thesis by (simp add: cancel_timer_in_context_def)
qed

lemma author_timer_not_reserved:
  "decode_timer_id_arg raw = Inr t \<Longrightarrow> \<not> is_deadline_timer t \<and> (\<exists>name. t = Named name \<and> name \<noteq> [] \<and> \<not> prefix ''schedule:'' name)"
  by (auto simp: decode_timer_id_arg_def author_timer_id_def RESERVED_TIMER_NAME_PREFIXES_def timer_named_def is_deadline_timer_def timer_name_def
           split: option.splits if_splits)

section \<open>The properties at a sample run\<close>

abbreviation s_asleep :: history where
  "s_asleep \<equiv> [s_started 1, TimerStarted (s_env 2) (Anonymous 0) 200, SignalReceived (s_env 3) ''go'' s_payload, TimerFired (s_env 4) (Anonymous 0)]"

definition s_sleeping_world :: "history \<Rightarrow> libsql_state nif_world" where
  "s_sleeping_world h = (s_nif_world [(40, PendingSleep (Anonymous 0) 200)] None)\<lparr>nw_signals := (s_signal_world [])\<lparr>sw_engine := s_engine h\<rparr>\<rparr>"

lemma s_asleep_contiguous: "contiguous s_asleep"
  by (simp add: seq_def)

lemma s_visible: "contiguous h \<Longrightarrow> position (starts_run s_run) h = Some 0 \<Longrightarrow> visible_history libsql_store 40 (nw_signals (s_sleeping_world h)) = Some h"
  using libsql.read_back [OF s_database_inv, of h s_workflow]
  by (simp add: visible_history_def handle_of_process_def s_sleeping_world_def s_nif_world_def s_signal_world_def s_engine_def registry_list_def
        s_handle_def s_handle_for_def s_database_rows current_run_segment_def)

lemma s_asleep_facts:
  "regular_timer (Anonymous 0) (s_asleep @ [SignalReceived (s_env 5) ''go'' s_payload])"
  "list_ex (starts_timer (Anonymous 0)) (s_asleep @ [SignalReceived (s_env 5) ''go'' s_payload])"
  "settlement s_asleep (Anonymous 0) = Some True" "regular_timer (Anonymous 0) s_asleep" "list_ex (starts_timer (Anonymous 0)) s_asleep"
  by (simp_all add: regular_timer_def settlement_def)

lemma s_sleep_again:
  "sleep_identity s_calendar 40 5 (s_context h) (s_nif_world [] None) =
     (Inr (True, Anonymous 0, recorded_now (s_context h) + 5), set_counters (s_context h) (fresh_counters\<lparr>rn_timers := 1\<rparr>) (s_nif_world [] None))"
  by (simp add: sleep_identity_def add_duration_def s_calendar_def allocate_timer_ordinals_def counters_of_def fresh_counters_def
        timer_anonymous_def s_nif_world_def)

theorem sleep_replays_witness:
  "\<exists>nw. sleep_in_context libsql_store s_calendar (libsql_timers decimal_uuid timer_ref) (\<lambda>_. None) (\<lambda>_ x. x) 40 5
     (s_context (s_asleep @ [SignalReceived (s_env 5) ''go'' s_payload])) (s_nif_world [] None) = Some (Inr (NifOk ''fired''), nw)"
proof -
  let ?nw = "s_sleeping_world s_asleep"
  have id: "sleep_identity s_calendar 40 5 (s_context s_asleep) ?nw = (Inr (False, Anonymous 0, 200), ?nw)"
    by (simp add: sleep_identity_def s_sleeping_world_def)
  have live: "sleep_in_context libsql_store s_calendar (libsql_timers decimal_uuid timer_ref) (context_new libsql_store (\<lambda>_ x. x) c 40) (\<lambda>_ x. x) 40 5 (s_context s_asleep) ?nw
      = Some (Inr (NifOk ''fired''), unpin 40 ?nw)" for c
    using sleep_from_settlement [OF s_context_fresh s_asleep_facts(4,5,3) id] by simp
  have vis: "visible_history libsql_store 40 (nw_signals (unpin 40 ?nw)) = Some s_asleep"
    using s_visible [OF s_asleep_contiguous] by (simp add: unpin_def)
  show ?thesis
    using sleep_replays [OF s_context_fresh id live _ vis _ s_asleep_facts(1,2) s_context_fresh s_sleep_again] by blast
qed

lemma s_rebuild:
  assumes "contiguous h" and "position (starts_run s_run) h = Some 0" and "sorted (map seq h)"
  shows "context_new libsql_store sleep_for c 40 (nw_signals (s_sleeping_world h)) = Some (Inr (s_context h), nw_signals (s_sleeping_world h))"
proof -
  have "h \<noteq> []" using assms(2) by auto
  then show ?thesis
    using libsql.read_back [OF s_database_inv [OF assms(1)], of s_workflow] assms
    by (simp add: context_new_def resolve_handle_with_birth_wait_def handle_of_process_def s_sleeping_world_def s_nif_world_def s_signal_world_def
          s_engine_def registry_list_def s_handle_def s_handle_for_def s_database_rows context_over_def current_run_segment_def cursor_new_def
          decreasing_pair_None_iff [THEN iffD2] s_context_def Let_def)
qed

theorem timeout_replays_witness:
  "fst (resolve_scope libsql_store s_calendar (libsql_timers decimal_uuid timer_ref) (\<lambda>_ x. x) (Anonymous 0) 200 5
     (s_context (s_asleep @ [SignalReceived (s_env 5) ''go'' s_payload])) (s_engine s_asleep)) = Inr (Some True)"
proof -
  let ?sc = "\<lparr>sc_pid = 40, sc_timer_id = Anonymous 0, sc_replay_timed_out = None\<rparr>" and ?sw = "nw_signals (s_sleeping_world s_asleep)"
  have start: "position (starts_run s_run) s_asleep = Some 0" and sorted: "sorted (map seq s_asleep)" by (simp_all add: seq_def)
  note rebuild = s_rebuild [OF s_asleep_contiguous start sorted]
  have dead: "timer_is_live libsql_store s_workflow (Anonymous 0) (s_database s_asleep) = Inr False"
    using libsql_live [OF s_database_inv [OF s_asleep_contiguous], of s_workflow "Anonymous 0"]
    by (simp add: s_database_rows live_timers_in_active_segment_def active_segment_def rposition_def)
  have fired: "timer_terminal_recorded s_asleep (Anonymous 0) = Some True" by (simp add: timer_terminal_recorded_def)
  have "settle_live_scope libsql_store (context_new libsql_store (\<lambda>_ x. x) c 40) (\<lambda>_ x. x) ?sc ?sw = Some (Inr True, ?sw)" for c
    using rebuild dead fired
    by (simp add: settle_live_scope_def cancel_live_timer_def cancel_timer_def cancel_guarded_def s_sleeping_world_def s_context_def s_handle_def s_handle_for_def
          context_history_def resolver_new_def)
  note replayed = timeout_replays [OF this refl s_visible [OF s_asleep_contiguous start], of "[SignalReceived (s_env 5) ''go'' s_payload]",
      unfolded timeout_scope.simps, OF s_asleep_facts(1,2) s_context_fresh, THEN conjunct1]
  show ?thesis by (rule trans [OF arg_cong [where f = fst, OF replayed]]) simp
qed

theorem started_timer_not_cancelled_witness:
  "let h = [s_started 1, TimerStarted (s_env 2) (Named ''t'') 200, SignalReceived (s_env 3) ''go'' s_payload]
   in cancel_timer_in_context libsql_store (\<lambda>_ x. x) 9 (Named ''t'') (s_context h) (s_engine h) = (Inr (NifError ''cancel_timer history mismatch''), s_engine h)
    \<and> Named ''t'' \<in> set (live_timers_in_active_segment h)"
  unfolding Let_def
proof
  let ?h = "[s_started 1, TimerStarted (s_env 2) (Named ''t'') 200, SignalReceived (s_env 3) ''go'' s_payload]"
  show "cancel_timer_in_context libsql_store (\<lambda>_ x. x) 9 (Named ''t'') (s_context ?h) (s_engine ?h) = (Inr (NifError ''cancel_timer history mismatch''), s_engine ?h)"
    by (rule started_timer_not_cancelled [OF s_context_fresh, where i = 1]) simp_all
  show "Named ''t'' \<in> set (live_timers_in_active_segment ?h)"
    by (simp add: live_timers_in_active_segment_def active_segment_def rposition_def)
qed

end
