(* ===== verification/Writers.thy ===== *)
theory Writers
  imports Fan_Out
begin

text \<open>
  Every recorder of \<^verbatim>\<open>recorder.rs\<close> and \<^verbatim>\<open>recorder/fan_out.rs\<close> interleaved: any number of them over one
  store, created at any head, taking turns in any order.  A turn is a whole operation, or one of the store
  calls an operation consists of, since other tasks run at every await in between.

  The lemmas hold over every store that satisfies the event-store contract.
\<close>

section \<open>The store calls of the recorders\<close>

text \<open>What one call of an operation does with the recorder and the store.  The first group are the whole
  operations, those that number several events at once included; the second group are the parts other
  tasks may separate: an append without what follows it, the settling of outbox rows and the visibility
  projection that follow (the projected record may be of an earlier history), and the append of a completion
  whose check was made earlier.\<close>

inductive writer_call :: "'s event_store \<Rightarrow> recorder \<Rightarrow> 's \<Rightarrow> recorder \<Rightarrow> 's \<Rightarrow> bool" for ops r s where
  call_recording: "recording_op ops at f build \<Longrightarrow> f r s = (res, r', s') \<Longrightarrow> writer_call ops r s r' s'"
| call_start: "record_workflow_started_with_attributes ops at start attrs sch r s = (res, r', s')
    \<Longrightarrow> writer_call ops r s r' s'"
| call_attributes: "record_search_attributes_updated ops at attrs sch r s = (res, r', s')
    \<Longrightarrow> writer_call ops r s r' s'"
| call_cancel_and_settle: "record_activity_cancelled_and_settle_outbox show_uuid ops at ordinal attempt r s = (res, r', s')
    \<Longrightarrow> writer_call ops r s r' s'"
| call_dispatch: "record_fan_out_dispatch show_uuid ops at items r s = (res, r', s') \<Longrightarrow> writer_call ops r s r' s'"
| call_rearm: "rearm_outbox_pending show_uuid ops at items r s = (res, r', s') \<Longrightarrow> writer_call ops r s r' s'"
| call_completion: "record_fan_out_completion ops at ordinal run outcome r s = (done, r', s')
    \<Longrightarrow> writer_call ops r s r' s'"
| part_append: "recording_op ops at f build \<Longrightarrow> append_with ops at (build (rc_workflow_id r)) r s = (res, r', s')
    \<Longrightarrow> writer_call ops r s r' s'"
| part_completion: "append_with ops at (completion_event a outcome) r s = (res, r', s') \<Longrightarrow> writer_call ops r s r' s'"
| part_settle: "settle_terminal_outbox_rows_nonfatal ops r s = (res, r', s') \<Longrightarrow> writer_call ops r s r' s'"
| part_settle_row: "es_settle_outbox_row_cancelled ops key s = (settled, s') \<Longrightarrow> writer_call ops r s r s'"
| part_project: "es_record_visibility ops v s = (projected, s') \<Longrightarrow> writer_call ops r s r s'"

text \<open>\<^verbatim>\<open>resume_at\<close>, with \<^verbatim>\<open>with_run_id\<close> or \<^verbatim>\<open>with_visibility\<close>, at any head.\<close>

inductive opened :: "recorder \<Rightarrow> bool" where
  "opened (recorder_resume_at w head)"
| "opened r \<Longrightarrow> opened (recorder_with_run_id r run)"
| "opened r \<Longrightarrow> opened (recorder_with_visibility r run)"

inductive writer_step :: "'s event_store \<Rightarrow> recorder list \<times> 's \<Rightarrow> recorder list \<times> 's \<Rightarrow> bool" for ops where
  open_writer: "opened r \<Longrightarrow> writer_step ops (rs, s) (rs @ [r], s)"
| call_writer: "i < length rs \<Longrightarrow> writer_call ops (rs ! i) s r' s' \<Longrightarrow> writer_step ops (rs, s) (rs[i := r'], s')"

inductive_simps writer_step_simps: "writer_step ops (rs, s) (rs', s')"

definition well_stamped :: "(workflow_id \<Rightarrow> history) \<Rightarrow> bool" where
  "well_stamped h \<longleftrightarrow> (\<forall>w. \<forall>e \<in> set (h w). workflow_id_of e = w)"

section \<open>Every call appends a stamped batch to its own history\<close>

lemma fan_out_events_stamped:
  "fan_out_events r at p items = Inr events \<Longrightarrow> \<forall>e \<in> set events. workflow_id_of e = rc_workflow_id r"
proof (induction items arbitrary: p events)
  case (Cons item items)
  then show ?case
    by (auto simp: bind_res_eq_Inr_iff workflow_id_of_def next_envelope_def envelope_after_def split: option.splits)
qed simp

text \<open>\<open>grown w h h'\<close>: \<open>h'\<close> is \<open>h\<close> with events of workflow \<open>w\<close> added at the end of its history.\<close>

definition grown :: "workflow_id \<Rightarrow> (workflow_id \<Rightarrow> history) \<Rightarrow> (workflow_id \<Rightarrow> history) \<Rightarrow> bool" where
  "grown w h h' \<longleftrightarrow> (\<exists>batch. (\<forall>e \<in> set batch. workflow_id_of e = w) \<and> h' = h(w := h w @ batch))"

lemma grown_same [simp]: "grown w h h"
  unfolding grown_def by (rule exI [of _ "[]"]) simp

lemma grown_batch: "(\<forall>e \<in> set batch. workflow_id_of e = w) \<Longrightarrow> grown w h (h(w := h w @ batch))"
  unfolding grown_def by blast

lemma grown_stamped: "grown w h h' \<Longrightarrow> well_stamped h \<Longrightarrow> well_stamped h'"
  by (auto simp: grown_def well_stamped_def split: if_splits)

lemma grown_prefix: "grown w h h' \<Longrightarrow> prefix (h v) (h' v)"
  by (auto simp: grown_def)

lemma completion_event_envelope [simp]: "envelope (completion_event a outcome env) = env"
  by (cases outcome) simp_all

context event_store_laws
begin

lemma append_with_grows:
  assumes "store_inv s" and build: "\<And>env. envelope (build env) = env"
    and "append_with ops at build r s = (res, r', s')"
  shows "store_inv s' \<and> grown (rc_workflow_id r) (hist s) (hist s') \<and> rc_workflow_id r' = rc_workflow_id r"
proof -
  consider (ok) "in_step hist r s" "current_head r \<noteq> - 1" | (stale) "\<not> in_step hist r s" | (full) "current_head r = - 1"
    by blast
  then show ?thesis
  proof cases
    case ok
    have "workflow_id_of (build (next_env r at)) = rc_workflow_id r"
      by (simp add: workflow_id_of_def build next_env_def)
    with append_with_in_step [where at = at and build = build, OF assms(1) ok build] assms(3) grown_batch [of "[build (next_env r at)]"] show ?thesis
      by auto
  next
    case stale
    from append_with_stale [OF assms(1) this, of at build] assms(1,3) show ?thesis by auto
  next
    case full
    with assms(1,3) show ?thesis by (simp add: append_with_def next_envelope_eq)
  qed
qed

lemma recording_op_grows:
  assumes "recording_op ops at f build" and "store_inv s" and "f r s = (res, r', s')"
  shows "store_inv s' \<and> grown (rc_workflow_id r) (hist s) (hist s')"
  using recording_op_cases [OF assms]
  by (auto intro!: grown_batch simp: workflow_id_of_def recording_op_envelope [OF assms(1)] next_env_def split: sum.splits)

lemma start_grows:
  assumes "store_inv s" and "record_workflow_started_with_attributes ops at start attrs sch r s = (res, r', s')"
  shows "store_inv s' \<and> grown (rc_workflow_id r) (hist s) (hist s')"
proof (cases "attrs = []")
  case True
  then have "record_workflow_started ops at start r s = (res, r', s')"
    using assms(2) by (simp add: record_workflow_started_with_attributes_def)
  from recording_op_grows [OF recording_op.intros(1) assms(1) this] show ?thesis .
next
  case False
  show ?thesis
  proof (cases "bind_res (validate_all sch attrs) (\<lambda>_. bind_res (next_envelope r at) (\<lambda>started.
      bind_res (envelope_after r started at) (\<lambda>updated. Inr (started, updated))))")
    case (Inl e)
    with assms False show ?thesis by (simp add: record_workflow_started_with_attributes_def)
  next
    case (Inr both)
    obtain env env' where both: "both = (env, env')" by fastforce
    let ?batch = "[WorkflowStarted env (wsr_workflow_type start) (wsr_input start) (wsr_run_id start)
        (wsr_parent_run_id start) (wsr_package_version start), SearchAttributesUpdated env' (rc_workflow_id r) attrs]"
    have stamped: "\<forall>e \<in> set ?batch. workflow_id_of e = rc_workflow_id r"
      using Inr both by (auto simp: bind_res_eq_Inr_iff next_envelope_def envelope_after_def workflow_id_of_def)
    obtain res1 r1 s1 where c: "commit (es_append ops (rc_workflow_id r) ?batch) (length ?batch) r s = (res1, r1, s1)"
      by (metis prod_cases3)
    with assms(2) False Inr both have "s' = s1"
      by (cases res1) (auto simp: record_workflow_started_with_attributes_def Let_def)
    with commit_append_cases [OF assms(1) refl c] show ?thesis
      by (cases res1) (simp_all add: grown_batch [OF stamped])
  qed
qed

lemma attributes_grows:
  assumes "store_inv s" and "record_search_attributes_updated ops at attrs sch r s = (res, r', s')"
  shows "store_inv s' \<and> grown (rc_workflow_id r) (hist s) (hist s')"
proof (cases "validate_all sch attrs")
  case (Inl e)
  with assms show ?thesis by (simp add: record_search_attributes_updated_def)
next
  case (Inr u)
  then have "recording_op ops at (record_search_attributes_updated ops at attrs sch) (\<lambda>w env. SearchAttributesUpdated env w attrs)"
    by (intro recording_op.intros) simp
  from recording_op_grows [OF this assms] show ?thesis .
qed

lemma cancel_and_settle_grows:
  assumes "store_inv s" and "record_activity_cancelled_and_settle_outbox show_uuid ops at ordinal attempt r s = (res, r', s')"
  shows "store_inv s' \<and> grown (rc_workflow_id r) (hist s) (hist s')"
proof -
  obtain res1 r1 s1 where 1: "record_activity_cancelled ops at (from_sequence_position ordinal) attempt r s = (res1, r1, s1)"
    by (metis prod_cases3)
  have "recording_op ops at (record_activity_cancelled ops at (from_sequence_position ordinal) attempt)
      (\<lambda>w env. ActivityCancelled env (from_sequence_position ordinal) attempt)" by (rule recording_op.intros)
  note first = recording_op_grows [OF this assms(1) 1]
  show ?thesis
  proof (cases res1)
    case (Inl e)
    with 1 assms(2) first show ?thesis by (simp add: record_activity_cancelled_and_settle_outbox_def)
  next
    case (Inr u)
    then obtain settled where "es_settle_outbox_row_cancelled ops (dispatch_key_for show_uuid (rc_workflow_id r1) ordinal) s1
        = (settled, s')"
      using 1 assms(2) by (auto simp: record_activity_cancelled_and_settle_outbox_def Let_def split: prod.splits)
    with settle_row_frame first show ?thesis by metis
  qed
qed

lemma dispatch_grows:
  assumes "store_inv s" and "record_fan_out_dispatch show_uuid ops at items r s = (res, r', s')"
  shows "store_inv s' \<and> grown (rc_workflow_id r) (hist s) (hist s')"
proof (cases "items = []")
  case True
  with assms show ?thesis by (simp add: record_fan_out_dispatch_def)
next
  case False
  from dispatch_cases [OF assms(1) False assms(2)] show ?thesis
    by (cases res) (auto intro!: grown_batch dest: fan_out_events_stamped)
qed

lemma completion_grows:
  assumes "store_inv s" and "record_fan_out_completion ops at ordinal run outcome r s = (res, r', s')"
  shows "store_inv s' \<and> grown (rc_workflow_id r) (hist s) (hist s')"
proof -
  obtain res1 r1 s1 where 1: "append_with ops at (completion_event (from_sequence_position ordinal) outcome) r s = (res1, r1, s1)"
    by (metis prod_cases3)
  from assms 1 have "s' = s \<or> s' = s1"
    by (cases res1) (auto simp: record_fan_out_completion_def read_back split: if_splits)
  with append_with_grows [OF assms(1) completion_event_envelope 1] assms(1) show ?thesis by auto
qed

lemma rearm_pending_frame:
  assumes "store_inv s" and "rearm_outbox_pending show_uuid ops at items r s = (res, r', s')"
  shows "store_inv s' \<and> hist s' = hist s"
proof (cases "es_rearm_outbox_pending ops (map (fan_out_row show_uuid r at) items) s")
  case (Pair res1 s1)
  with rearm_frame [OF assms(1) this] assms show ?thesis
    by (auto simp: rearm_outbox_pending_def split: if_splits)
qed

lemma settle_terminal_frame:
  assumes "store_inv s" and "settle_terminal_outbox_rows_nonfatal ops r s = (res, r', s')"
  shows "store_inv s' \<and> hist s' = hist s"
proof (cases "es_settle_workflow_outbox_rows_cancelled ops (rc_workflow_id r) s")
  case (Pair keys s1)
  with settle_rows_frame [OF assms(1) this] assms(2) show ?thesis
    by (simp add: settle_terminal_outbox_rows_nonfatal_def)
qed

text \<open>Whatever a recorder calls, the store keeps its invariant and the recorder's own history grows at its
  end, by events stamped with the recorder's workflow; no other history changes.\<close>

lemma writer_call_grows:
  assumes "writer_call ops r s r' s'" and "store_inv s"
  shows "store_inv s' \<and> grown (rc_workflow_id r) (hist s) (hist s')"
  using assms(1)
proof cases
  case (part_append at f build res)
  then have "envelope (build (rc_workflow_id r) env) = env" for env by (simp add: recording_op_envelope)
  from append_with_grows [OF assms(2) this part_append(2)] show ?thesis by blast
next
  case (part_completion at a outcome res)
  have "envelope (completion_event a outcome env) = env" for env by simp
  from append_with_grows [OF assms(2) this part_completion] show ?thesis by blast
qed (use assms(2) recording_op_grows start_grows attributes_grows cancel_and_settle_grows dispatch_grows
    completion_grows rearm_pending_frame settle_terminal_frame settle_row_frame visibility_frame in \<open>metis grown_same\<close>)+

lemma writer_step_safe:
  assumes "writer_step ops (rs, s) (rs', s')" and "store_inv s" and "well_stamped (hist s)"
  shows "store_inv s' \<and> well_stamped (hist s') \<and> prefix (hist s w) (hist s' w)"
proof -
  consider "s' = s" | i r' where "writer_call ops (rs ! i) s r' s'"
    using assms(1) by (auto simp: writer_step_simps)
  then show ?thesis
  proof cases
    case 2
    from writer_call_grows [OF this assms(2)] assms(3) show ?thesis
      by (blast intro: grown_stamped grown_prefix)
  qed (use assms(2,3) in simp)
qed

lemma writer_steps_safe:
  assumes "(writer_step ops)\<^sup>*\<^sup>* (rs, s) (rs', s')" and "store_inv s" and "well_stamped (hist s)"
  shows "store_inv s' \<and> well_stamped (hist s') \<and> prefix (hist s w) (hist s' w)"
  using assms(1)
proof (induction rule: rtranclp_induct2)
  case refl
  then show ?case using assms(2,3) by simp
next
  case (step rs1 s1 rs2 s2)
  with writer_step_safe [OF step.hyps(2), of w] show ?case by (auto intro: prefix_order.trans)
qed

end

section \<open>Interleaved writers\<close>

text \<open>C10: however many recorders write to one database, at whatever heads they were opened, whatever they
  record (fan-out dispatches, starts with attributes and cancellations with their settling included) and
  in whatever order their calls interleave, every history stays numbered 1, 2, 3, \<open>\<dots>\<close>, holds only events
  stamped with its own workflow, and only ever grows at its end.\<close>

theorem interleaved_writers_safe:
  assumes "(writer_step libsql_store)\<^sup>*\<^sup>* (rs, s) (rs', s')" and "ls_inv s" and "well_stamped (ls_hist s)"
  shows "contiguous (ls_hist s' w) \<and> well_stamped (ls_hist s') \<and> prefix (ls_hist s w) (ls_hist s' w) \<and> ls_inv s'"
  using libsql.writer_steps_safe [OF assms, of w] libsql.contiguous_hist by blast

text \<open>The same over the in-memory store.\<close>

theorem interleaved_memory_writers_safe:
  assumes "(writer_step memory_store)\<^sup>*\<^sup>* (rs, s) (rs', s')" and "ms_inv s" and "well_stamped (ms_hist s)"
  shows "contiguous (ms_hist s' w) \<and> well_stamped (ms_hist s') \<and> prefix (ms_hist s w) (ms_hist s' w) \<and> ms_inv s'"
  using memory.writer_steps_safe [OF assms, of w] memory.contiguous_hist by blast

text \<open>Two recorders opened at the same head: the first dispatches a fan-out, the second, now stale, is
  refused, and the first records a signal.\<close>

theorem interleaved_writers_safe_witness:
  "\<exists>rs' s'. (writer_step libsql_store)\<^sup>*\<^sup>* ([], s_database [s_started 1]) (rs', s')
     \<and> length (ls_hist s' s_workflow) = 6 \<and> contiguous (ls_hist s' s_workflow)
     \<and> prefix [s_started 1] (ls_hist s' s_workflow) \<and> well_stamped (ls_hist s')"
proof -
  let ?r = "s_recorder [s_started 1]" and ?s = "s_database [s_started 1]"
  let ?signal = "record_signal_received libsql_store 9 ''go'' s_payload"
  have o: "opened ?r" unfolding s_recorder_def recorder_with_run_id_def [symmetric] by (intro opened.intros)
  obtain r1 s1 where d: "record_fan_out_dispatch decimal_uuid libsql_store 9 [s_item 0, s_item 1] ?r ?s = (Inr (), r1, s1)"
    and inv: "ls_inv s1" and step: "in_step ls_hist r1 s1" and head: "current_head r1 = 5"
    and w: "rc_workflow_id r1 = s_workflow" and len: "length (ls_hist s1 s_workflow) = 5"
    by (rule s_dispatched)
  have signal: "recording_op libsql_store 9 ?signal (\<lambda>w env. SignalReceived env ''go'' s_payload)"
    by (rule recording_op.intros)
  have "\<not> in_step ls_hist ?r s1" using len by (simp add: in_step_def s_recorder_simps from_head_def)
  from libsql.op_stale [OF signal inv this] obtain e where refused: "?signal ?r s1 = (Inl e, ?r, s1)" by blast
  from libsql.op_appends [OF signal inv step] head w len obtain r2 s2 where
    again: "?signal r1 s1 = (Inr (), r2, s2)" and len2: "length (ls_hist s2 s_workflow) = 6"
    by (auto dest: fun_cong [where x = s_workflow])
  have run: "(writer_step libsql_store)\<^sup>*\<^sup>* ([], ?s) ([r2, ?r], s2)"
  proof -
    note open_step = writer_step.open_writer [OF o, of libsql_store]
    have 1: "writer_step libsql_store ([], ?s) ([?r], ?s)" using open_step [of "[]" ?s] by simp
    have 2: "writer_step libsql_store ([?r], ?s) ([?r, ?r], ?s)" using open_step [of "[?r]" ?s] by simp
    have 3: "writer_step libsql_store ([?r, ?r], ?s) ([r1, ?r], s1)"
      using writer_step.call_writer [of 0 "[?r, ?r]" libsql_store ?s r1 s1] writer_call.call_dispatch [OF d] by simp
    have 4: "writer_step libsql_store ([r1, ?r], s1) ([r1, ?r], s1)"
      using writer_step.call_writer [of 1 "[r1, ?r]" libsql_store s1 ?r s1] writer_call.call_recording [OF signal refused] by simp
    have 5: "writer_step libsql_store ([r1, ?r], s1) ([r2, ?r], s2)"
      using writer_step.call_writer [of 0 "[r1, ?r]" libsql_store s1 r2 s2] writer_call.call_recording [OF signal again] by simp
    note then_step = rtranclp.rtrancl_into_rtrancl [where r = "writer_step libsql_store"]
    show ?thesis by (rule then_step [OF then_step [OF then_step [OF then_step [OF then_step [OF rtranclp.rtrancl_refl 1] 2] 3] 4] 5])
  qed
  have "contiguous [s_started 1]" "well_stamped (ls_hist ?s)"
    by (simp_all add: s_database_rows well_stamped_def workflow_id_of_def seq_def)
  from interleaved_writers_safe [OF run s_database_inv [OF this(1)] this(2), of s_workflow]
  show ?thesis by (intro exI conjI) (rule run, simp_all add: s_database_rows len2)
qed

end
