(* ===== verification/Spec2Isabelle.thy ===== *)
theory Spec2Isabelle
  imports Replay Executor Namespace_Registry Schedule_Evaluator Terminal Outbox_Dispatcher Outbox_Reconciler Workflow_Timers Writers
begin

text \<open>
  \<^bold>\<open>Aion: durable workflow execution.\<close>

  Aion runs workflows as processes whose every world-touching call is recorded as an event of an append-only
  history.  A crashed or restarted workflow is executed again from the beginning: calls whose outcome is recorded are
  answered from the history, the first call that is not is executed live and recorded.  This library models the
  part of the repository that makes this sound: the event model, the durability layer (cursor, resolver, recorder,
  replay driver, live hand-off, fan-out), the stores with their outbox, the engine's lifecycle operations (start,
  pause, resume, reopen, terminate, continue-as-new, timeout), timers and their recovery, signals, the natives a
  workflow calls for signals, sleeps and deadlines, schedules, and the part of the server that hands outbox rows to workers.

  \<^bold>\<open>How the parts interact.\<close> A recorder is the single writer of a run: it tracks the sequence head and appends with an
  expected head, so that the store detects a writer that is out of step.  A cursor reads the history; the resolver
  asks it for each command; the replay driver iterates the resolver; the executor hands an unanswered command to
  the live executor and records its outcome.  Fan-out writes events and outbox rows in one transaction; a
  dispatcher claims the rows under the quota of their namespace, sends each to a connected worker and writes its outcome; a
  reconciler returns rows whose claim has gone stale.  The lifecycle operations lock the recorder of a registered run, read the history, check
  it, append, and update registry, visibility, hold set and timer wheel.  A native called by the workflow process builds
  its context from the history, answers from it what is recorded, and otherwise acts through signal router or timer service
  and records.

  \<^bold>\<open>Theories and the files under \<^verbatim>\<open>crates/\<close> they model.\<close>
  \<^item> \<open>Prelude\<close>: machine types, results, the Rust library functions used, list and word lemmas. \<open>Samples\<close>: the values of
    the witnesses.
  \<^item> \<open>Core_Event\<close>, \<open>Core_Status\<close> (\<^verbatim>\<open>aion-core\<close>): identifiers, events, errors; status, lease terminal, run segment, attribute
    and summary projections.
  \<^item> \<open>Durability_Types\<close>, \<open>Correlation\<close>, \<open>Cursor\<close>, \<open>Resolver\<close>, \<open>Replay\<close>, \<open>Executor\<close>, \<open>Recorder\<close>, \<open>Fan_Out\<close> (\<^verbatim>\<open>aion/src/durability\<close>);
    \<open>Writers\<close>: the interleaving of the calls of any number of recorders.
  \<^item> \<open>Store\<close>, \<open>Run_Chain\<close>, \<open>Visibility\<close>, \<open>Outbox\<close>, \<open>Memory_Store\<close>, \<open>Namespace_Registry\<close> (\<^verbatim>\<open>aion-store\<close>): the store interface as a record
    of operations with the locale \<open>event_store_laws\<close> of what the engine relies on, and the in-memory implementation.
  \<^item> \<open>Libsql_Store\<close>, \<open>Libsql_Read\<close> (\<^verbatim>\<open>aion-store-libsql\<close>): append, outbox, timers, listings.  Both stores are
    interpretations of the locale, so what is proved about the recorder and the lifecycle holds over either.
  \<^item> \<open>Reopen\<close>, \<open>Lifecycle\<close>, \<open>Start\<close>, \<open>Terminal\<close> (\<^verbatim>\<open>aion/src/lifecycle\<close>) with \<open>Registry_Table\<close> (\<^verbatim>\<open>aion/src/registry\<close>): the record
    \<open>engine\<close> holds the store, the registry, the recorder and completion cells handles share, the hold set, the wheel
    and what was asked of the runtime.
  \<^item> \<open>Timers\<close>, \<open>Timer_Recovery\<close> (\<^verbatim>\<open>aion/src/time\<close>, \<^verbatim>\<open>runtime/nif_timer_bridge.rs\<close>): deadlines, the timer service, the wheel and its
    retries, what a restart re-arms; the locale \<open>timer_store_laws\<close> extends the store's.
  \<^item> \<open>Signals\<close> (\<^verbatim>\<open>aion/src/signal\<close>, \<^verbatim>\<open>engine/delegated.rs\<close>): routing, deferral and sending of signals, resuming a process.
  \<^item> \<open>Nif_Context\<close>, \<open>Workflow_Signals\<close>, \<open>Workflow_Timers\<close> (\<^verbatim>\<open>aion/src/runtime/nif_context.rs\<close>, \<^verbatim>\<open>nif_signal.rs\<close>, \<^verbatim>\<open>nif_timer.rs\<close>,
    \<^verbatim>\<open>nif_timeout.rs\<close>): the context of a call, receive and send, sleep and named timers, deadline scopes.
  \<^item> \<open>Schedule\<close>, \<open>Schedule_Evaluator\<close> (\<^verbatim>\<open>aion/src/schedule\<close>): triggers, policies, projection and the evaluator.
  \<^item> \<open>Worker_Registry\<close>, \<open>Backpressure\<close>, \<open>Outbox_Dispatcher\<close>, \<open>Outbox_Reconciler\<close> (\<^verbatim>\<open>aion-server/src/worker\<close>, \<^verbatim>\<open>namespace/minter.rs\<close>):
    connected workers and their admission, the claim under quotas, dispatch with its retries, stale claims.

  \<^bold>\<open>What the lemmas show.\<close> Replay is faithful: an activity executed live replays to the same resolution, a completed
  activity is never run again, an ended run is never continued, the visible clock shows recorded instants only; a receive, a sleep and a deadline scope
  answer on replay as they did live, the k-th receive of a name takes its k-th arrival, a recorded send is not repeated.
  Histories stay contiguous and correctly attributed however the calls of recorders interleave, the batch ones included, and no two terminals of a history lie in
  one lease, however terminal transitions interleave.  Outbox rows are dispatched by one claimant, written
  with their events or not at all, completed once, and held while a workflow is paused; the dispatcher stays within the quota of
  a namespace and the retry budget of a row (each re-arm by another task grants one more attempt, and a row stays claimed when
  the write of its outcome fails), sends a task to one worker of the right pool and pin; worker lookups are exact; the
  reconciler cancels the rows of ended workflows and re-arms the others.  Lifecycle operations are specified on
  every branch and under interference at each await; a reopen appends its marker and its timer restarts one by one, so a
  foreign event in between leaves it partly done, as stated there.  A signal is recorded before it wakes.  A timer is settled
  once as long as no run of its workflow is started or reopened between a liveness check and the append that follows it
  (another theorem shows what happens otherwise), a wake follows its record, a
  restart re-arms what is outstanding, an interrupted teardown of a timed-out run keeps what it needs to be resumed.
  Schedules obey their overlap and catch-up policies, the catch-up loops end, and recovery arms each active schedule once.
  Some theorems show where the code does not do what its documentation says; the code is modelled as it is.

  \<^bold>\<open>Concurrency.\<close> A section under a lock, a store transaction and an operation under one mutex is one step.  Between two of
  them other tasks run: an operation takes an argument \<open>interfere\<close> (or \<open>meanwhile\<close>), an arbitrary function applied at
  each await point; invariants over arbitrary interleavings are proved by rule induction over step relations.  In \<open>Writers\<close>
  a step is a whole operation of a recorder or one of the store calls it consists of; in \<open>Terminal\<close>, where the recorder is
  under its lock, a whole recording is a step.  Where a model runs together what the source does in several steps, its theory says so.

  \<^bold>\<open>Numbers and bounds.\<close> \<^verbatim>\<open>u64\<close>, \<^verbatim>\<open>u32\<close> and \<^verbatim>\<open>u8\<close> are words of their width, with the checked and saturating operations the code
  calls; \<^verbatim>\<open>usize\<close> is a natural number; instants are integers (only order and checked addition are used); a uuid
  is a 128-bit word, its text and parser are arguments with the round trip as a hypothesis where needed.
  A sequence number above \<^verbatim>\<open>i64::MAX\<close>, which libSQL refuses, is outside the model.  The catch-up loops are
  partial functions proved to return.  Partial too are the waits of the code for other tasks: the two dispatch loops that wait for a worker to
  register have the value \<open>None\<close> when none ever does (a dispatch is shown to return when an eligible worker is connected and its channel open), the
  two polls for a run being registered return as long as the clock advances while they sleep (shown for the one of sending
  a signal).  The wheel makes at most six attempts at a deadline, as the code does; no
  fuel is used elsewhere.

  \<^bold>\<open>Not modelled.\<close> The Haematite store (an adapter to an embedded engine that is not in the repository); the process
  runtime and the decoding of terms at its boundary (bound to an external virtual machine; spawning and cancelling
  a process are arguments); queries and the publication of events; the authoring language, command line, client library, package
  format and protocol code, the worker, and of the server all but what is named above; database failures (except those of the
  dispatcher's writes of an outcome), lock poisoning, log output and the text of messages (an
  error carries the data its message is formatted from).
\<close>

end
